(* ===== verification/Prelude.thy ===== *)
theory Prelude
  imports Main "HOL-Library.Word"
begin

text \<open>
  Shared vocabulary of the development: the Rust integer types as words, byte strings and
  their little-endian encodings, checked and saturating arithmetic, and the slice
  operations of the standard library the sources use (\<open>split\<close>, \<open>windows().any(..)\<close>,
  ASCII predicates), with the lemmas the components share.
\<close>

unbundle bit_operations_syntax

section \<open>Machine types\<close>

type_synonym u8 = "8 word"
type_synonym u16 = "16 word"
type_synonym u32 = "32 word"
type_synonym u64 = "64 word"
type_synonym bytes = "u8 list"

named_theorems ascii_simps "evaluation of byte string literals"
named_theorems le_simps "little-endian encodings"
named_theorems arith_ops "definitions of the checked and saturating operations"

lemma unat_u8_u64 [simp]: "unat (ucast (d :: u8) :: u64) = unat d"
  using unsigned_less [of d, where ?'a = nat] by (simp add: unsigned_ucast_eq take_bit_nat_eq_self)

section \<open>Checked and saturating arithmetic\<close>

definition checked_add :: "'a::len word \<Rightarrow> 'a word \<Rightarrow> 'a word option" where
  [arith_ops]: "checked_add a b = (if unat a + unat b < 2 ^ LENGTH('a) then Some (a + b) else None)"

definition checked_sub :: "'a::len word \<Rightarrow> 'a word \<Rightarrow> 'a word option" where
  [arith_ops]: "checked_sub a b = (if b \<le> a then Some (a - b) else None)"

definition checked_mul :: "'a::len word \<Rightarrow> 'a word \<Rightarrow> 'a word option" where
  [arith_ops]: "checked_mul a b = (if unat a * unat b < 2 ^ LENGTH('a) then Some (a * b) else None)"

definition saturating_add :: "'a::len word \<Rightarrow> 'a word \<Rightarrow> 'a word" where
  [arith_ops]: "saturating_add a b = (if unat a + unat b < 2 ^ LENGTH('a) then a + b else - 1)"

lemma unat_add_no_overflow:
  "unat (a::'a::len word) + unat b < 2 ^ LENGTH('a) \<Longrightarrow> unat (a + b) = unat a + unat b"
  by (simp add: unat_word_ariths)

lemma checked_add_SomeD: "checked_add a b = Some c \<Longrightarrow> unat c = unat a + unat b"
  by (auto simp: checked_add_def unat_add_no_overflow split: if_splits)

lemma checked_add_eq_Some:
  "checked_add a b = Some c \<longleftrightarrow> unat (a::'a::len word) + unat b < 2 ^ LENGTH('a) \<and> c = a + b"
  by (auto simp: checked_add_def)

lemma checked_sub_SomeD: "checked_sub a b = Some c \<Longrightarrow> unat c = unat a - unat b \<and> unat b \<le> unat a"
  by (auto simp: checked_sub_def word_le_nat_alt unat_sub split: if_splits)

lemma checked_mul_SomeD: "checked_mul a b = Some c \<Longrightarrow> unat c = unat a * unat b"
  by (auto simp: checked_mul_def unat_word_ariths split: if_splits)

lemma unat_saturating_add:
  "unat (saturating_add a (b::'a::len word)) = min (unat a + unat b) (2 ^ LENGTH('a) - 1)"
  by (auto simp: saturating_add_def unat_add_no_overflow unsigned_minus_1_eq_mask mask_eq_exp_minus_1)

lemma saturating_add_ge: "a \<le> saturating_add a (b::'a::len word)"
proof -
  have "unat a < 2 ^ LENGTH('a)" by (rule unsigned_less)
  then have "unat a \<le> min (unat a + unat b) (2 ^ LENGTH('a) - 1)" by linarith
  then show ?thesis by (simp only: word_le_nat_alt unat_saturating_add)
qed

text \<open>Evaluation on integers rather than on unary naturals.\<close>

lemma unat_add_less_int: "unat a + unat b < n \<longleftrightarrow> uint a + uint b < int n"
  by (metis of_nat_add of_nat_less_iff of_nat_unat)

lemma unat_mul_less_int: "unat a * unat b < n \<longleftrightarrow> uint a * uint b < int n"
  by (metis of_nat_less_iff of_nat_mult of_nat_unat)

lemma checked_add_code [code]:
  "checked_add a b = (if uint a + uint b < 2 ^ LENGTH('a) then Some (a + (b :: 'a::len word)) else None)"
  by (simp add: checked_add_def unat_add_less_int)

lemma checked_mul_code [code]:
  "checked_mul a b = (if uint a * uint b < 2 ^ LENGTH('a) then Some (a * (b :: 'a::len word)) else None)"
  by (simp add: checked_mul_def unat_mul_less_int)

lemma saturating_add_code [code]:
  "saturating_add a b = (if uint a + uint b < 2 ^ LENGTH('a) then a + (b :: 'a::len word) else - 1)"
  by (simp add: saturating_add_def unat_add_less_int)

text \<open>An early \<open>return None\<close> guarded by the negated condition.\<close>

definition require :: "bool \<Rightarrow> unit option" where
  "require c = (if c then Some () else None)"

lemma require_bind [simp]: "Option.bind (require c) f = (if c then f () else None)"
  by (simp add: require_def)

section \<open>Byte strings\<close>

definition ascii :: "string \<Rightarrow> bytes" where
  "ascii s = map of_char s"

lemma ascii_Nil [simp]: "ascii [] = []"
  by (simp add: ascii_def)

lemma ascii_Cons [simp]: "ascii (c # s) = of_char c # ascii s"
  by (simp add: ascii_def)

lemma length_ascii [simp]: "length (ascii s) = length s"
  by (simp add: ascii_def)

definition is_ascii_digit :: "u8 \<Rightarrow> bool" where
  "is_ascii_digit b \<longleftrightarrow> 48 \<le> b \<and> b \<le> 57"

text \<open>\<open>u8::is_ascii_whitespace\<close>: space, tab, line feed, form feed, carriage return.\<close>

definition is_ascii_whitespace :: "u8 \<Rightarrow> bool" where
  "is_ascii_whitespace b \<longleftrightarrow> b \<in> {32, 9, 10, 12, 13}"

definition to_ascii_lowercase :: "u8 \<Rightarrow> u8" where
  "to_ascii_lowercase b = (if 65 \<le> b \<and> b \<le> 90 then b + 32 else b)"

definition eq_ignore_ascii_case :: "u8 \<Rightarrow> u8 \<Rightarrow> bool" where
  "eq_ignore_ascii_case a b \<longleftrightarrow> to_ascii_lowercase a = to_ascii_lowercase b"

section \<open>Slices\<close>

text \<open>\<open>slice.split(pred)\<close>: always at least one piece, separators dropped.\<close>

fun split_on :: "('a \<Rightarrow> bool) \<Rightarrow> 'a list \<Rightarrow> 'a list list" where
  "split_on P [] = [[]]"
| "split_on P (x # xs) =
     (if P x then [] # split_on P xs
      else (case split_on P xs of [] \<Rightarrow> [[x]] | p # ps \<Rightarrow> (x # p) # ps))"

lemma split_on_nonempty [simp]: "split_on P xs \<noteq> []"
  by (induction xs) (auto split: list.splits)

lemma split_on_no_sep: "\<forall>x \<in> set xs. \<not> P x \<Longrightarrow> split_on P xs = [xs]"
  by (induction xs) auto

lemma split_on_absent: "c \<notin> set xs \<Longrightarrow> split_on (\<lambda>b. b = c) xs = [xs]"
  by (rule split_on_no_sep) auto

lemma split_on_piece_no_sep: "p \<in> set (split_on P xs) \<Longrightarrow> x \<in> set p \<Longrightarrow> \<not> P x"
proof (induction xs arbitrary: p x)
  case (Cons y ys)
  obtain q qs where q: "split_on P ys = q # qs"
    by (cases "split_on P ys") auto
  from q Cons.prems(1) consider "p = []" | "p = y # q" "\<not> P y" | "p \<in> set (q # qs)"
    by (auto split: if_splits)
  then show ?case
  proof cases
    case 2
    have "z \<in> set q \<Longrightarrow> \<not> P z" for z
      using Cons.IH [of q z] q by simp
    with 2 Cons.prems(2) show ?thesis by auto
  next
    case 3
    with Cons.IH [of p x] q Cons.prems(2) show ?thesis by simp
  qed (use Cons.prems(2) in simp)
qed simp

lemma split_on_append_sep:
  "P c \<Longrightarrow> split_on P (xs @ c # ys) = split_on P xs @ split_on P ys"
  by (induction xs) (auto split: list.splits simp: Cons_eq_append_conv)

lemma hd_split_on: "hd (split_on P xs) = takeWhile (\<lambda>x. \<not> P x) xs"
proof (induction xs)
  case (Cons y ys)
  then show ?case by (cases "split_on P ys") auto
qed simp

text \<open>\<open>hay.windows(needle.len()).any(|w| w == needle)\<close> for a non-empty needle.\<close>

fun contains :: "'a list \<Rightarrow> 'a list \<Rightarrow> bool" where
  "contains [] needle = (needle = [])"
| "contains (x # xs) needle = (take (length needle) (x # xs) = needle \<or> contains xs needle)"

lemma contains_iff: "contains hay needle \<longleftrightarrow> (\<exists>pre post. hay = pre @ needle @ post)"
proof (induction hay)
  case (Cons x xs)
  show ?case
  proof
    assume "contains (x # xs) needle"
    then consider "take (length needle) (x # xs) = needle" | "contains xs needle"
      by auto
    then show "\<exists>pre post. x # xs = pre @ needle @ post"
    proof cases
      case 1
      then have "x # xs = [] @ needle @ drop (length needle) (x # xs)"
        by (metis append_Nil append_take_drop_id)
      then show ?thesis by blast
    next
      case 2
      with Cons.IH show ?thesis by (metis append_Cons)
    qed
  next
    assume "\<exists>pre post. x # xs = pre @ needle @ post"
    then obtain pre post where eq: "x # xs = pre @ needle @ post" by blast
    show "contains (x # xs) needle"
    proof (cases pre)
      case Nil
      with eq have "take (length needle) (x # xs) = needle" by simp
      then show ?thesis by simp
    next
      case (Cons p pre')
      with eq Cons.IH show ?thesis by auto
    qed
  qed
qed auto

lemma contains_append_left: "contains ys n \<Longrightarrow> contains (xs @ ys) n"
  unfolding contains_iff by (metis append.assoc)

lemma contains_append_right: "contains xs n \<Longrightarrow> contains (xs @ ys) n"
  unfolding contains_iff by (metis append.assoc)

lemma contains_length: "contains hay needle \<Longrightarrow> length needle \<le> length hay"
  by (auto simp: contains_iff)

definition strip_suffix :: "'a list \<Rightarrow> 'a list \<Rightarrow> 'a list option" where
  "strip_suffix suf xs =
     (if length suf \<le> length xs \<and> drop (length xs - length suf) xs = suf
      then Some (take (length xs - length suf) xs) else None)"

lemma strip_suffix_append [simp]: "strip_suffix suf (xs @ suf) = Some xs"
  by (simp add: strip_suffix_def)

lemma strip_suffix_SomeD: "strip_suffix suf xs = Some ys \<Longrightarrow> xs = ys @ suf"
  by (metis append_take_drop_id option.distinct(1) option.inject strip_suffix_def)

lemma find_SomeD: "List.find P xs = Some x \<Longrightarrow> x \<in> set xs \<and> P x"
  by (auto simp: find_Some_iff)

section \<open>Array access\<close>

text \<open>Rust indexing panics out of range; a panic is \<open>None\<close>.\<close>

definition arr_get :: "'a list \<Rightarrow> nat \<Rightarrow> 'a option" where
  "arr_get xs i = (if i < length xs then Some (xs ! i) else None)"

definition arr_set :: "'a list \<Rightarrow> nat \<Rightarrow> 'a \<Rightarrow> 'a list option" where
  "arr_set xs i v = (if i < length xs then Some (xs[i := v]) else None)"

lemma arr_get_eq [simp]: "i < length xs \<Longrightarrow> arr_get xs i = Some (xs ! i)"
  by (simp add: arr_get_def)

lemma arr_set_eq [simp]: "i < length xs \<Longrightarrow> arr_set xs i v = Some (xs[i := v])"
  by (simp add: arr_set_def)

lemma map_update_same:
  assumes "\<And>x. f (g x) = f x"
  shows "map f (xs[k := g (xs ! k)]) = map f xs"
proof (cases "k < length xs")
  case True
  then show ?thesis by (intro nth_equalityI) (auto simp: nth_list_update assms)
qed (simp add: list_update_beyond)

lemma length_filter_update:
  "i < length xs \<Longrightarrow> length (filter P (xs[i := v])) + (if P (xs ! i) then 1 else 0) =
   length (filter P xs) + (if P v then 1 else 0)"
proof (induction xs arbitrary: i)
  case (Cons x xs)
  then show ?case by (cases i) auto
qed simp

lemma replicate_numeral_Cons: "replicate (numeral k) x = x # replicate (pred_numeral k) x"
  by (simp add: numeral_eq_Suc)

lemma set_update_only_slot:
  assumes "i < length xs" and "\<And>j. j < length xs \<Longrightarrow> j \<noteq> i \<Longrightarrow> xs ! j \<noteq> xs ! i"
  shows "set (xs[i := v]) = insert v (set xs - {xs ! i})"
proof -
  have "xs ! i \<notin> set (take i xs)" "xs ! i \<notin> set (drop (Suc i) xs)"
    using assms by (fastforce simp: in_set_conv_nth)+
  moreover have "set xs = set (take i xs) \<union> {xs ! i} \<union> set (drop (Suc i) xs)"
    using assms(1) by (subst id_take_nth_drop [of i xs]) auto
  ultimately show ?thesis using assms(1) by (auto simp: upd_conv_take_nth_drop)
qed

section \<open>Little-endian encodings\<close>

fun to_le :: "nat \<Rightarrow> 'a::len word \<Rightarrow> bytes" where
  "to_le 0 w = []"
| "to_le (Suc n) w = ucast w # to_le n (drop_bit 8 w)"

fun from_le :: "bytes \<Rightarrow> 'a::len word" where
  "from_le [] = 0"
| "from_le (b # bs) = ucast b OR push_bit 8 (from_le bs)"

lemma to_le_numeral: "to_le (numeral k) w = ucast w # to_le (pred_numeral k) (drop_bit 8 w)"
  by (simp add: numeral_eq_Suc)

lemma length_to_le [simp]: "length (to_le n w) = n"
  by (induction n arbitrary: w) auto

lemma bit_from_le:
  "bit (from_le bs :: 'a::len word) i \<longleftrightarrow>
     i < LENGTH('a) \<and> i div 8 < length bs \<and> bit (bs ! (i div 8)) (i mod 8)"
proof (induction bs arbitrary: i)
  case (Cons b bs)
  show ?case
  proof (cases "i < 8")
    case True
    then show ?thesis by (auto simp: bit_or_iff bit_ucast_iff bit_push_bit_iff)
  next
    case False
    then have "i div 8 = Suc ((i - 8) div 8)" and "i mod 8 = (i - 8) mod 8"
      by (simp_all add: le_div_geq le_mod_geq)
    moreover have "\<not> bit (ucast b :: 'a word) i"
      using False bit_imp_le_length [of b i] by (auto simp: bit_ucast_iff)
    ultimately show ?thesis
      using False Cons [of "i - 8"] by (auto simp: bit_or_iff bit_push_bit_iff)
  qed
qed simp

lemma to_le_nth: "k < n \<Longrightarrow> to_le n w ! k = ucast (drop_bit (8 * k) w)"
  by (induction n arbitrary: k w) (auto simp: nth_Cons less_Suc_eq_0_disj drop_bit_drop_bit
      ac_simps split: nat.splits)

theorem from_le_to_le [le_simps]:
  "LENGTH('a) \<le> 8 * n \<Longrightarrow> from_le (to_le n w) = (w :: 'a::len word)"
proof (rule bit_word_eqI)
  fix i assume n: "LENGTH('a) \<le> 8 * n" and i: "i < LENGTH('a)"
  then have k: "i div 8 < n" by linarith
  have "bit (from_le (to_le n w) :: 'a word) i
      \<longleftrightarrow> bit (ucast (drop_bit (8 * (i div 8)) w) :: u8) (i mod 8)"
    using i k by (simp add: bit_from_le to_le_nth)
  also have "\<dots> \<longleftrightarrow> bit w (8 * (i div 8) + i mod 8)"
    by (simp add: bit_ucast_iff bit_drop_bit_eq)
  also have "8 * (i div 8) + i mod 8 = i" by simp
  finally show "bit (from_le (to_le n w) :: 'a word) i \<longleftrightarrow> bit w i" .
qed

theorem to_le_from_le [le_simps]:
  "8 * length bs \<le> LENGTH('a) \<Longrightarrow> to_le (length bs) (from_le bs :: 'a::len word) = bs"
proof (rule nth_equalityI)
  fix k assume len: "8 * length bs \<le> LENGTH('a)"
    and "k < length (to_le (length bs) (from_le bs :: 'a word))"
  then have k: "k < length bs" by simp
  show "to_le (length bs) (from_le bs :: 'a word) ! k = bs ! k"
  proof (rule bit_word_eqI)
    fix j :: nat assume j: "j < LENGTH(8)"
    with len k have "8 * k + j < LENGTH('a)" by simp
    with j k show "bit (to_le (length bs) (from_le bs :: 'a word) ! k) j \<longleftrightarrow> bit (bs ! k) j"
      by (simp add: to_le_nth bit_ucast_iff bit_drop_bit_eq bit_from_le)
  qed
qed simp

end
