(* ===== verification/Procmem.thy ===== *)
theory Procmem
  imports Prelude
begin

text \<open>
  \<^verbatim>\<open>runtime/src/procmem.rs\<close> and \<^verbatim>\<open>runtime/src/syscall/mem.rs\<close>: reads and writes of the process's own
  memory through \<^verbatim>\<open>process_vm_readv\<close> and \<^verbatim>\<open>process_vm_writev\<close>, and the decoder of the
  \<open>jmp [rip+2]\<close> trampolines. Memory is the partial function from addresses to readable bytes
  with the set of writable addresses. The two system calls transfer one range whole or fail,
  as their documentation says of a single range.
\<close>

section \<open>Memory\<close>

record vmem =
  vm_bytes :: "u64 \<Rightarrow> u8 option"
  vm_writable :: "u64 \<Rightarrow> bool"

definition span_addrs :: "u64 \<Rightarrow> nat \<Rightarrow> u64 list" where
  "span_addrs a n = map (\<lambda>i. a + of_nat i) [0..<n]"

definition in_space :: "u64 \<Rightarrow> nat \<Rightarrow> bool" where
  "in_space a n \<longleftrightarrow> unat a + n \<le> 2 ^ 64"

lemma in_space_code [code]: "in_space a n \<longleftrightarrow> uint a + int n \<le> 2 ^ 64"
proof -
  have "unat a + n \<le> k \<longleftrightarrow> uint a + int n \<le> int k" for k
    by (metis of_nat_add of_nat_le_iff of_nat_unat)
  from this [of "2 ^ 64"] show ?thesis by (simp add: in_space_def)
qed

definition readable :: "vmem \<Rightarrow> u64 \<Rightarrow> nat \<Rightarrow> bool" where
  "readable m a n \<longleftrightarrow> in_space a n \<and> list_all (\<lambda>x. vm_bytes m x \<noteq> None) (span_addrs a n)"

definition span :: "vmem \<Rightarrow> u64 \<Rightarrow> nat \<Rightarrow> bytes" where
  "span m a n = map (\<lambda>x. the (vm_bytes m x)) (span_addrs a n)"

fun poke :: "(u64 \<Rightarrow> u8 option) \<Rightarrow> u64 \<Rightarrow> bytes \<Rightarrow> u64 \<Rightarrow> u8 option" where
  "poke f a [] = f"
| "poke f a (b # bs) = (poke f (a + 1) bs)(a := Some b)"

definition process_vm_readv :: "vmem \<Rightarrow> u64 \<Rightarrow> nat \<Rightarrow> bytes option" where
  "process_vm_readv m a n = (if readable m a n then Some (span m a n) else None)"

definition process_vm_writev :: "vmem \<Rightarrow> u64 \<Rightarrow> bytes \<Rightarrow> vmem option" where
  "process_vm_writev m a bs =
     (if in_space a (length bs) \<and> list_all (vm_writable m) (span_addrs a (length bs))
      then Some (m\<lparr>vm_bytes := poke (vm_bytes m) a bs\<rparr>) else None)"

section \<open>The process id cache\<close>

definition pid :: "int \<Rightarrow> int \<Rightarrow> int \<times> int" where
  "pid getpid cached = (if cached \<noteq> 0 then (cached, cached) else (getpid, getpid))"

definition forget_pid_after_fork :: "int \<Rightarrow> int" where
  "forget_pid_after_fork cached = 0"

section \<open>Reads and writes\<close>

definition read_memory :: "vmem \<Rightarrow> u64 \<Rightarrow> nat \<Rightarrow> bytes option" where
  "read_memory m a n = (if a = 0 \<or> n = 0 then None else process_vm_readv m a n)"

definition write_memory :: "vmem \<Rightarrow> u64 \<Rightarrow> bytes \<Rightarrow> vmem \<times> bool" where
  "write_memory m a bs = (case process_vm_writev m a bs of None \<Rightarrow> (m, False) | Some m' \<Rightarrow> (m', True))"

definition write_u64 :: "vmem \<Rightarrow> u64 \<Rightarrow> u64 \<Rightarrow> vmem \<times> bool" where
  "write_u64 m a v = write_memory m a (to_le 8 v)"

definition write_u32 :: "vmem \<Rightarrow> u64 \<Rightarrow> u32 \<Rightarrow> vmem \<times> bool" where
  "write_u32 m a v = write_memory m a (to_le 4 v)"

definition read_u64 :: "vmem \<Rightarrow> u64 \<Rightarrow> u64 option" where
  "read_u64 m a = map_option from_le (read_memory m a 8)"

definition read_u32 :: "vmem \<Rightarrow> u64 \<Rightarrow> u32 option" where
  "read_u32 m a = map_option from_le (read_memory m a 4)"

definition read_u16 :: "vmem \<Rightarrow> u64 \<Rightarrow> u16 option" where
  "read_u16 m a = map_option from_le (read_memory m a 2)"

text \<open>The values \<^verbatim>\<open>read_u64s\<close> leaves in the output array: as many as it returns.\<close>

fun read_one_by_one :: "vmem \<Rightarrow> u64 \<Rightarrow> nat \<Rightarrow> nat \<Rightarrow> u64 list" where
  "read_one_by_one m a i 0 = []"
| "read_one_by_one m a i (Suc n) =
     (case Option.bind (checked_add a (of_nat i * 8)) (read_u64 m) of
        Some v \<Rightarrow> v # read_one_by_one m a (Suc i) n
      | None \<Rightarrow> [])"

fun chunks8 :: "nat \<Rightarrow> bytes \<Rightarrow> u64 list" where
  "chunks8 0 bs = []"
| "chunks8 (Suc n) bs = from_le (take 8 bs) # chunks8 n (drop 8 bs)"

definition read_u64s :: "vmem \<Rightarrow> u64 \<Rightarrow> nat \<Rightarrow> u64 list" where
  "read_u64s m a count = (let c = min count 64 in
     case read_memory m a (c * 8) of
       Some bs \<Rightarrow> chunks8 c bs
     | None \<Rightarrow> read_one_by_one m a 0 c)"

section \<open>Trampolines\<close>

definition TRAMPOLINE_HEAD :: bytes where
  "TRAMPOLINE_HEAD = [0xff, 0x25, 0x02, 0, 0, 0, 0, 0]"

definition decode_trampoline :: "bytes \<Rightarrow> u64 option" where
  "decode_trampoline bs = (if take 8 bs = TRAMPOLINE_HEAD then Some (from_le (drop 8 bs)) else None)"

definition trampoline_destination :: "vmem \<Rightarrow> u64 \<Rightarrow> u64 option" where
  "trampoline_destination m slot = Option.bind (read_memory m slot 16) decode_trampoline"

section \<open>Laws of memory\<close>

lemma length_addrs [simp]: "length (span_addrs a n) = n"
  by (simp add: span_addrs_def)

lemma span_addrs_0 [simp]: "span_addrs a 0 = []"
  by (simp add: span_addrs_def)

lemma nth_addrs [simp]: "i < n \<Longrightarrow> span_addrs a n ! i = a + of_nat i"
  by (simp add: span_addrs_def)

lemma set_addrs: "set (span_addrs a n) = (\<lambda>i. a + of_nat i) ` {..<n}"
  by (auto simp: span_addrs_def)

lemma span_addrs_append: "span_addrs a (n + k) = span_addrs a n @ span_addrs (a + of_nat n) k"
  by (intro nth_equalityI) (auto simp: nth_append)

lemma length_span [simp]: "length (span m a n) = n"
  by (simp add: span_def)

lemma span_append: "span m a (n + k) = span m a n @ span m (a + of_nat n) k"
  by (simp add: span_def span_addrs_append)

lemma span_take: "n \<le> k \<Longrightarrow> take n (span m a k) = span m a n"
  using span_append [of m a n "k - n"] by simp

lemma span_drop: "n \<le> k \<Longrightarrow> drop n (span m a k) = span m (a + of_nat n) (k - n)"
  using span_append [of m a n "k - n"] by simp

lemma unat_offset:
  assumes "in_space a n" and "i < n"
  shows "unat (a + of_nat i) = unat a + i"
proof -
  from assms have i: "unat (of_nat i :: u64) = i" by (simp add: in_space_def unat_of_nat take_bit_nat_eq_self)
  with assms show ?thesis by (subst unat_add_no_overflow) (simp_all add: in_space_def)
qed

lemma span_addrs_distinct:
  assumes "in_space a n"
  shows "distinct (span_addrs a n)"
proof -
  have "inj_on (\<lambda>i. a + of_nat i) {..<n}"
    using unat_offset [OF assms] by (intro inj_onI) (metis add_left_cancel lessThan_iff)
  then show ?thesis by (simp add: span_addrs_def distinct_map atLeast0LessThan)
qed

lemma mem_addrs_iff:
  assumes "in_space a n"
  shows "x \<in> set (span_addrs a n) \<longleftrightarrow> unat a \<le> unat x \<and> unat x < unat a + n"
proof
  assume "x \<in> set (span_addrs a n)"
  then obtain i where "i < n" "x = a + of_nat i" by (auto simp: set_addrs)
  with unat_offset [OF assms] show "unat a \<le> unat x \<and> unat x < unat a + n" by simp
next
  assume r: "unat a \<le> unat x \<and> unat x < unat a + n"
  define i where "i = unat x - unat a"
  from r have "i < n" "unat (a + of_nat i) = unat x" using unat_offset [OF assms, of i] by (auto simp: i_def)
  then have "x = a + of_nat i" by (metis unsigned_word_eqI)
  with \<open>i < n\<close> show "x \<in> set (span_addrs a n)" by (auto simp: set_addrs)
qed

lemma poke_other: "x \<notin> set (span_addrs a (length bs)) \<Longrightarrow> poke f a bs x = f x"
proof (induction bs arbitrary: a)
  case (Cons b bs)
  have "span_addrs a (length (b # bs)) = a # span_addrs (a + 1) (length bs)"
    using span_addrs_append [of a 1 "length bs"] by (simp add: span_addrs_def)
  with Cons show ?case by simp
qed simp

lemma poke_nth:
  assumes "in_space a (length bs)" and "i < length bs"
  shows "poke f a bs (a + of_nat i) = Some (bs ! i)"
  using assms
proof (induction bs arbitrary: a i)
  case (Cons b bs)
  show ?case
  proof (cases i)
    case (Suc j)
    with Cons.prems have u: "unat (a + 1) = unat a + 1"
      using unat_offset [OF Cons.prems(1), of 1] by (cases bs) auto
    with Cons.prems have "in_space (a + 1) (length bs)" by (simp add: in_space_def)
    moreover have "a + of_nat i \<noteq> a"
      using unat_offset [OF Cons.prems] Suc by (metis add_is_0 add_left_imp_eq add.right_neutral nat.distinct(1))
    ultimately show ?thesis using Cons.IH [of "a + 1" j] Cons.prems(2) Suc by (simp add: ac_simps)
  qed simp
qed simp

lemma span_poke:
  assumes "in_space a (length bs)"
  shows "span (m\<lparr>vm_bytes := poke (vm_bytes m) a bs\<rparr>) a (length bs) = bs"
  using poke_nth [OF assms] by (intro nth_equalityI) (simp_all add: span_def)

text \<open>Disjoint ranges: a write leaves what is read elsewhere.\<close>

definition disjoint_ranges :: "u64 \<Rightarrow> nat \<Rightarrow> u64 \<Rightarrow> nat \<Rightarrow> bool" where
  "disjoint_ranges a n b k \<longleftrightarrow> unat a + n \<le> unat b \<or> unat b + k \<le> unat a"

lemma write_memory_ok:
  assumes "write_memory m a bs = (m', True)"
  shows "in_space a (length bs)" and "vm_bytes m' = poke (vm_bytes m) a bs" and "vm_writable m' = vm_writable m"
  using assms by (auto simp: write_memory_def process_vm_writev_def split: if_splits option.splits)

lemma write_memory_failed: "write_memory m a bs = (m', False) \<Longrightarrow> m' = m"
  by (auto simp: write_memory_def split: option.splits)

lemma read_after_write:
  assumes "write_memory m a bs = (m', True)" and "a \<noteq> 0" and "bs \<noteq> []"
  shows "read_memory m' a (length bs) = Some bs"
proof -
  note w = write_memory_ok [OF assms(1)]
  have m': "m' = m'\<lparr>vm_bytes := poke (vm_bytes m) a bs\<rparr>" using w(2) by simp
  have "readable m' a (length bs)"
    using w(1) poke_nth [OF w(1), of _ "vm_bytes m"] by (auto simp: readable_def w(2) list_all_iff set_addrs)
  moreover have "span m' a (length bs) = bs"
    using poke_nth [OF w(1), of _ "vm_bytes m"] by (intro nth_equalityI) (simp_all add: span_def w(2))
  ultimately show ?thesis using assms(2,3) by (simp add: read_memory_def process_vm_readv_def)
qed

lemma read_elsewhere:
  assumes "write_memory m a bs = (m', ok)" and "disjoint_ranges a (length bs) b k"
  shows "read_memory m' b k = read_memory m b k"
proof (cases ok)
  case False
  with write_memory_failed [of m a bs m'] assms(1) show ?thesis by simp
next
  case True
  with assms(1) have "write_memory m a bs = (m', True)" by simp
  note w = write_memory_ok [OF this]
  show ?thesis
  proof (cases "in_space b k")
    case sp: True
    have same: "vm_bytes m' x = vm_bytes m x" if "x \<in> set (span_addrs b k)" for x
      unfolding w(2) using that assms(2) mem_addrs_iff [OF sp, of x] mem_addrs_iff [OF w(1), of x]
      by (intro poke_other) (auto simp: disjoint_ranges_def)
    then have "readable m' b k = readable m b k" "span m' b k = span m b k"
      by (auto simp: readable_def span_def list_all_iff)
    then show ?thesis by (simp add: read_memory_def process_vm_readv_def)
  qed (simp add: read_memory_def process_vm_readv_def readable_def)
qed

lemma read_memory_length: "read_memory m a n = Some bs \<Longrightarrow> length bs = n \<and> a \<noteq> 0 \<and> n \<noteq> 0 \<and> in_space a n"
  by (auto simp: read_memory_def process_vm_readv_def readable_def split: if_splits)

text \<open>A range splits into two consecutive readable ranges.\<close>

lemma readable_append:
  assumes "in_space a (n + k)"
  shows "readable m a (n + k) \<longleftrightarrow> readable m a n \<and> (k = 0 \<or> readable m (a + of_nat n) k)"
proof (cases "k = 0")
  case False
  with assms have "unat (a + of_nat n) = unat a + n" using unat_offset [OF assms, of n] by simp
  with assms show ?thesis by (auto simp: readable_def span_addrs_append in_space_def)
qed simp

text \<open>Part of a range that was read reads as that part.\<close>

lemma read_sub:
  assumes "read_memory m a n = Some bs" and "k + j \<le> n" and "0 < j"
  shows "read_memory m (a + of_nat k) j = Some (take j (drop k bs))"
proof -
  from assms(1) have a: "a \<noteq> 0" "in_space a n" "readable m a n" "bs = span m a n"
    by (auto simp: read_memory_def process_vm_readv_def readable_def split: if_splits)
  have u: "unat (a + of_nat k) = unat a + k" using assms(2,3) by (intro unat_offset [OF a(2)]) simp
  have "a + of_nat k \<noteq> 0" using u a(1) by (metis add_is_0 unat_0 unat_eq_zero)
  moreover have "readable m (a + of_nat k) j"
  proof -
    have "in_space a (k + (n - k))" using a(2) assms(2) by simp
    from readable_append [OF this, of m] a(3) assms(2,3) have "readable m (a + of_nat k) (n - k)" by auto
    moreover have "in_space (a + of_nat k) (j + (n - k - j))" using a(2) u assms(2) by (simp add: in_space_def)
    ultimately show ?thesis using readable_append [of "a + of_nat k" j "n - k - j" m] assms(2) by simp
  qed
  moreover have "take j (drop k bs) = span m (a + of_nat k) j"
    unfolding a(4) using span_drop [of k n m a] span_take [of j "n - k" m] assms(2) by simp
  ultimately show ?thesis using assms(3) by (simp add: read_memory_def process_vm_readv_def)
qed

section \<open>Bulk reads\<close>

lemma one_by_one_readable:
  assumes "a \<noteq> 0" and "in_space a ((i + n) * 8)" and "n = 0 \<or> readable m (a + of_nat (i * 8)) (n * 8)"
  shows "read_one_by_one m a i n = chunks8 n (span m (a + of_nat (i * 8)) (n * 8))"
  using assms(2,3)
proof (induction n arbitrary: i)
  case (Suc n)
  let ?b = "a + of_nat (i * 8)"
  have sp: "in_space a (i * 8 + 8)" using Suc.prems(1) by (simp add: in_space_def)
  have u: "unat ?b = unat a + i * 8" by (rule unat_offset [OF sp]) simp
  have add: "checked_add a (of_nat i * 8) = Some ?b"
  proof -
    have "unat (of_nat i * 8 :: u64) = i * 8"
    proof -
      have "(of_nat i * 8 :: u64) = of_nat (i * 8)" by simp
      moreover have "unat (of_nat (i * 8) :: u64) = i * 8"
        using sp by (simp only: unat_of_nat) (simp add: in_space_def)
      ultimately show ?thesis by simp
    qed
    with sp show ?thesis by (simp add: checked_add_def in_space_def)
  qed
  have b0: "?b \<noteq> 0" using u assms(1) by (metis add_is_0 unat_0 unat_eq_zero)
  have spb: "in_space ?b (8 + n * 8)" using Suc.prems(1) u by (simp add: in_space_def)
  have rd: "readable m ?b 8" "n = 0 \<or> readable m (?b + of_nat 8) (n * 8)"
    using Suc.prems(2) readable_append [OF spb, of m] by auto
  have shift: "?b + of_nat 8 = a + of_nat (Suc i * 8)" by simp
  have "read_u64 m ?b = Some (from_le (span m ?b 8))"
    using rd(1) b0 by (simp add: read_u64_def read_memory_def process_vm_readv_def)
  moreover have "read_one_by_one m a (Suc i) n = chunks8 n (span m (a + of_nat (Suc i * 8)) (n * 8))"
    using Suc.prems(1) rd(2) by (intro Suc.IH) (simp_all only: shift, simp add: ac_simps)
  moreover have "take 8 (span m ?b (Suc n * 8)) = span m ?b 8"
    "drop 8 (span m ?b (Suc n * 8)) = span m (a + of_nat (Suc i * 8)) (n * 8)"
    using span_take [of 8 "Suc n * 8" m ?b] span_drop [of 8 "Suc n * 8" m ?b] by (simp_all add: ac_simps)
  ultimately show ?case using add by simp
qed simp

lemma read_u64s_eq:
  "read_u64s m a count = read_one_by_one m a 0 (min count 64)"
proof (cases "read_memory m a (min count 64 * 8)")
  case (Some bs)
  then have "a \<noteq> 0" "in_space a (min count 64 * 8)" "readable m a (min count 64 * 8)" "bs = span m a (min count 64 * 8)"
    by (auto simp: read_memory_def process_vm_readv_def readable_def split: if_splits)
  with Some one_by_one_readable [of a 0 "min count 64" m] show ?thesis by (simp add: read_u64s_def Let_def)
qed (simp add: read_u64s_def Let_def)

text \<open>
  Reading a run of words in bulk gives what reading them one at a time gives: the leading
  words up to the first one that is not readable, at most the 64 that fit the output.
\<close>

lemma read_u64s_as_one_by_one:
  "read_u64s m a count = read_one_by_one m a 0 (min count 64)"
  by (rule read_u64s_eq)

section \<open>Round trip\<close>

lemma write_u32_effect:
  assumes "write_u32 m a v = (m', ok)" and "a \<noteq> 0"
  shows "(ok \<longrightarrow> read_u32 m' a = Some v) \<and> (\<not> ok \<longrightarrow> m' = m) \<and>
    (\<forall>b k. disjoint_ranges a 4 b k \<longrightarrow> read_memory m' b k = read_memory m b k)"
proof -
  have len: "length (to_le 4 v) = 4" by simp
  have "read_u32 m' a = Some v" if "ok"
  proof -
    from that assms(1) have "write_memory m a (to_le 4 v) = (m', True)" by (simp add: write_u32_def)
    from read_after_write [OF this assms(2)] have "read_memory m' a 4 = Some (to_le 4 v)"
      using len by (metis list.size(3) zero_neq_numeral)
    then show ?thesis by (simp add: read_u32_def from_le_to_le)
  qed
  with assms(1) write_memory_failed read_elsewhere [of m a "to_le 4 v" m' ok] show ?thesis
    by (auto simp: write_u32_def len)
qed

end
