(* ===== verification/Machine.thy ===== *)
theory Machine
  imports Procmem
begin

text \<open>
  The part of the x86-64 machine that the naked functions of the runtime are written for: the
  general registers, the vector registers, the flags, byte-addressed memory in which an access
  that is not mapped or not writable is a fault, and one execution step per instruction. Code is a list
  of instructions and a position in it; a jump that leaves the list ends the run with its
  target. What the processor leaves open is a parameter: the status flags that arithmetic
  computes, what other threads write while the code pauses, and the function that is called.
\<close>

section \<open>Registers, flags and instructions\<close>

type_synonym u128 = "128 word"

datatype reg = RAX | RBX | RCX | RDX | RSI | RDI | RBP | RSP | R8 | R9 | R10 | R11 | R12 | R13 | R14 | R15

definition STATUS_FLAGS :: u64 where "STATUS_FLAGS = 0x8d5"

text \<open>
  What \<^verbatim>\<open>popfq\<close> may change in user mode: CF, PF, AF, ZF, SF, TF, DF, OF, NT, AC and ID. The resume
  flag is cleared by it, and \<^verbatim>\<open>pushfq\<close> stores the resume and virtual-8086 flags as zero.
\<close>

definition USER_FLAGS :: u64 where "USER_FLAGS = 0x244dd5"
definition RESUME_FLAG :: u64 where "RESUME_FLAG = 0x10000"
definition VM_FLAG :: u64 where "VM_FLAG = 0x20000"

datatype instr =
    Lea reg reg u64             \<comment> \<open>\<open>lea r, [b + d]\<close>\<close>
  | Lea_Symbol reg              \<comment> \<open>\<open>lea r, [rip + symbol]\<close>\<close>
  | Mov reg reg
  | Load reg reg u64            \<comment> \<open>\<open>mov r, [b + d]\<close>\<close>
  | Store reg u64 reg           \<comment> \<open>\<open>mov [b + d], r\<close>\<close>
  | Store_Dword reg u32         \<comment> \<open>\<open>mov dword ptr [b], imm\<close>\<close>
  | Load_Gs reg u64             \<comment> \<open>\<open>mov r, gs:[d]\<close>\<close>
  | Movdqu_Store u64 nat        \<comment> \<open>\<open>movdqu [rsp + d], xmm\<close>\<close>
  | Movdqu_Load nat u64         \<comment> \<open>\<open>movdqu xmm, [rsp + d]\<close>\<close>
  | Push reg
  | Push_Mem u64                \<comment> \<open>\<open>push qword ptr [rsp + d]\<close>\<close>
  | Pushfq
  | Popfq
  | Shr reg nat
  | Shl reg nat
  | And_Dword reg u32           \<comment> \<open>\<open>and e, imm\<close>, which clears the upper half\<close>
  | Add reg reg
  | Lock_Bts reg                \<comment> \<open>\<open>lock bts dword ptr [b], 0\<close>\<close>
  | Bt u64 nat                  \<comment> \<open>\<open>bt qword ptr [rsp + d], i\<close>\<close>
  | Btr u64 nat
  | And_Mem u64 u64             \<comment> \<open>\<open>and qword ptr [rsp + d], imm\<close>\<close>
  | Or_Mem u64 u64
  | Pause
  | Jnc nat
  | Jmp nat
  | Call
  | Jmp_Mem u64                 \<comment> \<open>\<open>jmp qword ptr [rsp + d]\<close>\<close>
  | Jmp_Symbol                  \<comment> \<open>\<open>jmp symbol\<close>\<close>

record 'w cpu =
  c_regs :: "reg \<Rightarrow> u64"
  c_xmm :: "nat \<Rightarrow> u128"
  c_flags :: u64
  c_mem :: vmem
  c_spins :: nat
  c_world :: 'w

record 'w machine_env =
  me_symbol :: u64
  me_gs_base :: u64
  me_status :: "u64 \<Rightarrow> u64"
  me_others :: "nat \<Rightarrow> vmem \<Rightarrow> vmem"
  me_return_site :: u64
  me_callee :: "'w cpu \<Rightarrow> 'w cpu option"

section \<open>Memory accesses\<close>

definition load64 :: "vmem \<Rightarrow> u64 \<Rightarrow> u64 option" where
  "load64 m a = map_option from_le (process_vm_readv m a 8)"

definition store64 :: "vmem \<Rightarrow> u64 \<Rightarrow> u64 \<Rightarrow> vmem option" where
  "store64 m a v = process_vm_writev m a (to_le 8 v)"

definition load32 :: "vmem \<Rightarrow> u64 \<Rightarrow> u32 option" where
  "load32 m a = map_option from_le (process_vm_readv m a 4)"

definition store32 :: "vmem \<Rightarrow> u64 \<Rightarrow> u32 \<Rightarrow> vmem option" where
  "store32 m a v = process_vm_writev m a (to_le 4 v)"

definition load128 :: "vmem \<Rightarrow> u64 \<Rightarrow> u128 option" where
  "load128 m a = Option.bind (load64 m a) (\<lambda>lo. map_option (\<lambda>hi. ucast lo OR push_bit 64 (ucast hi)) (load64 m (a + 8)))"

definition store128 :: "vmem \<Rightarrow> u64 \<Rightarrow> u128 \<Rightarrow> vmem option" where
  "store128 m a v = Option.bind (store64 m a (ucast v)) (\<lambda>m'. store64 m' (a + 8) (ucast (drop_bit 64 v)))"

section \<open>Execution\<close>

datatype control = Fallthrough | Goto nat | Leave u64

definition set_reg :: "reg \<Rightarrow> u64 \<Rightarrow> 'w cpu \<Rightarrow> 'w cpu" where
  "set_reg r v s = s\<lparr>c_regs := (c_regs s)(r := v)\<rparr>"

text \<open>Status flags after arithmetic, and the carry a bit test defines.\<close>

definition arith_flags :: "u64 \<Rightarrow> u64 \<Rightarrow> u64" where
  "arith_flags status f = (f AND NOT STATUS_FLAGS) OR (status AND STATUS_FLAGS)"

definition carry_flags :: "u64 \<Rightarrow> bool \<Rightarrow> u64 \<Rightarrow> u64" where
  "carry_flags status c f = (if c then arith_flags status f OR 1 else arith_flags status f AND NOT 1)"

definition pushfq_image :: "u64 \<Rightarrow> u64" where
  "pushfq_image f = f AND NOT (RESUME_FLAG OR VM_FLAG)"

definition popfq_flags :: "u64 \<Rightarrow> u64 \<Rightarrow> u64" where
  "popfq_flags img f = (f AND NOT (USER_FLAGS OR RESUME_FLAG)) OR (img AND USER_FLAGS)"

definition push64 :: "u64 \<Rightarrow> 'w cpu \<Rightarrow> 'w cpu option" where
  "push64 v s = (let a = c_regs s RSP + - 8 in
     map_option (\<lambda>m. set_reg RSP a (s\<lparr>c_mem := m\<rparr>)) (store64 (c_mem s) a v))"

definition update_mem64 :: "'w machine_env \<Rightarrow> u64 \<Rightarrow> (u64 \<Rightarrow> u64) \<Rightarrow> 'w cpu \<Rightarrow> 'w cpu option" where
  "update_mem64 e a g s = Option.bind (load64 (c_mem s) a) (\<lambda>v.
     map_option (\<lambda>m. s\<lparr>c_mem := m, c_flags := arith_flags (me_status e (g v)) (c_flags s)\<rparr>) (store64 (c_mem s) a (g v)))"

fun exec1 :: "'w machine_env \<Rightarrow> instr \<Rightarrow> 'w cpu \<Rightarrow> 'w cpu option" where
  "exec1 e (Lea r b d) s = Some (set_reg r (c_regs s b + d) s)"
| "exec1 e (Lea_Symbol r) s = Some (set_reg r (me_symbol e) s)"
| "exec1 e (Mov r q) s = Some (set_reg r (c_regs s q) s)"
| "exec1 e (Load r b d) s = map_option (\<lambda>v. set_reg r v s) (load64 (c_mem s) (c_regs s b + d))"
| "exec1 e (Store b d r) s = map_option (\<lambda>m. s\<lparr>c_mem := m\<rparr>) (store64 (c_mem s) (c_regs s b + d) (c_regs s r))"
| "exec1 e (Store_Dword b v) s = map_option (\<lambda>m. s\<lparr>c_mem := m\<rparr>) (store32 (c_mem s) (c_regs s b) v)"
| "exec1 e (Load_Gs r d) s = map_option (\<lambda>v. set_reg r v s) (load64 (c_mem s) (me_gs_base e + d))"
| "exec1 e (Movdqu_Store d i) s = map_option (\<lambda>m. s\<lparr>c_mem := m\<rparr>) (store128 (c_mem s) (c_regs s RSP + d) (c_xmm s i))"
| "exec1 e (Movdqu_Load i d) s = map_option (\<lambda>v. s\<lparr>c_xmm := (c_xmm s)(i := v)\<rparr>) (load128 (c_mem s) (c_regs s RSP + d))"
| "exec1 e (Push r) s = push64 (c_regs s r) s"
| "exec1 e (Push_Mem d) s = Option.bind (load64 (c_mem s) (c_regs s RSP + d)) (\<lambda>v. push64 v s)"
| "exec1 e Pushfq s = push64 (pushfq_image (c_flags s)) s"
| "exec1 e Popfq s = map_option (\<lambda>v. set_reg RSP (c_regs s RSP + 8) (s\<lparr>c_flags := popfq_flags v (c_flags s)\<rparr>)) (load64 (c_mem s) (c_regs s RSP))"
| "exec1 e (Shr r n) s = (let v = drop_bit n (c_regs s r) in Some (set_reg r v (s\<lparr>c_flags := arith_flags (me_status e v) (c_flags s)\<rparr>)))"
| "exec1 e (Shl r n) s = (let v = push_bit n (c_regs s r) in Some (set_reg r v (s\<lparr>c_flags := arith_flags (me_status e v) (c_flags s)\<rparr>)))"
| "exec1 e (And_Dword r i) s = (let v = ucast (ucast (c_regs s r) AND i) in
     Some (set_reg r v (s\<lparr>c_flags := arith_flags (me_status e v) (c_flags s)\<rparr>)))"
| "exec1 e (Add r q) s = (let v = c_regs s r + c_regs s q in Some (set_reg r v (s\<lparr>c_flags := arith_flags (me_status e v) (c_flags s)\<rparr>)))"
| "exec1 e (Lock_Bts b) s = Option.bind (load32 (c_mem s) (c_regs s b)) (\<lambda>v.
     map_option (\<lambda>m. s\<lparr>c_mem := m, c_flags := carry_flags (me_status e (ucast v)) (bit v 0) (c_flags s)\<rparr>)
       (store32 (c_mem s) (c_regs s b) (v OR 1)))"
| "exec1 e (Bt d i) s = map_option (\<lambda>v. s\<lparr>c_flags := carry_flags (me_status e v) (bit v i) (c_flags s)\<rparr>)
     (load64 (c_mem s) (c_regs s RSP + d))"
| "exec1 e (Btr d i) s = update_mem64 e (c_regs s RSP + d) (\<lambda>v. v AND NOT (push_bit i 1)) s"
| "exec1 e (And_Mem d i) s = update_mem64 e (c_regs s RSP + d) (\<lambda>v. v AND i) s"
| "exec1 e (Or_Mem d i) s = update_mem64 e (c_regs s RSP + d) (\<lambda>v. v OR i) s"
| "exec1 e Pause s = Some (s\<lparr>c_mem := me_others e (c_spins s) (c_mem s), c_spins := Suc (c_spins s)\<rparr>)"
| "exec1 e (Jnc n) s = Some s"
| "exec1 e (Jmp n) s = Some s"
| "exec1 e Call s = Option.bind (push64 (me_return_site e) s)
     (\<lambda>s'. map_option (set_reg RSP (c_regs s RSP)) (me_callee e s'))"
| "exec1 e (Jmp_Mem d) s = Some s"
| "exec1 e Jmp_Symbol s = Some s"

text \<open>Where execution goes on, and the target of an indirect jump.\<close>

fun control_of :: "'w machine_env \<Rightarrow> instr \<Rightarrow> 'w cpu \<Rightarrow> control option" where
  "control_of e (Jnc n) s = Some (if bit (c_flags s) 0 then Fallthrough else Goto n)"
| "control_of e (Jmp n) s = Some (Goto n)"
| "control_of e (Jmp_Mem d) s = map_option Leave (load64 (c_mem s) (c_regs s RSP + d))"
| "control_of e Jmp_Symbol s = Some (Leave (me_symbol e))"
| "control_of e _ s = Some Fallthrough"

datatype 'w outcome = Exited u64 "'w cpu" | Fault | Out_Of_Fuel

fun run :: "'w machine_env \<Rightarrow> instr list \<Rightarrow> nat \<Rightarrow> nat \<Rightarrow> 'w cpu \<Rightarrow> 'w outcome" where
  "run e P 0 pc s = Out_Of_Fuel"
| "run e P (Suc n) pc s =
     (if length P \<le> pc then Fault
      else case exec1 e (P ! pc) s of
        None \<Rightarrow> Fault
      | Some s' \<Rightarrow>
          (case control_of e (P ! pc) s of
             None \<Rightarrow> Fault
           | Some Fallthrough \<Rightarrow> run e P n (Suc pc) s'
           | Some (Goto t) \<Rightarrow> run e P n t s'
           | Some (Leave a) \<Rightarrow> Exited a s'))"

section \<open>Blocks without jumps\<close>

fun straight :: "instr \<Rightarrow> bool" where
  "straight (Jnc n) = False"
| "straight (Jmp n) = False"
| "straight (Jmp_Mem d) = False"
| "straight Jmp_Symbol = False"
| "straight _ = True"

fun exec_block :: "'w machine_env \<Rightarrow> instr list \<Rightarrow> 'w cpu \<Rightarrow> 'w cpu option" where
  "exec_block e [] s = Some s"
| "exec_block e (i # is) s = Option.bind (exec1 e i s) (exec_block e is)"

lemma straight_control: "straight i \<Longrightarrow> control_of e i s = Some Fallthrough"
  by (cases i) auto

lemma run_block:
  assumes "exec_block e blk s = Some s'" and "list_all straight blk"
  shows "run e (pre @ blk @ post) (length blk + n) (length pre) s = run e (pre @ blk @ post) n (length pre + length blk) s'"
  using assms
proof (induction blk arbitrary: pre s)
  case (Cons i blk)
  from Cons.prems obtain s1 where s1: "exec1 e i s = Some s1" "exec_block e blk s1 = Some s'" by (auto split: bind_splits)
  have "run e (pre @ (i # blk) @ post) (length (i # blk) + n) (length pre) s
      = run e ((pre @ [i]) @ blk @ post) (length blk + n) (length (pre @ [i])) s1"
    using Cons.prems(2) s1(1) straight_control [of i e s] by (simp add: nth_append)
  with Cons.IH [of s1 "pre @ [i]"] s1(2) Cons.prems(2) show ?case by simp
qed simp

lemma run_more: "run e P n pc s = Exited a s' \<Longrightarrow> n \<le> k \<Longrightarrow> run e P k pc s = Exited a s'"
proof (induction n arbitrary: pc s k)
  case (Suc n)
  then obtain k' where "k = Suc k'" "n \<le> k'" by (cases k) auto
  with Suc show ?case by (auto split: option.splits control.splits if_splits)
qed simp

section \<open>A window of memory as words\<close>

text \<open>
  Memory in which \<open>n\<close> consecutive words from \<open>b\<close> on have the values \<open>f\<close>: a store in the window
  updates \<open>f\<close>, a load reads it, and an access elsewhere does not see it.
\<close>

definition overlay :: "vmem \<Rightarrow> u64 \<Rightarrow> nat \<Rightarrow> (nat \<Rightarrow> u64) \<Rightarrow> vmem" where
  "overlay m b n f = m\<lparr>vm_bytes := \<lambda>x. let d = unat (x - b) in
     if d < 8 * n then Some (to_le 8 (f (d div 8)) ! (d mod 8)) else vm_bytes m x\<rparr>"

definition writable_window :: "vmem \<Rightarrow> u64 \<Rightarrow> nat \<Rightarrow> bool" where
  "writable_window m a n \<longleftrightarrow> readable m a n \<and> list_all (vm_writable m) (span_addrs a n)"

lemma overlay_writable [simp]: "vm_writable (overlay m b n f) = vm_writable m"
  by (simp add: overlay_def)

lemma overlay_bytes: "vm_bytes (overlay m b n f) x =
  (if unat (x - b) < 8 * n then Some (to_le 8 (f (unat (x - b) div 8)) ! (unat (x - b) mod 8)) else vm_bytes m x)"
  by (simp add: overlay_def Let_def)

lemma window_member: "x \<in> set (span_addrs b n) \<longleftrightarrow> unat (x - b) < n" if "in_space b n"
proof
  assume "x \<in> set (span_addrs b n)"
  then obtain i where i: "i < n" "x = b + of_nat i" by (auto simp: set_addrs)
  with that have "unat (of_nat i :: u64) = i" by (simp add: in_space_def unat_of_nat take_bit_nat_eq_self)
  with i show "unat (x - b) < n" by simp
next
  assume "unat (x - b) < n"
  moreover have "x = b + of_nat (unat (x - b))" by simp
  ultimately show "x \<in> set (span_addrs b n)" unfolding set_addrs by blast
qed

text \<open>The bytes of one word of the window.\<close>

lemma window_offset:
  assumes "in_space b (8 * n)" and "k < n" and "i < 8"
  shows "unat (b + of_nat (8 * k) + of_nat i - b) = 8 * k + i" and "unat (b + of_nat (8 * k)) = unat b + 8 * k"
proof -
  from assms have lt: "8 * k + i < 2 ^ 64" by (simp add: in_space_def)
  have "b + of_nat (8 * k) + of_nat i - b = (of_nat (8 * k + i) :: u64)" by simp
  with lt show "unat (b + of_nat (8 * k) + of_nat i - b) = 8 * k + i" by (simp only: unat_of_nat) simp
  show "unat (b + of_nat (8 * k)) = unat b + 8 * k" using assms by (intro unat_offset [OF assms(1)]) simp
qed

lemma window_split: "b + of_nat (8 * (unat (x - b) div 8)) + of_nat (unat (x - b) mod 8) = x"
  by (simp only: add.assoc flip: of_nat_add) (simp only: mult_div_mod_eq, simp)

lemma span_nth: "i < n \<Longrightarrow> span m a n ! i = the (vm_bytes m (a + of_nat i))"
  by (simp add: span_def)

lemma word_in_space: "in_space (b + of_nat (8 * k)) 8" if "in_space b (8 * n)" "k < n"
  using that window_offset(2) [OF that, of 0] by (simp add: in_space_def)

lemma overlay_byte:
  assumes "in_space b (8 * n)" and "k < n" and "i < 8"
  shows "vm_bytes (overlay m b n f) (b + of_nat (8 * k) + of_nat i) = Some (to_le 8 (f k) ! i)"
  using window_offset(1) [OF assms] assms by (simp add: overlay_bytes del: of_nat_mult)

lemma load_window:
  assumes "in_space b (8 * n)" and "k < n"
  shows "load64 (overlay m b n f) (b + of_nat (8 * k)) = Some (f k)"
proof -
  have "readable (overlay m b n f) (b + of_nat (8 * k)) 8"
    using overlay_byte [OF assms] word_in_space [OF assms] by (auto simp: readable_def list_all_iff set_addrs simp del: of_nat_mult)
  moreover have "span (overlay m b n f) (b + of_nat (8 * k)) 8 = to_le 8 (f k)"
    using overlay_byte [OF assms] by (intro nth_equalityI) (simp_all add: span_def del: of_nat_mult)
  ultimately show ?thesis by (simp add: load64_def process_vm_readv_def from_le_to_le)
qed

lemma store_window:
  assumes "in_space b (8 * n)" and "k < n" and "list_all (vm_writable m) (span_addrs b (8 * n))"
  shows "store64 (overlay m b n f) (b + of_nat (8 * k)) v = Some (overlay m b n (f(k := v)))"
proof -
  let ?a = "b + of_nat (8 * k)"
  note sp = word_in_space [OF assms(1,2)]
  have "x \<in> set (span_addrs b (8 * n))" if "x \<in> set (span_addrs ?a 8)" for x
    using that window_offset(1) [OF assms(1,2)] assms(2) unfolding window_member [OF assms(1)]
    by (auto simp: set_addrs simp del: of_nat_mult)
  then have w: "list_all (vm_writable m) (span_addrs ?a 8)" using assms(3) by (auto simp: list_all_iff)
  have "poke (vm_bytes (overlay m b n f)) ?a (to_le 8 v) x = vm_bytes (overlay m b n (f(k := v))) x" for x
  proof (cases "x \<in> set (span_addrs ?a 8)")
    case True
    then obtain i where i: "i < 8" "x = ?a + of_nat i" by (auto simp: set_addrs)
    with poke_nth [of ?a "to_le 8 v" i] sp overlay_byte [OF assms(1,2) i(1), of m "f(k := v)"] show ?thesis
      by (simp del: of_nat_mult)
  next
    case False
    have "unat (x - b) div 8 \<noteq> k"
    proof
      assume k: "unat (x - b) div 8 = k"
      from window_split [of b x] have "x = ?a + of_nat (unat (x - b) mod 8)" unfolding k ..
      moreover have "unat (x - b) mod 8 < 8" by simp
      ultimately show False using False unfolding set_addrs by blast
    qed
    with poke_other [of x ?a "to_le 8 v"] False show ?thesis by (simp add: overlay_bytes del: of_nat_mult)
  qed
  then have "(overlay m b n f)\<lparr>vm_bytes := poke (vm_bytes (overlay m b n f)) ?a (to_le 8 v)\<rparr> = overlay m b n (f(k := v))"
    by (intro vmem.equality) (auto simp: overlay_def)
  then show ?thesis using sp w by (simp add: store64_def process_vm_writev_def)
qed

text \<open>Memory is its own window, and a window that memory agrees with can be written over it.\<close>

lemma window_of:
  assumes "readable m b (8 * n)"
  shows "overlay m b n (\<lambda>k. from_le (span m (b + of_nat (8 * k)) 8)) = m"
proof -
  have sp: "in_space b (8 * n)" using assms by (simp add: readable_def)
  have "vm_bytes (overlay m b n (\<lambda>k. from_le (span m (b + of_nat (8 * k)) 8))) x = vm_bytes m x" for x
  proof (cases "unat (x - b) < 8 * n")
    case True
    let ?k = "unat (x - b) div 8" and ?i = "unat (x - b) mod 8"
    note x = window_split [of b x]
    have "to_le 8 (from_le (span m (b + of_nat (8 * ?k)) 8) :: u64) = span m (b + of_nat (8 * ?k)) 8"
      using to_le_from_le [of "span m (b + of_nat (8 * ?k)) 8", where 'a = 64] by simp
    moreover have "span m (b + of_nat (8 * ?k)) 8 ! ?i = the (vm_bytes m x)"
      using span_nth [OF mod_less_divisor [of 8 "unat (x - b)"], of m "b + of_nat (8 * ?k)"] by (simp only: x)
    moreover have "vm_bytes m x \<noteq> None"
      using assms iffD2 [OF window_member [OF sp] True] by (simp add: readable_def list_all_iff)
    ultimately show ?thesis using True by (simp add: overlay_bytes del: of_nat_mult)
  qed (simp add: overlay_bytes)
  then show ?thesis by (intro vmem.equality) (auto simp: overlay_def)
qed

lemma window_kept:
  assumes "\<And>x. unat (x - b) < 8 * n \<Longrightarrow> vm_bytes m' x = vm_bytes (overlay m b n f) x"
  shows "overlay m' b n f = m'"
  using assms by (intro vmem.equality) (auto simp: overlay_def Let_def)

lemma overlay_overlay: "overlay (overlay m b n f) b n g = overlay m b n g"
  by (intro vmem.equality) (auto simp: overlay_def Let_def)

text \<open>Accesses that do not touch the window.\<close>

definition apart :: "u64 \<Rightarrow> nat \<Rightarrow> u64 \<Rightarrow> nat \<Rightarrow> bool" where
  "apart b n a k \<longleftrightarrow> list_all (\<lambda>x. \<not> unat (x - b) < n) (span_addrs a k)"

lemma read_apart:
  assumes "apart b (8 * n) a k"
  shows "process_vm_readv (overlay m b n f) a k = process_vm_readv m a k"
proof -
  have "vm_bytes (overlay m b n f) x = vm_bytes m x" if "x \<in> set (span_addrs a k)" for x
    using that assms by (simp add: overlay_bytes apart_def list_all_iff)
  then have "readable (overlay m b n f) a k = readable m a k" "span (overlay m b n f) a k = span m a k"
    by (auto simp: readable_def span_def list_all_iff)
  then show ?thesis by (simp add: process_vm_readv_def)
qed

lemma write_apart:
  assumes "apart b (8 * n) a (length bs)"
  shows "process_vm_writev (overlay m b n f) a bs = map_option (\<lambda>m'. overlay m' b n f) (process_vm_writev m a bs)"
proof -
  have "poke (vm_bytes (overlay m b n f)) a bs x = vm_bytes (overlay (m\<lparr>vm_bytes := poke (vm_bytes m) a bs\<rparr>) b n f) x"
    if sp: "in_space a (length bs)" for x
  proof (cases "x \<in> set (span_addrs a (length bs))")
    case True
    then obtain i where "i < length bs" "x = a + of_nat i" by (auto simp: set_addrs)
    moreover have "\<not> unat (x - b) < 8 * n" using True assms by (auto simp: apart_def list_all_iff)
    ultimately show ?thesis using poke_nth [OF sp] by (simp add: overlay_bytes)
  qed (simp add: overlay_bytes poke_other)
  then have "in_space a (length bs) \<Longrightarrow>
      (overlay m b n f)\<lparr>vm_bytes := poke (vm_bytes (overlay m b n f)) a bs\<rparr> = overlay (m\<lparr>vm_bytes := poke (vm_bytes m) a bs\<rparr>) b n f"
    by (intro vmem.equality) (auto simp: overlay_def)
  then show ?thesis by (simp add: process_vm_writev_def)
qed

section \<open>Vector registers and flags\<close>

lemma halves: "ucast (ucast v :: u64) OR push_bit 64 (ucast (ucast (drop_bit 64 v) :: u64)) = (v :: u128)"
  by (rule bit_word_eqI) (auto simp: bit_or_iff bit_push_bit_iff bit_ucast_iff bit_drop_bit_eq)

text \<open>
  Flags restored with \<^verbatim>\<open>popfq\<close> from an image: outside of the user flags nothing has changed them, so
  the result is the image's flags when the image differs from the saved one in user flags only.
\<close>

lemma bit_mask_eq: "a AND m = b AND m \<Longrightarrow> bit m n \<Longrightarrow> bit a n = bit (b :: 'a::len word) n"
  by (metis bit_and_iff)

lemma popfq_restores:
  assumes "f' AND NOT USER_FLAGS = f AND NOT USER_FLAGS" and "f AND RESUME_FLAG = 0"
    and "img AND USER_FLAGS = g AND USER_FLAGS" and "g AND NOT USER_FLAGS = f AND NOT USER_FLAGS"
  shows "popfq_flags img f' = g"
proof (rule bit_word_eqI)
  fix n assume "n < LENGTH(64)"
  then have U: "bit (NOT USER_FLAGS) n \<longleftrightarrow> \<not> bit USER_FLAGS n" by (simp add: bit_not_iff)
  show "bit (popfq_flags img f') n = bit g n"
  proof (cases "bit USER_FLAGS n")
    case True
    with bit_mask_eq [OF assms(3)] show ?thesis by (simp add: popfq_flags_def bit_or_iff bit_and_iff bit_not_iff)
  next
    case False
    have "bit f' n = bit f n" "bit g n = bit f n" using False U bit_mask_eq [OF assms(1)] bit_mask_eq [OF assms(4)] by auto
    moreover have "bit f n \<Longrightarrow> \<not> bit RESUME_FLAG n" using assms(2) by (metis bit_0_eq bit_and_iff bot_apply bot_bool_def)
    ultimately show ?thesis using False \<open>n < LENGTH(64)\<close> by (auto simp: popfq_flags_def bit_or_iff bit_and_iff bit_not_iff)
  qed
qed

lemma pushfq_image_user: "pushfq_image f AND USER_FLAGS = f AND USER_FLAGS"
  by (simp add: pushfq_image_def RESUME_FLAG_def VM_FLAG_def USER_FLAGS_def and.assoc)

lemma arith_flags_kept [simp]: "arith_flags st f AND NOT USER_FLAGS = f AND NOT USER_FLAGS"
proof -
  have "(a AND NOT s OR b AND s) AND NOT u = a AND NOT u" if "s AND NOT u = 0" for a b s u :: u64
  proof (rule bit_word_eqI)
    fix n
    have "\<not> bit (s AND NOT u) n" using that by simp
    then show "n < LENGTH(64) \<Longrightarrow> bit ((a AND NOT s OR b AND s) AND NOT u) n = bit (a AND NOT u) n"
      by (auto simp: bit_or_iff bit_and_iff bit_not_iff)
  qed
  moreover have "STATUS_FLAGS AND NOT USER_FLAGS = 0" by (simp add: STATUS_FLAGS_def USER_FLAGS_def)
  ultimately show ?thesis by (simp only: arith_flags_def)
qed

lemma carry_flags_kept [simp]: "carry_flags st c f AND NOT USER_FLAGS = f AND NOT USER_FLAGS"
proof -
  have "(1 :: u64) AND NOT USER_FLAGS = 0" "NOT 1 AND NOT USER_FLAGS = NOT USER_FLAGS" by (simp_all add: USER_FLAGS_def)
  then show ?thesis by (simp add: carry_flags_def and.assoc bit.conj_disj_distrib2)
qed

lemma popfq_flags_kept [simp]: "popfq_flags img f AND NOT USER_FLAGS = f AND NOT (USER_FLAGS OR RESUME_FLAG)"
  by (rule bit_word_eqI) (auto simp: popfq_flags_def bit_or_iff bit_and_iff bit_not_iff)

lemma carry_flags_bit [simp]: "bit (carry_flags st c f) 0 = c"
  by (simp add: carry_flags_def bit_or_iff bit_and_iff bit_not_iff)

end
