(* ===== verification/Stub_Set.thy ===== *)
theory Stub_Set
  imports Prelude
begin

text \<open>
  The open-addressed set of stub addresses of \<^verbatim>\<open>runtime/src/syscall/kuser_dispatch.rs\<close>
  (\<^verbatim>\<open>IAT_STUBS\<close>, \<^verbatim>\<open>stub_probe\<close>, \<^verbatim>\<open>remember_stub\<close> and the lookup of \<^verbatim>\<open>matches_iat_stub\<close>). Slots only
  go from zero to an address and inserts hold the scan lock, so an insert is one step. The
  import-table scan relies on it through the locale \<open>stub_store\<close>.
\<close>

section \<open>The table\<close>

definition IAT_CAPACITY :: nat where "IAT_CAPACITY = 4096"
definition IAT_STUB_SLOTS :: nat where "IAT_STUB_SLOTS = IAT_CAPACITY * 2"

record stub_set =
  ss_slots :: "u64 list"
  ss_count :: u64

definition stubs_new :: stub_set where
  "stubs_new = \<lparr>ss_slots = replicate IAT_STUB_SLOTS 0, ss_count = 0\<rparr>"

definition stub_hash :: "u64 \<Rightarrow> u64" where
  "stub_hash a = drop_bit 32 (drop_bit 4 a * 0x9e3779b97f4a7c15)"

definition stub_probe :: "u64 \<Rightarrow> nat list" where
  "stub_probe a = map (\<lambda>off. (unat (stub_hash a) + off) AND (IAT_STUB_SLOTS - 1)) [0..<IAT_STUB_SLOTS]"

fun insert_probing :: "u64 list \<Rightarrow> u64 \<Rightarrow> nat list \<Rightarrow> u64 list \<times> bool" where
  "insert_probing xs a [] = (xs, False)"
| "insert_probing xs a (i # is) =
     (if xs ! i = 0 then (xs[i := a], True)
      else if xs ! i = a then (xs, False)
      else insert_probing xs a is)"

definition remember_stub :: "stub_set \<Rightarrow> u64 \<Rightarrow> stub_set \<times> bool" where
  "remember_stub s a =
     (if a = 0 \<or> ss_count s \<ge> of_nat IAT_CAPACITY then (s, False)
      else let (xs, fresh) = insert_probing (ss_slots s) a (stub_probe a) in
        if fresh then (\<lparr>ss_slots = xs, ss_count = ss_count s + 1\<rparr>, True) else (s, False))"

fun find_probing :: "u64 list \<Rightarrow> u64 \<Rightarrow> nat list \<Rightarrow> bool" where
  "find_probing xs a [] = False"
| "find_probing xs a (i # is) =
     (if xs ! i = 0 then False else if xs ! i = a then True else find_probing xs a is)"

definition has_stub :: "stub_set \<Rightarrow> u64 \<Rightarrow> bool" where
  "has_stub s a = find_probing (ss_slots s) a (stub_probe a)"

section \<open>Open addressing\<close>

text \<open>Every stored address is reached by its probe sequence through occupied slots.\<close>

definition reachable_slot :: "u64 list \<Rightarrow> u64 \<Rightarrow> nat \<Rightarrow> bool" where
  "reachable_slot xs a i \<longleftrightarrow> (\<exists>ps qs. stub_probe a = ps @ i # qs \<and> (\<forall>p \<in> set ps. xs ! p \<noteq> 0))"

definition slots_inv :: "u64 list \<Rightarrow> bool" where
  "slots_inv xs \<longleftrightarrow> length xs = IAT_STUB_SLOTS \<and> (\<forall>i < length xs. xs ! i \<noteq> 0 \<longrightarrow> reachable_slot xs (xs ! i) i)"

lemma probe_eq: "stub_probe a = map (\<lambda>off. (unat (stub_hash a) + off) mod IAT_STUB_SLOTS) [0..<IAT_STUB_SLOTS]"
proof -
  have "n AND (IAT_STUB_SLOTS - 1) = n mod IAT_STUB_SLOTS" for n
    using take_bit_eq_mask [of 13 n] take_bit_eq_mod [of 13 n]
    by (simp add: IAT_STUB_SLOTS_def IAT_CAPACITY_def mask_eq_exp_minus_1)
  then show ?thesis by (simp add: stub_probe_def)
qed

lemma probe_range: "set (stub_probe a) = {..<IAT_STUB_SLOTS}"
proof
  show "set (stub_probe a) \<subseteq> {..<IAT_STUB_SLOTS}"
    by (auto simp: probe_eq IAT_STUB_SLOTS_def IAT_CAPACITY_def)
  show "{..<IAT_STUB_SLOTS} \<subseteq> set (stub_probe a)"
  proof
    fix i assume i: "i \<in> {..<IAT_STUB_SLOTS}"
    let ?h = "unat (stub_hash a) mod IAT_STUB_SLOTS"
    have h: "?h < IAT_STUB_SLOTS" by (simp add: IAT_STUB_SLOTS_def IAT_CAPACITY_def)
    define off where "off = (if ?h \<le> i then i - ?h else i + IAT_STUB_SLOTS - ?h)"
    have "(?h + off) mod IAT_STUB_SLOTS = i" "off < IAT_STUB_SLOTS" using i h by (cases "?h \<le> i"; simp add: off_def)+
    then have "(unat (stub_hash a) + off) mod IAT_STUB_SLOTS = i" by (simp add: mod_add_left_eq)
    with \<open>off < IAT_STUB_SLOTS\<close> show "i \<in> set (stub_probe a)" by (force simp: probe_eq)
  qed
qed

lemma find_probing_skip:
  "\<forall>p \<in> set ps. xs ! p \<noteq> 0 \<Longrightarrow> find_probing xs a (ps @ qs) = (a \<in> (\<lambda>p. xs ! p) ` set ps \<or> find_probing xs a qs)"
  by (induction ps) auto

lemma insert_probing_skip:
  "\<forall>p \<in> set ps. xs ! p \<noteq> 0 \<Longrightarrow> insert_probing xs a (ps @ qs) =
     (if a \<in> (\<lambda>p. xs ! p) ` set ps then (xs, False) else insert_probing xs a qs)"
  by (induction ps) auto

text \<open>A probe sequence has occupied slots up to its first free one, if it has one.\<close>

lemma first_free:
  "(\<exists>p \<in> set l. xs ! p = (0 :: u64)) \<Longrightarrow>
     \<exists>ps i qs. l = ps @ i # qs \<and> xs ! i = 0 \<and> (\<forall>p \<in> set ps. xs ! p \<noteq> 0)"
  by (rule split_list_first_prop)

lemma find_probing_iff:
  assumes inv: "slots_inv xs" and "a \<noteq> 0"
  shows "find_probing xs a (stub_probe a) \<longleftrightarrow> a \<in> set xs"
proof
  have sound: "\<exists>i \<in> set l. xs ! i = a" if "find_probing xs a l" for l
    using that by (induction l) (auto split: if_splits)
  assume "find_probing xs a (stub_probe a)"
  with sound obtain i where "i \<in> set (stub_probe a)" "xs ! i = a" by blast
  with inv show "a \<in> set xs" by (auto simp: probe_range slots_inv_def)
next
  assume "a \<in> set xs"
  then obtain i where i: "i < length xs" "xs ! i = a" by (auto simp: in_set_conv_nth)
  with inv assms(2) have "reachable_slot xs a i" by (auto simp: slots_inv_def)
  then obtain ps qs where "stub_probe a = ps @ i # qs" "\<forall>p \<in> set ps. xs ! p \<noteq> 0" by (auto simp: reachable_slot_def)
  with i assms(2) show "find_probing xs a (stub_probe a)" by (simp add: find_probing_skip)
qed

lemma insert_probing_old:
  assumes inv: "slots_inv xs" and "a \<noteq> 0" and "a \<in> set xs"
  shows "insert_probing xs a (stub_probe a) = (xs, False)"
proof -
  from assms(3) obtain i where i: "i < length xs" "xs ! i = a" by (auto simp: in_set_conv_nth)
  with inv assms(2) obtain ps qs where "stub_probe a = ps @ i # qs" "\<forall>p \<in> set ps. xs ! p \<noteq> 0"
    unfolding slots_inv_def reachable_slot_def by metis
  with i assms(2) show ?thesis by (simp add: insert_probing_skip)
qed

lemma insert_probing_new:
  assumes inv: "slots_inv xs" and "a \<noteq> 0" and "a \<notin> set xs" and "0 \<in> set xs"
  obtains i where "insert_probing xs a (stub_probe a) = (xs[i := a], True)" and "i < length xs" and "xs ! i = 0"
    and "slots_inv (xs[i := a])"
proof -
  from assms(4) inv have "\<exists>p \<in> set (stub_probe a). xs ! p = 0"
    by (auto simp: in_set_conv_nth probe_range slots_inv_def)
  from first_free [OF this] obtain ps i qs where p: "stub_probe a = ps @ i # qs" "xs ! i = 0" "\<forall>p \<in> set ps. xs ! p \<noteq> 0"
    by blast
  have i: "i \<in> set (stub_probe a)" and ps: "set ps \<subseteq> set (stub_probe a)" using p(1) by auto
  then have il: "i < length xs" and pl: "\<forall>p \<in> set ps. p < length xs" using inv by (auto simp: probe_range slots_inv_def)
  have "a \<notin> (\<lambda>p. xs ! p) ` set ps" using assms(3) pl by auto
  with p have ins: "insert_probing xs a (stub_probe a) = (xs[i := a], True)" by (simp add: insert_probing_skip)
  have mono: "xs[i := a] ! q \<noteq> 0" if "xs ! q \<noteq> 0" for q
    using that il assms(2) by (cases "q = i") auto
  have "reachable_slot (xs[i := a]) (xs[i := a] ! j) j" if j: "j < length xs" "xs[i := a] ! j \<noteq> 0" for j
  proof (cases "j = i")
    case True
    with p il mono show ?thesis unfolding reachable_slot_def by (intro exI [of _ ps] exI [of _ qs]) auto
  next
    case False
    with j inv have "reachable_slot xs (xs ! j) j" by (simp add: slots_inv_def)
    then obtain ps' qs' where "stub_probe (xs ! j) = ps' @ j # qs'" "\<forall>p \<in> set ps'. xs ! p \<noteq> 0"
      unfolding reachable_slot_def by blast
    with False mono show ?thesis unfolding reachable_slot_def by (intro exI [of _ ps'] exI [of _ qs']) auto
  qed
  with inv have "slots_inv (xs[i := a])" by (simp add: slots_inv_def)
  with that ins il p(2) show thesis by blast
qed

section \<open>The interface\<close>

text \<open>
  A bounded set of non-zero addresses: while there is room adding puts the address in and says
  whether it was new, adding zero or to a full set does nothing.
\<close>

locale stub_store =
  fixes invar :: "'s \<Rightarrow> bool"
    and elems :: "'s \<Rightarrow> u64 set"
    and room :: "'s \<Rightarrow> bool"
    and add :: "'s \<Rightarrow> u64 \<Rightarrow> 's \<times> bool"
    and has :: "'s \<Rightarrow> u64 \<Rightarrow> bool"
    and used :: "'s \<Rightarrow> nat"
    and cap :: nat
  assumes elems_nonzero: "invar s \<Longrightarrow> 0 \<notin> elems s"
    and has_iff: "invar s \<Longrightarrow> a \<noteq> 0 \<Longrightarrow> has s a \<longleftrightarrow> a \<in> elems s"
    and add_room: "invar s \<Longrightarrow> a \<noteq> 0 \<Longrightarrow> room s \<Longrightarrow> add s a = (s', fresh) \<Longrightarrow>
      invar s' \<and> elems s' = insert a (elems s) \<and> fresh = (a \<notin> elems s)"
    and add_refused: "invar s \<Longrightarrow> a = 0 \<or> \<not> room s \<Longrightarrow> add s a = (s, False)"
    and used_room: "invar s \<Longrightarrow> used s < cap \<Longrightarrow> room s"
    and add_used: "invar s \<Longrightarrow> used (fst (add s a)) \<le> used s + 1"
begin

lemma add_cases:
  assumes "invar s" and "add s a = (s', fresh)"
  shows "invar s' \<and> elems s \<subseteq> elems s' \<and> elems s' \<subseteq> insert a (elems s) \<and> (fresh \<longleftrightarrow> elems s' \<noteq> elems s)"
proof (cases "a \<noteq> 0 \<and> room s")
  case True
  with add_room [OF assms(1) _ _ assms(2)] show ?thesis by auto
next
  case False
  with add_refused [OF assms(1), of a] assms show ?thesis by auto
qed

text \<open>Adding a list that fits puts in exactly its non-zero members.\<close>

lemma add_list:
  assumes "invar s" and "used s + length ds \<le> cap"
  shows "invar (fold (\<lambda>d s. fst (add s d)) ds s) \<and> elems (fold (\<lambda>d s. fst (add s d)) ds s) = elems s \<union> (set ds - {0})"
  using assms
proof (induction ds arbitrary: s)
  case (Cons d ds)
  obtain s' fresh where a: "add s d = (s', fresh)" by (cases "add s d")
  have "used s' + length ds \<le> cap" using add_used [OF Cons.prems(1), of d] a Cons.prems(2) by simp
  moreover have "invar s' \<and> elems s' = elems s \<union> ({d} - {0})"
  proof (cases "d = 0")
    case True
    with add_refused [OF Cons.prems(1), of d] a Cons.prems(1) show ?thesis by simp
  next
    case False
    with add_room [OF Cons.prems(1) False _ a] used_room [OF Cons.prems(1)] Cons.prems(2) show ?thesis by simp
  qed
  ultimately show ?case using Cons.IH [of s'] a by auto
qed simp

end

section \<open>The table is such a set\<close>

definition stored :: "stub_set \<Rightarrow> u64 set" where
  "stored s = set (ss_slots s) - {0}"

definition stubs_inv :: "stub_set \<Rightarrow> bool" where
  "stubs_inv s \<longleftrightarrow> slots_inv (ss_slots s) \<and> unat (ss_count s) = length (filter (\<lambda>x. x \<noteq> 0) (ss_slots s)) \<and>
     unat (ss_count s) \<le> IAT_CAPACITY"

definition stubs_room :: "stub_set \<Rightarrow> bool" where
  "stubs_room s \<longleftrightarrow> unat (ss_count s) < IAT_CAPACITY"

lemma stubs_room_iff: "stubs_room s \<longleftrightarrow> ss_count s < of_nat IAT_CAPACITY"
  by (simp add: stubs_room_def word_less_nat_alt IAT_CAPACITY_def)

lemma free_slot:
  assumes "stubs_inv s"
  shows "0 \<in> set (ss_slots s)"
proof (rule ccontr)
  assume "0 \<notin> set (ss_slots s)"
  then have "filter (\<lambda>x. x \<noteq> 0) (ss_slots s) = ss_slots s" by (metis (mono_tags, lifting) filter_True)
  with assms have "IAT_STUB_SLOTS \<le> IAT_CAPACITY" by (simp add: stubs_inv_def slots_inv_def)
  then show False by (simp add: IAT_STUB_SLOTS_def IAT_CAPACITY_def)
qed

lemma remember_stub_room:
  assumes inv: "stubs_inv s" and "a \<noteq> 0" and room: "stubs_room s" and r: "remember_stub s a = (s', fresh)"
  shows "stubs_inv s' \<and> stored s' = insert a (stored s) \<and> fresh = (a \<notin> stored s)"
proof (cases "a \<in> set (ss_slots s)")
  case True
  with inv assms(2) have "insert_probing (ss_slots s) a (stub_probe a) = (ss_slots s, False)"
    by (intro insert_probing_old) (simp_all add: stubs_inv_def)
  with r have "s' = s \<and> \<not> fresh" by (auto simp: remember_stub_def split: if_splits)
  with inv True assms(2) show ?thesis by (auto simp: stored_def)
next
  case False
  obtain i where i: "insert_probing (ss_slots s) a (stub_probe a) = ((ss_slots s)[i := a], True)"
    "i < length (ss_slots s)" "ss_slots s ! i = 0" "slots_inv ((ss_slots s)[i := a])"
    using insert_probing_new [of "ss_slots s" a] inv assms(2) False free_slot [OF inv] by (auto simp: stubs_inv_def)
  from r i(1) assms(2) room have s': "s' = \<lparr>ss_slots = (ss_slots s)[i := a], ss_count = ss_count s + 1\<rparr>" "fresh"
    by (auto simp: remember_stub_def stubs_room_iff split: if_splits)
  have "unat (ss_count s + 1) = unat (ss_count s) + 1"
    using room by (subst unat_add_no_overflow) (simp_all add: stubs_room_def IAT_CAPACITY_def)
  moreover have "length (filter (\<lambda>x. x \<noteq> 0) ((ss_slots s)[i := a])) = length (filter (\<lambda>x. x \<noteq> 0) (ss_slots s)) + 1"
    using length_filter_update [OF i(2), of "\<lambda>x. x \<noteq> 0" a] i(3) assms(2) by simp
  ultimately have "stubs_inv s'" using inv i(4) room s'(1) by (simp add: stubs_inv_def stubs_room_def)
  moreover have "set ((ss_slots s)[i := a]) - {0} = insert a (set (ss_slots s) - {0})"
  proof -
    have "x \<in> set ((ss_slots s)[i := a])" if "x \<in> set (ss_slots s)" "x \<noteq> 0" for x
      using that i(2,3) by (metis in_set_conv_nth length_list_update nth_list_update_neq)
    then show ?thesis using set_update_subset_insert [of "ss_slots s" i a] set_update_memI [OF i(2), of a] assms(2) by auto
  qed
  ultimately show ?thesis using s' False by (auto simp: stored_def)
qed

interpretation ss: stub_store stubs_inv stored stubs_room remember_stub has_stub "\<lambda>s. unat (ss_count s)" IAT_CAPACITY
proof unfold_locales
  fix s s' a fresh
  show "stubs_inv s \<Longrightarrow> 0 \<notin> stored s" by (simp add: stored_def)
  show "stubs_inv s \<Longrightarrow> a \<noteq> 0 \<Longrightarrow> has_stub s a \<longleftrightarrow> a \<in> stored s"
    using find_probing_iff by (simp add: has_stub_def stored_def stubs_inv_def)
  show "stubs_inv s \<Longrightarrow> a \<noteq> 0 \<Longrightarrow> stubs_room s \<Longrightarrow> remember_stub s a = (s', fresh) \<Longrightarrow>
      stubs_inv s' \<and> stored s' = insert a (stored s) \<and> fresh = (a \<notin> stored s)"
    by (rule remember_stub_room)
  show "stubs_inv s \<Longrightarrow> a = 0 \<or> \<not> stubs_room s \<Longrightarrow> remember_stub s a = (s, False)"
    by (auto simp: remember_stub_def stubs_room_iff not_less)
  show "stubs_inv s \<Longrightarrow> unat (ss_count s) < IAT_CAPACITY \<Longrightarrow> stubs_room s" by (simp add: stubs_room_def)
  have "unat (ss_count s + 1) \<le> unat (ss_count s) + 1" by (simp add: unat_word_ariths)
  then show "stubs_inv s \<Longrightarrow> unat (ss_count (fst (remember_stub s a))) \<le> unat (ss_count s) + 1"
    by (auto simp: remember_stub_def split: prod.splits)
qed

lemma stubs_inv_new: "stubs_inv stubs_new" "stored stubs_new = {}"
  by (auto simp: stubs_new_def stubs_inv_def slots_inv_def stored_def)

text \<open>
  The table of stub addresses is a set. Whatever addresses are inserted, in whatever order
  and however their hashes collide, as long as they are no more than the capacity a lookup of a
  non-zero address succeeds exactly when it was inserted.
\<close>

lemma stub_lookup_after_inserts:
  assumes "a \<noteq> 0" and "length ds \<le> IAT_CAPACITY"
  shows "has_stub (fold (\<lambda>d s. fst (remember_stub s d)) ds stubs_new) a \<longleftrightarrow> a \<in> set ds"
proof -
  have "unat (ss_count stubs_new) + length ds \<le> IAT_CAPACITY" using assms(2) by (simp add: stubs_new_def)
  from ss.add_list [OF stubs_inv_new(1) this] stubs_inv_new(2)
  have "stubs_inv (fold (\<lambda>d s. fst (remember_stub s d)) ds stubs_new)"
    "stored (fold (\<lambda>d s. fst (remember_stub s d)) ds stubs_new) = set ds - {0}" by simp_all
  with ss.has_iff assms(1) show ?thesis by simp
qed

end
