(* ===== verification/Markers.thy ===== *)
theory Markers
  imports Prelude
begin

text \<open>
  The marker table of \<^verbatim>\<open>runtime/src/syscall/reflex_markers.rs\<close>, which hands a bridged system
  call over from the KUSER dispatcher to the SIGSYS router: armed once, consumed once as a
  route and once as a replay. The parallel arrays of atomics are one list of slots; an
  operation is one step, its reservation of a slot (the value \<open>u64::MAX\<close>) being visible only
  inside it. The router relies on the table through the locale \<open>marker_store\<close>.
\<close>

section \<open>The table\<close>

definition MARKER_CAPACITY :: nat where "MARKER_CAPACITY = 256"

record saved_context =
  sc_xmm4 :: bytes
  sc_xmm5 :: bytes
  sc_r11 :: u64
  sc_eflags :: u64

datatype phase = Route | Replay saved_context

record marker =
  mk_stack :: u64
  mk_tid :: u64
  mk_rip :: u64
  mk_phase :: u64
  mk_xmm4 :: "u64 \<times> u64"
  mk_xmm5 :: "u64 \<times> u64"
  mk_r11 :: u64
  mk_eflags :: u64

definition MARKER_EMPTY :: marker where
  "MARKER_EMPTY = \<lparr>mk_stack = 0, mk_tid = 0, mk_rip = 0, mk_phase = 0, mk_xmm4 = (0, 0), mk_xmm5 = (0, 0),
     mk_r11 = 0, mk_eflags = 0\<rparr>"

record markers =
  mt_active :: u32
  mt_slots :: "marker list"

definition markers_new :: markers where
  "markers_new = \<lparr>mt_active = 0, mt_slots = replicate MARKER_CAPACITY MARKER_EMPTY\<rparr>"

definition has_active_markers :: "markers \<Rightarrow> bool" where
  "has_active_markers m \<longleftrightarrow> mt_active m \<noteq> 0"

definition marker_slot :: "u64 \<Rightarrow> nat" where
  "marker_slot stack = unat (drop_bit 4 stack) mod MARKER_CAPACITY"

definition probe_slots :: "u64 \<Rightarrow> nat list" where
  "probe_slots stack = map (\<lambda>off. (marker_slot stack + off) mod MARKER_CAPACITY) [0..<MARKER_CAPACITY]"

type_synonym marker_key = "u64 \<times> u64 \<times> u64"

definition mk_key :: "marker \<Rightarrow> marker_key" where
  "mk_key k = (mk_tid k, mk_stack k, mk_rip k)"

definition find_marker :: "markers \<Rightarrow> marker_key \<Rightarrow> nat option" where
  "find_marker m key = (case key of (tid, stack, rip) \<Rightarrow>
     if \<not> has_active_markers m then None
     else List.find (\<lambda>i. mk_stack (mt_slots m ! i) = stack \<and> mk_tid (mt_slots m ! i) = tid \<and>
                         mk_rip (mt_slots m ! i) = rip) (probe_slots stack))"

definition remember_marker :: "markers \<Rightarrow> marker_key \<Rightarrow> markers \<times> bool" where
  "remember_marker m key = (case key of (tid, stack, rip) \<Rightarrow>
     if tid = 0 \<or> stack = 0 \<or> rip = 0 then (m, False)
     else case List.find (\<lambda>i. mk_stack (mt_slots m ! i) = 0) (probe_slots stack) of
       None \<Rightarrow> (m, False)
     | Some i \<Rightarrow>
         (\<lparr>mt_active = mt_active m + 1,
           mt_slots = (mt_slots m)[i := (mt_slots m ! i)\<lparr>mk_tid := tid, mk_rip := rip, mk_phase := 0, mk_stack := stack\<rparr>]\<rparr>, True))"

definition release_marker :: "markers \<Rightarrow> nat \<Rightarrow> u64 \<Rightarrow> markers" where
  "release_marker m i stack =
     (if mk_stack (mt_slots m ! i) \<noteq> stack then m
      else \<lparr>mt_active = mt_active m - 1, mt_slots = (mt_slots m)[i := MARKER_EMPTY]\<rparr>)"

definition retire_one :: "u64 \<Rightarrow> u64 \<Rightarrow> nat \<Rightarrow> markers \<Rightarrow> markers" where
  "retire_one tid stack i m =
     (let k = mt_slots m ! i in
      if mk_tid k \<noteq> tid then m
      else if mk_stack k = 0 \<or> mk_stack k = - 1 \<or> mk_stack k > stack then m
      else release_marker m i (mk_stack k))"

definition retire_markers :: "markers \<Rightarrow> u64 \<Rightarrow> u64 \<Rightarrow> markers" where
  "retire_markers m tid stack =
     (if tid = 0 \<or> \<not> has_active_markers m then m
      else fold (retire_one tid stack) [0..<MARKER_CAPACITY] m)"

definition halves :: "bytes \<Rightarrow> u64 \<times> u64" where
  "halves x = (from_le (take 8 x), from_le (take 8 (drop 8 x)))"

definition unhalves :: "u64 \<times> u64 \<Rightarrow> bytes" where
  "unhalves h = to_le 8 (fst h) @ to_le 8 (snd h)"

definition consume_marker :: "markers \<Rightarrow> marker_key \<Rightarrow> saved_context \<Rightarrow> markers \<times> phase option" where
  "consume_marker m key c = (case key of (tid, stack, rip) \<Rightarrow>
     if tid = 0 \<or> stack = 0 \<or> rip = 0 then (m, None)
     else case find_marker m key of
       None \<Rightarrow> (m, None)
     | Some i \<Rightarrow>
         (let k = mt_slots m ! i in
          if mk_phase k = 0 then
            (m\<lparr>mt_slots := (mt_slots m)[i := k\<lparr>mk_phase := 1, mk_xmm4 := halves (sc_xmm4 c), mk_xmm5 := halves (sc_xmm5 c),
                mk_r11 := sc_r11 c, mk_eflags := sc_eflags c\<rparr>]\<rparr>, Some Route)
          else if mk_phase k = 1 then
            (release_marker (m\<lparr>mt_slots := (mt_slots m)[i := k\<lparr>mk_phase := 2\<rparr>]\<rparr>) i stack,
             Some (Replay \<lparr>sc_xmm4 = unhalves (mk_xmm4 k), sc_xmm5 = unhalves (mk_xmm5 k), sc_r11 = mk_r11 k, sc_eflags = mk_eflags k\<rparr>))
          else (release_marker m i stack, None)))"

definition cancel_marker :: "markers \<Rightarrow> marker_key \<Rightarrow> markers" where
  "cancel_marker m key = (case find_marker m key of
       None \<Rightarrow> m
     | Some i \<Rightarrow> release_marker m i (fst (snd key)))"

section \<open>Invariant\<close>

definition occupied :: "marker \<Rightarrow> bool" where
  "occupied k \<longleftrightarrow> mk_stack k \<noteq> 0"

definition occupancy :: "markers \<Rightarrow> nat" where
  "occupancy m = length (filter occupied (mt_slots m))"

definition markers_inv :: "markers \<Rightarrow> bool" where
  "markers_inv m \<longleftrightarrow> length (mt_slots m) = MARKER_CAPACITY \<and> unat (mt_active m) = occupancy m \<and>
     (\<forall>i < MARKER_CAPACITY. \<forall>j < MARKER_CAPACITY. occupied (mt_slots m ! i) \<and>
        mk_key (mt_slots m ! i) = mk_key (mt_slots m ! j) \<longrightarrow> i = j) \<and>
     (\<forall>i < MARKER_CAPACITY. mk_phase (mt_slots m ! i) \<le> 1)"

lemma probe_covers: "set (probe_slots stack) = {0..<MARKER_CAPACITY}"
proof
  show "set (probe_slots stack) \<subseteq> {0..<MARKER_CAPACITY}"
    by (auto simp: probe_slots_def MARKER_CAPACITY_def)
  show "{0..<MARKER_CAPACITY} \<subseteq> set (probe_slots stack)"
  proof
    fix i assume i: "i \<in> {0..<MARKER_CAPACITY}"
    let ?s = "marker_slot stack"
    have s: "?s < MARKER_CAPACITY" by (simp add: marker_slot_def MARKER_CAPACITY_def)
    define off where "off = (if ?s \<le> i then i - ?s else i + MARKER_CAPACITY - ?s)"
    have "(?s + off) mod MARKER_CAPACITY = i" "off < MARKER_CAPACITY"
      using i s by (auto simp: off_def)
    then show "i \<in> set (probe_slots stack)" by (force simp: probe_slots_def)
  qed
qed

lemma markers_invD:
  assumes "markers_inv m"
  shows "length (mt_slots m) = MARKER_CAPACITY" and "unat (mt_active m) = occupancy m"
    and "\<And>i j. i < MARKER_CAPACITY \<Longrightarrow> j < MARKER_CAPACITY \<Longrightarrow> occupied (mt_slots m ! i) \<Longrightarrow>
           mk_key (mt_slots m ! i) = mk_key (mt_slots m ! j) \<Longrightarrow> i = j"
    and "\<And>i. i < MARKER_CAPACITY \<Longrightarrow> mk_phase (mt_slots m ! i) \<le> 1"
  using assms by (auto simp: markers_inv_def)

lemma active_iff:
  assumes "markers_inv m"
  shows "has_active_markers m \<longleftrightarrow> (\<exists>i < MARKER_CAPACITY. occupied (mt_slots m ! i))"
proof -
  have "has_active_markers m \<longleftrightarrow> occupancy m \<noteq> 0"
    using markers_invD(2) [OF assms] by (simp add: has_active_markers_def unat_eq_0 flip: unat_eq_0)
  also have "\<dots> \<longleftrightarrow> (\<exists>k \<in> set (mt_slots m). occupied k)" by (auto simp: occupancy_def filter_empty_conv)
  finally show ?thesis using markers_invD(1) [OF assms] by (metis in_set_conv_nth)
qed

text \<open>Under the invariant the probe finds the one slot with the key, if there is one.\<close>

lemma find_marker_iff:
  assumes inv: "markers_inv m" and "stack \<noteq> 0"
  shows "find_marker m (tid, stack, rip) = Some i \<longleftrightarrow> i < MARKER_CAPACITY \<and> mk_key (mt_slots m ! i) = (tid, stack, rip)"
proof -
  let ?P = "\<lambda>i. mk_stack (mt_slots m ! i) = stack \<and> mk_tid (mt_slots m ! i) = tid \<and> mk_rip (mt_slots m ! i) = rip"
  have P: "?P i \<longleftrightarrow> mk_key (mt_slots m ! i) = (tid, stack, rip)" for i by (auto simp: mk_key_def)
  show ?thesis
  proof
    assume f: "find_marker m (tid, stack, rip) = Some i"
    then have "List.find ?P (probe_slots stack) = Some i" by (simp add: find_marker_def split: if_splits)
    then have "i \<in> set (probe_slots stack)" "?P i" by (auto simp: find_Some_iff)
    with P show "i < MARKER_CAPACITY \<and> mk_key (mt_slots m ! i) = (tid, stack, rip)" by (simp add: probe_covers)
  next
    assume i: "i < MARKER_CAPACITY \<and> mk_key (mt_slots m ! i) = (tid, stack, rip)"
    then have occ: "occupied (mt_slots m ! i)" using assms(2) by (auto simp: occupied_def mk_key_def)
    with i have act: "has_active_markers m" using active_iff [OF inv] by blast
    obtain j where j: "List.find ?P (probe_slots stack) = Some j"
      using i P probe_covers [of stack] by (cases "List.find ?P (probe_slots stack)") (auto simp: find_None_iff)
    then have "j \<in> set (probe_slots stack)" "?P j" by (auto simp: find_Some_iff)
    then have "j < MARKER_CAPACITY" "mk_key (mt_slots m ! j) = (tid, stack, rip)" using P by (simp_all add: probe_covers)
    with i occ markers_invD(3) [OF inv] have "i = j" by simp
    with j act show "find_marker m (tid, stack, rip) = Some i" by (simp add: find_marker_def)
  qed
qed

lemma update_inv:
  assumes inv: "markers_inv m" and i: "i < MARKER_CAPACITY" and ph: "mk_phase k \<le> 1"
    and uniq: "occupied k \<Longrightarrow> (\<And>j. j < MARKER_CAPACITY \<Longrightarrow> j \<noteq> i \<Longrightarrow> mk_key (mt_slots m ! j) \<noteq> mk_key k)"
    and act: "unat a + (if occupied (mt_slots m ! i) then 1 else 0) = unat (mt_active m) + (if occupied k then 1 else 0)"
  shows "markers_inv \<lparr>mt_active = a, mt_slots = (mt_slots m)[i := k]\<rparr>" (is "markers_inv ?m")
proof -
  note len = markers_invD(1) [OF inv]
  have "occupancy ?m + (if occupied (mt_slots m ! i) then 1 else 0) = occupancy m + (if occupied k then 1 else 0)"
    using i len by (simp only: occupancy_def markers.select_convs length_filter_update)
  with act markers_invD(2) [OF inv] have "unat (mt_active ?m) = occupancy ?m" by (simp split: if_splits)
  moreover have "j = l" if "j < MARKER_CAPACITY" "l < MARKER_CAPACITY" "occupied (mt_slots ?m ! j)"
      "mk_key (mt_slots ?m ! j) = mk_key (mt_slots ?m ! l)" for j l
  proof -
    have occ_key: "occupied x \<longleftrightarrow> fst (snd (mk_key x)) \<noteq> 0" for x by (simp add: occupied_def mk_key_def)
    show ?thesis
    proof (cases "j = i \<or> l = i")
      case True
      with that uniq i len occ_key show ?thesis by (auto simp: nth_list_update split: if_splits)
    next
      case False
      with that markers_invD(3) [OF inv, of j l] show ?thesis by simp
    qed
  qed
  moreover have "mk_phase (mt_slots ?m ! j) \<le> 1" if "j < MARKER_CAPACITY" for j
    using that ph markers_invD(4) [OF inv, of j] len i by (simp add: nth_list_update)
  ultimately show ?thesis using len by (auto simp: markers_inv_def)
qed

section \<open>What the router relies on\<close>

datatype marker_view = Armed | Routed saved_context

definition good_key :: "marker_key \<Rightarrow> bool" where
  "good_key key \<longleftrightarrow> (case key of (tid, stack, rip) \<Rightarrow> tid \<noteq> 0 \<and> stack \<noteq> 0 \<and> rip \<noteq> 0)"

definition good_context :: "saved_context \<Rightarrow> bool" where
  "good_context c \<longleftrightarrow> length (sc_xmm4 c) = 16 \<and> length (sc_xmm5 c) = 16"

text \<open>
  A store of markers: arming a key makes it armed, the first consumption routes and keeps the
  context, the second replays that context and forgets the key, dropping forgets it, and no
  operation on one key changes what is stored under another.
\<close>

locale marker_store =
  fixes invar :: "'m \<Rightarrow> bool"
    and lookup :: "'m \<Rightarrow> marker_key \<Rightarrow> marker_view option"
    and arm :: "'m \<Rightarrow> marker_key \<Rightarrow> 'm \<times> bool"
    and consume :: "'m \<Rightarrow> marker_key \<Rightarrow> saved_context \<Rightarrow> 'm \<times> phase option"
    and drop_key :: "'m \<Rightarrow> marker_key \<Rightarrow> 'm"
  assumes arm_ok: "invar m \<Longrightarrow> good_key k \<Longrightarrow> lookup m k = None \<Longrightarrow> arm m k = (m', True) \<Longrightarrow>
      invar m' \<and> lookup m' k = Some Armed \<and> (\<forall>k'. good_key k' \<longrightarrow> k' \<noteq> k \<longrightarrow> lookup m' k' = lookup m k')"
    and arm_full: "invar m \<Longrightarrow> arm m k = (m', False) \<Longrightarrow> m' = m"
    and consume_none: "invar m \<Longrightarrow> good_key k \<Longrightarrow> lookup m k = None \<Longrightarrow> consume m k c = (m, None)"
    and consume_route: "invar m \<Longrightarrow> good_key k \<Longrightarrow> good_context c \<Longrightarrow> lookup m k = Some Armed \<Longrightarrow>
      \<exists>m'. consume m k c = (m', Some Route) \<and> invar m' \<and> lookup m' k = Some (Routed c) \<and>
        (\<forall>k'. good_key k' \<longrightarrow> k' \<noteq> k \<longrightarrow> lookup m' k' = lookup m k')"
    and consume_replay: "invar m \<Longrightarrow> good_key k \<Longrightarrow> lookup m k = Some (Routed c) \<Longrightarrow>
      \<exists>m'. consume m k c' = (m', Some (Replay c)) \<and> invar m' \<and> lookup m' k = None \<and>
        (\<forall>k'. good_key k' \<longrightarrow> k' \<noteq> k \<longrightarrow> lookup m' k' = lookup m k')"
    and drop_forgets: "invar m \<Longrightarrow> good_key k \<Longrightarrow>
      invar (drop_key m k) \<and> lookup (drop_key m k) k = None \<and>
        (\<forall>k'. good_key k' \<longrightarrow> k' \<noteq> k \<longrightarrow> lookup (drop_key m k) k' = lookup m k')"
begin

lemma lifecycle:
  assumes "invar m" and "good_key k" and "good_context c" and "lookup m k = None" and "arm m k = (m1, True)"
  shows "\<exists>m2 m3. consume m1 k c = (m2, Some Route) \<and> consume m2 k c' = (m3, Some (Replay c)) \<and>
    consume m3 k c'' = (m3, None) \<and> invar m3 \<and> lookup m3 k = None \<and> (\<forall>k'. good_key k' \<longrightarrow> lookup m3 k' = lookup m k')"
proof -
  from arm_ok [OF assms(1,2,4,5)] have 1: "invar m1" "lookup m1 k = Some Armed"
    "\<And>k'. good_key k' \<Longrightarrow> k' \<noteq> k \<Longrightarrow> lookup m1 k' = lookup m k'" by auto
  from consume_route [OF 1(1) assms(2,3) 1(2)] obtain m2 where 2: "consume m1 k c = (m2, Some Route)" "invar m2"
    "lookup m2 k = Some (Routed c)" "\<And>k'. good_key k' \<Longrightarrow> k' \<noteq> k \<Longrightarrow> lookup m2 k' = lookup m1 k'" by auto
  from consume_replay [OF 2(2) assms(2) 2(3)] obtain m3 where 3: "consume m2 k c' = (m3, Some (Replay c))" "invar m3"
    "lookup m3 k = None" "\<And>k'. good_key k' \<Longrightarrow> k' \<noteq> k \<Longrightarrow> lookup m3 k' = lookup m2 k'" by metis
  have "lookup m3 k' = lookup m k'" if "good_key k'" for k'
    using 1(3) 2(4) 3(3,4) that assms(4) by (cases "k' = k") auto
  with 2(1) 3 consume_none [OF 3(2) assms(2) 3(3)] show ?thesis by blast
qed

lemma route_unless_replayed:
  assumes "invar m" and "good_key k" and "consume m k c = (m', Some Route)" and "good_context c"
  shows "lookup m k = Some Armed \<and> invar m' \<and> lookup m' k = Some (Routed c)"
proof -
  consider "lookup m k = None" | "lookup m k = Some Armed" | c0 where "lookup m k = Some (Routed c0)"
    by (metis marker_view.exhaust option.exhaust)
  then show ?thesis
  proof cases
    case 1
    with consume_none [OF assms(1,2)] assms(3) show ?thesis by simp
  next
    case 2
    with consume_route [OF assms(1,2,4)] assms(3) show ?thesis by auto
  next
    case 3
    with consume_replay [OF assms(1,2) 3, of c] assms(3) show ?thesis by auto
  qed
qed

end

section \<open>The table is such a store\<close>

definition slot_view :: "marker \<Rightarrow> marker_view" where
  "slot_view k = (if mk_phase k = 0 then Armed
     else Routed \<lparr>sc_xmm4 = unhalves (mk_xmm4 k), sc_xmm5 = unhalves (mk_xmm5 k), sc_r11 = mk_r11 k, sc_eflags = mk_eflags k\<rparr>)"

definition lookup_marker :: "markers \<Rightarrow> marker_key \<Rightarrow> marker_view option" where
  "lookup_marker m key = map_option (\<lambda>i. slot_view (mt_slots m ! i)) (find_marker m key)"

lemma unhalves_halves: "length x = 16 \<Longrightarrow> unhalves (halves x) = x"
proof -
  assume len: "length x = 16"
  have "to_le 8 (from_le (take 8 x) :: u64) = take 8 x"
    using to_le_from_le [of "take 8 x", where ?'a = 64] len by simp
  moreover have "to_le 8 (from_le (drop 8 x) :: u64) = drop 8 x"
    using to_le_from_le [of "drop 8 x", where ?'a = 64] len by simp
  ultimately show ?thesis using len by (simp add: unhalves_def halves_def)
qed

lemma find_marker_key:
  assumes "markers_inv m" and "good_key key"
  shows "find_marker m key = Some i \<longleftrightarrow> i < MARKER_CAPACITY \<and> mk_key (mt_slots m ! i) = key"
  using find_marker_iff [OF assms(1)] assms(2) by (cases key) (auto simp: good_key_def)

lemma lookup_iff:
  assumes "markers_inv m" and "good_key key"
  shows "lookup_marker m key = Some v \<longleftrightarrow> (\<exists>i < MARKER_CAPACITY. mk_key (mt_slots m ! i) = key \<and> slot_view (mt_slots m ! i) = v)"
  using find_marker_key [OF assms] by (auto simp: lookup_marker_def)

text \<open>Replacing one slot changes the view of the keys that slot had or has, and of no other.\<close>

lemma lookup_update:
  assumes inv: "markers_inv m" and inv': "markers_inv m'" and i: "i < MARKER_CAPACITY"
    and m': "mt_slots m' = (mt_slots m)[i := k]" and good: "good_key key"
    and "mk_key (mt_slots m ! i) \<noteq> key" and "mk_key k \<noteq> key"
  shows "lookup_marker m' key = lookup_marker m key"
proof -
  have "find_marker m' key = Some j \<longleftrightarrow> find_marker m key = Some j" for j
    unfolding find_marker_key [OF inv good] find_marker_key [OF inv' good]
    using assms(6,7) m' i markers_invD(1) [OF inv] by (cases "j = i") auto
  then have eq: "find_marker m' key = find_marker m key" by (metis option.exhaust)
  show ?thesis
  proof (cases "find_marker m key")
    case (Some j)
    then have "j \<noteq> i" using find_marker_key [OF inv good] assms(6) by blast
    with Some eq m' show ?thesis by (simp add: lookup_marker_def)
  qed (simp add: lookup_marker_def eq)
qed

lemma empty_key [simp]: "mk_key MARKER_EMPTY = (0, 0, 0)" "\<not> occupied MARKER_EMPTY" "mk_phase MARKER_EMPTY = 0"
  by (simp_all add: MARKER_EMPTY_def mk_key_def occupied_def)

lemma good_key_occupied: "mk_key k = key \<Longrightarrow> good_key key \<Longrightarrow> occupied k"
  by (auto simp: mk_key_def good_key_def occupied_def)

lemma not_good_zero [simp]: "\<not> good_key (0, 0, 0)"
  by (simp add: good_key_def)

lemma release_found:
  assumes inv: "markers_inv m" and good: "good_key key" and f: "find_marker m key = Some i"
    and slots: "mt_slots m' = (mt_slots m)[i := k]" "mk_stack k = fst (snd key)" "mt_active m' = mt_active m"
  shows "markers_inv (release_marker m' i (fst (snd key)))"
    and "lookup_marker (release_marker m' i (fst (snd key))) key = None"
    and "good_key key' \<Longrightarrow> key' \<noteq> key \<Longrightarrow> lookup_marker (release_marker m' i (fst (snd key))) key' = lookup_marker m key'"
proof -
  from find_marker_key [OF inv good] f have i: "i < MARKER_CAPACITY" "mk_key (mt_slots m ! i) = key" by auto
  let ?m = "\<lparr>mt_active = mt_active m - 1, mt_slots = (mt_slots m)[i := MARKER_EMPTY]\<rparr>"
  have rel: "release_marker m' i (fst (snd key)) = ?m"
    using slots i markers_invD(1) [OF inv] by (simp add: release_marker_def)
  have occ: "occupied (mt_slots m ! i)" by (rule good_key_occupied [OF i(2) good])
  then have "mt_active m \<noteq> 0" using active_iff [OF inv] i(1) by (auto simp: has_active_markers_def)
  then have "unat (mt_active m - 1) + 1 = unat (mt_active m)"
    by (simp add: unat_minus_one) (simp add: Suc_pred word_gt_0 unat_gt_0)
  then show inv': "markers_inv (release_marker m' i (fst (snd key)))"
    unfolding rel using occ by (intro update_inv [OF inv i(1)]) auto
  have uniq: "j = i" if "j < MARKER_CAPACITY" "mk_key (mt_slots m ! j) = key" for j
    using markers_invD(3) [OF inv that(1) i(1)] that(2) i(2) good_key_occupied [OF that(2) good] by simp
  have "find_marker ?m key \<noteq> Some j" for j
  proof
    assume "find_marker ?m key = Some j"
    then have j: "j < MARKER_CAPACITY" "mk_key ((mt_slots m)[i := MARKER_EMPTY] ! j) = key"
      unfolding find_marker_key [OF inv' [unfolded rel] good] by simp_all
    show False
    proof (cases "j = i")
      case True
      with j i markers_invD(1) [OF inv] good show False by auto
    next
      case False
      with j uniq [OF j(1)] show False by simp
    qed
  qed
  then show "lookup_marker (release_marker m' i (fst (snd key))) key = None"
    unfolding rel by (cases "find_marker ?m key") (auto simp: lookup_marker_def)
  show "lookup_marker (release_marker m' i (fst (snd key))) key' = lookup_marker m key'"
    if "good_key key'" "key' \<noteq> key"
    unfolding rel
    by (rule lookup_update [OF inv inv' [unfolded rel] i(1) _ that(1)]) (use that i in auto)
qed

lemma remember_ok:
  assumes inv: "markers_inv m" and good: "good_key key" and none: "lookup_marker m key = None"
    and "remember_marker m key = (m', True)"
  shows "markers_inv m' \<and> lookup_marker m' key = Some Armed \<and>
    (\<forall>key'. good_key key' \<longrightarrow> key' \<noteq> key \<longrightarrow> lookup_marker m' key' = lookup_marker m key')"
proof -
  obtain tid stack rip where key: "key = (tid, stack, rip)" by (cases key)
  from assms(4) good obtain i where
    f: "List.find (\<lambda>i. mk_stack (mt_slots m ! i) = 0) (probe_slots stack) = Some i"
    by (auto simp: remember_marker_def key good_key_def split: option.splits if_splits)
  define k where "k = (mt_slots m ! i)\<lparr>mk_tid := tid, mk_rip := rip, mk_phase := 0, mk_stack := stack\<rparr>"
  have m': "m' = \<lparr>mt_active = mt_active m + 1, mt_slots = (mt_slots m)[i := k]\<rparr>"
    using assms(4) good f by (simp add: remember_marker_def key good_key_def k_def)
  have kk: "mk_key k = key" "mk_phase k = 0" by (simp_all add: k_def mk_key_def key)
  have "i \<in> set (probe_slots stack)" using f by (auto simp: find_Some_iff)
  then have i: "i < MARKER_CAPACITY" by (simp add: probe_covers)
  have free: "\<not> occupied (mt_slots m ! i)" using f by (auto simp: occupied_def find_Some_iff)
  have nokey: "mk_key (mt_slots m ! j) \<noteq> key" if "j < MARKER_CAPACITY" for j
    using find_marker_key [OF inv good, of j] none that by (auto simp: lookup_marker_def)
  have "occupancy m \<le> MARKER_CAPACITY"
    using markers_invD(1) [OF inv] length_filter_le [of occupied "mt_slots m"] by (simp add: occupancy_def)
  then have "unat (mt_active m + 1) = unat (mt_active m) + 1"
    using markers_invD(2) [OF inv] by (subst unat_add_no_overflow) (simp_all add: MARKER_CAPACITY_def)
  then have inv': "markers_inv m'" unfolding m'
    using free good_key_occupied [OF kk(1) good] nokey kk by (intro update_inv [OF inv i]) auto
  moreover have "find_marker m' key = Some i"
    unfolding find_marker_key [OF inv' good] using i kk m' markers_invD(1) [OF inv] by simp
  then have "lookup_marker m' key = Some Armed"
    using m' i kk markers_invD(1) [OF inv] by (simp add: lookup_marker_def slot_view_def)
  moreover have "lookup_marker m' key' = lookup_marker m key'" if "good_key key'" "key' \<noteq> key" for key'
  proof (rule lookup_update [OF inv inv' i _ that(1)])
    show "mt_slots m' = (mt_slots m)[i := k]" by (simp add: m')
    show "mk_key (mt_slots m ! i) \<noteq> key'" using free good_key_occupied that(1) by blast
  qed (use kk that in auto)
  ultimately show ?thesis by blast
qed

lemma consume_found:
  assumes "good_key key" and "find_marker m key = Some i"
  shows "consume_marker m key c =
     (let k = mt_slots m ! i in
      if mk_phase k = 0 then
        (m\<lparr>mt_slots := (mt_slots m)[i := k\<lparr>mk_phase := 1, mk_xmm4 := halves (sc_xmm4 c), mk_xmm5 := halves (sc_xmm5 c),
            mk_r11 := sc_r11 c, mk_eflags := sc_eflags c\<rparr>]\<rparr>, Some Route)
      else if mk_phase k = 1 then
        (release_marker (m\<lparr>mt_slots := (mt_slots m)[i := k\<lparr>mk_phase := 2\<rparr>]\<rparr>) i (fst (snd key)),
         Some (Replay \<lparr>sc_xmm4 = unhalves (mk_xmm4 k), sc_xmm5 = unhalves (mk_xmm5 k), sc_r11 = mk_r11 k, sc_eflags = mk_eflags k\<rparr>))
      else (release_marker m i (fst (snd key)), None))"
  using assms by (cases key) (simp add: consume_marker_def good_key_def Let_def)

lemma consume_route_ok:
  assumes inv: "markers_inv m" and good: "good_key key" and c: "good_context c" and "lookup_marker m key = Some Armed"
  shows "\<exists>m'. consume_marker m key c = (m', Some Route) \<and> markers_inv m' \<and> lookup_marker m' key = Some (Routed c) \<and>
    (\<forall>key'. good_key key' \<longrightarrow> key' \<noteq> key \<longrightarrow> lookup_marker m' key' = lookup_marker m key')"
proof -
  from assms(4) obtain i where f: "find_marker m key = Some i" and ph: "mk_phase (mt_slots m ! i) = 0"
    by (auto simp: lookup_marker_def slot_view_def split: if_splits)
  from find_marker_key [OF inv good] f have i: "i < MARKER_CAPACITY" "mk_key (mt_slots m ! i) = key" by auto
  define k where "k = (mt_slots m ! i)\<lparr>mk_phase := 1, mk_xmm4 := halves (sc_xmm4 c), mk_xmm5 := halves (sc_xmm5 c),
    mk_r11 := sc_r11 c, mk_eflags := sc_eflags c\<rparr>"
  define m' where "m' = m\<lparr>mt_slots := (mt_slots m)[i := k]\<rparr>"
  have m'_eq: "m' = \<lparr>mt_active = mt_active m, mt_slots = (mt_slots m)[i := k]\<rparr>" by (cases m) (simp add: m'_def)
  have kk: "mk_key k = key" "occupied k" "occupied (mt_slots m ! i)"
    using i(2) good_key_occupied [OF i(2) good] by (auto simp: k_def mk_key_def occupied_def)
  have other: "mk_key (mt_slots m ! j) \<noteq> key" if "j < MARKER_CAPACITY" "j \<noteq> i" for j
    using markers_invD(3) [OF inv i(1) that(1) kk(3)] that(2) i(2) by metis
  have inv': "markers_inv m'" unfolding m'_eq
    using kk other by (intro update_inv [OF inv i(1)]) (auto simp: k_def)
  have "find_marker m' key = Some i"
    unfolding find_marker_key [OF inv' good] using i kk markers_invD(1) [OF inv] by (simp add: m'_def)
  then have "lookup_marker m' key = Some (Routed c)"
    using c i markers_invD(1) [OF inv]
    by (simp add: lookup_marker_def slot_view_def m'_def) (simp add: k_def good_context_def unhalves_halves)
  moreover have "lookup_marker m' key' = lookup_marker m key'" if "good_key key'" "key' \<noteq> key" for key'
    by (rule lookup_update [OF inv inv' i(1) _ that(1)]) (use that i kk in \<open>auto simp: m'_def\<close>)
  moreover have "consume_marker m key c = (m', Some Route)"
    unfolding consume_found [OF good f] using ph by (simp add: m'_def k_def)
  ultimately show ?thesis using inv' by blast
qed

lemma consume_replay_ok:
  assumes inv: "markers_inv m" and good: "good_key key" and "lookup_marker m key = Some (Routed c)"
  shows "\<exists>m'. consume_marker m key c' = (m', Some (Replay c)) \<and> markers_inv m' \<and> lookup_marker m' key = None \<and>
    (\<forall>key'. good_key key' \<longrightarrow> key' \<noteq> key \<longrightarrow> lookup_marker m' key' = lookup_marker m key')"
proof -
  from assms(3) obtain i where f: "find_marker m key = Some i" and ph: "mk_phase (mt_slots m ! i) \<noteq> 0"
    and c: "c = \<lparr>sc_xmm4 = unhalves (mk_xmm4 (mt_slots m ! i)), sc_xmm5 = unhalves (mk_xmm5 (mt_slots m ! i)),
      sc_r11 = mk_r11 (mt_slots m ! i), sc_eflags = mk_eflags (mt_slots m ! i)\<rparr>"
    by (auto simp: lookup_marker_def slot_view_def split: if_splits)
  from find_marker_key [OF inv good] f have i: "i < MARKER_CAPACITY" "mk_key (mt_slots m ! i) = key" by auto
  have "mk_phase (mt_slots m ! i) = 1"
    using markers_invD(4) [OF inv i(1)] ph by (simp add: word_le_nat_alt word_unat_eq_iff)
  let ?m = "m\<lparr>mt_slots := (mt_slots m)[i := (mt_slots m ! i)\<lparr>mk_phase := 2\<rparr>]\<rparr>"
  have st: "mk_stack ((mt_slots m ! i)\<lparr>mk_phase := 2\<rparr>) = fst (snd key)" using i(2) by (auto simp: mk_key_def)
  have "consume_marker m key c' = (release_marker ?m i (fst (snd key)), Some (Replay c))"
    unfolding consume_found [OF good f] using \<open>mk_phase (mt_slots m ! i) = 1\<close> c by (simp add: Let_def)
  with release_found [OF inv good f _ st, of ?m] show ?thesis by auto
qed

lemma cancel_ok:
  assumes inv: "markers_inv m" and good: "good_key key"
  shows "markers_inv (cancel_marker m key) \<and> lookup_marker (cancel_marker m key) key = None \<and>
    (\<forall>key'. good_key key' \<longrightarrow> key' \<noteq> key \<longrightarrow> lookup_marker (cancel_marker m key) key' = lookup_marker m key')"
proof (cases "find_marker m key")
  case None
  with inv show ?thesis by (simp add: cancel_marker_def lookup_marker_def)
next
  case (Some i)
  from find_marker_key [OF inv good] Some have "mk_key (mt_slots m ! i) = key" by blast
  then have "mk_stack (mt_slots m ! i) = fst (snd key)" by (auto simp: mk_key_def)
  from release_found [OF inv good Some _ this, of m] Some show ?thesis by (simp add: cancel_marker_def)
qed

interpretation mt: marker_store markers_inv lookup_marker remember_marker consume_marker cancel_marker
proof unfold_locales
  show "m' = m" if "markers_inv m" "remember_marker m k = (m', False)" for m m' k
    using that(2) by (auto simp: remember_marker_def split: prod.splits if_splits option.splits)
  show "consume_marker m k c = (m, None)" if "markers_inv m" "good_key k" "lookup_marker m k = None" for m k c
    using that by (cases k) (simp add: consume_marker_def lookup_marker_def)
qed (rule remember_ok consume_route_ok consume_replay_ok cancel_ok; assumption)+

text \<open>
  A marker is routed once and replayed once. From any well-formed table, a key armed
  while absent is delivered to Reflex by the first consumption, is replayed by the second
  with the register state captured at the first trap, whatever the registers are by then,
  and is gone afterwards, every other marker being as it was.
\<close>

lemma marker_routed_once_replayed_once:
  assumes "markers_inv m" and "good_key k" and "good_context c" and "lookup_marker m k = None"
    and "remember_marker m k = (m1, True)"
  shows "\<exists>m2 m3. consume_marker m1 k c = (m2, Some Route) \<and> consume_marker m2 k c' = (m3, Some (Replay c)) \<and>
    consume_marker m3 k c'' = (m3, None) \<and> markers_inv m3 \<and> lookup_marker m3 k = None \<and>
    (\<forall>k'. good_key k' \<longrightarrow> lookup_marker m3 k' = lookup_marker m k')"
  by (rule mt.lifecycle [OF assms])

lemma markers_inv_new: "markers_inv markers_new" "lookup_marker markers_new k = None"
proof -
  show inv: "markers_inv markers_new"
    by (auto simp: markers_inv_def markers_new_def occupancy_def occupied_def MARKER_EMPTY_def MARKER_CAPACITY_def)
  show "lookup_marker markers_new k = None"
    by (cases k) (simp add: lookup_marker_def find_marker_def has_active_markers_def markers_new_def)
qed

definition zero_context :: saved_context where
  "zero_context = \<lparr>sc_xmm4 = replicate 16 4, sc_xmm5 = replicate 16 5, sc_r11 = 0x246, sc_eflags = 0x202\<rparr>"

lemma remember_new:
  assumes "good_key key"
  shows "\<exists>m1. remember_marker markers_new key = (m1, True)"
proof -
  obtain tid stack rip where key: "key = (tid, stack, rip)" by (cases key)
  have "List.find (\<lambda>i. mk_stack (mt_slots markers_new ! i) = 0) (probe_slots stack) \<noteq> None"
    by (auto simp: find_None_iff probe_covers markers_new_def MARKER_EMPTY_def MARKER_CAPACITY_def
        intro!: exI [of _ "0::nat"])
  with assms show ?thesis by (auto simp: remember_marker_def key good_key_def)
qed

lemma remember_first: "\<exists>m1. remember_marker markers_new (7, 4096, 8192) = (m1, True)"
  by (rule remember_new) (simp add: good_key_def)

section \<open>Retirement\<close>

definition retired :: "u64 \<Rightarrow> u64 \<Rightarrow> marker \<Rightarrow> bool" where
  "retired tid stack k \<longleftrightarrow> mk_tid k = tid \<and> occupied k \<and> mk_stack k \<noteq> - 1 \<and> mk_stack k \<le> stack"

lemma retire_one_slots:
  assumes "markers_inv m" and "i < MARKER_CAPACITY"
  shows "markers_inv (retire_one tid stack i m)"
    and "mt_slots (retire_one tid stack i m) =
      (if retired tid stack (mt_slots m ! i) then (mt_slots m)[i := MARKER_EMPTY] else mt_slots m)"
proof -
  show "mt_slots (retire_one tid stack i m) =
      (if retired tid stack (mt_slots m ! i) then (mt_slots m)[i := MARKER_EMPTY] else mt_slots m)"
    by (auto simp: retire_one_def retired_def release_marker_def occupied_def Let_def)
  show "markers_inv (retire_one tid stack i m)"
  proof (cases "retired tid stack (mt_slots m ! i)")
    case True
    then have occ: "occupied (mt_slots m ! i)" by (simp add: retired_def)
    then have "mt_active m \<noteq> 0" using active_iff [OF assms(1)] assms(2) by (auto simp: has_active_markers_def)
    then have "unat (mt_active m - 1) + 1 = unat (mt_active m)"
      by (simp add: unat_minus_one) (simp add: Suc_pred word_gt_0 unat_gt_0)
    then have "markers_inv \<lparr>mt_active = mt_active m - 1, mt_slots = (mt_slots m)[i := MARKER_EMPTY]\<rparr>"
      using occ by (intro update_inv [OF assms]) auto
    with True show ?thesis
      by (auto simp: retire_one_def retired_def release_marker_def occupied_def Let_def)
  next
    case False
    with assms(1) show ?thesis by (auto simp: retire_one_def retired_def release_marker_def occupied_def Let_def)
  qed
qed

lemma retire_fold:
  assumes "markers_inv m" and "n \<le> MARKER_CAPACITY"
  shows "markers_inv (fold (retire_one tid stack) [0..<n] m) \<and>
    (\<forall>i < MARKER_CAPACITY. mt_slots (fold (retire_one tid stack) [0..<n] m) ! i =
       (if i < n \<and> retired tid stack (mt_slots m ! i) then MARKER_EMPTY else mt_slots m ! i))"
  using assms(2)
proof (induction n)
  case (Suc n)
  let ?m = "fold (retire_one tid stack) [0..<n] m"
  from Suc have inv: "markers_inv ?m" and n: "n < MARKER_CAPACITY"
    and slots: "\<And>i. i < MARKER_CAPACITY \<Longrightarrow> mt_slots ?m ! i =
      (if i < n \<and> retired tid stack (mt_slots m ! i) then MARKER_EMPTY else mt_slots m ! i)" by auto
  have fold: "fold (retire_one tid stack) [0..<Suc n] m = retire_one tid stack n ?m" by simp
  have "mt_slots (retire_one tid stack n ?m) ! i =
      (if i < Suc n \<and> retired tid stack (mt_slots m ! i) then MARKER_EMPTY else mt_slots m ! i)"
    if "i < MARKER_CAPACITY" for i
    using slots [OF that] slots [OF n] markers_invD(1) [OF inv] n that
    unfolding retire_one_slots(2) [OF inv n] by (auto simp: nth_list_update less_Suc_eq)
  with retire_one_slots(1) [OF inv n] show ?case unfolding fold by blast
qed (use assms(1) in auto)

lemma find_after_retire:
  fixes tid stack :: u64
  assumes inv: "markers_inv m" and good: "good_key (t, s, r)" and "s \<noteq> - 1"
  defines "m' \<equiv> fold (retire_one tid stack) [0..<MARKER_CAPACITY] m"
  shows "markers_inv m'"
    and "find_marker m' (t, s, r) = Some i \<longleftrightarrow> find_marker m (t, s, r) = Some i \<and> \<not> (t = tid \<and> s \<le> stack)"
    and "find_marker m' (t, s, r) = Some i \<Longrightarrow> mt_slots m' ! i = mt_slots m ! i"
proof -
  from retire_fold [OF inv, of MARKER_CAPACITY tid stack] show inv': "markers_inv m'" by (simp add: m'_def)
  have slots: "mt_slots m' ! i = (if retired tid stack (mt_slots m ! i) then MARKER_EMPTY else mt_slots m ! i)"
    if "i < MARKER_CAPACITY" for i
    using retire_fold [OF inv, of MARKER_CAPACITY tid stack] that by (simp add: m'_def)
  have ret: "retired tid stack (mt_slots m ! i) \<longleftrightarrow> t = tid \<and> s \<le> stack"
    if "mk_key (mt_slots m ! i) = (t, s, r)" for i
    using that assms(3) good by (auto simp: retired_def mk_key_def occupied_def good_key_def)
  show find: "find_marker m' (t, s, r) = Some i \<longleftrightarrow> find_marker m (t, s, r) = Some i \<and> \<not> (t = tid \<and> s \<le> stack)" for i
    using slots [of i] ret [of i] good
    unfolding find_marker_key [OF inv good] find_marker_key [OF inv' good] by (auto split: if_splits)
  show "mt_slots m' ! i = mt_slots m ! i" if "find_marker m' (t, s, r) = Some i"
    using that find slots ret find_marker_key [OF inv good] by metis
qed

lemma retire_lookup_both:
  assumes "markers_inv m" and "good_key (t, s, r)" and "tid \<noteq> 0" and "s \<noteq> - 1"
  shows "markers_inv (retire_markers m tid stack) \<and>
    lookup_marker (retire_markers m tid stack) (t, s, r) =
      (if t = tid \<and> s \<le> stack then None else lookup_marker m (t, s, r))"
proof (cases "has_active_markers m")
  case False
  then have "lookup_marker m (t, s, r) = None" by (simp add: lookup_marker_def find_marker_def)
  with False assms(1) show ?thesis by (simp add: retire_markers_def)
next
  case True
  let ?m = "fold (retire_one tid stack) [0..<MARKER_CAPACITY] m"
  note f = find_after_retire [OF assms(1,2,4), of tid stack]
  have "lookup_marker ?m (t, s, r) = (if t = tid \<and> s \<le> stack then None else lookup_marker m (t, s, r))"
  proof (cases "find_marker ?m (t, s, r)")
    case None
    with f(2) show ?thesis by (cases "find_marker m (t, s, r)") (auto simp: lookup_marker_def)
  next
    case (Some i)
    with f(2) [of i] f(3) [of i] show ?thesis by (auto simp: lookup_marker_def)
  qed
  with f(1) True assms(3) show ?thesis by (simp add: retire_markers_def)
qed

lemmas retire_lookup = conjunct1 [OF retire_lookup_both] conjunct2 [OF retire_lookup_both]

text \<open>
  Retirement drops exactly the finished calls of one thread. After \<^verbatim>\<open>retire_markers\<close> at a
  stack depth, the markers of that thread at that depth or below are gone, while those of
  an outer call still on the stack and those of other threads are untouched.
\<close>

lemma retire_drops_finished_calls:
  assumes "markers_inv m" and "good_key (t, s, r)" and "tid \<noteq> 0" and "s \<noteq> - 1"
  shows "markers_inv (retire_markers m tid stack) \<and>
    lookup_marker (retire_markers m tid stack) (t, s, r) =
      (if t = tid \<and> s \<le> stack then None else lookup_marker m (t, s, r))"
  by (rule retire_lookup_both [OF assms])

end
