(* ===== verification/Maps.thy ===== *)
theory Maps
  imports Prelude "HOL-Library.Monad_Syntax"
begin

text \<open>
  The \<^verbatim>\<open>/proc/self/maps\<close> reader of \<^verbatim>\<open>runtime/src/maps.rs\<close>: hexadecimal numbers, the fields
  of a line, and the line splitter \<^verbatim>\<open>find_line\<close> over the chunks that successive \<^verbatim>\<open>read\<close> calls
  return (an empty chunk is a count of zero or an error). A visitor carries a state, since
  callers pass closures that update their captures.
\<close>

definition LINE_CAPACITY :: nat where "LINE_CAPACITY = 1024"

record mapping_line =
  map_start :: u64
  map_end :: u64
  map_permissions :: bytes
  map_inode :: bytes
  map_path :: bytes

definition hex_digit :: "u8 \<Rightarrow> u8 option" where
  "hex_digit b =
     (if 48 \<le> b \<and> b \<le> 57 then Some (b - 48)
      else if 97 \<le> b \<and> b \<le> 102 then Some (b - 97 + 10)
      else if 65 \<le> b \<and> b \<le> 70 then Some (b - 65 + 10)
      else None)"

fun parse_hex_from :: "u64 \<Rightarrow> bytes \<Rightarrow> u64 option" where
  "parse_hex_from acc [] = Some acc"
| "parse_hex_from acc (b # bs) = do {
     d \<leftarrow> hex_digit b;
     m \<leftarrow> checked_mul acc 16;
     a \<leftarrow> checked_add m (ucast d);
     parse_hex_from a bs }"

definition parse_hex :: "bytes \<Rightarrow> u64 option" where
  "parse_hex bs = (if bs = [] then None else parse_hex_from 0 bs)"

text \<open>The line from the current position on: the next field and what follows it.\<close>

definition skip_whitespace :: "bytes \<Rightarrow> bytes" where
  "skip_whitespace bs = dropWhile is_ascii_whitespace bs"

definition next_field :: "bytes \<Rightarrow> (bytes \<times> bytes) option" where
  "next_field bs =
     (let f = takeWhile (\<lambda>b. \<not> is_ascii_whitespace b) (skip_whitespace bs) in
      if f \<noteq> [] then Some (f, drop (length f) (skip_whitespace bs)) else None)"

definition parse_maps_line :: "bytes \<Rightarrow> mapping_line option" where
  "parse_maps_line line = do {
     (range, r1) \<leftarrow> next_field line;
     (perms, r2) \<leftarrow> next_field r1;
     (offset, r3) \<leftarrow> next_field r2;
     (device, r4) \<leftarrow> next_field r3;
     (inode, r5) \<leftarrow> next_field r4;
     case split_on (\<lambda>b. b = 45) range of
       [lo, hi] \<Rightarrow> do {
         s \<leftarrow> parse_hex lo;
         e \<leftarrow> parse_hex hi;
         Some \<lparr>map_start = s, map_end = e, map_permissions = perms, map_inode = inode,
               map_path = skip_whitespace r5\<rparr> }
     | _ \<Rightarrow> None }"

section \<open>The line splitter\<close>

type_synonym 'v visitor = "'v \<Rightarrow> bytes \<Rightarrow> 'v \<times> bool"

datatype 'v scan = Scanning bytes bool 'v | Found 'v

fun scan_bytes :: "'v visitor \<Rightarrow> bytes \<Rightarrow> bytes \<Rightarrow> bool \<Rightarrow> 'v \<Rightarrow> 'v scan" where
  "scan_bytes visit [] line overflow v = Scanning line overflow v"
| "scan_bytes visit (b # bs) line overflow v =
     (if b = 10 then
        (if overflow then scan_bytes visit bs [] False v
         else (let (v', hit) = visit v line in if hit then Found v' else scan_bytes visit bs [] False v'))
      else if length line < LINE_CAPACITY then scan_bytes visit bs (line @ [b]) overflow v
      else scan_bytes visit bs line True v)"

fun scan_chunks :: "'v visitor \<Rightarrow> bytes list \<Rightarrow> bytes \<Rightarrow> bool \<Rightarrow> 'v \<Rightarrow> 'v scan" where
  "scan_chunks visit [] line overflow v = Scanning line overflow v"
| "scan_chunks visit (c # cs) line overflow v =
     (if c = [] then Scanning line overflow v
      else case scan_bytes visit c line overflow v of
             Found v' \<Rightarrow> Found v'
           | Scanning line' overflow' v' \<Rightarrow> scan_chunks visit cs line' overflow' v')"

definition find_line :: "'v visitor \<Rightarrow> bytes list option \<Rightarrow> 'v \<Rightarrow> 'v \<times> bool" where
  "find_line visit fd v = (case fd of
       None \<Rightarrow> (v, False)
     | Some chunks \<Rightarrow> (case scan_chunks visit chunks [] False v of
           Found v' \<Rightarrow> (v', True)
         | Scanning line overflow v' \<Rightarrow> if line \<noteq> [] \<and> \<not> overflow then visit v' line else (v', False)))"

text \<open>The generation counter of file mappings.\<close>

definition note_file_mapping :: "u64 \<Rightarrow> u64" where
  "note_file_mapping n = n + 1"

section \<open>Numbers\<close>

definition hex_char :: "nat \<Rightarrow> u8" where
  "hex_char d = (if d < 10 then 48 + of_nat d else 87 + of_nat d)"

fun hex_value_from :: "nat \<Rightarrow> bytes \<Rightarrow> nat" where
  "hex_value_from acc [] = acc"
| "hex_value_from acc (b # bs) = hex_value_from (16 * acc + unat (the (hex_digit b))) bs"

lemma hex_digit_bound: "hex_digit b = Some d \<Longrightarrow> unat d < 16"
  unfolding hex_digit_def word_le_nat_alt by (auto simp: unat_sub word_le_nat_alt unat_word_ariths split: if_splits)

lemma hex_value_ge: "acc \<le> hex_value_from acc bs"
proof (induction bs arbitrary: acc)
  case (Cons b bs)
  have "acc \<le> 16 * acc + unat (the (hex_digit b))" by simp
  also note Cons.IH
  finally show ?case by simp
qed simp

lemma parse_hex_from_iff:
  "parse_hex_from acc bs = Some w \<longleftrightarrow>
     list_all (\<lambda>b. hex_digit b \<noteq> None) bs \<and> hex_value_from (unat acc) bs < 2 ^ 64 \<and> unat w = hex_value_from (unat acc) bs"
proof (induction bs arbitrary: acc)
  case Nil
  then show ?case using unsigned_less [of acc, where ?'a = nat] by (auto simp: word_unat_eq_iff)
next
  case (Cons b bs)
  show ?case
  proof (cases "hex_digit b")
    case (Some d)
    let ?n = "16 * unat acc + unat d"
    show ?thesis
    proof (cases "?n < 2 ^ 64")
      case True
      then have m: "unat (acc * 16) = 16 * unat acc" by (simp add: unat_word_ariths)
      then have a: "checked_add (acc * 16) (ucast d) = Some (acc * 16 + ucast d)"
        and u: "unat (acc * 16 + ucast d) = ?n"
        using True by (simp_all add: checked_add_def unat_word_ariths)
      have "checked_mul acc 16 = Some (acc * 16)" using True by (simp add: checked_mul_def)
      with a u Some Cons.IH [of "acc * 16 + ucast d"] show ?thesis by simp
    next
      case False
      have "parse_hex_from acc (b # bs) = None"
      proof (cases "16 * unat acc < 2 ^ 64")
        case True
        then have "unat (acc * 16) = 16 * unat acc" by (simp add: unat_word_ariths)
        with False Some True show ?thesis by (simp add: checked_mul_def checked_add_def)
      qed (simp add: Some checked_mul_def)
      moreover have "\<not> hex_value_from ?n bs < 2 ^ 64" using False hex_value_ge [of ?n bs] by linarith
      ultimately show ?thesis using Some by simp
    qed
  qed simp
qed

text \<open>
  C31: \<^verbatim>\<open>parse_hex\<close> accepts exactly the non-empty strings of hexadecimal digits, either case,
  whose value fits in 64 bits, and returns that value; it never wraps around.
\<close>

lemma parse_hex_correct:
  "parse_hex bs = Some w \<longleftrightarrow>
     bs \<noteq> [] \<and> list_all (\<lambda>b. hex_digit b \<noteq> None) bs \<and> hex_value_from 0 bs < 2 ^ 64 \<and> unat w = hex_value_from 0 bs"
  by (auto simp: parse_hex_def parse_hex_from_iff)

section \<open>Lines\<close>

fun first_hit :: "'v visitor \<Rightarrow> bytes list \<Rightarrow> 'v \<Rightarrow> 'v \<times> bool" where
  "first_hit visit [] v = (v, False)"
| "first_hit visit (l # ls) v = (let (v', hit) = visit v l in if hit then (v', True) else first_hit visit ls v')"

definition short_line :: "bytes \<Rightarrow> bool" where
  "short_line l \<longleftrightarrow> length l \<le> LINE_CAPACITY"

definition maps_lines :: "bytes \<Rightarrow> bytes list" where
  "maps_lines content = (let ls = split_on (\<lambda>b. b = 10) content in
     filter short_line (butlast ls @ (if last ls = [] then [] else [last ls])))"

definition finish_scan :: "'v visitor \<Rightarrow> 'v scan \<Rightarrow> 'v \<times> bool" where
  "finish_scan visit r = (case r of
       Found v' \<Rightarrow> (v', True)
     | Scanning line overflow v' \<Rightarrow> if line \<noteq> [] \<and> \<not> overflow then visit v' line else (v', False))"

lemma scan_bytes_append:
  "scan_bytes visit (xs @ ys) line ovf v = (case scan_bytes visit xs line ovf v of
     Found v' \<Rightarrow> Found v' | Scanning line' ovf' v' \<Rightarrow> scan_bytes visit ys line' ovf' v')"
  by (induction xs arbitrary: line ovf v) (auto split: prod.splits)

lemma scan_chunks_concat:
  "[] \<notin> set cs \<Longrightarrow> scan_chunks visit cs line ovf v = scan_bytes visit (concat cs) line ovf v"
  by (induction cs arbitrary: line ovf v) (auto simp: scan_bytes_append split: scan.splits)

lemma maps_lines_newline:
  "10 \<notin> set p \<Longrightarrow> maps_lines (p @ 10 # bs) = (if short_line p then [p] else []) @ maps_lines bs"
  by (auto simp: maps_lines_def split_on_append_sep split_on_absent Let_def butlast_append)

lemma maps_lines_partial:
  "10 \<notin> set p \<Longrightarrow> maps_lines p = (if p \<noteq> [] \<and> short_line p then [p] else [])"
  by (auto simp: maps_lines_def split_on_absent Let_def)

lemma scan_bytes_lines:
  "10 \<notin> set p \<Longrightarrow>
   finish_scan visit (scan_bytes visit bs (take LINE_CAPACITY p) (LINE_CAPACITY < length p) v) =
   first_hit visit (maps_lines (p @ bs)) v"
proof (induction bs arbitrary: p v)
  case Nil
  then show ?case
    by (auto simp: finish_scan_def maps_lines_partial short_line_def LINE_CAPACITY_def split: prod.splits)
next
  case (Cons b bs)
  show ?case
  proof (cases "b = 10")
    case True
    show ?thesis
      using Cons.IH [of "[]"] Cons.prems True
      by (auto simp: maps_lines_newline short_line_def finish_scan_def split: prod.splits)
  next
    case False
    have "scan_bytes visit (b # bs) (take LINE_CAPACITY p) (LINE_CAPACITY < length p) v =
        scan_bytes visit bs (take LINE_CAPACITY (p @ [b])) (LINE_CAPACITY < length (p @ [b])) v"
      using False by (cases "length p < LINE_CAPACITY") auto
    with Cons.IH [of "p @ [b]"] Cons.prems False show ?thesis by simp
  qed
qed

text \<open>
  C35: \<^verbatim>\<open>find_line\<close> is independent of how the kernel cuts the file into reads. It offers the
  visitor exactly the lines of the concatenated chunks, in order and without their newlines,
  leaving out those longer than the buffer and an empty remainder after the last newline,
  and stops at the first one the visitor accepts.
\<close>

theorem find_line_visits_lines:
  assumes "[] \<notin> set chunks"
  shows "find_line visit (Some chunks) v = first_hit visit (maps_lines (concat chunks)) v"
proof -
  have "find_line visit (Some chunks) v = finish_scan visit (scan_chunks visit chunks [] False v)"
    by (simp add: find_line_def finish_scan_def)
  with scan_chunks_concat [OF assms, of visit] scan_bytes_lines [of "[]" visit "concat chunks" v] show ?thesis by simp
qed

theorem find_line_visits_lines_witness:
  "find_line (\<lambda>n l. (n + 1, l = ascii ''bc'')) (Some [ascii ''a'' @ [10] @ ascii ''b'', ascii ''c'' @ [10]]) (0::nat) = (2, True)"
  using find_line_visits_lines [of "[ascii ''a'' @ [10] @ ascii ''b'', ascii ''c'' @ [10]]" "\<lambda>n l. (n + 1, l = ascii ''bc'')" "0::nat"]
  by (simp add: maps_lines_def short_line_def LINE_CAPACITY_def)

section \<open>Fields\<close>

text \<open>A field as the kernel prints it: not empty and without white space.\<close>

definition plain_field :: "bytes \<Rightarrow> bool" where
  "plain_field f \<longleftrightarrow> f \<noteq> [] \<and> list_all (\<lambda>b. \<not> is_ascii_whitespace b) f"

lemma next_field_plain:
  assumes "plain_field f"
  shows "next_field (f @ 32 # rest) = Some (f, 32 # rest)" and "next_field (32 # f @ 32 # rest) = Some (f, 32 # rest)"
proof -
  obtain b bs where f: "f = b # bs" "\<not> is_ascii_whitespace b" using assms by (cases f) (auto simp: plain_field_def)
  have sp: "is_ascii_whitespace 32" by (simp add: is_ascii_whitespace_def)
  have tw: "takeWhile (\<lambda>b. \<not> is_ascii_whitespace b) (f @ 32 # rest) = f" for rest
    using assms sp by (simp add: plain_field_def list_all_iff)
  have dw: "skip_whitespace (f @ rest) = f @ rest" "skip_whitespace (32 # f @ rest) = f @ rest" for rest
    using f sp by (simp_all add: skip_whitespace_def)
  show "next_field (f @ 32 # rest) = Some (f, 32 # rest)" "next_field (32 # f @ 32 # rest) = Some (f, 32 # rest)"
    using f(1) tw [of rest] unfolding next_field_def dw Let_def by auto
qed

definition maps_line :: "bytes \<Rightarrow> bytes \<Rightarrow> bytes \<Rightarrow> bytes \<Rightarrow> bytes \<Rightarrow> bytes \<Rightarrow> bytes \<Rightarrow> bytes" where
  "maps_line lo hi perms off dev inode path =
     (lo @ [45] @ hi) @ 32 # perms @ 32 # off @ 32 # dev @ 32 # inode @ 32 # path"

lemma hex_digits_plain:
  assumes "parse_hex bs = Some w"
  shows "plain_field bs" and "45 \<notin> set bs"
proof -
  have "hex_digit b \<noteq> None \<Longrightarrow> \<not> is_ascii_whitespace b \<and> b \<noteq> 45" for b
    by (auto simp: hex_digit_def is_ascii_whitespace_def split: if_splits)
  moreover have "bs \<noteq> []" "\<forall>b \<in> set bs. hex_digit b \<noteq> None"
    using assms by (simp_all add: parse_hex_def parse_hex_from_iff list_all_iff split: if_splits)
  ultimately show "plain_field bs" "45 \<notin> set bs"
    unfolding plain_field_def list_all_iff by blast+
qed



end
