(* ===== verification/Unixlib_Repair.thy ===== *)
theory Unixlib_Repair
  imports Procmem Maps
begin

text \<open>
  \<^verbatim>\<open>runtime/src/syscall/unixlib_repair.rs\<close>: the repair of the two Wine-only data exports in an
  in-memory copy of \<^verbatim>\<open>ntdll.dll\<close> whose exports were all overwritten with trampolines. Additions of
  addresses are unchecked in the source, so they wrap here, as in a release build.
\<close>

section \<open>The export directory of an image\<close>

record export_directory =
  ed_name_count :: u32
  ed_functions_rva :: u32
  ed_names_rva :: u32
  ed_ordinals_rva :: u32

definition read_export_directory :: "vmem \<Rightarrow> u64 \<Rightarrow> export_directory option" where
  "read_export_directory m base = do {
     dos \<leftarrow> read_memory m base 0x40;
     require (take 2 dos = ascii ''MZ'');
     let pe_offset = (ucast (from_le (take 4 (drop 0x3c dos)) :: u32) :: u64);
     require (pe_offset \<le> 0x1000);
     pe \<leftarrow> checked_add base pe_offset;
     signature \<leftarrow> read_memory m pe 4;
     require (signature = ascii ''PE'' @ [0, 0]);
     export_rva \<leftarrow> read_u32 m (base + pe_offset + 0x88);
     require (export_rva \<noteq> 0);
     let directory = base + ucast export_rva;
     name_count \<leftarrow> read_u32 m (directory + 0x18);
     functions_rva \<leftarrow> read_u32 m (directory + 0x1c);
     names_rva \<leftarrow> read_u32 m (directory + 0x20);
     ordinals_rva \<leftarrow> read_u32 m (directory + 0x24);
     Some \<lparr>ed_name_count = name_count, ed_functions_rva = functions_rva, ed_names_rva = names_rva,
       ed_ordinals_rva = ordinals_rva\<rparr> }"

text \<open>The loop over the names, with the number of names left; an unreadable slot of the name table ends it.\<close>

fun find_ordinal_from :: "vmem \<Rightarrow> u64 \<Rightarrow> export_directory \<Rightarrow> bytes \<Rightarrow> nat \<Rightarrow> nat \<Rightarrow> u32 option" where
  "find_ordinal_from m base e name index 0 = None"
| "find_ordinal_from m base e name index (Suc n) =
     (case read_u32 m (base + ucast (ed_names_rva e) + of_nat index * 4) of
        None \<Rightarrow> None
      | Some name_rva \<Rightarrow>
          (case read_memory m (base + ucast name_rva) 40 of
             None \<Rightarrow> find_ordinal_from m base e name (Suc index) n
           | Some candidate \<Rightarrow>
               if takeWhile (\<lambda>b. b \<noteq> 0) candidate = name then
                 (case read_memory m (base + ucast (ed_ordinals_rva e) + of_nat index * 2) 2 of
                    Some ordinal \<Rightarrow> Some (ucast (from_le ordinal :: u16))
                  | None \<Rightarrow> find_ordinal_from m base e name (Suc index) n)
               else find_ordinal_from m base e name (Suc index) n))"

definition find_export_ordinal :: "vmem \<Rightarrow> u64 \<Rightarrow> export_directory \<Rightarrow> bytes \<Rightarrow> u32 option" where
  "find_export_ordinal m base e name = find_ordinal_from m base e name 0 (unat (ed_name_count e))"

section \<open>The repair\<close>

definition export_slot :: "u64 \<Rightarrow> export_directory \<Rightarrow> u32 \<Rightarrow> u64" where
  "export_slot base e ordinal = base + ucast (ed_functions_rva e) + ucast ordinal * 4"

definition repair_named_export :: "vmem \<Rightarrow> u64 \<Rightarrow> export_directory \<Rightarrow> bytes \<Rightarrow> vmem \<times> bool" where
  "repair_named_export m base e name =
     (case find_export_ordinal m base e name of
        None \<Rightarrow> (m, False)
      | Some ordinal \<Rightarrow>
          (case read_u32 m (export_slot base e ordinal) of
             None \<Rightarrow> (m, False)
           | Some function_rva \<Rightarrow>
               (let entry = base + ucast function_rva in
                case trampoline_destination m entry of
                  None \<Rightarrow> (m, False)
                | Some destination \<Rightarrow>
                    (case read_u64 m destination of
                       None \<Rightarrow> (m, False)
                     | Some v \<Rightarrow> write_u64 m entry v))))"

definition WINE_UNIX_CALL_DISPATCHER_EXPORT :: bytes where
  "WINE_UNIX_CALL_DISPATCHER_EXPORT = ascii ''__wine_unix_call_dispatcher''"

definition WINE_UNIXLIB_HANDLE_EXPORT :: bytes where
  "WINE_UNIXLIB_HANDLE_EXPORT = ascii ''__wine_unixlib_handle''"

definition repair_module_wine_unixlib_exports :: "vmem \<Rightarrow> u64 \<Rightarrow> vmem \<times> nat" where
  "repair_module_wine_unixlib_exports m base =
     (case read_export_directory m base of
        None \<Rightarrow> (m, 0)
      | Some e \<Rightarrow>
          (let (m1, a) = repair_named_export m base e WINE_UNIX_CALL_DISPATCHER_EXPORT;
               (m2, b) = repair_named_export m1 base e WINE_UNIXLIB_HANDLE_EXPORT
           in (m2, of_bool a + of_bool b)))"

text \<open>The visitor of \<^verbatim>\<open>for_each_anonymous_executable_pe_image\<close> with the closure it is called with.\<close>

definition visit_image :: "(vmem \<times> nat) visitor" where
  "visit_image v line = (case v of (m, repaired) \<Rightarrow>
     (case parse_maps_line line of
        None \<Rightarrow> ((m, repaired), False)
      | Some mapping \<Rightarrow>
          (let p = map_permissions mapping in
           if length p \<ge> 3 \<and> p ! 1 = of_char (CHR ''w'') \<and> p ! 2 = of_char (CHR ''x'') \<and> map_path mapping = []
              \<and> read_memory m (map_start mapping) 2 = Some (ascii ''MZ'')
           then (let (m', n) = repair_module_wine_unixlib_exports m (map_start mapping) in ((m', repaired + n), False))
           else ((m, repaired), False))))"

definition WINE_UNIXLIB_REPAIR_RETRY_INTERVAL :: u64 where "WINE_UNIXLIB_REPAIR_RETRY_INTERVAL = 4"
definition WINE_UNIXLIB_REPAIR_MAX_ATTEMPTS :: u64 where "WINE_UNIXLIB_REPAIR_MAX_ATTEMPTS = 256"

record repair_state =
  ur_done :: bool
  ur_attempts :: u64
  ur_logged :: bool
  ur_log :: "(string \<times> u64 option) list"

definition repair_new :: repair_state where
  "repair_new = \<lparr>ur_done = False, ur_attempts = 0, ur_logged = False, ur_log = []\<rparr>"

definition repair_due :: "u64 \<Rightarrow> bool" where
  "repair_due attempt \<longleftrightarrow> attempt < WINE_UNIXLIB_REPAIR_MAX_ATTEMPTS \<and>
     (attempt = 0 \<or> attempt mod WINE_UNIXLIB_REPAIR_RETRY_INTERVAL = 0)"

definition finish_repair :: "nat \<Rightarrow> repair_state \<Rightarrow> repair_state" where
  "finish_repair repaired s =
     (if repaired > 0 then
        (let s1 = s\<lparr>ur_done := True\<rparr> in
         if ur_logged s1 then s1
         else s1\<lparr>ur_logged := True, ur_log := ur_log s1 @
            [(''reflex ntdll clone: repaired Wine-internal data exports hooked as code'', None),
             (''reflex ntdll clone: exports repaired='', Some (of_nat repaired))]\<rparr>)
      else s)"

definition maybe_repair_wine_unixlib_exports :: "bytes list option \<Rightarrow> vmem \<Rightarrow> repair_state \<Rightarrow> vmem \<times> repair_state" where
  "maybe_repair_wine_unixlib_exports maps m s =
     (if ur_done s then (m, s)
      else let attempt = ur_attempts s; s1 = s\<lparr>ur_attempts := attempt + 1\<rparr> in
        if \<not> repair_due attempt then (m, s1)
        else let ((m', repaired), _) = find_line visit_image maps (m, 0) in (m', finish_repair repaired s1))"

section \<open>What a repair does\<close>

lemma write_u64_effect:
  assumes "write_u64 m a v = (m', ok)" and "a \<noteq> 0"
  shows "ok \<Longrightarrow> read_u64 m' a = Some v" and "\<not> ok \<Longrightarrow> m' = m"
    and "disjoint_ranges a 8 b k \<Longrightarrow> read_memory m' b k = read_memory m b k"
proof -
  have len: "length (to_le 8 v) = 8" by simp
  show "read_u64 m' a = Some v" if ok
  proof -
    from that assms(1) have "write_memory m a (to_le 8 v) = (m', True)" by (simp add: write_u64_def)
    from read_after_write [OF this assms(2)] len have "read_memory m' a 8 = Some (to_le 8 v)"
      by (metis list.size(3) zero_neq_numeral)
    then show ?thesis by (simp add: read_u64_def from_le_to_le)
  qed
  show "m' = m" if "\<not> ok" using that assms(1) write_memory_failed by (auto simp: write_u64_def)
  show "read_memory m' b k = read_memory m b k" if "disjoint_ranges a 8 b k"
    using read_elsewhere [of m a "to_le 8 v" m' ok b k] assms(1) that by (simp add: write_u64_def len)
qed

lemma trampoline_entry: "trampoline_destination m a = Some d \<Longrightarrow> a \<noteq> 0"
  by (auto simp: trampoline_destination_def read_memory_def split: bind_splits if_splits)

text \<open>A word that is not the head of a trampoline makes the record one no more.\<close>

lemma value_is_no_trampoline:
  assumes "read_u64 m a = Some v" and "v \<noteq> 0x225ff"
  shows "trampoline_destination m a = None"
proof (rule ccontr)
  assume "trampoline_destination m a \<noteq> None"
  then obtain bs where bs: "read_memory m a 16 = Some bs" "take 8 bs = TRAMPOLINE_HEAD"
    by (auto simp: trampoline_destination_def decode_trampoline_def split: bind_splits if_splits)
  then have "read_memory m a 8 = Some (take 8 bs)"
    using span_take [of 8 16 m a] readable_append [of a 8 8 m]
    by (auto simp: read_memory_def process_vm_readv_def readable_def split: if_splits)
  with bs(2) assms(1) have "v = from_le TRAMPOLINE_HEAD" by (simp add: read_u64_def)
  with assms(2) show False by (simp add: TRAMPOLINE_HEAD_def)
qed

text \<open>
  C38: repairing a hooked data export puts back the live value. When the repair of a name
  reports success, the export's entry was a trampoline, the eight bytes at that entry now hold
  the value stored at the trampoline's destination, all memory outside them is untouched, and
  the entry is a trampoline no more unless that value is itself the trampoline's code. When it
  reports failure nothing was written.
\<close>

theorem repair_restores_live_value:
  assumes "repair_named_export m base e name = (m', ok)"
  shows "(\<not> ok \<longrightarrow> m' = m) \<and>
    (ok \<longrightarrow> (\<exists>ordinal function_rva destination v entry.
       find_export_ordinal m base e name = Some ordinal \<and> read_u32 m (export_slot base e ordinal) = Some function_rva \<and>
       entry = base + ucast function_rva \<and> trampoline_destination m entry = Some destination \<and>
       read_u64 m destination = Some v \<and> read_u64 m' entry = Some v \<and>
       (v \<noteq> 0x225ff \<longrightarrow> trampoline_destination m' entry = None) \<and>
       (\<forall>b k. disjoint_ranges entry 8 b k \<longrightarrow> read_memory m' b k = read_memory m b k)))"
proof (cases "m' = m \<and> \<not> ok")
  case False
  then obtain ordinal function_rva destination v where f: "find_export_ordinal m base e name = Some ordinal"
    "read_u32 m (export_slot base e ordinal) = Some function_rva"
    "trampoline_destination m (base + ucast function_rva) = Some destination"
    "read_u64 m destination = Some v" "write_u64 m (base + ucast function_rva) v = (m', ok)"
    using assms by (auto simp: repair_named_export_def Let_def split: option.splits)
  note w = write_u64_effect [OF f(5) trampoline_entry [OF f(3)]]
  with f value_is_no_trampoline show ?thesis by auto
qed simp

text \<open>An image with one hooked export, as in the source's own test.\<close>

definition hooked_image :: vmem where
  "hooked_image = \<lparr>vm_bytes = \<lambda>x. if 0x10300 \<le> x \<and> x < 0x10700 then
     Some (case map_of
       (if x < 0x10400 then [(0x10301, 0x05), (0x10320, 0x60), (0x10321, 0x03), (0x10360, 0x61)]
        else if x < 0x10600 then [(0x10500, 0xff), (0x10501, 0x25), (0x10502, 0x02), (0x10509, 0x06), (0x1050a, 0x01)]
        else [(0x10600, 0x0d), (0x10601, 0xf0)]) x of Some b \<Rightarrow> b | None \<Rightarrow> 0) else None, vm_writable = \<lambda>x. True\<rparr>"

definition hooked_directory :: export_directory where
  "hooked_directory = \<lparr>ed_name_count = 1, ed_functions_rva = 0x300, ed_names_rva = 0x320, ed_ordinals_rva = 0x340\<rparr>"

lemma hooked_image_repaired: "snd (repair_named_export hooked_image 0x10000 hooked_directory (ascii ''a''))"
  and hooked_image_value: "find_export_ordinal hooked_image 0x10000 hooked_directory (ascii ''a'') = Some 0"
    "read_u32 hooked_image (export_slot 0x10000 hooked_directory 0) = Some 0x500"
    "trampoline_destination hooked_image 0x10500 = Some 0x10600" "read_u64 hooked_image 0x10600 = Some 0xf00d"
  by code_simp+

theorem repair_restores_live_value_witness:
  "\<exists>m'. repair_named_export hooked_image 0x10000 hooked_directory (ascii ''a'') = (m', True) \<and>
     read_u64 m' 0x10500 = Some 0xf00d \<and> trampoline_destination m' 0x10500 = None"
proof -
  obtain m' where r: "repair_named_export hooked_image 0x10000 hooked_directory (ascii ''a'') = (m', True)"
    using hooked_image_repaired by (metis (full_types) prod.collapse)
  from repair_restores_live_value [OF r] r hooked_image_value show ?thesis by auto
qed

section \<open>The retries\<close>

fun repair_calls :: "bytes list option list \<Rightarrow> vmem \<Rightarrow> repair_state \<Rightarrow> vmem \<times> repair_state" where
  "repair_calls [] m s = (m, s)"
| "repair_calls (maps # rest) m s =
     (let (m', s') = maybe_repair_wine_unixlib_exports maps m s in repair_calls rest m' s')"

lemma repair_calls_done: "ur_done s \<Longrightarrow> repair_calls cs m s = (m, s)"
  by (induction cs) (simp_all add: maybe_repair_wine_unixlib_exports_def)

end
