(* ===== verification/Kuser_Patch.thy ===== *)
theory Kuser_Patch
  imports Prelude
begin

text \<open>
  The \<^verbatim>\<open>KUSER_SHARED_DATA\<close> recipes of \<^verbatim>\<open>protocol/kuser.rs\<close> as lists of byte writes, and the
  word-sized state machine \<^verbatim>\<open>PatchState\<close> that arbitrates between threads asking for
  different recipes. \<open>patch_decide\<close> is the body of the loop in \<^verbatim>\<open>PatchState::patch\<close> up to its
  compare-exchange; \<open>patch_step\<close> interleaves any number of callers, one atomic access per
  step, with a compare-exchange that may also fail spuriously.
\<close>

section \<open>Recipes\<close>

definition PAGE_SIZE :: nat where "PAGE_SIZE = 4096"

datatype recipe = Resume | Selector | Dispatch

definition recipe_from_raw :: "int \<Rightarrow> recipe option" where
  "recipe_from_raw v =
     (if v = 0 then Some Resume else if v = 1 then Some Selector else if v = 2 then Some Dispatch else None)"

type_synonym write_op = "nat \<times> nat \<times> u64"

definition RESUME_OPS :: "write_op list" where
  "RESUME_OPS = [
    (0x260, 8, 0x0000000100006658), (0x268, 4, 0x00090001), (0x26c, 4, 0x0000000a), (0x270, 4, 0),
    (0x274, 4, 0x01010000), (0x278, 4, 0x00010000), (0x27c, 4, 0x00010101), (0x280, 4, 0x00010101),
    (0x284, 4, 0x00000100), (0x288, 4, 0x01010101), (0x28c, 4, 0), (0x290, 4, 1),
    (0x294, 4, 0x01000101), (0x298, 4, 0x01010101), (0x29c, 4, 0x00010001), (0x2a0, 4, 0),
    (0x2a4, 4, 0), (0x2a8, 4, 0), (0x2ac, 4, 0), (0x2b0, 4, 1), (0x3d8, 8, 0), (0x3e0, 8, 0),
    (0x3ec, 4, 0), (0x5f0, 8, 0), (0x5f8, 8, 0), (0x808, 8, 0), (0x810, 8, 0),
    (0x2d0, 8, 0x00320A0000000110), (0x2e8, 8, 0x00000100007FB10B), (0x2f4, 4, 0), (0x36c, 8, 0),
    (0x374, 8, 0), (0x37c, 4, 1), (0x3c0, 8, 0x0083000100000010), (0xffc, 4, 0x13371337)]"

definition DISPATCH_OPS :: "write_op list" where
  "DISPATCH_OPS = [
    (0x26e, 8, 0), (0x283, 8, 0x0101010000010000), (0x288, 8, 0x0000000001010101),
    (0x268, 8, 0x0000000A00090001), (0x261, 8, 0x0100000001000066), (0x272, 8, 0x0000010100000000),
    (0x3c0, 4, 0x10), (0x260, 8, 0x0000000100006658), (0x282, 8, 0x0101000001000001),
    (0x2d0, 4, 0x0110), (0x2e8, 4, 0x007FB10B), (0x378, 4, 0), (0x2e8, 8, 0x00000100007FB10B),
    (0x273, 8, 0x0100000101000000), (0x2d0, 8, 0x00320A0000000110), (0x000, 8, 0x0FA0000000000000),
    (0x378, 8, 0x0000000100000000), (0x3c0, 8, 0x0083000100000010), (0x26c, 8, 0x000000000000000A),
    (0x2f4, 4, 0), (0x264, 4, 1), (0x270, 4, 0), (0x281, 8, 0x0100000100000101)]"

definition SELECTOR_OPS :: "write_op list" where
  "SELECTOR_OPS = [
    (0x2d6, 4, 0x00010034), (0x2e8, 4, 0x00bf9c8f), (0x3c0, 4, 0x00000010), (0x288, 4, 0x01010101),
    (0x268, 4, 0x00090001), (0x2f4, 4, 0), (0x264, 4, 1), (0x2d0, 4, 0x00000310),
    (0x260, 4, 0x00006658), (0x26c, 4, 0x0000000a), (0x270, 4, 0)]"

type_synonym byte_write = "nat \<times> u8"

definition zero_range :: "nat \<Rightarrow> nat \<Rightarrow> byte_write list" where
  "zero_range lo hi = map (\<lambda>off. (off, 0)) [lo..<hi]"

definition op_writes :: "write_op list \<Rightarrow> byte_write list" where
  "op_writes ops = concat (map (\<lambda>(off, size, v). zip [off..<off + size] (take size (to_le 8 v))) ops)"

definition system_root_writes :: "byte_write list" where
  "system_root_writes =
     concat (map (\<lambda>(i, b). [(0x30 + i * 2, b), (0x31 + i * 2, 0)])
       (enumerate 0 (ascii ''C:'' @ [92] @ ascii ''Windows'' @ [0])))"

definition visit_writes :: "recipe \<Rightarrow> bool \<Rightarrow> byte_write list" where
  "visit_writes r avx =
     (case r of
        Dispatch \<Rightarrow> op_writes DISPATCH_OPS
      | Selector \<Rightarrow> op_writes SELECTOR_OPS
      | Resume \<Rightarrow> system_root_writes @ zero_range 0x46 0x134 @ op_writes RESUME_OPS) @
     (if r = Resume
      then map (\<lambda>off. (off, 0)) [0x290, 0x294, 0x295, 0x297] @
           (if \<not> avx then map (\<lambda>off. (off, 0)) [0x285, 0x29b, 0x29c] else []) @
           zero_range 0x3f0 0x5f0 @ zero_range 0x604 0x804
      else [])"

section \<open>The patch state\<close>

datatype patch_error = PatchConflict | ApplyFailed

definition PATCH_UNAPPLIED :: u32 where "PATCH_UNAPPLIED = 0"
definition PATCH_RESUME_APPLYING :: u32 where "PATCH_RESUME_APPLYING = 1"
definition PATCH_RESUME_READY :: u32 where "PATCH_RESUME_READY = 2"
definition PATCH_RESUME_FAILED :: u32 where "PATCH_RESUME_FAILED = 3"
definition PATCH_DISPATCH_APPLYING :: u32 where "PATCH_DISPATCH_APPLYING = 4"
definition PATCH_DISPATCH_READY :: u32 where "PATCH_DISPATCH_READY = 5"
definition PATCH_DISPATCH_FAILED :: u32 where "PATCH_DISPATCH_FAILED = 6"
definition PATCH_SELECTOR_APPLYING :: u32 where "PATCH_SELECTOR_APPLYING = 7"
definition PATCH_SELECTOR_READY :: u32 where "PATCH_SELECTOR_READY = 8"
definition PATCH_SELECTOR_FAILED :: u32 where "PATCH_SELECTOR_FAILED = 9"
definition PATCH_WAIT_LIMIT :: nat where "PATCH_WAIT_LIMIT = 4096"

lemmas patch_states = PATCH_UNAPPLIED_def PATCH_RESUME_APPLYING_def PATCH_RESUME_READY_def
  PATCH_RESUME_FAILED_def PATCH_DISPATCH_APPLYING_def PATCH_DISPATCH_READY_def
  PATCH_DISPATCH_FAILED_def PATCH_SELECTOR_APPLYING_def PATCH_SELECTOR_READY_def
  PATCH_SELECTOR_FAILED_def

definition patch_recover_after_fork :: "u32 \<Rightarrow> u32" where
  "patch_recover_after_fork st =
     (if st = PATCH_RESUME_APPLYING then PATCH_RESUME_FAILED
      else if st = PATCH_DISPATCH_APPLYING then PATCH_DISPATCH_FAILED
      else if st = PATCH_SELECTOR_APPLYING then PATCH_SELECTOR_FAILED
      else st)"

fun applying_state :: "recipe \<Rightarrow> u32" where
  "applying_state Resume = PATCH_RESUME_APPLYING"
| "applying_state Dispatch = PATCH_DISPATCH_APPLYING"
| "applying_state Selector = PATCH_SELECTOR_APPLYING"

fun ready_state :: "recipe \<Rightarrow> u32" where
  "ready_state Resume = PATCH_RESUME_READY"
| "ready_state Dispatch = PATCH_DISPATCH_READY"
| "ready_state Selector = PATCH_SELECTOR_READY"

fun failed_state :: "recipe \<Rightarrow> u32" where
  "failed_state Resume = PATCH_RESUME_FAILED"
| "failed_state Dispatch = PATCH_DISPATCH_FAILED"
| "failed_state Selector = PATCH_SELECTOR_FAILED"

text \<open>
  One pass of the loop over the word it loaded: return, wait and load again, or try the
  compare-exchange with the state to fall back to.
\<close>

datatype patch_decision = Finish "patch_error option" | WaitAgain nat | TryClaim u32

definition settled_states :: "u32 list" where
  "settled_states = [PATCH_RESUME_READY, PATCH_RESUME_FAILED, PATCH_DISPATCH_READY,
     PATCH_DISPATCH_FAILED, PATCH_SELECTOR_READY, PATCH_SELECTOR_FAILED]"

definition patch_decide :: "recipe \<Rightarrow> nat \<Rightarrow> u32 \<Rightarrow> u32 \<Rightarrow> patch_decision" where
  "patch_decide r waits completion cur =
     (if cur = ready_state r then Finish None
      else if cur \<in> {PATCH_DISPATCH_APPLYING, PATCH_SELECTOR_APPLYING} \<and> cur \<noteq> applying_state r then
        (if waits = PATCH_WAIT_LIMIT then Finish (Some PatchConflict) else WaitAgain (waits + 1))
      else
        (let foreign = cur \<noteq> PATCH_UNAPPLIED \<and> \<not> (applying_state r \<le> cur \<and> cur \<le> failed_state r);
             can_transition = r \<noteq> Resume \<and> cur \<in> set settled_states;
             completion' = (if foreign then cur else completion)
         in if foreign \<and> \<not> can_transition then Finish (Some PatchConflict)
            else if cur = applying_state r then
              (if waits = PATCH_WAIT_LIMIT then Finish (Some PatchConflict) else WaitAgain (waits + 1))
            else TryClaim completion'))"

text \<open>\<open>PatchState::patch\<close> with no other thread writing the word: \<open>apply_ok\<close> is what the callback returns.\<close>

function patch_alone :: "recipe \<Rightarrow> bool \<Rightarrow> nat \<Rightarrow> u32 \<Rightarrow> u32 \<Rightarrow> u32 \<times> patch_error option \<times> bool" where
  "patch_alone r apply_ok waits completion st =
     (case patch_decide r waits completion st of
        Finish res \<Rightarrow> (st, res, False)
      | WaitAgain w \<Rightarrow> if waits < PATCH_WAIT_LIMIT then patch_alone r apply_ok w completion st
                       else (st, Some PatchConflict, False)
      | TryClaim completion' \<Rightarrow>
          if apply_ok then (ready_state r, None, True) else (completion', Some ApplyFailed, True))"
  by pat_completeness auto
termination
  by (relation "measure (\<lambda>(r, ok, waits, c, st). PATCH_WAIT_LIMIT - waits)")
    (auto simp: patch_decide_def Let_def split: if_splits)

declare patch_alone.simps [simp del]

definition patch :: "recipe \<Rightarrow> bool \<Rightarrow> u32 \<Rightarrow> u32 \<times> patch_error option \<times> bool" where
  "patch r apply_ok st = patch_alone r apply_ok 0 (failed_state r) st"

section \<open>Interleaved callers\<close>

text \<open>
  A caller is before its load (with its wait count and fallback state), between its load and
  its compare-exchange, running \<open>apply\<close>, or has returned. \<open>ps_page\<close> is the last recipe
  whose writes were completed.
\<close>

datatype patch_pc = PLoad nat u32 | PClaim nat u32 u32 | PApply u32 | PDone "patch_error option"

record patch_sys =
  ps_word :: u32
  ps_page :: "recipe option"
  ps_pcs :: "nat \<Rightarrow> patch_pc"

definition set_pc :: "nat \<Rightarrow> patch_pc \<Rightarrow> patch_sys \<Rightarrow> patch_sys" where
  "set_pc t pc s = s\<lparr>ps_pcs := (ps_pcs s)(t := pc)\<rparr>"

inductive patch_step :: "(nat \<Rightarrow> recipe) \<Rightarrow> patch_sys \<Rightarrow> patch_sys \<Rightarrow> bool" for rs where
  p_finish: "ps_pcs s t = PLoad w c \<Longrightarrow> patch_decide (rs t) w c (ps_word s) = Finish res \<Longrightarrow>
    patch_step rs s (set_pc t (PDone res) s)"
| p_wait: "ps_pcs s t = PLoad w c \<Longrightarrow> patch_decide (rs t) w c (ps_word s) = WaitAgain w' \<Longrightarrow>
    patch_step rs s (set_pc t (PLoad w' c) s)"
| p_try: "ps_pcs s t = PLoad w c \<Longrightarrow> patch_decide (rs t) w c (ps_word s) = TryClaim c' \<Longrightarrow>
    patch_step rs s (set_pc t (PClaim w c' (ps_word s)) s)"
| p_claim: "ps_pcs s t = PClaim w c (ps_word s) \<Longrightarrow>
    patch_step rs s (set_pc t (PApply c) (s\<lparr>ps_word := applying_state (rs t)\<rparr>))"
| p_claim_fail: "ps_pcs s t = PClaim w c cur \<Longrightarrow> patch_step rs s (set_pc t (PLoad w c) s)"
| p_apply_ok: "ps_pcs s t = PApply c \<Longrightarrow>
    patch_step rs s (set_pc t (PDone None) (s\<lparr>ps_word := ready_state (rs t), ps_page := Some (rs t)\<rparr>))"
| p_apply_fail: "ps_pcs s t = PApply c \<Longrightarrow>
    patch_step rs s (set_pc t (PDone (Some ApplyFailed)) (s\<lparr>ps_word := c\<rparr>))"

text \<open>The process starts, or resumes after a fork, with a word no thread is working on.\<close>

definition patch_init :: "(nat \<Rightarrow> recipe) \<Rightarrow> patch_sys \<Rightarrow> bool" where
  "patch_init rs s \<longleftrightarrow>
     (ps_word s = PATCH_UNAPPLIED \<or> ps_word s \<in> set settled_states) \<and>
     (\<forall>r. ps_word s = ready_state r \<longrightarrow> ps_page s = Some r) \<and>
     (\<forall>t. ps_pcs s t = PLoad 0 (failed_state (rs t)))"

section \<open>The decision\<close>

lemma u32_interval3:
  fixes x :: u32
  shows "1 \<le> x \<and> x \<le> 3 \<longleftrightarrow> x = 1 \<or> x = 2 \<or> x = 3"
    and "4 \<le> x \<and> x \<le> 6 \<longleftrightarrow> x = 4 \<or> x = 5 \<or> x = 6"
    and "7 \<le> x \<and> x \<le> 9 \<longleftrightarrow> x = 7 \<or> x = 8 \<or> x = 9"
  unfolding word_le_nat_alt word_unat_eq_iff by (simp_all, arith+)

lemma own_range:
  "applying_state r \<le> cur \<and> cur \<le> failed_state r \<longleftrightarrow> cur \<in> {applying_state r, ready_state r, failed_state r}"
  using u32_interval3 [of cur] by (cases r) (simp_all add: patch_states)

lemma state_distinct [simp]:
  "applying_state r \<noteq> ready_state r'" "applying_state r \<noteq> failed_state r'" "ready_state r \<noteq> failed_state r'"
  "applying_state r = applying_state r' \<longleftrightarrow> r = r'" "ready_state r = ready_state r' \<longleftrightarrow> r = r'"
  "failed_state r = failed_state r' \<longleftrightarrow> r = r'"
  "applying_state r \<noteq> PATCH_UNAPPLIED" "ready_state r \<noteq> PATCH_UNAPPLIED" "failed_state r \<noteq> PATCH_UNAPPLIED"
  by (cases r; cases r'; simp add: patch_states)+

lemmas state_distinct_sym [simp] = state_distinct(1-3,7-9) [THEN not_sym]

lemma settled_iff: "st \<in> set settled_states \<longleftrightarrow> (\<exists>r. st = ready_state r \<or> st = failed_state r)"
  unfolding settled_states_def by (auto intro: ready_state.simps [symmetric] failed_state.simps [symmetric])
    (metis (full_types) ready_state.simps failed_state.simps recipe.exhaust)+

lemma decide_finish_ok: "patch_decide r w c cur = Finish None \<longleftrightarrow> cur = ready_state r"
  by (simp add: patch_decide_def Let_def)

lemma decide_try:
  assumes "patch_decide r w c cur = TryClaim c'"
  shows "c' = cur \<and> cur \<in> set settled_states \<and> cur \<noteq> failed_state r \<and> cur \<noteq> ready_state r \<or>
         c' = c \<and> (cur = PATCH_UNAPPLIED \<or> cur = failed_state r)"
  using assms by (auto simp: patch_decide_def Let_def own_range split: if_splits)

lemma decide_wait: "patch_decide r w c cur = WaitAgain w' \<Longrightarrow> w' = w + 1 \<and> (w \<noteq> PATCH_WAIT_LIMIT)"
  by (auto simp: patch_decide_def Let_def split: if_splits)

lemma decide_finish_err: "patch_decide r w c cur = Finish (Some e) \<Longrightarrow> e = PatchConflict"
  by (auto simp: patch_decide_def Let_def split: if_splits)

section \<open>The invariant of the interleavings\<close>

text \<open>
  The word is settled and nobody applies, or it is the applying state of the one thread that
  does; the settled state below is the word itself, or what the applying thread falls back to.
\<close>

definition base_is :: "(nat \<Rightarrow> recipe) \<Rightarrow> patch_sys \<Rightarrow> u32 \<Rightarrow> bool" where
  "base_is rs s b \<longleftrightarrow>
     (ps_word s = b \<and> (b = PATCH_UNAPPLIED \<or> b \<in> set settled_states) \<and> (\<forall>t c. ps_pcs s t \<noteq> PApply c)) \<or>
     (\<exists>t. ps_pcs s t = PApply b \<and> ps_word s = applying_state (rs t) \<and> b \<in> set settled_states \<and>
          (\<forall>u c. ps_pcs s u = PApply c \<longrightarrow> u = t))"

fun fallback :: "patch_pc \<Rightarrow> u32 option" where
  "fallback (PLoad w c) = Some c"
| "fallback (PClaim w c cur) = Some c"
| "fallback _ = None"

definition fallback_ok :: "(nat \<Rightarrow> recipe) \<Rightarrow> patch_sys \<Rightarrow> u32 \<Rightarrow> bool" where
  "fallback_ok rs s b \<longleftrightarrow> (\<forall>t c. fallback (ps_pcs s t) = Some c \<longrightarrow>
     c = failed_state (rs t) \<or> c \<in> set settled_states \<and> b \<noteq> PATCH_UNAPPLIED \<and> b \<noteq> failed_state (rs t))"

definition claims_ok :: "(nat \<Rightarrow> recipe) \<Rightarrow> patch_sys \<Rightarrow> bool" where
  "claims_ok rs s \<longleftrightarrow> (\<forall>t w c cur. ps_pcs s t = PClaim w c cur \<longrightarrow>
     cur = c \<and> cur \<in> set settled_states \<or> cur = PATCH_UNAPPLIED \<or> cur = failed_state (rs t))"

definition page_ok :: "patch_sys \<Rightarrow> u32 \<Rightarrow> bool" where
  "page_ok s b \<longleftrightarrow> (\<forall>r. b = ready_state r \<longrightarrow> ps_page s = Some r)"

definition patch_inv :: "(nat \<Rightarrow> recipe) \<Rightarrow> patch_sys \<Rightarrow> bool" where
  "patch_inv rs s \<longleftrightarrow> (\<exists>b. base_is rs s b \<and> fallback_ok rs s b \<and> claims_ok rs s \<and> page_ok s b)"

lemmas patch_inv_defs = fallback_ok_def claims_ok_def page_ok_def set_pc_def

lemma fallback_okD:
  "fallback_ok rs s b \<Longrightarrow> fallback (ps_pcs s t) = Some c \<Longrightarrow>
   c = failed_state (rs t) \<or> c \<in> set settled_states \<and> b \<noteq> PATCH_UNAPPLIED \<and> b \<noteq> failed_state (rs t)"
  by (simp add: fallback_ok_def)

lemma fallback_ok_set_pc:
  assumes "fallback_ok rs s b" and "\<And>c. fallback pc = Some c \<Longrightarrow>
    c = failed_state (rs t) \<or> c \<in> set settled_states \<and> b \<noteq> PATCH_UNAPPLIED \<and> b \<noteq> failed_state (rs t)"
  shows "fallback_ok rs (set_pc t pc s) b"
  using assms by (simp add: fallback_ok_def set_pc_def)

lemma base_is_other_pc:
  "base_is rs s b \<Longrightarrow> (\<And>c. ps_pcs s t \<noteq> PApply c) \<Longrightarrow> (\<And>c. pc \<noteq> PApply c) \<Longrightarrow> base_is rs (set_pc t pc s) b"
  unfolding base_is_def set_pc_def by (auto; metis)

lemma base_is_settled_word:
  "base_is rs s b \<Longrightarrow> ps_word s = PATCH_UNAPPLIED \<or> ps_word s \<in> set settled_states \<Longrightarrow> ps_word s = b"
  unfolding base_is_def settled_iff by auto

lemma patch_inv_init: "patch_init rs s \<Longrightarrow> patch_inv rs s"
  unfolding patch_inv_def patch_init_def base_is_def
  by (intro exI [of _ "ps_word s"]) (auto simp: patch_inv_defs)

lemma base_is_claim:
  assumes "base_is rs s b" and "ps_word s = PATCH_UNAPPLIED \<or> ps_word s \<in> set settled_states"
    and "c \<in> set settled_states"
  shows "base_is rs (set_pc t (PApply c) (s\<lparr>ps_word := applying_state (rs t)\<rparr>)) c"
proof -
  from assms(1,2) have "\<forall>t c. ps_pcs s t \<noteq> PApply c"
    unfolding base_is_def settled_iff by auto
  with assms(3) show ?thesis unfolding base_is_def set_pc_def by auto
qed

lemma base_is_applied:
  assumes "base_is rs s b" and "ps_pcs s t = PApply c" and "b' \<in> set settled_states" and "\<And>c. pc \<noteq> PApply c"
  shows "c = b" and "base_is rs (set_pc t pc (s\<lparr>ps_word := b', ps_page := pg\<rparr>)) b'"
  using assms unfolding base_is_def set_pc_def by (auto; metis)+

lemma patch_inv_claim:
  assumes "patch_inv rs s" and pc: "ps_pcs s t = PClaim w c (ps_word s)"
  shows "patch_inv rs (set_pc t (PApply c) (s\<lparr>ps_word := applying_state (rs t)\<rparr>))"
    (is "patch_inv rs ?s")
proof -
  from assms(1) obtain b where b: "base_is rs s b" "fallback_ok rs s b" "claims_ok rs s" "page_ok s b"
    by (auto simp: patch_inv_def)
  from b(3) pc have cur: "ps_word s = c \<and> ps_word s \<in> set settled_states \<or>
      ps_word s = PATCH_UNAPPLIED \<or> ps_word s = failed_state (rs t)"
    by (auto simp: claims_ok_def)
  then have set: "ps_word s = PATCH_UNAPPLIED \<or> ps_word s \<in> set settled_states"
    by (auto simp: settled_iff)
  have wb: "ps_word s = b" by (rule base_is_settled_word [OF b(1) set])
  have c: "c = b \<and> b \<in> set settled_states \<or>
      c = failed_state (rs t) \<and> (b = PATCH_UNAPPLIED \<or> b = failed_state (rs t))"
    using cur wb fallback_okD [OF b(2), of t c] pc by auto
  then have cs: "c \<in> set settled_states" by (auto simp: settled_iff)
  have "base_is rs ?s c" by (rule base_is_claim [OF b(1) set cs])
  moreover have "fallback_ok rs ?s c" using b(2) c by (auto simp: fallback_ok_def set_pc_def)
  moreover have "claims_ok rs ?s" using b(3) by (auto simp: claims_ok_def set_pc_def)
  moreover have "page_ok ?s c" using b(4) c by (auto simp: page_ok_def set_pc_def)
  ultimately show ?thesis by (auto simp: patch_inv_def)
qed

lemma patch_inv_try:
  assumes "patch_inv rs s" and pc: "ps_pcs s t = PLoad w c"
    and d: "patch_decide (rs t) w c (ps_word s) = TryClaim c'"
  shows "patch_inv rs (set_pc t (PClaim w c' (ps_word s)) s)" (is "patch_inv rs ?s")
proof -
  from assms(1) obtain b where b: "base_is rs s b" "fallback_ok rs s b" "claims_ok rs s" "page_ok s b"
    by (auto simp: patch_inv_def)
  note c' = decide_try [OF d]
  then have wb: "ps_word s = b"
    by (intro base_is_settled_word [OF b(1)]) (auto simp: settled_iff)
  have "base_is rs ?s b" by (rule base_is_other_pc [OF b(1)]) (simp_all add: pc)
  moreover have "fallback_ok rs ?s b"
    using fallback_okD [OF b(2), of t c] pc c' wb
    by (intro fallback_ok_set_pc [OF b(2)]) (auto simp: settled_iff)
  moreover have "claims_ok rs ?s" using b(3) c' by (auto simp: claims_ok_def set_pc_def)
  moreover have "page_ok ?s b" using b(4) by (simp add: page_ok_def set_pc_def)
  ultimately show ?thesis by (auto simp: patch_inv_def)
qed

lemma patch_inv_local:
  assumes "patch_inv rs s" and "\<And>c. ps_pcs s t \<noteq> PApply c"
    and "pc = PDone res \<or> pc = PLoad w c \<and> fallback (ps_pcs s t) = Some c"
  shows "patch_inv rs (set_pc t pc s)"
proof -
  from assms(1) obtain b where b: "base_is rs s b" "fallback_ok rs s b" "claims_ok rs s" "page_ok s b"
    by (auto simp: patch_inv_def)
  have "base_is rs (set_pc t pc s) b" using assms(3) by (intro base_is_other_pc [OF b(1) assms(2)]) auto
  moreover have "fallback_ok rs (set_pc t pc s) b"
    using assms(3) fallback_okD [OF b(2), of t] by (intro fallback_ok_set_pc [OF b(2)]) auto
  moreover have "claims_ok rs (set_pc t pc s)" using b(3) assms(3) by (auto simp: claims_ok_def set_pc_def)
  ultimately show ?thesis using b(4) unfolding patch_inv_def
    by (intro exI [of _ b]) (simp add: page_ok_def set_pc_def)
qed

lemma patch_inv_applied:
  assumes "patch_inv rs s" and pc: "ps_pcs s t = PApply c"
    and "b' = ready_state (rs t) \<and> pg = Some (rs t) \<or> b' = c \<and> pg = ps_page s"
  shows "patch_inv rs (set_pc t (PDone res) (s\<lparr>ps_word := b', ps_page := pg\<rparr>))" (is "patch_inv rs ?s")
proof -
  from assms(1) obtain b where b: "base_is rs s b" "fallback_ok rs s b" "claims_ok rs s" "page_ok s b"
    by (auto simp: patch_inv_def)
  from b(1) pc have "c \<in> set settled_states" unfolding base_is_def by force
  with assms(3) have b': "b' \<in> set settled_states" by (auto simp: settled_iff)
  have c: "c = b" by (rule base_is_applied(1) [OF b(1) pc b', of "PDone res"]) simp
  have "base_is rs ?s b'" by (rule base_is_applied(2) [OF b(1) pc b']) simp
  moreover have "fallback_ok rs ?s b'"
    using b(2) c assms(3) by (auto simp: fallback_ok_def set_pc_def)
  moreover have "claims_ok rs ?s" using b(3) by (auto simp: claims_ok_def set_pc_def)
  moreover have "page_ok ?s b'" using b(4) c assms(3) by (auto simp: page_ok_def set_pc_def)
  ultimately show ?thesis by (auto simp: patch_inv_def)
qed

lemma patch_inv_step:
  assumes "patch_step rs s s'" and "patch_inv rs s"
  shows "patch_inv rs s'"
  using assms
proof cases
  case (p_apply_ok t c)
  with patch_inv_applied [OF assms(2), of t c "ready_state (rs t)" "Some (rs t)"] show ?thesis by simp
next
  case (p_apply_fail t c)
  with patch_inv_applied [OF assms(2), of t c c "ps_page s"] show ?thesis by simp
qed (auto intro: patch_inv_local patch_inv_try patch_inv_claim assms(2))

lemma patch_inv_reachable: "(patch_step rs)\<^sup>*\<^sup>* s0 s \<Longrightarrow> patch_init rs s0 \<Longrightarrow> patch_inv rs s"
  by (induction rule: rtranclp_induct) (auto intro: patch_inv_init patch_inv_step)


definition resume_only :: "nat \<Rightarrow> recipe" where
  "resume_only t = (if t = 0 then Resume else Dispatch)"

definition fresh_patch_sys :: "(nat \<Rightarrow> recipe) \<Rightarrow> patch_sys" where
  "fresh_patch_sys rs =
     \<lparr>ps_word = PATCH_UNAPPLIED, ps_page = None, ps_pcs = (\<lambda>t. PLoad 0 (failed_state (rs t)))\<rparr>"

lemma fresh_patch_init: "patch_init rs (fresh_patch_sys rs)"
  by (simp add: patch_init_def fresh_patch_sys_def)

lemma fresh_try:
  "patch_step rs (fresh_patch_sys rs) (set_pc t (PClaim 0 (failed_state (rs t)) PATCH_UNAPPLIED) (fresh_patch_sys rs))"
proof -
  have "patch_decide (rs t) 0 (failed_state (rs t)) PATCH_UNAPPLIED = TryClaim (failed_state (rs t))"
    by (cases "rs t") (simp_all add: patch_decide_def patch_states)
  then show ?thesis
    using p_try [of "fresh_patch_sys rs" t 0 "failed_state (rs t)" rs] by (simp add: fresh_patch_sys_def)
qed


text \<open>
  A failed application changes nothing. Whenever a caller's compare-exchange is about to
  succeed, the state it will fall back to if its writes fail is the state it replaces, the
  recipe's own failed state standing in for a page no recipe was applied to; a fallback
  remembered from an earlier pass of the loop is never used.
\<close>

lemma patch_fallback_exact:
  assumes "(patch_step rs)\<^sup>*\<^sup>* s0 s" and "patch_init rs s0" and pc: "ps_pcs s t = PClaim w c (ps_word s)"
  shows "c = (if ps_word s = PATCH_UNAPPLIED then failed_state (rs t) else ps_word s)"
proof -
  from patch_inv_reachable [OF assms(1,2)] obtain b where
    b: "base_is rs s b" "fallback_ok rs s b" "claims_ok rs s" by (auto simp: patch_inv_def)
  from b(3) pc have cur: "ps_word s = c \<and> ps_word s \<in> set settled_states \<or>
      ps_word s = PATCH_UNAPPLIED \<or> ps_word s = failed_state (rs t)"
    by (auto simp: claims_ok_def)
  then have "ps_word s = b" by (intro base_is_settled_word [OF b(1)]) (auto simp: settled_iff)
  with cur fallback_okD [OF b(2), of t c] pc show ?thesis by (auto simp: settled_iff)
qed

section \<open>A call without interference\<close>

lemma patch_alone_wait:
  assumes "st = applying_state r' " and "r' = r \<or> r' \<noteq> Resume" and "waits \<le> PATCH_WAIT_LIMIT"
  shows "patch_alone r ok waits c st = (st, Some PatchConflict, False)"
  using assms(3)
proof (induction "PATCH_WAIT_LIMIT - waits" arbitrary: waits)
  case 0
  then have "waits = PATCH_WAIT_LIMIT" by simp
  with assms(1,2) show ?case
    by (subst patch_alone.simps) (cases r; cases r'; simp add: patch_decide_def patch_states)
next
  case (Suc n)
  then have w: "waits < PATCH_WAIT_LIMIT" by simp
  with assms(1,2) have "patch_decide r waits c st = WaitAgain (waits + 1)"
    by (cases r; cases r'; simp add: patch_decide_def patch_states)
  with w Suc show ?case by (subst patch_alone.simps) simp
qed

lemma patch_alone_success:
  "patch_alone r ok waits c st = (w, None, did) \<Longrightarrow>
   w = ready_state r \<and> (if did then ok else st = ready_state r)"
proof (induction r ok waits c st rule: patch_alone.induct)
  case (1 r ok waits c st)
  show ?case
  proof (cases "patch_decide r waits c st")
    case (Finish res)
    with "1.prems" decide_finish_ok show ?thesis by (auto simp: patch_alone.simps)
  next
    case (WaitAgain n)
    with 1 show ?thesis by (auto simp: patch_alone.simps [of r ok waits] split: if_splits)
  next
    case (TryClaim c')
    with "1.prems" show ?thesis by (auto simp: patch_alone.simps split: if_splits)
  qed
qed

lemma patch_success:
  "patch r ok st = (w, None, did) \<Longrightarrow> w = ready_state r \<and> (if did then ok else st = ready_state r)"
  unfolding patch_def by (rule patch_alone_success)

text \<open>
  Every outcome of \<^verbatim>\<open>PatchState::patch\<close> on its own, for each of the ten states. A ready
  recipe is accepted without writing; a state some thread is applying is given up as a
  conflict, after the bounded wait; resume is refused once another recipe has settled; and
  otherwise the callback runs once, the word ending ready on success and as it was (or
  failed, from an unapplied page) on failure.
\<close>

lemma patch_outcome:
  assumes "st \<le> 9"
  shows "patch r ok st =
    (if st = ready_state r then (st, None, False)
     else if \<exists>r'. st = applying_state r' then (st, Some PatchConflict, False)
     else if r = Resume \<and> st \<noteq> PATCH_UNAPPLIED \<and> st \<noteq> failed_state Resume then (st, Some PatchConflict, False)
     else if ok then (ready_state r, None, True)
     else (if st = PATCH_UNAPPLIED then failed_state r else st, Some ApplyFailed, True))"
proof (cases "\<exists>r'. st = applying_state r'")
  case True
  then obtain r' where r': "st = applying_state r'" by blast
  have "patch r ok st = (st, Some PatchConflict, False)"
  proof (cases "r' = r \<or> r' \<noteq> Resume")
    case True
    from patch_alone_wait [OF r' True] show ?thesis by (simp add: patch_def)
  next
    case False
    then have "patch_decide r 0 (failed_state r) st = Finish (Some PatchConflict)"
      using r' by (cases r) (simp_all add: patch_decide_def Let_def patch_states settled_states_def word_le_nat_alt)
    then show ?thesis by (simp add: patch_def patch_alone.simps)
  qed
  with True r' show ?thesis by simp
next
  case False
  then have st: "st = PATCH_UNAPPLIED \<or> st \<in> set settled_states"
  proof -
    from assms have "st = 0 \<or> st = 1 \<or> st = 2 \<or> st = 3 \<or> st = 4 \<or> st = 5 \<or> st = 6 \<or> st = 7 \<or> st = 8 \<or> st = 9"
      unfolding word_le_nat_alt word_unat_eq_iff by simp arith
    moreover have "st \<noteq> 1" "st \<noteq> 4" "st \<noteq> 7"
      using False applying_state.simps by (metis PATCH_RESUME_APPLYING_def PATCH_DISPATCH_APPLYING_def PATCH_SELECTOR_APPLYING_def)+
    ultimately show ?thesis by (auto simp: settled_states_def patch_states)
  qed
  have "patch_decide r 0 (failed_state r) st =
    (if st = ready_state r then Finish None
     else if r = Resume \<and> st \<noteq> PATCH_UNAPPLIED \<and> st \<noteq> failed_state Resume then Finish (Some PatchConflict)
     else TryClaim (if st = PATCH_UNAPPLIED then failed_state r else st))"
    using st unfolding settled_states_def
    by (cases r) (auto simp: patch_decide_def patch_states settled_states_def)
  with False show ?thesis by (simp add: patch_def patch_alone.simps)
qed

section \<open>The writes\<close>

definition apply_writes :: "byte_write list \<Rightarrow> (nat \<Rightarrow> u8) \<Rightarrow> nat \<Rightarrow> u8" where
  "apply_writes ws page = fold (\<lambda>(off, b) p. p(off := b)) ws page"

lemma apply_writes_simps [simp]:
  "apply_writes [] page = page"
  "apply_writes ((off, b) # ws) page = apply_writes ws (page(off := b))"
  "apply_writes (ws @ ws') page = apply_writes ws' (apply_writes ws page)"
  by (simp_all add: apply_writes_def)

lemma apply_writes_zero_range:
  "apply_writes (zero_range lo hi) page off = (if lo \<le> off \<and> off < hi then 0 else page off)"
  by (induction hi arbitrary: off) (auto simp: zero_range_def)

lemma apply_writes_outside: "off \<notin> fst ` set ws \<Longrightarrow> apply_writes ws page off = page off"
  by (induction ws arbitrary: page) auto

lemma op_writes_bound: "(off, b) \<in> set (op_writes ops) \<Longrightarrow> \<exists>(o', n, v) \<in> set ops. o' \<le> off \<and> off < o' + n"
  unfolding op_writes_def by (fastforce dest: set_zip_leftD)

text \<open>The byte an operation list leaves at an offset: that of the last operation covering it.\<close>

fun op_byte :: "write_op list \<Rightarrow> nat \<Rightarrow> u8 option" where
  "op_byte [] off = None"
| "op_byte ((o', n, v) # ops) off =
     (case op_byte ops off of
        Some b \<Rightarrow> Some b
      | None \<Rightarrow> if o' \<le> off \<and> off < o' + n then Some (to_le 8 v ! (off - o')) else None)"

lemma apply_writes_zip:
  "length bs = n \<Longrightarrow> apply_writes (zip [o'..<o' + n] bs) page off = (if o' \<le> off \<and> off < o' + n then bs ! (off - o') else page off)"
proof (induction n arbitrary: bs off)
  case (Suc n)
  then obtain cs b where bs: "bs = cs @ [b]" "length cs = n" by (metis length_Suc_conv_rev)
  have "zip [o'..<o' + Suc n] bs = zip [o'..<o' + n] cs @ [(o' + n, b)]" using bs by simp
  with Suc.IH [OF bs(2)] show ?case using bs by (auto simp: nth_append less_Suc_eq)
qed auto

lemma apply_writes_ops:
  "\<forall>(o', n, v) \<in> set ops. n \<le> 8 \<Longrightarrow>
   apply_writes (op_writes ops) page off = (case op_byte ops off of None \<Rightarrow> page off | Some b \<Rightarrow> b)"
proof (induction ops arbitrary: page)
  case (Cons x ops)
  obtain o' n v where x: "x = (o', n, v)" by (cases x)
  with Cons.prems have n: "n \<le> 8" by simp
  have "op_writes (x # ops) = zip [o'..<o' + n] (take n (to_le 8 v)) @ op_writes ops"
    by (simp add: op_writes_def x)
  with Cons n show ?case by (auto simp: x apply_writes_zip split: option.splits)
qed (simp add: op_writes_def)

lemma op_sizes:
  "\<forall>(o', n, v) \<in> set RESUME_OPS. n \<le> 8" "\<forall>(o', n, v) \<in> set DISPATCH_OPS. n \<le> 8"
  "\<forall>(o', n, v) \<in> set SELECTOR_OPS. n \<le> 8"
  by (simp_all add: RESUME_OPS_def DISPATCH_OPS_def SELECTOR_OPS_def)

lemma ops_in_page:
  "(off, n, v) \<in> set RESUME_OPS \<union> set DISPATCH_OPS \<union> set SELECTOR_OPS \<Longrightarrow> off + n \<le> PAGE_SIZE"
  by (auto simp: RESUME_OPS_def DISPATCH_OPS_def SELECTOR_OPS_def PAGE_SIZE_def)

lemma op_writes_in_page:
  assumes "set ops \<subseteq> set RESUME_OPS \<union> set DISPATCH_OPS \<union> set SELECTOR_OPS"
  shows "fst ` set (op_writes ops) \<subseteq> {0..<PAGE_SIZE}"
proof -
  have "off < PAGE_SIZE" if w: "(off, b) \<in> set (op_writes ops)" for off b
  proof -
    from op_writes_bound [OF w] obtain o' n v where "(o', n, v) \<in> set ops" "off < o' + n" by blast
    with ops_in_page [of o' n v] assms show ?thesis by auto
  qed
  then show ?thesis by auto
qed

lemma all_op_writes_in_page:
  "fst ` set (op_writes RESUME_OPS) \<subseteq> {0..<PAGE_SIZE}" "fst ` set (op_writes DISPATCH_OPS) \<subseteq> {0..<PAGE_SIZE}"
  "fst ` set (op_writes SELECTOR_OPS) \<subseteq> {0..<PAGE_SIZE}"
  by (rule op_writes_in_page, blast)+

lemma system_root_in_page: "fst ` set system_root_writes \<subseteq> {0..<PAGE_SIZE}"
  by (auto simp: system_root_writes_def PAGE_SIZE_def enumerate_eq_zip dest!: set_zip_leftD)

lemma zero_range_offsets: "fst ` set (zero_range lo hi) = {lo..<hi}"
  by (auto simp: zero_range_def image_image)

text \<open>Every byte a recipe writes lies in the shared page.\<close>

lemma recipe_writes_in_page: "fst ` set (visit_writes r avx) \<subseteq> {0..<PAGE_SIZE}"
  using all_op_writes_in_page system_root_in_page
  by (cases r; cases avx) (simp_all add: visit_writes_def image_Un zero_range_offsets PAGE_SIZE_def)

text \<open>
  The AVX switch. On any page the resume recipe with AVX enabled leaves exactly the bytes
  of the recipe without it, except that the processor-feature bytes at 0x285, 0x29b and 0x29c
  are one.
\<close>

lemma resume_avx_difference:
  "apply_writes (visit_writes Resume True) page =
   (apply_writes (visit_writes Resume False) page)(0x285 := 1, 0x29b := 1, 0x29c := 1)"
proof
  fix off
  define p where "p = apply_writes (op_writes RESUME_OPS) (apply_writes (zero_range 0x46 0x134) (apply_writes system_root_writes page))"
  have "p 0x285 = 1" "p 0x29b = 1" "p 0x29c = 1"
    unfolding p_def apply_writes_ops [OF op_sizes(1)] by (simp_all add: RESUME_OPS_def to_le_numeral)
  then show "apply_writes (visit_writes Resume True) page off =
      ((apply_writes (visit_writes Resume False) page)(0x285 := 1, 0x29b := 1, 0x29c := 1)) off"
    by (auto simp: visit_writes_def apply_writes_zero_range p_def [symmetric])
qed

definition page_u32 :: "(nat \<Rightarrow> u8) \<Rightarrow> nat \<Rightarrow> u32" where
  "page_u32 page off = from_le (map page [off..<off + 4])"

text \<open>
  What the three recipes tell a guest of the Windows it runs on. Whatever the page held,
  each leaves the product build number and version fields of its table: read back
  little-endian they are 0x6658 at 0x260, 10 at 0x26c (major version) and 0 at 0x270 (minor),
  and only the resume recipe stamps its marker in the last word of the page.
\<close>

lemma recipe_version_fields:
  "let p = apply_writes (visit_writes r avx) page in
   page_u32 p 0x260 = 0x6658 \<and> page_u32 p 0x26c = 10 \<and> page_u32 p 0x270 = 0 \<and>
   page_u32 p 0xffc = (if r = Resume then 0x13371337 else page_u32 page 0xffc)"
proof -
  have upt: "[off..<off + 4] = [off, off + 1, off + 2, off + 3]" for off :: nat
    by (simp add: upt_rec)
  show ?thesis
    by (cases r; cases avx)
      (simp_all add: visit_writes_def page_u32_def upt apply_writes_zero_range
        apply_writes_ops [OF op_sizes(1)] apply_writes_ops [OF op_sizes(2)] apply_writes_ops [OF op_sizes(3)],
       simp_all add: RESUME_OPS_def DISPATCH_OPS_def SELECTOR_OPS_def to_le_numeral)
qed

end
