(* ===== verification/Kuser_Page.thy ===== *)
theory Kuser_Page
  imports Kuser_Patch Maps
begin

text \<open>
  The owner of the live \<^verbatim>\<open>KUSER_SHARED_DATA\<close> page: \<^verbatim>\<open>runtime/src/kuser.rs\<close>, its submodule
  \<^verbatim>\<open>shared_time.rs\<close> and the reentrancy guard \<^verbatim>\<open>page_guard.rs\<close>. \<open>kuser\<close> holds the statics of
  the three files, the page itself, its protection and the thread's blocked signals; \<open>kenv\<close> is
  what the system calls of one operation return.
\<close>

section \<open>State and environment\<close>

definition KUSER_ADDRESS :: nat where "KUSER_ADDRESS = 0x7ffe0000"
definition SYSTEM_CALL_OFFSET :: nat where "SYSTEM_CALL_OFFSET = 0x308"

datatype protection = ReadOnly | ReadWrite

datatype trap_signal = SIGSEGV | SIGSYS

record kuser =
  ku_geometry :: bool
  ku_avx :: bool
  ku_hack_enabled :: bool
  ku_hack_applied :: bool
  ku_verified :: bool
  ku_patch :: u32
  ku_owner :: int
  ku_page :: "nat \<Rightarrow> u8"
  ku_protection :: protection
  ku_blocked :: "trap_signal set"
  ku_log :: "string list"

record kenv =
  ke_pid :: int
  ke_sigprocmask_ok :: bool
  ke_page_present :: bool
  ke_maps :: "bytes list option"
  ke_make_writable_ok :: bool
  ke_restore_ok :: "bool \<times> bool"
  ke_game_process :: bool
  ke_bridge_ok :: bool
  ke_page_size :: nat
  ke_getenv :: "string \<Rightarrow> bytes option"

definition klog :: "string \<Rightarrow> kuser \<Rightarrow> kuser" where
  "klog m k = k\<lparr>ku_log := ku_log k @ [m]\<rparr>"

section \<open>The shared mapping\<close>

definition wine_mapping :: "bytes \<Rightarrow> bool" where
  "wine_mapping line = (case parse_maps_line line of
       None \<Rightarrow> False
     | Some m \<Rightarrow>
         (let path = (case strip_suffix (ascii '' (deleted)'') (map_path m) of Some p \<Rightarrow> p | None \<Rightarrow> map_path m) in
          map_start m = of_nat KUSER_ADDRESS \<and> map_end m \<ge> of_nat (KUSER_ADDRESS + PAGE_SIZE) \<and>
          map_permissions m \<in> {ascii ''r--s'', ascii ''rw-s''} \<and> map_inode m \<noteq> ascii ''0'' \<and>
          path = ascii ''/memfd:wine-mapping''))"

definition verify_shared_page :: "kenv \<Rightarrow> kuser \<Rightarrow> bool" where
  "verify_shared_page e k \<longleftrightarrow>
     ku_geometry k \<and> ke_page_present e \<and> snd (find_line (\<lambda>_ l. ((), wine_mapping l)) (ke_maps e) ())"

definition prepare_shared_page :: "kenv \<Rightarrow> kuser \<Rightarrow> kuser" where
  "prepare_shared_page e k = k\<lparr>ku_verified := verify_shared_page e k\<rparr>"

definition ensure_verified :: "kenv \<Rightarrow> kuser \<Rightarrow> kuser \<times> bool" where
  "ensure_verified e k =
     (if ku_verified k then (k, True)
      else if verify_shared_page e k then (k\<lparr>ku_verified := True\<rparr>, True)
      else (k, False))"

section \<open>The guard\<close>

definition acquire_guard :: "kenv \<Rightarrow> kuser \<Rightarrow> kuser \<times> trap_signal set option" where
  "acquire_guard e k =
     (if \<not> ke_sigprocmask_ok e then (k, None)
      else if ku_owner k = ke_pid e then (k, None)
      else
        (let k1 = k\<lparr>ku_owner := ke_pid e, ku_blocked := ku_blocked k \<union> {SIGSEGV, SIGSYS}\<rparr>;
             k2 = (if ku_owner k \<noteq> 0 then k1\<lparr>ku_patch := patch_recover_after_fork (ku_patch k1)\<rparr> else k1)
         in (k2, Some (ku_blocked k))))"

definition drop_guard :: "trap_signal set \<Rightarrow> kuser \<Rightarrow> kuser" where
  "drop_guard saved k = k\<lparr>ku_owner := 0, ku_blocked := saved\<rparr>"

section \<open>Patching\<close>

definition restore_read_only :: "kenv \<Rightarrow> kuser \<Rightarrow> kuser \<times> bool" where
  "restore_read_only e k =
     (if fst (ke_restore_ok e) \<or> snd (ke_restore_ok e) then (k\<lparr>ku_protection := ReadOnly\<rparr>, True) else (k, False))"

definition kuser_apply_to_buffer :: "nat \<Rightarrow> int \<Rightarrow> bool \<Rightarrow> (nat \<Rightarrow> u8) option \<Rightarrow> (nat \<Rightarrow> u8) option" where
  "kuser_apply_to_buffer len raw avx buf = (case buf of
       None \<Rightarrow> None
     | Some page \<Rightarrow>
         if len < PAGE_SIZE then None
         else case recipe_from_raw raw of
           None \<Rightarrow> None
         | Some r \<Rightarrow> Some (apply_writes (visit_writes r avx) page))"

fun recipe_code :: "recipe \<Rightarrow> int" where
  "recipe_code Resume = 0"
| "recipe_code Selector = 1"
| "recipe_code Dispatch = 2"

definition syscall_hack_enabled :: "kenv \<Rightarrow> kuser \<Rightarrow> bool" where
  "syscall_hack_enabled e k \<longleftrightarrow> ku_hack_enabled k \<and> ke_game_process e"

text \<open>The part of \<^verbatim>\<open>apply_recipe_to_shared_page\<close> that runs with the page writable.\<close>

definition write_shared_page :: "kenv \<Rightarrow> recipe \<Rightarrow> kuser \<Rightarrow> kuser \<times> bool" where
  "write_shared_page e r k =
     (let k2 = k\<lparr>ku_protection := ReadWrite\<rparr>;
          written = kuser_apply_to_buffer PAGE_SIZE (recipe_code r) (ku_avx k2) (Some (ku_page k2));
          k3 = (case written of Some p \<Rightarrow> k2\<lparr>ku_page := p\<rparr> | None \<Rightarrow> k2);
          k4 = (if syscall_hack_enabled e k3 then k3\<lparr>ku_page := (ku_page k3)(SYSTEM_CALL_OFFSET := 0)\<rparr> else k3);
          (k5, ro) = restore_read_only e k4
      in if \<not> ro then (klog ''failed to restore KUSER_SHARED_DATA read-only protection'' k5, False)
         else
           (let k6 = (if syscall_hack_enabled e k5 then k5\<lparr>ku_hack_applied := True\<rparr> else k5);
                k7 = (if written = None then klog ''failed to apply KUSER_SHARED_DATA recipe'' k6 else k6)
            in (k7, written \<noteq> None)))"

definition apply_recipe_to_shared_page :: "kenv \<Rightarrow> recipe \<Rightarrow> kuser \<Rightarrow> kuser \<times> bool" where
  "apply_recipe_to_shared_page e r k =
     (if \<not> ku_geometry k then (klog ''KUSER patch requires a 4096-byte base page'' k, False)
      else
        (let (k1, avail) = ensure_verified e k in
         if \<not> avail then (klog ''KUSER patch requires Wine's shared KUSER mapping'' k1, False)
         else if \<not> ke_make_writable_ok e then (klog ''failed to make KUSER_SHARED_DATA writable'' k1, False)
         else write_shared_page e r k1))"

definition force_direct_syscall :: "kenv \<Rightarrow> kuser \<Rightarrow> kuser" where
  "force_direct_syscall e k =
     (if \<not> syscall_hack_enabled e k \<or> ku_hack_applied k \<or> \<not> ku_geometry k then k
      else
        (let (k1, avail) = ensure_verified e k in
         if \<not> avail then klog ''KUSER patch requires Wine's shared KUSER mapping'' k1
         else case acquire_guard e k1 of
           (k2, None) \<Rightarrow> k2
         | (k2, Some saved) \<Rightarrow>
             drop_guard saved
               (if ku_hack_applied k2 then k2
                else if \<not> ke_make_writable_ok e then k2
                else
                  (let k3 = k2\<lparr>ku_protection := ReadWrite, ku_page := (ku_page k2)(SYSTEM_CALL_OFFSET := 0)\<rparr>;
                       (k4, ro) = restore_read_only e k3
                   in if \<not> ro then klog ''failed to restore KUSER_SHARED_DATA read-only protection'' k4
                      else klog ''KUSER_SHARED_DATA SystemCall forced to direct syscall'' (k4\<lparr>ku_hack_applied := True\<rparr>)))))"

definition patch_kuser_shared_data_recipe :: "kenv \<Rightarrow> int \<Rightarrow> kuser \<Rightarrow> kuser \<times> int" where
  "patch_kuser_shared_data_recipe e raw k = (case recipe_from_raw raw of
       None \<Rightarrow> (k, -1)
     | Some r \<Rightarrow>
         (case acquire_guard e k of
            (k1, None) \<Rightarrow> (k1, -1)
          | (k1, Some saved) \<Rightarrow>
              (let (k2, applied) = apply_recipe_to_shared_page e r k1;
                   (word, res, did) = patch r applied (ku_patch k1);
                   k3 = (if did then k2 else k1)\<lparr>ku_patch := word\<rparr>;
                   k4 = drop_guard saved k3
               in if res = None \<and> \<not> ke_bridge_ok e
                  then (klog ''failed to install Wine syscall dispatcher bridge'' k4, -1)
                  else (case res of
                      None \<Rightarrow> (k4, 0)
                    | Some ApplyFailed \<Rightarrow> (k4, -1)
                    | Some PatchConflict \<Rightarrow> (klog ''KUSER recipe conflicts with the selected protocol'' k4, -1)))))"

definition patch_kuser_shared_data :: "kenv \<Rightarrow> kuser \<Rightarrow> kuser \<times> int" where
  "patch_kuser_shared_data e k = patch_kuser_shared_data_recipe e (recipe_code Resume) k"

definition linuwux_setup_kuser :: "kenv \<Rightarrow> kuser \<Rightarrow> kuser" where
  "linuwux_setup_kuser e k =
     prepare_shared_page e (k\<lparr>ku_geometry := (ke_page_size e = PAGE_SIZE),
        ku_avx := (ke_getenv e ''PROTON_AVX'' = Some (ascii ''1'')),
        ku_hack_enabled := (ke_getenv e ''LINUWUX_SYSCALL_HACK'' = Some (ascii ''1''))\<rparr>)"

section \<open>Guarded patching\<close>

text \<open>The page a successful application leaves.\<close>

definition recipe_page :: "kenv \<Rightarrow> recipe \<Rightarrow> kuser \<Rightarrow> nat \<Rightarrow> u8" where
  "recipe_page e r k = (let p = apply_writes (visit_writes r (ku_avx k)) (ku_page k) in
     if syscall_hack_enabled e k then p(SYSTEM_CALL_OFFSET := 0) else p)"

lemma recipe_code_roundtrip [simp]: "recipe_from_raw (recipe_code r) = Some r"
  by (cases r) (simp_all add: recipe_from_raw_def)

lemma buffer_apply [simp]:
  "kuser_apply_to_buffer PAGE_SIZE (recipe_code r) avx (Some page) = Some (apply_writes (visit_writes r avx) page)"
  by (simp add: kuser_apply_to_buffer_def)

lemma ensure_verified_frame:
  assumes "ensure_verified e k = (k', ok)"
  shows "k' = k\<lparr>ku_verified := ku_verified k'\<rparr>" and "ok \<longleftrightarrow> ku_verified k \<or> verify_shared_page e k"
  using assms by (auto simp: ensure_verified_def split: if_splits)

definition restorable :: "kenv \<Rightarrow> bool" where
  "restorable e \<longleftrightarrow> fst (ke_restore_ok e) \<or> snd (ke_restore_ok e)"

lemma write_shared_page_eq:
  "write_shared_page e r k =
     (if restorable e
      then (k\<lparr>ku_page := recipe_page e r k, ku_protection := ReadOnly,
              ku_hack_applied := ku_hack_applied k \<or> syscall_hack_enabled e k\<rparr>, True)
      else (klog ''failed to restore KUSER_SHARED_DATA read-only protection''
              (k\<lparr>ku_page := recipe_page e r k, ku_protection := ReadWrite\<rparr>), False))"
  by (cases k; cases "restorable e"; cases "ku_hack_enabled k"; cases "ke_game_process e")
    (simp_all add: write_shared_page_def restore_read_only_def restorable_def recipe_page_def
      syscall_hack_enabled_def klog_def Let_def)

definition shared_page_ok :: "kenv \<Rightarrow> kuser \<Rightarrow> bool" where
  "shared_page_ok e k \<longleftrightarrow> ku_geometry k \<and> (ku_verified k \<or> verify_shared_page e k)"

lemma apply_recipe_cases [case_names refused failed written]:
  obtains (refused) k1 m v where "apply_recipe_to_shared_page e r k = (klog m k1, False)" "k1 = k\<lparr>ku_verified := v\<rparr>"
      "shared_page_ok e k \<longrightarrow> \<not> ke_make_writable_ok e"
    | (failed) m v where "shared_page_ok e k" "ke_make_writable_ok e" "\<not> restorable e"
      "apply_recipe_to_shared_page e r k =
         (klog m (k\<lparr>ku_verified := v, ku_page := recipe_page e r k, ku_protection := ReadWrite\<rparr>), False)"
    | (written) b v where "shared_page_ok e k" "ke_make_writable_ok e" "restorable e"
      "apply_recipe_to_shared_page e r k =
         (k\<lparr>ku_verified := v, ku_page := recipe_page e r k, ku_protection := ReadOnly, ku_hack_applied := b\<rparr>, True)"
proof -
  obtain k1 b where v: "ensure_verified e k = (k1, b)" by fastforce
  from ensure_verified_frame(1) [OF v] obtain w where k1: "k1 = k\<lparr>ku_verified := w\<rparr>" by blast
  have page: "recipe_page e r k1 = recipe_page e r k"
    by (simp add: k1 recipe_page_def syscall_hack_enabled_def)
  have b: "b \<longleftrightarrow> ku_verified k \<or> verify_shared_page e k" by (rule ensure_verified_frame(2) [OF v])
  consider "\<not> ku_geometry k" | "ku_geometry k" "\<not> b" | "ku_geometry k" "b" "\<not> ke_make_writable_ok e"
    | "ku_geometry k" "b" "ke_make_writable_ok e" "\<not> restorable e"
    | "ku_geometry k" "b" "ke_make_writable_ok e" "restorable e" by blast
  then show ?thesis
  proof cases
    case 1
    then show ?thesis
      by (intro refused [of _ k "ku_verified k"]) (simp_all add: apply_recipe_to_shared_page_def shared_page_ok_def)
  next
    case 2
    with v k1 b show ?thesis
      by (intro refused [of _ k1 w]) (simp_all add: apply_recipe_to_shared_page_def shared_page_ok_def)
  next
    case 3
    with v k1 show ?thesis
      by (intro refused [of _ k1 w]) (simp_all add: apply_recipe_to_shared_page_def)
  next
    case 4
    with v k1 b page show ?thesis
      by (intro failed [of _ w]) (simp_all add: apply_recipe_to_shared_page_def shared_page_ok_def write_shared_page_eq)
  next
    case 5
    with v k1 b page show ?thesis
      by (intro written [of _ w]) (simp_all add: apply_recipe_to_shared_page_def shared_page_ok_def write_shared_page_eq)
  qed
qed

lemma acquire_guard_cases [case_names refused taken]:
  obtains (refused) "acquire_guard e k = (k, None)" "\<not> ke_sigprocmask_ok e \<or> ku_owner k = ke_pid e"
    | (taken) "acquire_guard e k =
        (k\<lparr>ku_owner := ke_pid e, ku_blocked := ku_blocked k \<union> {SIGSEGV, SIGSYS},
           ku_patch := (if ku_owner k = 0 then ku_patch k else patch_recover_after_fork (ku_patch k))\<rparr>, Some (ku_blocked k))"
      "ke_sigprocmask_ok e" "ku_owner k \<noteq> ke_pid e"
  by (cases "ke_sigprocmask_ok e"; cases "ku_owner k = ke_pid e")
    (auto simp: acquire_guard_def Let_def)

lemma recover_ready: "patch_recover_after_fork st = ready_state r \<longleftrightarrow> st = ready_state r"
  by (cases r) (auto simp: patch_recover_after_fork_def patch_states)

lemma recover_applying: "patch_recover_after_fork (applying_state r) = failed_state r"
  by (cases r) (simp_all add: patch_recover_after_fork_def patch_states)

text \<open>The guarded call in one equation, the guard once taken.\<close>

definition guarded :: "kenv \<Rightarrow> kuser \<Rightarrow> kuser" where
  "guarded e k = k\<lparr>ku_owner := ke_pid e, ku_blocked := ku_blocked k \<union> {SIGSEGV, SIGSYS},
     ku_patch := (if ku_owner k = 0 then ku_patch k else patch_recover_after_fork (ku_patch k))\<rparr>"

lemma patch_call_taken:
  assumes "recipe_from_raw raw = Some r" and "ke_sigprocmask_ok e" and "ku_owner k \<noteq> ke_pid e"
    and "apply_recipe_to_shared_page e r (guarded e k) = (k2, applied)"
    and "patch r applied (ku_patch (guarded e k)) = (w, res, did)"
  shows "\<exists>log c. patch_kuser_shared_data_recipe e raw k =
    ((if did then k2 else guarded e k)\<lparr>ku_patch := w, ku_owner := 0, ku_blocked := ku_blocked k, ku_log := log\<rparr>, c) \<and>
    (c = 0 \<longleftrightarrow> res = None \<and> ke_bridge_ok e)"
proof -
  have g: "acquire_guard e k = (guarded e k, Some (ku_blocked k))"
    using assms(2,3) by (auto simp: acquire_guard_def guarded_def Let_def)
  let ?k = "(if did then k2 else guarded e k)"
  let ?k4 = "drop_guard (ku_blocked k) (?k\<lparr>ku_patch := w\<rparr>)"
  have eq: "patch_kuser_shared_data_recipe e raw k =
    (if res = None \<and> \<not> ke_bridge_ok e then klog ''failed to install Wine syscall dispatcher bridge'' ?k4
     else if res = Some PatchConflict then klog ''KUSER recipe conflicts with the selected protocol'' ?k4
     else ?k4, if res = None \<and> ke_bridge_ok e then 0 else -1)"
    unfolding patch_kuser_shared_data_recipe_def Let_def using g assms(1,4,5)
    by (cases res) (simp_all split: patch_error.splits)
  have "\<exists>log. (if b then klog m ?k4 else if b' then klog m' ?k4 else ?k4) =
      ?k\<lparr>ku_patch := w, ku_owner := 0, ku_blocked := ku_blocked k, ku_log := log\<rparr>" for b b' m m'
    by (cases b; cases b')
      (auto simp: klog_def drop_guard_def intro: exI [of _ "ku_log ?k @ _"] exI [of _ "ku_log ?k"])
  then show ?thesis unfolding eq by auto
qed

text \<open>
  C24: a successful patch. When the call returns 0 the state word names the recipe, the
  dispatcher bridge is installed, the guard is free and the caller's signal mask is back;
  and either the recipe was in place already and the page is untouched, or the page is Wine's
  verified mapping, holds exactly the recipe's writes and is read-only again.
\<close>

theorem patch_call_success:
  assumes "recipe_from_raw raw = Some r" and "patch_kuser_shared_data_recipe e raw k = (k', 0)"
  shows "ku_patch k' = ready_state r \<and> ke_bridge_ok e \<and> ku_owner k' = 0 \<and> ku_blocked k' = ku_blocked k \<and>
    (ku_patch k = ready_state r \<and> ku_page k' = ku_page k \<and> ku_protection k' = ku_protection k \<or>
     shared_page_ok e k \<and> ku_page k' = recipe_page e r k \<and> ku_protection k' = ReadOnly)"
proof (cases rule: acquire_guard_cases [of e k])
  case refused
  with assms show ?thesis by (simp add: patch_kuser_shared_data_recipe_def)
next
  case taken
  let ?g = "guarded e k"
  obtain k2 ok where a: "apply_recipe_to_shared_page e r ?g = (k2, ok)" by fastforce
  obtain w res did where p: "patch r ok (ku_patch ?g) = (w, res, did)" by (metis prod_cases3)
  from patch_call_taken [OF assms(1) taken(2,3) a p] assms(2) obtain log where
    k': "k' = (if did then k2 else ?g)\<lparr>ku_patch := w, ku_owner := 0, ku_blocked := ku_blocked k, ku_log := log\<rparr>"
    and res: "res = None" "ke_bridge_ok e" by auto
  from patch_success [OF p [unfolded res]] have w: "w = ready_state r" "if did then ok else ku_patch ?g = ready_state r" by auto
  have page: "recipe_page e r ?g = recipe_page e r k" "shared_page_ok e ?g = shared_page_ok e k"
    by (simp_all add: guarded_def recipe_page_def syscall_hack_enabled_def shared_page_ok_def verify_shared_page_def)
  show ?thesis
  proof (cases did)
    case True
    with w have ok by simp
    with a have "shared_page_ok e ?g \<and> ku_page k2 = recipe_page e r ?g \<and> ku_protection k2 = ReadOnly"
      by (cases rule: apply_recipe_cases [of e r ?g]) auto
    with k' w res page True show ?thesis by simp
  next
    case False
    with w have "ku_patch k = ready_state r" by (simp add: guarded_def recover_ready split: if_splits)
    with k' w res False show ?thesis by (simp add: guarded_def)
  qed
qed

definition ready_env :: kenv where
  "ready_env = \<lparr>ke_pid = 7, ke_sigprocmask_ok = True, ke_page_present = True, ke_maps = None,
     ke_make_writable_ok = True, ke_restore_ok = (False, True), ke_game_process = False, ke_bridge_ok = True,
     ke_page_size = 4096, ke_getenv = \<lambda>_. None\<rparr>"

definition fresh_kuser :: "u32 \<Rightarrow> int \<Rightarrow> kuser" where
  "fresh_kuser word owner = \<lparr>ku_geometry = True, ku_avx = False, ku_hack_enabled = False, ku_hack_applied = False,
     ku_verified = True, ku_patch = word, ku_owner = owner, ku_page = \<lambda>_. 0, ku_protection = ReadOnly,
     ku_blocked = {}, ku_log = []\<rparr>"

lemma patch_recovered: "patch r True (failed_state r) = (ready_state r, None, True)"
  "patch r True PATCH_UNAPPLIED = (ready_state r, None, True)"
  by (cases r; simp add: patch_def patch_alone.simps patch_decide_def patch_states)+

lemma patch_call_runs:
  assumes "recipe_from_raw raw = Some r" and "ke_sigprocmask_ok e" and "ku_owner k \<noteq> ke_pid e" and "ke_bridge_ok e"
    and "shared_page_ok e k" and "ke_make_writable_ok e" and "restorable e"
    and "ku_patch (guarded e k) = failed_state r \<or> ku_patch (guarded e k) = PATCH_UNAPPLIED"
  shows "\<exists>k'. patch_kuser_shared_data_recipe e raw k = (k', 0) \<and> ku_patch k' = ready_state r \<and>
    ku_page k' = recipe_page e r k"
proof -
  let ?g = "guarded e k"
  have g: "shared_page_ok e ?g" "recipe_page e r ?g = recipe_page e r k"
    using assms(5) by (auto simp: guarded_def shared_page_ok_def verify_shared_page_def recipe_page_def syscall_hack_enabled_def)
  from g(1) assms(6,7) obtain k2 where a: "apply_recipe_to_shared_page e r ?g = (k2, True)" "ku_page k2 = recipe_page e r ?g"
    by (cases rule: apply_recipe_cases [of e r ?g]) auto
  have "patch r True (ku_patch ?g) = (ready_state r, None, True)" using assms(8) patch_recovered by auto
  from patch_call_taken [OF assms(1-3) a(1) this] a(2) g(2) assms(4) show ?thesis by fastforce
qed

theorem patch_call_success_witness:
  "\<exists>k'. patch_kuser_shared_data_recipe ready_env 2 (fresh_kuser PATCH_UNAPPLIED 0) = (k', 0) \<and>
        ku_patch k' = PATCH_DISPATCH_READY \<and> ku_protection k' = ReadOnly"
proof -
  have r: "recipe_from_raw 2 = Some Dispatch" by (simp add: recipe_from_raw_def)
  have "\<exists>k'. patch_kuser_shared_data_recipe ready_env 2 (fresh_kuser PATCH_UNAPPLIED 0) = (k', 0)"
    using patch_call_runs [OF r, of ready_env "fresh_kuser PATCH_UNAPPLIED 0"]
    by (auto simp: ready_env_def fresh_kuser_def shared_page_ok_def restorable_def guarded_def)
  with patch_call_success [OF r] show ?thesis by (fastforce simp: fresh_kuser_def)
qed

text \<open>
  A failing patch does no harm. Whatever the system calls return, the guard never stays
  with this process, the caller's signal mask comes back, a page that is not Wine's verified
  mapping is not touched, and a read-only page ends read-only as soon as one of the two
  attempts to restore its protection succeeds.
\<close>

lemma patch_call_frame:
  assumes "patch_kuser_shared_data_recipe e raw k = (k', c)"
  shows "ku_blocked k' = ku_blocked k \<and> (ku_owner k' = ku_owner k \<or> ku_owner k' = 0) \<and>
    (\<not> shared_page_ok e k \<longrightarrow> ku_page k' = ku_page k \<and> ku_protection k' = ku_protection k) \<and>
    (restorable e \<and> ku_protection k = ReadOnly \<longrightarrow> ku_protection k' = ReadOnly)"
proof (cases "recipe_from_raw raw")
  case None
  with assms show ?thesis by (simp add: patch_kuser_shared_data_recipe_def)
next
  case (Some r)
  show ?thesis
  proof (cases rule: acquire_guard_cases [of e k])
    case refused
    with Some assms show ?thesis by (simp add: patch_kuser_shared_data_recipe_def)
  next
    case taken
    let ?g = "guarded e k"
    obtain k2 ok where a: "apply_recipe_to_shared_page e r ?g = (k2, ok)" by fastforce
    obtain w res did where p: "patch r ok (ku_patch ?g) = (w, res, did)" by (metis prod_cases3)
    have g: "shared_page_ok e ?g = shared_page_ok e k" "ku_page ?g = ku_page k" "ku_protection ?g = ku_protection k"
      by (simp_all add: guarded_def shared_page_ok_def verify_shared_page_def)
    from a have "(\<not> shared_page_ok e ?g \<longrightarrow> ku_page k2 = ku_page ?g \<and> ku_protection k2 = ku_protection ?g) \<and>
        (restorable e \<and> ku_protection ?g = ReadOnly \<longrightarrow> ku_protection k2 = ReadOnly)"
      by (cases rule: apply_recipe_cases [of e r ?g]) (auto simp: klog_def)
    with patch_call_taken [OF Some taken(2,3) a p] assms g show ?thesis by auto
  qed
qed

text \<open>
  Recovery after a fork. When a parent thread was inside the guard at the time of the
  fork, the child finds another process's owner and an applying word; its own call for that
  recipe takes the guard over, marks the interrupted attempt failed and, the system calls
  succeeding, completes the recipe instead of waiting for a thread that does not exist.
\<close>

lemma patch_call_recovers_after_fork:
  assumes "ku_owner k \<noteq> 0" and "ku_owner k \<noteq> ke_pid e" and "ku_patch k = applying_state r"
    and "shared_page_ok e k" and "ke_sigprocmask_ok e" and "ke_make_writable_ok e" and "restorable e" and "ke_bridge_ok e"
  shows "\<exists>k'. patch_kuser_shared_data_recipe e (recipe_code r) k = (k', 0) \<and> ku_patch k' = ready_state r \<and>
    ku_page k' = recipe_page e r k"
  using assms by (intro patch_call_runs) (simp_all add: guarded_def recover_applying)

end
