(* ===== verification/Kuser_Dispatch.thy ===== *)
theory Kuser_Dispatch
  imports Stub_Set Markers Unixlib_Repair Kuser_Page
begin

text \<open>
  \<^verbatim>\<open>runtime/src/syscall/kuser_dispatch.rs\<close>: what the handler in Wine's KUSER dispatcher slot does with a
  call. The scan of the main image's import tables for trampolines, the image the registered
  handler lies in, the search for the raw \<open>syscall\<close> of a copied stub, the decision to replay a
  call raw, and the installation in the slot. The assembly that saves the registers around
  \<open>dispatcher_target\<close> and jumps to its result is in \<open>Dispatcher_Bridge\<close>.
\<close>

section \<open>State\<close>

definition THUNK_RETURN_OFFSET :: u64 where "THUNK_RETURN_OFFSET = 0x1f"
definition RAW_TARGET_TAG :: u64 where "RAW_TARGET_TAG = push_bit 63 1"
definition SYSCALL_INSTRUCTION :: bytes where "SYSCALL_INSTRUCTION = [0x0f, 0x05]"
definition PEB_IMAGE_BASE_OFFSET :: u64 where "PEB_IMAGE_BASE_OFFSET = 0x10"
definition TEB_PEB_OFFSET :: u64 where "TEB_PEB_OFFSET = 0x60"
definition IAT_SCAN_MAX_RETRY_INTERVAL :: u64 where "IAT_SCAN_MAX_RETRY_INTERVAL = 1024"
definition IAT_THUNK_CHUNK :: nat where "IAT_THUNK_CHUNK = 64"

record bridge =
  br_slot :: u64
  br_original :: u64
  br_installed :: bool
  br_success_logged :: bool
  br_failure_logged :: bool
  br_image_start :: u64
  br_image_end :: u64
  br_stubs :: stub_set
  br_scan_attempts :: u64
  br_scan_success_logged :: bool
  br_scan_miss_logged :: bool
  br_scan_lock :: bool
  br_log :: "(string \<times> u64 option) list"

definition bridge_new :: "u64 \<Rightarrow> bridge" where
  "bridge_new slot = \<lparr>br_slot = slot, br_original = 0, br_installed = False, br_success_logged = False,
     br_failure_logged = False, br_image_start = 0, br_image_end = 0, br_stubs = stubs_new,
     br_scan_attempts = 0, br_scan_success_logged = False, br_scan_miss_logged = False,
     br_scan_lock = False, br_log = []\<rparr>"

definition blog :: "(string \<times> u64 option) list \<Rightarrow> bridge \<Rightarrow> bridge" where
  "blog ls b = b\<lparr>br_log := br_log b @ ls\<rparr>"

definition log_install_failure :: "bridge \<Rightarrow> bridge" where
  "log_install_failure b =
     (if br_failure_logged b then b
      else blog [(''reflex bridge install failed; will retry at KUSER handshake'', None)] (b\<lparr>br_failure_logged := True\<rparr>))"

section \<open>The image of the registered handler\<close>

definition image_end_at :: "vmem \<Rightarrow> u64 \<Rightarrow> u64 \<Rightarrow> u64 option" where
  "image_end_at m handler base = do {
     dos \<leftarrow> read_memory m base 0x40;
     require (take 2 dos = ascii ''MZ'');
     let pe_offset = (ucast (from_le (take 4 (drop 0x3c dos)) :: u32) :: u64);
     require (pe_offset \<le> 0x1000);
     headers \<leftarrow> read_memory m (base + pe_offset) 0x60;
     require (take 4 headers = ascii ''PE'' @ [0, 0]);
     let image_size = (ucast (from_le (take 4 (drop 80 headers)) :: u32) :: u64);
     image_end \<leftarrow> checked_add base image_size;
     require (image_size \<noteq> 0 \<and> base \<le> handler \<and> handler < image_end);
     Some image_end }"

fun search_image :: "vmem \<Rightarrow> u64 \<Rightarrow> u64 \<Rightarrow> u64 list \<Rightarrow> (u64 \<times> u64) option" where
  "search_image m handler first_page [] = None"
| "search_image m handler first_page (off # offs) =
     (case checked_sub first_page off of
        None \<Rightarrow> None
      | Some base \<Rightarrow>
          (case image_end_at m handler base of
             Some e \<Rightarrow> Some (base, e)
           | None \<Rightarrow> search_image m handler first_page offs))"

definition image_offsets :: "u64 list" where
  "image_offsets = map (\<lambda>k. of_nat k * 0x1000) [0..<257]"

definition register_reflex_image :: "vmem \<Rightarrow> u64 \<Rightarrow> bridge \<Rightarrow> bridge" where
  "register_reflex_image m handler b =
     (if handler = 0 \<or> br_image_start b \<noteq> 0 then b
      else case search_image m handler (handler AND NOT 0xfff) image_offsets of
        None \<Rightarrow> b
      | Some (base, e) \<Rightarrow> b\<lparr>br_image_end := e, br_image_start := base\<rparr>)"

definition is_reflex_address :: "bridge \<Rightarrow> u64 \<Rightarrow> bool" where
  "is_reflex_address b a \<longleftrightarrow> br_image_start b \<noteq> 0 \<and> br_image_start b \<le> a \<and> a < br_image_end b"

section \<open>The import-table scan\<close>

text \<open>The loop over one chunk; the flag is \<open>break 'thunks\<close>.\<close>

fun scan_chunk :: "vmem \<Rightarrow> u64 list \<Rightarrow> u64 list \<Rightarrow> nat \<Rightarrow> stub_set \<times> nat \<Rightarrow> (stub_set \<times> nat) \<times> bool" where
  "scan_chunk m imports vals 0 acc = (acc, False)"
| "scan_chunk m (i # imports) (v # vals) (Suc n) (s, found) =
     (if i = 0 \<or> v = 0 then ((s, found), True)
      else (case trampoline_destination m v of
              None \<Rightarrow> scan_chunk m imports vals n (s, found)
            | Some d \<Rightarrow> (let (s', fresh) = remember_stub s d in
                scan_chunk m imports vals n (s', if fresh then found + 1 else found))))"
| "scan_chunk m _ _ (Suc n) acc = (acc, True)"

function scan_thunks :: "vmem \<Rightarrow> u64 \<Rightarrow> u64 \<Rightarrow> nat \<Rightarrow> nat \<Rightarrow> stub_set \<times> nat \<Rightarrow> stub_set \<times> nat" where
  "scan_thunks m lookup iat max_thunks thunk acc =
     (if \<not> thunk < max_thunks then acc
      else let count = min (max_thunks - thunk) IAT_THUNK_CHUNK;
               off = of_nat thunk * 8;
               imports = read_u64s m (saturating_add lookup off) count;
               vals = read_u64s m (saturating_add iat off) count;
               (acc', stop) = scan_chunk m imports vals count acc
           in if stop then acc' else scan_thunks m lookup iat max_thunks (thunk + count) acc')"
  by pat_completeness auto
termination
  by (relation "measure (\<lambda>(m, lookup, iat, max_thunks, thunk, acc). max_thunks - thunk)")
    (auto simp: IAT_THUNK_CHUNK_def)

declare scan_thunks.simps [simp del]

definition max_thunks_of :: "u32 \<Rightarrow> u32 \<Rightarrow> nat" where
  "max_thunks_of image_size lookup_rva = unat (min ((image_size - lookup_rva) div 8) 65536)"

fun scan_descriptors :: "vmem \<Rightarrow> u64 \<Rightarrow> u32 \<Rightarrow> u32 \<Rightarrow> nat \<Rightarrow> nat \<Rightarrow> stub_set \<times> nat \<Rightarrow> stub_set \<times> nat" where
  "scan_descriptors m base image_size import_rva index 0 acc = acc"
| "scan_descriptors m base image_size import_rva index (Suc n) acc =
     (let descriptor = saturating_add (saturating_add base (ucast import_rva)) (of_nat index * 20) in
      case (read_u32 m (saturating_add descriptor 12), read_u32 m (saturating_add descriptor 16), read_u32 m descriptor) of
        (Some name_rva, iat, original) \<Rightarrow>
          if name_rva = 0 then acc
          else (case (iat, original) of
                  (Some iat_rva, Some original_thunk_rva) \<Rightarrow>
                    (let lookup_rva = if original_thunk_rva = 0 then iat_rva else original_thunk_rva in
                     if iat_rva = 0 \<or> iat_rva \<ge> image_size \<or> lookup_rva \<ge> image_size
                     then scan_descriptors m base image_size import_rva (Suc index) n acc
                     else scan_descriptors m base image_size import_rva (Suc index) n
                       (scan_thunks m (saturating_add base (ucast lookup_rva)) (saturating_add base (ucast iat_rva))
                         (max_thunks_of image_size lookup_rva) 0 acc))
                | _ \<Rightarrow> acc)
      | _ \<Rightarrow> acc)"

text \<open>The import directory of the process's main image: base, image size, directory address.\<close>

definition main_image_imports :: "vmem \<Rightarrow> u64 option \<Rightarrow> (u64 \<times> u32 \<times> u32) option" where
  "main_image_imports m gs = do {
     gs_base \<leftarrow> gs;
     require (gs_base \<noteq> 0);
     peb \<leftarrow> read_u64 m (saturating_add gs_base TEB_PEB_OFFSET);
     image_base \<leftarrow> read_u64 m (saturating_add peb PEB_IMAGE_BASE_OFFSET);
     require (image_base \<noteq> 0);
     mz \<leftarrow> read_u32 m image_base;
     require ((ucast mz :: u16) = 0x5a4d);
     pe_offset \<leftarrow> read_u32 m (saturating_add image_base 0x3c);
     require (pe_offset \<le> 0x1000);
     pe_signature \<leftarrow> read_u32 m (saturating_add image_base (ucast pe_offset));
     require (pe_signature = from_le (ascii ''PE'' @ [0, 0]));
     let optional = saturating_add (saturating_add image_base (ucast pe_offset)) 24;
     magic \<leftarrow> read_u32 m optional;
     require ((ucast magic :: u16) = 0x20b);
     image_size \<leftarrow> read_u32 m (saturating_add optional 56);
     import_rva \<leftarrow> read_u32 m (saturating_add optional 120);
     require (image_size \<noteq> 0 \<and> import_rva \<noteq> 0 \<and> import_rva < image_size);
     Some (image_base, image_size, import_rva) }"

definition scan_main_image_iat_locked :: "vmem \<Rightarrow> u64 option \<Rightarrow> bridge \<Rightarrow> bridge \<times> nat" where
  "scan_main_image_iat_locked m gs b = (case main_image_imports m gs of
       None \<Rightarrow> (b, 0)
     | Some (base, image_size, import_rva) \<Rightarrow>
         (let (s, found) = scan_descriptors m base image_size import_rva 0
                (unat (min ((image_size - import_rva) div 20) 4096)) (br_stubs b, 0);
              b' = b\<lparr>br_stubs := s\<rparr>
          in (if found \<noteq> 0 \<and> \<not> br_scan_success_logged b'
              then blog [(''reflex IAT trampolines discovered from main PE import table'', None),
                         (''reflex main image base='', Some base),
                         (''reflex IAT trampoline targets discovered='', Some (ss_count s))]
                     (b'\<lparr>br_scan_success_logged := True\<rparr>)
              else b', found)))"

definition scan_main_image_iat :: "vmem \<Rightarrow> u64 option \<Rightarrow> bridge \<Rightarrow> bridge \<times> nat" where
  "scan_main_image_iat m gs b =
     (if br_scan_lock b then (b, 0)
      else let (b1, found) = scan_main_image_iat_locked m gs (b\<lparr>br_scan_lock := True\<rparr>);
               b2 = b1\<lparr>br_scan_lock := False\<rparr>
           in (if found = 0 \<and> \<not> br_scan_miss_logged b2
               then blog [(''main PE IAT scan found no Reflex trampolines yet'', None)] (b2\<lparr>br_scan_miss_logged := True\<rparr>)
               else b2, found))"

definition count_ones :: "u64 \<Rightarrow> nat" where
  "count_ones w = length (filter (bit w) [0..<64])"

definition should_retry_iat_scan :: "u64 \<Rightarrow> bool" where
  "should_retry_iat_scan attempt \<longleftrightarrow> attempt = 0 \<or> count_ones attempt = 1 \<or> attempt mod IAT_SCAN_MAX_RETRY_INTERVAL = 0"

definition maybe_scan_main_image_iat :: "vmem \<Rightarrow> u64 option \<Rightarrow> bridge \<Rightarrow> bridge" where
  "maybe_scan_main_image_iat m gs b =
     (if ss_count (br_stubs b) \<noteq> 0 \<or> br_image_start b = 0 then b
      else let attempt = br_scan_attempts b; b1 = b\<lparr>br_scan_attempts := attempt + 1\<rparr> in
        if should_retry_iat_scan attempt then fst (scan_main_image_iat m gs b1) else b1)"

section \<open>Evidence for one call\<close>

definition stub_for_return :: "u64 \<Rightarrow> u64 option" where
  "stub_for_return return_address = (case checked_sub return_address THUNK_RETURN_OFFSET of
       Some stub \<Rightarrow> if stub \<noteq> 0 then Some stub else None
     | None \<Rightarrow> None)"

definition matches_iat_stub :: "bridge \<Rightarrow> u64 \<Rightarrow> bool" where
  "matches_iat_stub b return_address =
     (if ss_count (br_stubs b) = 0 then False
      else case stub_for_return return_address of
        None \<Rightarrow> False
      | Some stub \<Rightarrow> has_stub (br_stubs b) stub)"

definition syscall_service_before :: "bytes \<Rightarrow> nat \<Rightarrow> u64 option" where
  "syscall_service_before code syscall_offset =
     map_option (\<lambda>off. ucast (from_le (take 4 (drop (off + 4) code)) :: u32))
       (List.find (\<lambda>off. take 3 (drop off code) = [0x4c, 0x8b, 0xd1] \<and> code ! (off + 3) = 0xb8)
         (rev [syscall_offset - 26..<syscall_offset - 8]))"

definition find_raw_syscall_instruction :: "bytes \<Rightarrow> u64 \<Rightarrow> u64 \<Rightarrow> u64 option" where
  "find_raw_syscall_instruction code code_address service =
     Option.bind (List.find (\<lambda>off. take 2 (drop (off - 2) code) = SYSCALL_INSTRUCTION \<and>
         syscall_service_before code off = Some service) (rev [2..<Suc (length code)]))
       (\<lambda>off. checked_add code_address (of_nat (off - 2)))"

fun find_syscall_in :: "vmem \<Rightarrow> u64 \<Rightarrow> u64 \<Rightarrow> nat list \<Rightarrow> u64 option" where
  "find_syscall_in m return_address service [] = None"
| "find_syscall_in m return_address service (window # windows) =
     (case checked_sub return_address (of_nat window) of
        None \<Rightarrow> find_syscall_in m return_address service windows
      | Some start \<Rightarrow>
          (case read_memory m start window of
             None \<Rightarrow> find_syscall_in m return_address service windows
           | Some code \<Rightarrow>
               (case find_raw_syscall_instruction code start service of
                  Some a \<Rightarrow> Some a
                | None \<Rightarrow> find_syscall_in m return_address service windows)))"

definition find_syscall :: "vmem \<Rightarrow> u64 \<Rightarrow> u64 \<Rightarrow> u64 option" where
  "find_syscall m return_address service = find_syscall_in m return_address service [0x80, 0x40, 0x20]"

record dispatch_evidence =
  original_dispatcher_known :: bool
  stub_match :: bool
  caller_is_reflex_image :: bool
  raw_syscall_found :: bool

definition should_replay_raw :: "dispatch_evidence \<Rightarrow> bool" where
  "should_replay_raw e \<longleftrightarrow> original_dispatcher_known e \<and> stub_match e \<and> \<not> caller_is_reflex_image e \<and> raw_syscall_found e"

section \<open>The selector\<close>

text \<open>The state a call reads and writes, and what the system calls of one call return.\<close>

record dispatch_state =
  ds_mem :: vmem
  ds_bridge :: bridge
  ds_markers :: markers
  ds_repair :: repair_state

record dispatch_env =
  de_gs :: "u64 option"
  de_maps :: "bytes list option"
  de_tid :: u64

text \<open>What precedes the decision: the scan, the repair and the retirement of finished markers.\<close>

definition prepare_dispatch :: "dispatch_env \<Rightarrow> u64 \<Rightarrow> dispatch_state \<Rightarrow> dispatch_state" where
  "prepare_dispatch e trap_rsp w =
     (let b = maybe_scan_main_image_iat (ds_mem w) (de_gs e) (ds_bridge w);
          (m, r) = maybe_repair_wine_unixlib_exports (de_maps e) (ds_mem w) (ds_repair w);
          k = if has_active_markers (ds_markers w) then retire_markers (ds_markers w) (de_tid e) trap_rsp else ds_markers w
      in w\<lparr>ds_bridge := b, ds_mem := m, ds_repair := r, ds_markers := k\<rparr>)"

definition dispatcher_target :: "dispatch_env \<Rightarrow> u64 \<Rightarrow> u64 \<Rightarrow> u64 \<Rightarrow> dispatch_state \<Rightarrow> dispatch_state \<times> u64" where
  "dispatcher_target e return_address service entry_rsp w0 =
     (let original = br_original (ds_bridge w0);
          trap_rsp = saturating_add entry_rsp 8;
          w = prepare_dispatch e trap_rsp w0;
          stub = matches_iat_stub (ds_bridge w) return_address in
      if original = 0 \<or> \<not> stub then (w, original)
      else let caller = (case read_u64 (ds_mem w) (saturating_add entry_rsp 8) of Some c \<Rightarrow> c | None \<Rightarrow> 0);
               caller_is_reflex = is_reflex_address (ds_bridge w) caller in
      if caller_is_reflex then (w, original)
      else let raw = find_syscall (ds_mem w) return_address service in
      if \<not> should_replay_raw \<lparr>original_dispatcher_known = True, stub_match = True,
             caller_is_reflex_image = caller_is_reflex, raw_syscall_found = (raw \<noteq> None)\<rparr>
      then (w, original)
      else let trap_rip = saturating_add (the raw) 2;
               (k, armed) = remember_marker (ds_markers w) (de_tid e, trap_rsp, trap_rip);
               w' = w\<lparr>ds_markers := k\<rparr> in
      if \<not> armed then (w', original) else (w', the raw OR RAW_TARGET_TAG))"

section \<open>Installation\<close>

record install_env =
  ie_kenv :: kenv
  ie_unprotect_ok :: bool
  ie_protect_ok :: bool

text \<open>With the guard held and the slot's page writable.\<close>

definition swap_slot :: "install_env \<Rightarrow> u64 \<Rightarrow> bridge \<Rightarrow> bridge \<times> bool" where
  "swap_slot e bridge_address b =
     (let original = br_slot b;
          installed = (original \<noteq> 0 \<and> original \<noteq> bridge_address);
          already_installed = (original = bridge_address \<and> br_original b \<noteq> 0);
          b1 = (if installed then b\<lparr>br_original := original, br_slot := bridge_address\<rparr> else b) in
      if (installed \<or> already_installed) \<and> ie_protect_ok e
      then (let b2 = b1\<lparr>br_installed := True\<rparr> in
            (if br_success_logged b2 then b2
             else blog [(''reflex bridge installed'', None), (''reflex bridge original Wine dispatcher='', Some (br_original b2))]
                    (b2\<lparr>br_success_logged := True\<rparr>), True))
      else (log_install_failure b1, False))"

definition install_bridge :: "install_env \<Rightarrow> u64 \<Rightarrow> kuser \<Rightarrow> bridge \<Rightarrow> kuser \<times> bridge \<times> bool" where
  "install_bridge e bridge_address k b =
     (if br_installed b then (k, b, True)
      else case acquire_guard (ie_kenv e) k of
        (k1, None) \<Rightarrow> (k1, log_install_failure b, False)
      | (k1, Some saved) \<Rightarrow>
          if \<not> ie_unprotect_ok e then (drop_guard saved k1, log_install_failure b, False)
          else (let (b', ok) = swap_slot e bridge_address b in (drop_guard saved k1, b', ok)))"

section \<open>Scanning in chunks\<close>

text \<open>The scan as one would write it, one entry of the two tables at a time.\<close>

fun visit_entry :: "vmem \<Rightarrow> u64 \<Rightarrow> stub_set \<times> nat \<Rightarrow> stub_set \<times> nat" where
  "visit_entry m v (s, found) = (case trampoline_destination m v of
       None \<Rightarrow> (s, found)
     | Some d \<Rightarrow> (let (s', fresh) = remember_stub s d in (s', if fresh then found + 1 else found)))"

fun scan_each :: "vmem \<Rightarrow> u64 \<Rightarrow> u64 \<Rightarrow> nat \<Rightarrow> nat \<Rightarrow> stub_set \<times> nat \<Rightarrow> stub_set \<times> nat" where
  "scan_each m lookup iat 0 t acc = acc"
| "scan_each m lookup iat (Suc n) t acc =
     (case (read_u64 m (saturating_add lookup (of_nat t * 8)), read_u64 m (saturating_add iat (of_nat t * 8))) of
        (Some i, Some v) \<Rightarrow> if i = 0 \<or> v = 0 then acc else scan_each m lookup iat n (Suc t) (visit_entry m v acc)
      | _ \<Rightarrow> acc)"

lemma scan_chunk_Cons:
  "scan_chunk m (i # imports) (v # vals) (Suc n) acc =
     (if i = 0 \<or> v = 0 then (acc, True) else scan_chunk m imports vals n (visit_entry m v acc))"
  by (cases acc) (auto split: option.splits prod.splits)

lemma scan_chunk_short [simp]:
  "scan_chunk m [] vals (Suc n) acc = (acc, True)" "scan_chunk m imports [] (Suc n) acc = (acc, True)"
  by (cases acc, simp, cases acc, cases "imports") simp_all

lemma read_u64_top: "read_u64 m (- 1) = None"
proof -
  have "unat (- 1 :: u64) = 2 ^ 64 - 1" by (simp add: unsigned_minus_1_eq_mask mask_eq_exp_minus_1)
  then have "\<not> in_space (- 1) 8" by (simp add: in_space_def)
  then show ?thesis by (simp add: read_u64_def read_memory_def process_vm_readv_def readable_def)
qed

lemma read_saturated:
  assumes "unat a + unat b < 2 ^ 64"
  shows "Option.bind (checked_add (saturating_add base a) b) (read_u64 m) = read_u64 m (saturating_add base (a + b))"
proof -
  have ab: "unat (a + b) = unat a + unat b" using assms by (subst unat_add_no_overflow) simp_all
  have top: "unat (- 1 :: u64) = 2 ^ 64 - 1" by (simp add: unsigned_minus_1_eq_mask mask_eq_exp_minus_1)
  consider "unat base + unat a + unat b < 2 ^ 64"
    | "unat base + unat a < 2 ^ 64" "\<not> unat base + unat a + unat b < 2 ^ 64"
    | "\<not> unat base + unat a < 2 ^ 64" by linarith
  then show ?thesis
  proof cases
    case 1
    then have "unat (base + a) = unat base + unat a" by (subst unat_add_no_overflow) simp_all
    with 1 ab show ?thesis by (simp add: saturating_add_def checked_add_def add.assoc)
  next
    case 2
    then have "unat (base + a) = unat base + unat a" by (subst unat_add_no_overflow) simp_all
    with 2 ab show ?thesis by (simp add: saturating_add_def checked_add_def add.assoc read_u64_top)
  next
    case 3
    then have s: "saturating_add base a = - 1" "saturating_add base (a + b) = - 1"
      using ab by (simp_all add: saturating_add_def)
    have "Option.bind (checked_add (- 1) b) (read_u64 m) = None"
    proof (cases "b = 0")
      case True
      with top show ?thesis by (simp add: checked_add_def read_u64_top)
    next
      case False
      then have "0 < unat b" by (simp add: unat_gt_0)
      with top show ?thesis by (simp add: checked_add_def)
    qed
    with s show ?thesis by (simp add: read_u64_top)
  qed
qed

lemma read_entry:
  assumes "(t + i) * 8 < 2 ^ 64"
  shows "Option.bind (checked_add (saturating_add base (of_nat t * 8)) (of_nat i * 8)) (read_u64 m) =
    read_u64 m (saturating_add base (of_nat (t + i) * 8))"
proof -
  have u: "unat (of_nat n * 8 :: u64) = n * 8" if "n * 8 < 2 ^ 64" for n
  proof -
    have "(of_nat n * 8 :: u64) = of_nat (n * 8)" by simp
    then show ?thesis using that by (simp only: unat_of_nat) simp
  qed
  have "(of_nat (t + i) * 8 :: u64) = of_nat t * 8 + of_nat i * 8" by (simp add: ring_distribs)
  with read_saturated [of "of_nat t * 8" "of_nat i * 8" base m] u [of t] u [of i] assms show ?thesis by simp
qed

lemma scan_chunk_each:
  assumes "(t + i + n) * 8 < 2 ^ 64"
    and "scan_chunk m (read_one_by_one m (saturating_add lookup (of_nat t * 8)) i n)
          (read_one_by_one m (saturating_add iat (of_nat t * 8)) i n) n acc = (acc', stop)"
  shows "scan_each m lookup iat (n + k) (t + i) acc = (if stop then acc' else scan_each m lookup iat k (t + i + n) acc')"
  using assms
proof (induction n arbitrary: i acc)
  case (Suc n)
  let ?l = "read_u64 m (saturating_add lookup (of_nat (t + i) * 8))" and ?v = "read_u64 m (saturating_add iat (of_nat (t + i) * 8))"
  have b: "(t + i) * 8 < 2 ^ 64" using Suc.prems(1) by simp
  note e = read_entry [OF b, of lookup m] read_entry [OF b, of iat m]
  show ?case
  proof (cases "?l = None \<or> ?v = None")
    case True
    with Suc.prems(2) e have "acc' = acc \<and> stop" by (auto simp del: scan_chunk.simps split: option.splits)
    with True show ?thesis by (auto split: option.splits)
  next
    case False
    then obtain l v where lv: "?l = Some l" "?v = Some v" by auto
    show ?thesis
    proof (cases "l = 0 \<or> v = 0")
      case True
      with Suc.prems(2) e lv have "acc' = acc \<and> stop" by (auto simp: scan_chunk_Cons simp del: scan_chunk.simps)
      with True lv show ?thesis by auto
    next
      case False
      with Suc.prems(2) e lv have "scan_chunk m (read_one_by_one m (saturating_add lookup (of_nat t * 8)) (Suc i) n)
          (read_one_by_one m (saturating_add iat (of_nat t * 8)) (Suc i) n) n (visit_entry m v acc) = (acc', stop)"
        by (simp add: scan_chunk_Cons del: scan_chunk.simps visit_entry.simps)
      from Suc.IH [OF _ this] Suc.prems(1) False lv show ?thesis by (simp del: visit_entry.simps)
    qed
  qed
qed simp

lemma scan_thunks_each:
  assumes "max_thunks * 8 < 2 ^ 64"
  shows "scan_thunks m lookup iat max_thunks thunk acc = scan_each m lookup iat (max_thunks - thunk) thunk acc"
  using assms
proof (induction m lookup iat max_thunks thunk acc rule: scan_thunks.induct)
  case (1 m lookup iat max_thunks thunk acc)
  show ?case
  proof (cases "thunk < max_thunks")
    case True
    let ?n = "min (max_thunks - thunk) IAT_THUNK_CHUNK"
    have n: "min ?n 64 = ?n" by (simp add: IAT_THUNK_CHUNK_def)
    let ?off = "of_nat thunk * 8 :: u64"
    obtain acc' stop where c: "scan_chunk m (read_one_by_one m (saturating_add lookup ?off) 0 ?n)
        (read_one_by_one m (saturating_add iat ?off) 0 ?n) ?n acc = (acc', stop)" by (metis surj_pair)
    have len: "?n + (max_thunks - (thunk + ?n)) = max_thunks - thunk" by simp
    have "(thunk + 0 + ?n) * 8 < 2 ^ 64" using "1.prems" True by (auto simp: min_def)
    from scan_chunk_each [OF this c, of "max_thunks - (thunk + ?n)"]
    have each: "scan_each m lookup iat (max_thunks - thunk) thunk acc =
        (if stop then acc' else scan_each m lookup iat (max_thunks - (thunk + ?n)) (thunk + ?n) acc')"
      unfolding len by simp
    have step: "scan_thunks m lookup iat max_thunks thunk acc =
        (if stop then acc' else scan_thunks m lookup iat max_thunks (thunk + ?n) acc')"
      using True c by (subst scan_thunks.simps) (simp add: Let_def read_u64s_eq n del: min_less_iff_conj)
    show ?thesis
    proof (cases stop)
      case False
      from "1.IH" [OF _ refl refl refl refl, of "(acc', stop)" acc' stop] True c False "1.prems"
      have "scan_thunks m lookup iat max_thunks (thunk + ?n) acc' = scan_each m lookup iat (max_thunks - (thunk + ?n)) (thunk + ?n) acc'"
        by (simp add: read_u64s_eq n)
      with step each False show ?thesis by simp
    qed (use step each in simp)
  qed (simp add: scan_thunks.simps)
qed

text \<open>
  Reading the import tables in chunks of 64 entries finds the same stubs as walking them
  entry by entry up to the first zero or unreadable one, wherever the tables lie, even against
  the top of the address space.
\<close>

lemma chunked_scan_as_entry_by_entry:
  "scan_thunks m lookup iat (max_thunks_of image_size lookup_rva) 0 acc =
   scan_each m lookup iat (max_thunks_of image_size lookup_rva) 0 acc"
proof -
  have "max_thunks_of image_size lookup_rva \<le> 65536" by (simp add: max_thunks_of_def min_def word_le_nat_alt)
  then show ?thesis by (simp add: scan_thunks_each)
qed

section \<open>The scan keeps the stub set well formed\<close>

lemma visit_entry_inv: "stubs_inv s \<Longrightarrow> stubs_inv (fst (visit_entry m v (s, found)))"
  using ss.add_cases [of s] by (auto split: option.splits prod.splits)

lemma scan_each_inv: "stubs_inv (fst acc) \<Longrightarrow> stubs_inv (fst (scan_each m lookup iat n t acc))"
proof (induction m lookup iat n t acc rule: scan_each.induct)
  case (2 m lookup iat n t acc)
  then show ?case using visit_entry_inv [of "fst acc" m _ "snd acc"]
    by (auto simp del: visit_entry.simps split: option.splits)
qed simp

lemma scan_descriptors_inv:
  "stubs_inv (fst acc) \<Longrightarrow> stubs_inv (fst (scan_descriptors m base image_size import_rva index n acc))"
proof (induction m base image_size import_rva index n acc rule: scan_descriptors.induct)
  case (2 m base image_size import_rva index n acc)
  have "max_thunks_of image_size r * 8 < 2 ^ 64" for r by (simp add: max_thunks_of_def min_def word_le_nat_alt)
  with 2 scan_each_inv show ?case by (auto simp: Let_def scan_thunks_each split: option.splits)
qed simp

lemma maybe_scan_inv:
  assumes "stubs_inv (br_stubs b)"
  shows "stubs_inv (br_stubs (maybe_scan_main_image_iat m gs b))"
    and "br_original (maybe_scan_main_image_iat m gs b) = br_original b"
proof -
  have "stubs_inv s" if "scan_descriptors m base size r i n (br_stubs b, 0) = (s, found)" for base size r i n s found
    using scan_descriptors_inv [of "(br_stubs b, 0)" m base size r i n] assms that by simp
  with assms show "stubs_inv (br_stubs (maybe_scan_main_image_iat m gs b))"
    by (auto simp: maybe_scan_main_image_iat_def scan_main_image_iat_def scan_main_image_iat_locked_def blog_def Let_def
        split: option.splits prod.splits)
  show "br_original (maybe_scan_main_image_iat m gs b) = br_original b"
    by (auto simp: maybe_scan_main_image_iat_def scan_main_image_iat_def scan_main_image_iat_locked_def blog_def Let_def
        split: option.splits prod.splits)
qed

section \<open>The search for the raw instruction\<close>

lemma find_raw_sound:
  assumes r: "read_memory m start window = Some code" and f: "find_raw_syscall_instruction code start service = Some raw"
  shows "read_memory m raw 2 = Some SYSCALL_INSTRUCTION" and "unat raw + 2 \<le> unat start + window"
    and "\<exists>stub svc. read_memory m stub 8 = Some ([0x4c, 0x8b, 0xd1, 0xb8] @ to_le 4 (svc :: u32)) \<and> ucast svc = service \<and> unat stub + 7 \<le> unat raw"
proof -
  from read_memory_length [OF r] have len: "length code = window" "in_space start window" by auto
  let ?P = "\<lambda>off. take 2 (drop (off - 2) code) = SYSCALL_INSTRUCTION \<and> syscall_service_before code off = Some service"
  from f obtain off where "List.find ?P (rev [2..<Suc (length code)]) = Some off" "checked_add start (of_nat (off - 2)) = Some raw"
    unfolding find_raw_syscall_instruction_def bind_eq_Some_conv by blast
  from find_SomeD [OF this(1)] this(2) have off: "off \<in> set [2..<Suc (length code)]" "take 2 (drop (off - 2) code) = SYSCALL_INSTRUCTION"
    "syscall_service_before code off = Some service" "raw = start + of_nat (off - 2)"
    by (simp_all only: set_rev checked_add_eq_Some)
  then have o: "off - 2 + 2 \<le> window" "2 \<le> off" using len by auto
  with read_sub [OF r, of "off - 2" 2] off show "read_memory m raw 2 = Some SYSCALL_INSTRUCTION" by simp
  have u: "unat raw = unat start + (off - 2)" using unat_offset [OF len(2), of "off - 2"] o off(4) by simp
  with o show "unat raw + 2 \<le> unat start + window" by simp
  from off(3) obtain q where q: "q \<in> set (rev [off - 26..<off - 8])" "take 3 (drop q code) = [0x4c, 0x8b, 0xd1]" "code ! (q + 3) = 0xb8"
    "service = ucast (from_le (take 4 (drop (q + 4) code)) :: u32)"
    by (auto simp: syscall_service_before_def dest!: find_SomeD)
  then have qo: "q + 8 < off" by auto
  with o have qw: "q + 8 \<le> window" by simp
  let ?svc = "from_le (take 4 (drop (q + 4) code)) :: u32"
  have "take 8 (drop q code) = take 3 (drop q code) @ [code ! (q + 3)] @ take 4 (drop (q + 4) code)"
    by (intro nth_equalityI) (use qw len in \<open>auto simp: nth_append nth_Cons' less_Suc_eq numeral_eq_Suc\<close>)
  moreover have "to_le 4 ?svc = take 4 (drop (q + 4) code)"
    using to_le_from_le [of "take 4 (drop (q + 4) code)", where ?'a = 32] qw len by simp
  ultimately have "read_memory m (start + of_nat q) 8 = Some ([0x4c, 0x8b, 0xd1, 0xb8] @ to_le 4 ?svc)"
    using read_sub [OF r qw] q by simp
  moreover have "unat (start + of_nat q) + 7 \<le> unat raw" using unat_offset [OF len(2), of q] qw qo u by simp
  ultimately show "\<exists>stub svc. read_memory m stub 8 = Some ([0x4c, 0x8b, 0xd1, 0xb8] @ to_le 4 (svc :: u32)) \<and> ucast svc = service \<and> unat stub + 7 \<le> unat raw"
    using q(4) by blast
qed

lemma find_syscall_sound:
  assumes "find_syscall m return_address service = Some raw"
  shows "read_memory m raw 2 = Some SYSCALL_INSTRUCTION" and "unat raw + 2 \<le> unat return_address"
    and "\<exists>stub svc. read_memory m stub 8 = Some ([0x4c, 0x8b, 0xd1, 0xb8] @ to_le 4 (svc :: u32)) \<and> ucast svc = service \<and> unat stub + 7 \<le> unat raw"
proof -
  have "\<exists>window start code. window \<in> set ws \<and> checked_sub return_address (of_nat window) = Some start \<and>
      read_memory m start window = Some code \<and> find_raw_syscall_instruction code start service = Some raw"
    if "find_syscall_in m return_address service ws = Some raw" for ws
    using that by (induction ws) (auto split: option.splits)
  from this [OF assms [unfolded find_syscall_def]] obtain window start code where
    w: "window \<in> {0x80, 0x40, 0x20}" "checked_sub return_address (of_nat window) = Some start"
      "read_memory m start window = Some code" "find_raw_syscall_instruction code start service = Some raw"
    by auto
  have "unat start + window = unat return_address"
    using checked_sub_SomeD [OF w(2)] w(1) by auto
  with find_raw_sound [OF w(3,4)] show "read_memory m raw 2 = Some SYSCALL_INSTRUCTION" "unat raw + 2 \<le> unat return_address"
    "\<exists>stub svc. read_memory m stub 8 = Some ([0x4c, 0x8b, 0xd1, 0xb8] @ to_le 4 (svc :: u32)) \<and> ucast svc = service \<and> unat stub + 7 \<le> unat raw"
    by simp_all
qed

section \<open>The decision\<close>

lemma prepare_markers:
  assumes "markers_inv (ds_markers w0)" and "good_key (de_tid e, trap_rsp, rip)" and "trap_rsp \<noteq> - 1"
  shows "markers_inv (ds_markers (prepare_dispatch e trap_rsp w0))"
    and "lookup_marker (ds_markers (prepare_dispatch e trap_rsp w0)) (de_tid e, trap_rsp, rip) = None"
proof -
  have ds: "ds_markers (prepare_dispatch e trap_rsp w0) = retire_markers (ds_markers w0) (de_tid e) trap_rsp"
    by (simp add: prepare_dispatch_def retire_markers_def Let_def split: prod.split)
  have "de_tid e \<noteq> 0" using assms(2) by (simp add: good_key_def)
  from retire_lookup [OF assms(1,2) this assms(3), of trap_rsp] ds show
    "markers_inv (ds_markers (prepare_dispatch e trap_rsp w0))"
    "lookup_marker (ds_markers (prepare_dispatch e trap_rsp w0)) (de_tid e, trap_rsp, rip) = None" by simp_all
qed

lemma prepare_bridge:
  assumes "stubs_inv (br_stubs (ds_bridge w0))"
  shows "stubs_inv (br_stubs (ds_bridge (prepare_dispatch e trap_rsp w0)))"
  using maybe_scan_inv(1) [OF assms] by (simp add: prepare_dispatch_def Let_def split: prod.split)

lemma matches_iat_stub_iff:
  assumes "stubs_inv (br_stubs b)"
  shows "matches_iat_stub b return_address \<longleftrightarrow> (\<exists>stub \<in> stored (br_stubs b). unat return_address = unat stub + 0x1f)"
proof -
  have sub: "stub_for_return return_address = Some stub \<longleftrightarrow> stub \<noteq> 0 \<and> unat return_address = unat stub + 0x1f" for stub
    by (auto simp: stub_for_return_def checked_sub_def THUNK_RETURN_OFFSET_def word_le_nat_alt unat_sub word_unat_eq_iff
        split: option.splits if_splits)
  have empty: "stored (br_stubs b) = {}" if "ss_count (br_stubs b) = 0"
    using that assms by (auto simp: stubs_inv_def stored_def filter_empty_conv)
  show ?thesis
  proof (cases "stub_for_return return_address")
    case None
    then have "\<not> (stub \<noteq> 0 \<and> unat return_address = unat stub + 0x1f)" for stub :: u64 using sub [of stub] by simp
    with None ss.elems_nonzero [OF assms] show ?thesis by (metis matches_iat_stub_def option.simps(4))
  next
    case (Some stub)
    then have s: "stub \<noteq> 0" "unat return_address = unat stub + 0x1f" using sub by auto
    have "stub' = stub" if "unat return_address = unat stub' + 0x1f" for stub'
      using that s(2) by (metis add_right_cancel unsigned_word_eqI)
    then have "(\<exists>stub \<in> stored (br_stubs b). unat return_address = unat stub + 0x1f) \<longleftrightarrow> stub \<in> stored (br_stubs b)"
      using s(2) by blast
    moreover have "matches_iat_stub b return_address \<longleftrightarrow> stub \<in> stored (br_stubs b)"
      using Some empty ss.has_iff [OF assms s(1)] by (cases "ss_count (br_stubs b) = 0") (simp_all add: matches_iat_stub_def)
    ultimately show ?thesis by (simp only:)
  qed
qed

lemma dispatcher_evidence:
  assumes "stubs_inv (br_stubs (ds_bridge w0))" and "markers_inv (ds_markers w0)" and "de_tid e \<noteq> 0"
    and "unat entry_rsp + 9 < 2 ^ 64"
    and "dispatcher_target e return_address service entry_rsp w0 = (w, target)"
  shows "target = br_original (ds_bridge w0) \<or>
    (\<exists>raw. target = raw OR RAW_TARGET_TAG \<and> br_original (ds_bridge w0) \<noteq> 0 \<and>
       (\<exists>stub \<in> stored (br_stubs (ds_bridge w)). unat return_address = unat stub + 0x1f) \<and>
       \<not> is_reflex_address (ds_bridge w) (case read_u64 (ds_mem w) (entry_rsp + 8) of Some c \<Rightarrow> c | None \<Rightarrow> 0) \<and>
       read_memory (ds_mem w) raw 2 = Some SYSCALL_INSTRUCTION \<and> unat raw + 2 \<le> unat return_address \<and>
       (\<exists>stub svc. read_memory (ds_mem w) stub 8 = Some ([0x4c, 0x8b, 0xd1, 0xb8] @ to_le 4 (svc :: u32)) \<and>
          ucast svc = service \<and> unat stub + 7 \<le> unat raw) \<and>
       markers_inv (ds_markers w) \<and> lookup_marker (ds_markers w) (de_tid e, entry_rsp + 8, raw + 2) = Some Armed)"
proof (cases "target = br_original (ds_bridge w0)")
  case False
  have rsp: "saturating_add entry_rsp 8 = entry_rsp + 8" "entry_rsp + 8 \<noteq> 0" "entry_rsp + 8 \<noteq> - 1"
  proof -
    have u: "unat (entry_rsp + 8) = unat entry_rsp + 8" using assms(4) by (subst unat_add_no_overflow) simp_all
    then show "entry_rsp + 8 \<noteq> 0" by auto
    show "entry_rsp + 8 \<noteq> - 1"
    proof
      assume "entry_rsp + 8 = - 1"
      then have "entry_rsp = - 9" by (simp add: eq_neg_iff_add_eq_0 add.commute)
      then have "unat entry_rsp = 2 ^ 64 - 9" by simp
      with assms(4) show False by simp
    qed
  qed (use assms(4) in \<open>simp add: saturating_add_def\<close>)
  let ?p = "prepare_dispatch e (entry_rsp + 8) w0"
  let ?c = "case read_u64 (ds_mem ?p) (entry_rsp + 8) of Some c \<Rightarrow> c | None \<Rightarrow> 0"
  from assms(5) False obtain raw k where
    d: "br_original (ds_bridge w0) \<noteq> 0" "matches_iat_stub (ds_bridge ?p) return_address" "\<not> is_reflex_address (ds_bridge ?p) ?c"
      "find_syscall (ds_mem ?p) return_address service = Some raw"
      "remember_marker (ds_markers ?p) (de_tid e, entry_rsp + 8, saturating_add raw 2) = (k, True)"
      "w = ?p\<lparr>ds_markers := k\<rparr>" "target = raw OR RAW_TARGET_TAG"
    unfolding dispatcher_target_def Let_def rsp(1)
    by (auto simp: should_replay_raw_def split: if_splits prod.splits)
  note f = find_syscall_sound [OF d(4)]
  have "unat return_address < 2 ^ 64" using unsigned_less [of return_address] by simp
  then have rip: "saturating_add raw 2 = raw + 2" "unat (raw + 2) = unat raw + 2"
    using f(2) by (simp_all add: saturating_add_def unat_add_no_overflow)
  then have g: "good_key (de_tid e, entry_rsp + 8, raw + 2)" using rsp(2) assms(3) by (auto simp: good_key_def)
  from prepare_markers [OF assms(2) g rsp(3)] have pm: "markers_inv (ds_markers ?p)"
    "lookup_marker (ds_markers ?p) (de_tid e, entry_rsp + 8, raw + 2) = None" by simp_all
  from mt.arm_ok [OF pm(1) g pm(2)] d(5) rip(1) have "markers_inv k" "lookup_marker k (de_tid e, entry_rsp + 8, raw + 2) = Some Armed"
    by auto
  moreover have "\<exists>stub \<in> stored (br_stubs (ds_bridge ?p)). unat return_address = unat stub + 0x1f"
    using d(2) matches_iat_stub_iff [OF prepare_bridge [OF assms(1)]] by simp
  ultimately show ?thesis using d f by (intro disjI2 exI [of _ raw]) simp
qed simp


text \<open>A process with one copied stub at \<open>0x20000\<close>, its call returning to \<open>0x2001f\<close>, and a stack at \<open>0x30000\<close>.\<close>

definition stub_mem :: vmem where
  "stub_mem = \<lparr>vm_bytes = \<lambda>x.
       if 0x1ff00 \<le> x \<and> x < 0x1fff0 then Some 0
       else if 0x1fff0 \<le> x \<and> x < 0x20020 then
         Some (case map_of [(0x20000, 0x4c), (0x20001, 0x8b), (0x20002, 0xd1), (0x20003, 0xb8), (0x20004, 0x46), (0x20005, 0x02),
           (0x20010, 0x0f), (0x20011, 0x05), (0x20012, 0xc3)] x of Some b \<Rightarrow> b | None \<Rightarrow> 0)
       else None, vm_writable = \<lambda>x. False\<rparr>"

definition stub_state :: dispatch_state where
  "stub_state = \<lparr>ds_mem = stub_mem,
     ds_bridge = (bridge_new 0)\<lparr>br_original := 0x7000, br_image_start := 0x50000, br_image_end := 0x60000,
        br_stubs := fst (remember_stub stubs_new 0x20000)\<rparr>,
     ds_markers = markers_new, ds_repair = repair_new\<lparr>ur_done := True\<rparr>\<rparr>"

definition stub_env :: dispatch_env where
  "stub_env = \<lparr>de_gs = None, de_maps = None, de_tid = 7\<rparr>"

lemma stub_syscall: "find_syscall stub_mem 0x2001f 0x246 = Some 0x20010" "read_u64 stub_mem 0x30008 = None"
  by code_simp+

lemma stub_state_stubs:
  "stubs_inv (br_stubs (ds_bridge stub_state))" "stored (br_stubs (ds_bridge stub_state)) = {0x20000}"
  "ss_count (br_stubs (ds_bridge stub_state)) \<noteq> 0"
proof -
  have room: "stubs_room stubs_new" by (simp add: stubs_room_def stubs_new_def IAT_CAPACITY_def)
  obtain s fresh where s: "remember_stub stubs_new 0x20000 = (s, fresh)" by (cases "remember_stub stubs_new 0x20000")
  with ss.add_room [OF stubs_inv_new(1) _ room s] stubs_inv_new(2)
  show i: "stubs_inv (br_stubs (ds_bridge stub_state))" and e: "stored (br_stubs (ds_bridge stub_state)) = {0x20000}"
    by (simp_all add: stub_state_def)
  show "ss_count (br_stubs (ds_bridge stub_state)) \<noteq> 0"
    using i e by (force simp: stubs_inv_def stored_def filter_empty_conv)
qed

lemma stub_state_prepared: "prepare_dispatch stub_env a (stub_state\<lparr>ds_mem := m\<rparr>) = stub_state\<lparr>ds_mem := m\<rparr>"
proof -
  have "maybe_scan_main_image_iat m None (ds_bridge stub_state) = ds_bridge stub_state"
    using stub_state_stubs(3) by (simp add: maybe_scan_main_image_iat_def)
  moreover have "\<not> has_active_markers markers_new" by (simp add: has_active_markers_def markers_new_def)
  ultimately show ?thesis
    by (simp add: prepare_dispatch_def stub_env_def maybe_repair_wine_unixlib_exports_def stub_state_def)
qed

lemma stub_call_on:
  assumes "find_syscall m 0x2001f 0x246 = Some 0x20010" and "read_u64 m 0x30008 = None"
  shows "\<exists>k. dispatcher_target stub_env 0x2001f 0x246 0x30000 (stub_state\<lparr>ds_mem := m\<rparr>) =
      (stub_state\<lparr>ds_mem := m, ds_markers := k\<rparr>, 0x20010 OR RAW_TARGET_TAG) \<and>
    markers_inv k \<and> lookup_marker k (7, 0x30008, 0x20012) = Some Armed"
proof -
  obtain k where k: "remember_marker markers_new (7, 0x30008, 0x20012) = (k, True)"
    using remember_new [of "(7, 0x30008, 0x20012)"] by (auto simp: good_key_def)
  have g: "good_key (7, 0x30008, 0x20012)" by (simp add: good_key_def)
  have sat: "saturating_add (0x30000 :: u64) 8 = 0x30008" "saturating_add (0x20010 :: u64) 2 = 0x20012"
    by (simp_all add: saturating_add_def)
  have "matches_iat_stub (ds_bridge stub_state) 0x2001f"
    using matches_iat_stub_iff [OF stub_state_stubs(1)] stub_state_stubs(2) by simp
  moreover have "ds_markers stub_state = markers_new" "br_original (ds_bridge stub_state) = 0x7000"
    "\<not> is_reflex_address (ds_bridge stub_state) 0" "de_tid stub_env = 7"
    by (simp_all add: stub_state_def is_reflex_address_def stub_env_def)
  ultimately show ?thesis
    using k assms mt.arm_ok [OF markers_inv_new(1) g markers_inv_new(2) k]
    by (intro exI [of _ k]) (simp add: dispatcher_target_def stub_state_prepared should_replay_raw_def sat)
qed

lemma stub_state_mem: "stub_state\<lparr>ds_mem := stub_mem\<rparr> = stub_state"
  by (simp add: stub_state_def)

lemma stub_call_replayed:
  "\<exists>w. dispatcher_target stub_env 0x2001f 0x246 0x30000 stub_state = (w, 0x20010 OR RAW_TARGET_TAG)"
  using stub_call_on [OF stub_syscall] unfolding stub_state_mem by blast

lemma stub_call_armed:
  assumes "dispatcher_target stub_env 0x2001f 0x246 0x30000 stub_state = (w, t)"
  shows "markers_inv (ds_markers w) \<and> lookup_marker (ds_markers w) (7, 0x30008, 0x20012) = Some Armed"
  using stub_call_on [OF stub_syscall] assms unfolding stub_state_mem by auto


section \<open>Registration of the image\<close>

lemma search_image_sound:
  "search_image m handler page offs = Some (base, e) \<Longrightarrow> image_end_at m handler base = Some e"
  by (induction offs) (auto split: option.splits)

lemma image_end_atD:
  assumes "image_end_at m handler base = Some e"
  shows "base \<noteq> 0 \<and> base \<le> handler \<and> handler < e \<and> read_memory m base 2 = Some (ascii ''MZ'')"
proof -
  from assms obtain dos where d: "read_memory m base 0x40 = Some dos" "take 2 dos = ascii ''MZ''" "base \<le> handler" "handler < e"
    by (auto simp: image_end_at_def Let_def split: bind_splits if_splits)
  with read_sub [OF d(1), of 0 2] read_memory_length [OF d(1)] show ?thesis by simp
qed

text \<open>
  The image range. Registering a handler changes nothing but the image range, at most once:
  a range recorded before stays, and a new one starts at a readable PE header and contains the
  handler, so that a call from the handler's own code is recognised as the image's.
\<close>

lemma registered_image_contains_handler:
  "register_reflex_image m handler b = b \<or>
   (br_image_start b = 0 \<and> is_reflex_address (register_reflex_image m handler b) handler \<and>
    read_memory m (br_image_start (register_reflex_image m handler b)) 2 = Some (ascii ''MZ'') \<and>
    (\<forall>h. register_reflex_image m h (register_reflex_image m handler b) = register_reflex_image m handler b))"
proof (cases "handler = 0 \<or> br_image_start b \<noteq> 0")
  case False
  show ?thesis
  proof (cases "search_image m handler (handler AND NOT 0xfff) image_offsets")
    case (Some r)
    obtain base e where r: "r = (base, e)" by (cases r)
    from image_end_atD [OF search_image_sound [OF Some [unfolded r]]] have i: "base \<noteq> 0" "base \<le> handler" "handler < e"
      "read_memory m base 2 = Some (ascii ''MZ'')" by auto
    have "register_reflex_image m handler b = b\<lparr>br_image_end := e, br_image_start := base\<rparr>"
      using False Some r by (simp add: register_reflex_image_def)
    with i False show ?thesis by (auto simp: is_reflex_address_def) (simp add: register_reflex_image_def)
  qed (simp add: register_reflex_image_def)
qed (simp add: register_reflex_image_def)

end
