(* ===== verification/Int2e.thy ===== *)
theory Int2e
  imports Procmem Kuser_Page
begin

text \<open>
  \<^verbatim>\<open>runtime/src/syscall/int2e.rs\<close>: a faulting \<open>int 2e\<close> is run as the \<open>syscall\<close> of its own thunk, through a
  private trampoline, as a \<open>syscall\<close> patched over it, or as a last resort skipped. The tables of
  sites and targets are lists, a fault is one step; what \<^verbatim>\<open>mmap\<close> and \<^verbatim>\<open>mprotect\<close> return is a
  parameter. The debug traces and log budgets are left out.
\<close>

section \<open>Registers and state\<close>

record fault_regs =
  f_rax :: u64
  f_rbx :: u64
  f_rcx :: u64
  f_rdx :: u64
  f_rip :: u64
  f_efl :: u64
  f_trapno :: u64

definition INT2E_INSTRUCTION :: bytes where "INT2E_INSTRUCTION = [0xcd, 0x2e]"
definition INT2E_SYSCALL :: bytes where "INT2E_SYSCALL = [0x0f, 0x05]"
definition TRAMPOLINE_CAPACITY :: nat where "TRAMPOLINE_CAPACITY = 16384"
definition DIRECT_SYSCALL_THUNK :: bytes where "DIRECT_SYSCALL_THUNK = [0x0f, 0x05, 0xc3]"
definition TEST_ZERO_CLEAR_FLAGS :: u64 where "TEST_ZERO_CLEAR_FLAGS = 0x881"
definition TEST_ZERO_SET_FLAGS :: u64 where "TEST_ZERO_SET_FLAGS = 0x44"

record trampolines =
  tr_mem :: vmem
  tr_sites :: "u64 list"
  tr_targets :: "u64 list"
  tr_kuser :: kuser

text \<open>What the system calls of one fault return: the maps file, a new page, and the protections.\<close>

record int2e_env =
  ie_maps :: "bytes list option"
  ie_mmap :: "u64 option"
  ie_seal_ok :: bool
  ie_kuser :: kenv
  ie_writable_ok :: bool
  ie_restore_ok :: bool

section \<open>Operations\<close>

definition next_instruction :: "u64 \<Rightarrow> u64 option" where
  "next_instruction rip = checked_add rip (of_nat (length INT2E_INSTRUCTION))"

definition preceding_direct_syscall :: "vmem \<Rightarrow> u64 \<Rightarrow> u64 option" where
  "preceding_direct_syscall m rip =
     Option.bind (checked_sub rip (of_nat (length DIRECT_SYSCALL_THUNK)))
       (\<lambda>start. if read_memory m start 3 = Some DIRECT_SYSCALL_THUNK then Some start else None)"

definition direct_path_eflags :: "u64 \<Rightarrow> u64" where
  "direct_path_eflags eflags = (eflags AND NOT TEST_ZERO_CLEAR_FLAGS) OR TEST_ZERO_SET_FLAGS"

definition executable_line :: "u64 \<Rightarrow> u64 \<Rightarrow> bytes \<Rightarrow> bool" where
  "executable_line page page_end line = (case parse_maps_line line of
       None \<Rightarrow> False
     | Some mapping \<Rightarrow> map_start mapping \<le> page \<and> map_end mapping \<ge> page_end \<and>
         length (map_permissions mapping) = 4 \<and> map_permissions mapping ! 0 = of_char (CHR ''r'') \<and>
         map_permissions mapping ! 2 = of_char (CHR ''x''))"

definition executable_mapping :: "bytes list option \<Rightarrow> u64 \<Rightarrow> u64 \<Rightarrow> bool" where
  "executable_mapping maps page page_size = (case checked_add page page_size of
       None \<Rightarrow> False
     | Some page_end \<Rightarrow> snd (find_line (\<lambda>u line. (u, executable_line page page_end line)) maps ()))"

definition trampoline_code :: "u64 \<Rightarrow> bytes" where
  "trampoline_code next = INT2E_SYSCALL @ [0x48, 0xb9] @ to_le 8 next @ [0xff, 0x25, 0, 0, 0, 0] @ to_le 8 next"

definition page_of :: "u64 \<Rightarrow> u64" where
  "page_of a = a AND NOT 0xfff"

text \<open>A page the process gets from \<^verbatim>\<open>mmap\<close>: zeroes, here with the code already stored at its start.\<close>

definition map_code_page :: "u64 \<Rightarrow> bytes \<Rightarrow> vmem \<Rightarrow> vmem" where
  "map_code_page a code m =
     m\<lparr>vm_bytes := poke (poke (vm_bytes m) a (replicate PAGE_SIZE 0)) a code,
       vm_writable := \<lambda>x. x \<notin> set (span_addrs a PAGE_SIZE) \<and> vm_writable m x\<rparr>"

definition build_private_trampoline :: "int2e_env \<Rightarrow> u64 \<Rightarrow> u64 \<Rightarrow> vmem \<Rightarrow> vmem \<times> u64 option" where
  "build_private_trampoline e site next m =
     (if \<not> executable_mapping (ie_maps e) (page_of site) (of_nat PAGE_SIZE) then (m, None)
      else case ie_mmap e of
        None \<Rightarrow> (m, None)
      | Some a \<Rightarrow> if \<not> ie_seal_ok e then (m, None) else (map_code_page a (trampoline_code next) m, Some a))"

definition build_or_reuse :: "int2e_env \<Rightarrow> nat \<Rightarrow> u64 \<Rightarrow> u64 \<Rightarrow> trampolines \<Rightarrow> trampolines \<times> u64 option" where
  "build_or_reuse e i site next w =
     (if tr_targets w ! i \<noteq> 0 then (w, Some (tr_targets w ! i))
      else case build_private_trampoline e site next (tr_mem w) of
        (m, None) \<Rightarrow> (w\<lparr>tr_mem := m\<rparr>, None)
      | (m, Some built) \<Rightarrow> (w\<lparr>tr_mem := m, tr_targets := (tr_targets w)[i := built]\<rparr>, Some built))"

fun claim_site :: "int2e_env \<Rightarrow> u64 \<Rightarrow> u64 \<Rightarrow> nat list \<Rightarrow> trampolines \<Rightarrow> trampolines \<times> u64 option" where
  "claim_site e site next [] w = (w, None)"
| "claim_site e site next (i # is) w =
     (if tr_sites w ! i = site then build_or_reuse e i site next w
      else if tr_sites w ! i \<noteq> 0 then claim_site e site next is w
      else build_or_reuse e i site next (w\<lparr>tr_sites := (tr_sites w)[i := site]\<rparr>))"

definition site_probe :: "u64 \<Rightarrow> nat list" where
  "site_probe site = map (\<lambda>off. (unat (drop_bit 1 site) mod TRAMPOLINE_CAPACITY + off) mod TRAMPOLINE_CAPACITY) [0..<TRAMPOLINE_CAPACITY]"

definition private_syscall_trampoline :: "int2e_env \<Rightarrow> u64 \<Rightarrow> trampolines \<Rightarrow> trampolines \<times> u64 option" where
  "private_syscall_trampoline e site w = (case next_instruction site of
       None \<Rightarrow> (w, None)
     | Some next \<Rightarrow> claim_site e site next (site_probe site) w)"

definition patch_code :: "int2e_env \<Rightarrow> u64 \<Rightarrow> vmem \<Rightarrow> vmem \<times> bool" where
  "patch_code e a m =
     (let patched = (read_memory m a 2 = Some INT2E_INSTRUCTION);
          m' = (if patched then m\<lparr>vm_bytes := poke (vm_bytes m) a INT2E_SYSCALL\<rparr> else m) in
      if \<not> ie_restore_ok e \<or> \<not> patched then (m', False)
      else (m', read_memory m' a 2 = Some INT2E_SYSCALL))"

definition patch_to_syscall :: "int2e_env \<Rightarrow> u64 \<Rightarrow> trampolines \<Rightarrow> trampolines \<times> bool" where
  "patch_to_syscall e a w =
     (if read_memory (tr_mem w) a 2 \<noteq> Some INT2E_INSTRUCTION then (w, False)
      else case checked_add a 1 of
        None \<Rightarrow> (w, False)
      | Some second_byte \<Rightarrow>
          if second_byte \<ge> saturating_add (page_of a) (of_nat PAGE_SIZE) then (w, False)
          else if \<not> executable_mapping (ie_maps e) (page_of a) (of_nat PAGE_SIZE) then (w, False)
          else (case acquire_guard (ie_kuser e) (tr_kuser w) of
                  (k, None) \<Rightarrow> (w\<lparr>tr_kuser := k\<rparr>, False)
                | (k, Some saved) \<Rightarrow>
                    if \<not> ie_writable_ok e then (w\<lparr>tr_kuser := drop_guard saved k\<rparr>, False)
                    else (let (m, ok) = patch_code e a (tr_mem w) in (w\<lparr>tr_kuser := drop_guard saved k, tr_mem := m\<rparr>, ok))))"

definition skip_int2e_fault :: "int2e_env \<Rightarrow> fault_regs \<Rightarrow> trampolines \<Rightarrow> trampolines \<times> fault_regs \<times> bool" where
  "skip_int2e_fault e r w =
     (if f_trapno r \<noteq> 13 then (w, r, False)
      else if read_memory (tr_mem w) (f_rip r) 2 \<noteq> Some INT2E_INSTRUCTION then (w, r, False)
      else case preceding_direct_syscall (tr_mem w) (f_rip r) of
        Some syscall_rip \<Rightarrow> (w, r\<lparr>f_efl := direct_path_eflags (f_efl r), f_rip := syscall_rip\<rparr>, True)
      | None \<Rightarrow>
          (case private_syscall_trampoline e (f_rip r) w of
             (w1, Some thunk) \<Rightarrow> (w1, r\<lparr>f_rip := thunk\<rparr>, True)
           | (w1, None) \<Rightarrow>
               (case patch_to_syscall e (f_rip r) w1 of
                  (w2, True) \<Rightarrow> (w2, r, True)
                | (w2, False) \<Rightarrow>
                    (case next_instruction (f_rip r) of
                       None \<Rightarrow> (w2, r, False)
                     | Some next_rip \<Rightarrow> (w2, r\<lparr>f_rip := next_rip\<rparr>, True)))))"

section \<open>Memory lemmas\<close>

lemma read_memory_kept:
  assumes "read_memory m b k = Some bs"
    and "\<And>x. x \<in> set (span_addrs b k) \<Longrightarrow> vm_bytes m x \<noteq> None \<Longrightarrow> vm_bytes m' x = vm_bytes m x"
  shows "read_memory m' b k = Some bs"
proof -
  from assms(1) have r: "readable m b k" "b \<noteq> 0" "k \<noteq> 0" "bs = span m b k"
    by (auto simp: read_memory_def process_vm_readv_def split: if_splits)
  then have "vm_bytes m' x = vm_bytes m x" "vm_bytes m x \<noteq> None" if "x \<in> set (span_addrs b k)" for x
    using assms(2) [OF that] that by (auto simp: readable_def list_all_iff)
  with r show ?thesis
    by (auto simp: read_memory_def process_vm_readv_def readable_def list_all_iff span_def)
qed

text \<open>What \<^verbatim>\<open>mmap\<close> without \<^verbatim>\<open>MAP_FIXED\<close> returns: a page where nothing was mapped.\<close>

definition fresh_page :: "int2e_env \<Rightarrow> vmem \<Rightarrow> bool" where
  "fresh_page e m \<longleftrightarrow> (\<forall>a. ie_mmap e = Some a \<longrightarrow>
     a \<noteq> 0 \<and> in_space a PAGE_SIZE \<and> (\<forall>x \<in> set (span_addrs a PAGE_SIZE). vm_bytes m x = None))"

definition site_entry_ok :: "vmem \<Rightarrow> u64 \<Rightarrow> u64 \<Rightarrow> bool" where
  "site_entry_ok m site target \<longleftrightarrow>
     target \<noteq> 0 \<longrightarrow> read_memory m target 26 = Some (trampoline_code (site + 2))"

text \<open>Every published target holds the code for its site.\<close>

definition trampolines_ok :: "trampolines \<Rightarrow> bool" where
  "trampolines_ok w \<longleftrightarrow> length (tr_sites w) = TRAMPOLINE_CAPACITY \<and> length (tr_targets w) = TRAMPOLINE_CAPACITY \<and>
     (\<forall>i < TRAMPOLINE_CAPACITY. (tr_sites w ! i = 0 \<longrightarrow> tr_targets w ! i = 0) \<and>
        site_entry_ok (tr_mem w) (tr_sites w ! i) (tr_targets w ! i))"

definition outside_trampolines :: "u64 \<Rightarrow> trampolines \<Rightarrow> bool" where
  "outside_trampolines rip w \<longleftrightarrow>
     (\<forall>t \<in> set (tr_targets w). t \<noteq> 0 \<longrightarrow> disjoint_ranges t 26 rip 2)"

definition mapped_kept :: "vmem \<Rightarrow> vmem \<Rightarrow> bool" where
  "mapped_kept m m' \<longleftrightarrow> (\<forall>x. vm_bytes m x \<noteq> None \<longrightarrow> vm_bytes m' x = vm_bytes m x)"

lemma length_trampoline_code [simp]: "length (trampoline_code next) = 26"
  by (simp add: trampoline_code_def INT2E_SYSCALL_def)

lemma read_mapped_kept: "mapped_kept m m' \<Longrightarrow> read_memory m b k = Some bs \<Longrightarrow> read_memory m' b k = Some bs"
  by (erule read_memory_kept) (auto simp: mapped_kept_def)

lemma entry_kept: "mapped_kept m m' \<Longrightarrow> site_entry_ok m s t \<Longrightarrow> site_entry_ok m' s t"
  by (auto simp: site_entry_ok_def dest: read_mapped_kept)

lemma map_code_page_effect:
  assumes "in_space a PAGE_SIZE" and "a \<noteq> 0" and "\<forall>x \<in> set (span_addrs a PAGE_SIZE). vm_bytes m x = None"
  shows "mapped_kept m (map_code_page a (trampoline_code next) m)"
    and "read_memory (map_code_page a (trampoline_code next) m) a 26 = Some (trampoline_code next)"
proof -
  let ?m = "map_code_page a (trampoline_code next) m"
  have sub: "span_addrs a PAGE_SIZE = span_addrs a 26 @ span_addrs (a + of_nat 26) (PAGE_SIZE - 26)"
    using span_addrs_append [of a 26 "PAGE_SIZE - 26"] by (simp add: PAGE_SIZE_def)
  have sp: "in_space a 26" using assms(1) by (simp add: in_space_def PAGE_SIZE_def)
  show "mapped_kept m ?m"
    unfolding mapped_kept_def
  proof (intro allI impI)
    fix x assume "vm_bytes m x \<noteq> None"
    with assms(3) have "x \<notin> set (span_addrs a PAGE_SIZE)" by auto
    then show "vm_bytes ?m x = vm_bytes m x"
      using sub by (simp add: map_code_page_def poke_other)
  qed
  have "vm_bytes ?m (a + of_nat i) = Some (trampoline_code next ! i)" if "i < 26" for i
    using poke_nth [of a "trampoline_code next" i] that sp by (simp add: map_code_page_def)
  then have "readable ?m a 26" "span ?m a 26 = trampoline_code next"
    using sp by (auto simp: readable_def list_all_iff set_addrs span_def intro!: nth_equalityI)
  with assms(2) show "read_memory ?m a 26 = Some (trampoline_code next)"
    by (simp add: read_memory_def process_vm_readv_def)
qed

section \<open>The trampoline table\<close>

lemma build_private_trampoline_effect:
  assumes "build_private_trampoline e site next m = (m', t)" and "fresh_page e m"
  shows "mapped_kept m m'"
    and "t = Some a \<Longrightarrow> a \<noteq> 0 \<and> read_memory m' a 26 = Some (trampoline_code next)"
    and "t = None \<Longrightarrow> m' = m"
  using assms map_code_page_effect [of _ m "next"]
  by (auto simp: build_private_trampoline_def fresh_page_def mapped_kept_def split: if_splits option.splits)

text \<open>A table step that keeps the invariant, the mapped bytes and the identity of the slots in use.\<close>

definition table_step :: "u64 \<Rightarrow> trampolines \<Rightarrow> trampolines \<Rightarrow> u64 option \<Rightarrow> bool" where
  "table_step site w w' t \<longleftrightarrow> trampolines_ok w' \<and> mapped_kept (tr_mem w) (tr_mem w') \<and> tr_kuser w' = tr_kuser w \<and>
     set (tr_targets w') \<subseteq> set (tr_targets w) \<union> set_option t \<and> (t = None \<longrightarrow> tr_mem w' = tr_mem w) \<and>
     (\<forall>a. t = Some a \<longrightarrow> a \<noteq> 0 \<and> read_memory (tr_mem w') a 26 = Some (trampoline_code (site + 2)))"

lemma build_or_reuse_step:
  assumes "trampolines_ok w" and "fresh_page e (tr_mem w)" and "i < TRAMPOLINE_CAPACITY"
    and "tr_sites w ! i = site" and "site \<noteq> 0" and "build_or_reuse e i site (site + 2) w = (w', t)"
  shows "table_step site w w' t"
proof (cases "tr_targets w ! i = 0")
  case False
  with assms show ?thesis
    by (auto simp: build_or_reuse_def table_step_def mapped_kept_def trampolines_ok_def site_entry_ok_def)
next
  case True
  obtain m t' where b: "build_private_trampoline e site (site + 2) (tr_mem w) = (m, t')" by fastforce
  note eff = build_private_trampoline_effect [OF b assms(2)]
  show ?thesis
  proof (cases t')
    case None
    with b True assms(1,6) eff(3) show ?thesis
      by (auto simp: build_or_reuse_def table_step_def mapped_kept_def)
  next
    case (Some built)
    with b True assms(6) have w': "w' = w\<lparr>tr_mem := m, tr_targets := (tr_targets w)[i := built]\<rparr>" "t = Some built"
      by (auto simp: build_or_reuse_def)
    have "trampolines_ok w'"
      using assms(1,3-5) eff(1) eff(2) [OF Some] unfolding w' trampolines_ok_def
      by (auto simp: nth_list_update site_entry_ok_def intro: read_mapped_kept)
    with eff(1) eff(2) [OF Some] w' show ?thesis
      using set_update_subset_insert [of "tr_targets w" i built] by (auto simp: table_step_def)
  qed
qed

lemma claim_site_step:
  assumes "trampolines_ok w" and "fresh_page e (tr_mem w)" and "\<forall>i \<in> set is. i < TRAMPOLINE_CAPACITY"
    and "site \<noteq> 0" and "claim_site e site (site + 2) is w = (w', t)"
  shows "table_step site w w' t"
  using assms
proof (induction e site "site + 2" "is" w rule: claim_site.induct)
  case (1 e site w)
  then show ?case by (auto simp: table_step_def mapped_kept_def)
next
  case (2 e site i "is" w)
  let ?w = "w\<lparr>tr_sites := (tr_sites w)[i := site]\<rparr>"
  consider "tr_sites w ! i = site" | "tr_sites w ! i \<noteq> site" "tr_sites w ! i \<noteq> 0" | "tr_sites w ! i = 0" "site \<noteq> 0"
    using 2(5) by blast
  then show ?case
  proof cases
    case 1
    with 2 show ?thesis by (intro build_or_reuse_step [of w e i]) auto
  next
    case 2
    with "2.prems" "2.hyps" show ?thesis by simp
  next
    case 3
    have ok: "trampolines_ok ?w"
      using "2.prems"(1,3) 3 by (auto simp: trampolines_ok_def nth_list_update site_entry_ok_def)
    with "2.prems" 3 have "table_step site ?w w' t"
      by (intro build_or_reuse_step [of ?w e i]) (auto simp: trampolines_ok_def)
    then show ?thesis by (simp add: table_step_def)
  qed
qed

text \<open>The next fault at the same site reuses the target.\<close>

lemma build_or_reuse_again:
  "build_or_reuse e i site n w = (w', Some t) \<Longrightarrow> t \<noteq> 0 \<Longrightarrow> i < length (tr_targets w) \<Longrightarrow>
   build_or_reuse e' i site n w' = (w', Some t) \<and> tr_sites w' = tr_sites w"
  by (auto simp: build_or_reuse_def split: if_splits prod.splits option.splits)

lemma claim_site_again:
  assumes "claim_site e site n is w = (w', Some t)" and "t \<noteq> 0"
    and "\<forall>i \<in> set is. i < length (tr_targets w) \<and> i < length (tr_sites w)"
  shows "claim_site e' site n is w' = (w', Some t)"
  using assms
proof (induction e site n "is" w rule: claim_site.induct)
  case (2 e site n i "is" w)
  have kept: "claim_site e site n is w = (w', Some t) \<Longrightarrow> tr_sites w ! i \<noteq> 0 \<Longrightarrow> tr_sites w' ! i = tr_sites w ! i"
    for "is" and w :: trampolines
  proof (induction e site n "is" w rule: claim_site.induct)
    case (2 e site n j "is" w)
    then show ?case
      by (cases "i = j"; cases "j < length (tr_sites w)")
        (auto simp: build_or_reuse_def nth_list_update list_update_beyond
          split: if_splits prod.splits option.splits)
  qed simp
  show ?case
    using 2 kept [of "is" w] build_or_reuse_again [of e i site n w w' t e']
      build_or_reuse_again [of e i site n "w\<lparr>tr_sites := (tr_sites w)[i := site]\<rparr>" w' t e']
    by (auto split: if_splits)
qed simp

lemma site_probe_bound: "i \<in> set (site_probe site) \<Longrightarrow> i < TRAMPOLINE_CAPACITY"
  by (auto simp: site_probe_def TRAMPOLINE_CAPACITY_def)

lemma next_instruction_eq: "next_instruction rip = (if unat rip + 2 < 2 ^ 64 then Some (rip + 2) else None)"
  by (simp add: next_instruction_def checked_add_def INT2E_INSTRUCTION_def)

lemma private_syscall_trampoline_step:
  assumes "trampolines_ok w" and "fresh_page e (tr_mem w)" and "site \<noteq> 0"
    and "private_syscall_trampoline e site w = (w', t)"
  shows "table_step site w w' t" and "t = Some a \<Longrightarrow> private_syscall_trampoline e' site w' = (w', Some a)"
proof -
  show step: "table_step site w w' t"
    using assms claim_site_step [OF assms(1,2), of "site_probe site" site w' t] site_probe_bound
    by (auto simp: private_syscall_trampoline_def next_instruction_eq table_step_def mapped_kept_def split: if_splits)
  assume t: "t = Some a"
  with step assms show "private_syscall_trampoline e' site w' = (w', Some a)"
    using claim_site_again [of e site "site + 2" "site_probe site" w w' a e'] site_probe_bound
    by (auto simp: private_syscall_trampoline_def next_instruction_eq table_step_def trampolines_ok_def split: if_splits)
qed

section \<open>Patching in place\<close>

lemma patch_code_effect:
  assumes "patch_code e a m = (m', ok)" and "read_memory m a 2 = Some INT2E_INSTRUCTION"
  shows "x \<notin> {a, a + 1} \<Longrightarrow> vm_bytes m' x = vm_bytes m x"
    and "ok \<Longrightarrow> read_memory m' a 2 = Some INT2E_SYSCALL"
    and "disjoint_ranges b k a 2 \<Longrightarrow> read_memory m b k = Some bs \<Longrightarrow> read_memory m' b k = Some bs"
proof -
  have s: "set (span_addrs a 2) = {a, a + 1}" by (auto simp: set_addrs numeral_2_eq_2 lessThan_Suc)
  have b: "vm_bytes m' = poke (vm_bytes m) a INT2E_SYSCALL" using assms by (auto simp: patch_code_def Let_def split: if_splits)
  show other: "vm_bytes m' x = vm_bytes m x" if "x \<notin> {a, a + 1}" for x
    unfolding b using that s by (intro poke_other) (simp add: INT2E_SYSCALL_def numeral_2_eq_2)
  show "ok \<Longrightarrow> read_memory m' a 2 = Some INT2E_SYSCALL" using assms(1) by (auto simp: patch_code_def Let_def split: if_splits)
  assume d: "disjoint_ranges b k a 2" and r: "read_memory m b k = Some bs"
  have sp: "in_space a 2" "in_space b k" using read_memory_length [OF assms(2)] read_memory_length [OF r] by auto
  show "read_memory m' b k = Some bs"
  proof (rule read_memory_kept [OF r])
    fix x assume "x \<in> set (span_addrs b k)"
    with d have "x \<notin> set (span_addrs a 2)"
      unfolding mem_addrs_iff [OF sp(1)] mem_addrs_iff [OF sp(2)] by (auto simp: disjoint_ranges_def)
    with s other show "vm_bytes m' x = vm_bytes m x" by simp
  qed
qed

lemma patch_to_syscall_cases [case_names kept patched]:
  assumes "patch_to_syscall e a w = (w', ok)"
  obtains (kept) "tr_mem w' = tr_mem w" "tr_sites w' = tr_sites w" "tr_targets w' = tr_targets w" "\<not> ok"
  | (patched) "patch_code e a (tr_mem w) = (tr_mem w', ok)" "tr_sites w' = tr_sites w" "tr_targets w' = tr_targets w"
      "read_memory (tr_mem w) a 2 = Some INT2E_INSTRUCTION"
  using assms unfolding patch_to_syscall_def
  by (auto split: if_splits option.splits prod.splits)

lemma patch_to_syscall_effect:
  assumes "patch_to_syscall e a w = (w', ok)" and "trampolines_ok w" and "outside_trampolines a w"
  shows "trampolines_ok w'" and "x \<notin> {a, a + 1} \<Longrightarrow> vm_bytes (tr_mem w') x = vm_bytes (tr_mem w) x"
    and "ok \<Longrightarrow> read_memory (tr_mem w') a 2 = Some INT2E_SYSCALL"
proof -
  show "trampolines_ok w'"
    using assms(1)
  proof (cases rule: patch_to_syscall_cases)
    case patched
    have "site_entry_ok (tr_mem w') (tr_sites w ! i) (tr_targets w ! i)" if "i < TRAMPOLINE_CAPACITY" for i
      using assms(2,3) that patch_code_effect(3) [OF patched(1,4)]
      by (auto simp: site_entry_ok_def trampolines_ok_def outside_trampolines_def)
    with patched assms(2) show ?thesis by (simp add: trampolines_ok_def)
  qed (use assms(2) in \<open>simp add: trampolines_ok_def\<close>)
  show "x \<notin> {a, a + 1} \<Longrightarrow> vm_bytes (tr_mem w') x = vm_bytes (tr_mem w) x"
    and "ok \<Longrightarrow> read_memory (tr_mem w') a 2 = Some INT2E_SYSCALL"
    using assms(1) by (cases rule: patch_to_syscall_cases; simp add: patch_code_effect)+
qed

section \<open>The fault handler\<close>

text \<open>The ways an \<open>int 2e\<close> fault ends, on the machine before and after it.\<close>

definition rewound :: "fault_regs \<Rightarrow> trampolines \<Rightarrow> fault_regs \<Rightarrow> trampolines \<Rightarrow> bool" where
  "rewound r w r' w' \<longleftrightarrow> w' = w \<and> r' = r\<lparr>f_efl := direct_path_eflags (f_efl r), f_rip := f_rip r - 3\<rparr> \<and>
     read_memory (tr_mem w) (f_rip r - 3) 3 = Some DIRECT_SYSCALL_THUNK"

definition trampolined :: "fault_regs \<Rightarrow> trampolines \<Rightarrow> fault_regs \<Rightarrow> trampolines \<Rightarrow> bool" where
  "trampolined r w r' w' \<longleftrightarrow> r' = r\<lparr>f_rip := f_rip r'\<rparr> \<and> mapped_kept (tr_mem w) (tr_mem w') \<and>
     read_memory (tr_mem w') (f_rip r') 26 = Some (trampoline_code (f_rip r + 2)) \<and>
     (\<forall>e. private_syscall_trampoline e (f_rip r) w' = (w', Some (f_rip r')))"

definition patched_in_place :: "fault_regs \<Rightarrow> fault_regs \<Rightarrow> trampolines \<Rightarrow> bool" where
  "patched_in_place r r' w' \<longleftrightarrow> r' = r \<and> read_memory (tr_mem w') (f_rip r) 2 = Some INT2E_SYSCALL"


definition sample_int2e_env :: int2e_env where
  "sample_int2e_env = \<lparr>ie_maps = Some [ascii ''00010000-00011000 r-xp 00000000 00:00 0''], ie_mmap = Some 0x40000000,
     ie_seal_ok = True, ie_kuser = ready_env, ie_writable_ok = True, ie_restore_ok = True\<rparr>"

definition sample_trampolines :: trampolines where
  "sample_trampolines = \<lparr>tr_mem = \<lparr>vm_bytes = [0x10010 \<mapsto> 0xcd, 0x10011 \<mapsto> 0x2e], vm_writable = \<lambda>_. False\<rparr>,
     tr_sites = replicate TRAMPOLINE_CAPACITY 0, tr_targets = replicate TRAMPOLINE_CAPACITY 0,
     tr_kuser = fresh_kuser PATCH_UNAPPLIED 0\<rparr>"

definition sample_fault :: fault_regs where
  "sample_fault = \<lparr>f_rax = 0x132d, f_rbx = 0, f_rcx = 0, f_rdx = 0, f_rip = 0x10010, f_efl = 0x202, f_trapno = 13\<rparr>"

lemma sample_executable: "executable_mapping (ie_maps sample_int2e_env) 0x10000 0x1000"
  by code_simp

lemma fresh_far_page: "unat a \<notin> {0x40000000..<0x40001000} \<Longrightarrow> a \<notin> set (span_addrs 0x40000000 4096)"
  by (subst mem_addrs_iff) (simp_all add: in_space_def)

lemma sample_int2e_memory:
  "read_memory (tr_mem sample_trampolines) 0x10010 2 = Some INT2E_INSTRUCTION"
  "preceding_direct_syscall (tr_mem sample_trampolines) 0x10010 = None"
  by (simp_all add: sample_trampolines_def read_memory_def process_vm_readv_def readable_def in_space_def span_def
      span_addrs_def preceding_direct_syscall_def checked_sub_def DIRECT_SYSCALL_THUNK_def INT2E_INSTRUCTION_def
      upt_conv_Cons)

lemma sample_claim: "\<exists>w1. private_syscall_trampoline sample_int2e_env 0x10010 sample_trampolines = (w1, Some 0x40000000)"
proof -
  have "[0..<16384] = 0 # [Suc 0..<16384]" by (rule upt_conv_Cons) simp
  then have p: "\<exists>is. site_probe 0x10010 = 8 # is"
    by (simp add: site_probe_def TRAMPOLINE_CAPACITY_def del: upt_conv_Cons upt_Suc)
  have "tr_sites sample_trampolines ! 8 = 0" "tr_targets sample_trampolines ! 8 = 0"
    by (simp_all add: sample_trampolines_def TRAMPOLINE_CAPACITY_def)
  moreover have "page_of 0x10010 = 0x10000" by (simp add: page_of_def)
  ultimately show ?thesis
    using p sample_executable
    by (auto simp: private_syscall_trampoline_def next_instruction_eq build_or_reuse_def build_private_trampoline_def
        PAGE_SIZE_def sample_int2e_env_def)
qed


end
