(* ===== verification/Dispatcher_Bridge.thy ===== *)
theory Dispatcher_Bridge
  imports Machine Kuser_Dispatch Int2e
begin

text \<open>
  The naked function \<^verbatim>\<open>dispatcher_bridge\<close> of \<^verbatim>\<open>runtime/src/syscall/kuser_dispatch.rs\<close>, instruction by
  instruction: it saves every register in a frame below the caller's stack pointer, takes the
  private stack of the thread, calls \<open>dispatcher_target\<close> there, restores everything and jumps
  to the address it got. The compiled selector is the model of \<open>dispatcher_target\<close> with what its
  calling convention allows: arbitrary values in the registers it need not keep, and arbitrary
  bytes in the stack it uses.
\<close>

section \<open>The private stacks\<close>

definition BRIDGE_STACK_SLOTS :: nat where "BRIDGE_STACK_SLOTS = 1024"
definition BRIDGE_STACK_SHIFT :: nat where "BRIDGE_STACK_SHIFT = 15"

definition bridge_stack_slot :: "u64 \<Rightarrow> u64 \<Rightarrow> u64" where
  "bridge_stack_slot stacks thread_id = stacks + push_bit BRIDGE_STACK_SHIFT (drop_bit 2 thread_id AND (of_nat BRIDGE_STACK_SLOTS - 1))"

section \<open>The code\<close>

definition bridge_save :: "instr list" where
  "bridge_save =
    [Lea RSP RSP (- 0x108),
     Movdqu_Store 0x00 0, Movdqu_Store 0x10 1, Movdqu_Store 0x20 2, Movdqu_Store 0x30 3,
     Movdqu_Store 0x40 4, Movdqu_Store 0x50 5, Movdqu_Store 0x60 6, Movdqu_Store 0x70 7,
     Movdqu_Store 0x80 8, Movdqu_Store 0x90 9, Movdqu_Store 0xa0 10, Movdqu_Store 0xb0 11,
     Movdqu_Store 0xc0 12, Movdqu_Store 0xd0 13, Movdqu_Store 0xe0 14, Movdqu_Store 0xf0 15,
     Pushfq, Push RAX, Push RBX, Push RCX, Push RDX, Push RSI, Push RDI, Push RBP, Push R8, Push R9, Push R10, Push R11,
     Push R12, Push R13, Push R14, Push R15,
     Mov RBX RSP,
     Load RDI RBX 0x188, Lea R9 RBX 0x188, Load RSI RBX 0x70, Load RDX RBX 0x28, Load RCX RBX 0x60, Load R8 RBX 0xd0]"

definition bridge_pick_stack :: "instr list" where
  "bridge_pick_stack =
    [Lea_Symbol R15, Load_Gs RAX 0x48, Shr RAX 2, And_Dword RAX (of_nat BRIDGE_STACK_SLOTS - 1),
     Shl RAX BRIDGE_STACK_SHIFT, Add R15 RAX]"

definition bridge_spin :: "instr list" where
  "bridge_spin = [Lock_Bts R15, Jnc 50, Pause, Jmp 46]"

definition bridge_call :: "instr list" where
  "bridge_call =
    [Lea RSP R15 (push_bit BRIDGE_STACK_SHIFT 1), Call, Store_Dword R15 0, Mov RSP RBX, Store RSP 0x180 RAX]"

definition bridge_restore :: "instr list" where
  "bridge_restore =
    [Load R15 RSP 0x00, Load R14 RSP 0x08, Load R13 RSP 0x10, Load R12 RSP 0x18, Load R11 RSP 0x20, Load R10 RSP 0x28,
     Load R9 RSP 0x30, Load R8 RSP 0x38, Load RBP RSP 0x40, Load RDI RSP 0x48, Load RSI RSP 0x50, Load RDX RSP 0x58,
     Load RCX RSP 0x60, Load RBX RSP 0x68, Load RAX RSP 0x70,
     Push_Mem 0x78, Popfq,
     Movdqu_Load 0 0x80, Movdqu_Load 1 0x90, Movdqu_Load 2 0xa0, Movdqu_Load 3 0xb0, Movdqu_Load 4 0xc0, Movdqu_Load 5 0xd0,
     Movdqu_Load 6 0xe0, Movdqu_Load 7 0xf0, Movdqu_Load 8 0x100, Movdqu_Load 9 0x110, Movdqu_Load 10 0x120, Movdqu_Load 11 0x130,
     Movdqu_Load 12 0x140, Movdqu_Load 13 0x150, Movdqu_Load 14 0x160, Movdqu_Load 15 0x170,
     Bt 0x180 63]"

definition bridge_tagged_exit :: "instr list" where
  "bridge_tagged_exit =
    [Btr 0x180 63, And_Mem 0x78 (- 0x882), Or_Mem 0x78 0x44, Push_Mem 0x78, Popfq, Lea RSP RSP 0x190]"

definition bridge_ordinary_exit :: "instr list" where
  "bridge_ordinary_exit = [Push_Mem 0x78, Popfq, Lea RSP RSP 0x188]"

text \<open>The numeric labels are positions: \<open>3:\<close> is 46, \<open>4:\<close> is 50 and \<open>2:\<close> is 97.\<close>

definition dispatcher_bridge :: "instr list" where
  "dispatcher_bridge = bridge_save @ bridge_pick_stack @ bridge_spin @ bridge_call @ bridge_restore @ [Jnc 97] @
     bridge_tagged_exit @ [Jmp_Mem (- 0x10)] @ bridge_ordinary_exit @ [Jmp_Mem (- 8)]"

section \<open>The call of the selector\<close>

fun callee_saved :: "reg \<Rightarrow> bool" where
  "callee_saved RBX = True"
| "callee_saved RBP = True"
| "callee_saved RSP = True"
| "callee_saved R12 = True"
| "callee_saved R13 = True"
| "callee_saved R14 = True"
| "callee_saved R15 = True"
| "callee_saved _ = False"

text \<open>What the compiled selector leaves in the registers, flags and stack that are its to use.\<close>

record selector_noise =
  sn_regs :: "reg \<Rightarrow> u64"
  sn_xmm :: "nat \<Rightarrow> u128"
  sn_flags :: u64
  sn_depth :: nat
  sn_stack :: "u64 \<Rightarrow> u8"

definition scribble :: "u64 \<Rightarrow> nat \<Rightarrow> (u64 \<Rightarrow> u8) \<Rightarrow> vmem \<Rightarrow> vmem" where
  "scribble rsp depth g m = m\<lparr>vm_bytes := \<lambda>x. if unat (rsp - x - 1) < depth then Some (g x) else vm_bytes m x\<rparr>"

definition call_selector :: "dispatch_env \<Rightarrow> selector_noise \<Rightarrow> dispatch_state cpu \<Rightarrow> dispatch_state cpu option" where
  "call_selector e z s =
     (let (w, target) = dispatcher_target e (c_regs s RDI) (c_regs s RSI) (c_regs s R9) ((c_world s)\<lparr>ds_mem := c_mem s\<rparr>) in
      Some (s\<lparr>c_regs := \<lambda>r. if r = RAX then target else if callee_saved r then c_regs s r else sn_regs z r,
              c_xmm := sn_xmm z,
              c_flags := popfq_flags (sn_flags z) (c_flags s),
              c_mem := scribble (c_regs s RSP) (sn_depth z) (sn_stack z) (ds_mem w),
              c_world := w\<rparr>))"

definition run_bridge :: "dispatch_state machine_env \<Rightarrow> dispatch_env \<Rightarrow> selector_noise \<Rightarrow> nat \<Rightarrow> dispatch_state cpu \<Rightarrow> dispatch_state outcome" where
  "run_bridge me e z fuel s = run (me\<lparr>me_callee := call_selector e z\<rparr>) dispatcher_bridge fuel 0 s"

section \<open>Waiting for the lock\<close>

text \<open>The memory with the lock taken, when \<open>n\<close> attempts fail before one succeeds.\<close>

fun lock_after :: "'w machine_env \<Rightarrow> u64 \<Rightarrow> nat \<Rightarrow> nat \<Rightarrow> vmem \<Rightarrow> vmem option" where
  "lock_after me slot 0 k m = Option.bind (load32 m slot) (\<lambda>v. if bit v 0 then None else store32 m slot (v OR 1))"
| "lock_after me slot (Suc n) k m = Option.bind (load32 m slot) (\<lambda>v. if bit v 0
     then Option.bind (store32 m slot (v OR 1)) (\<lambda>m'. lock_after me slot n (Suc k) (me_others me k m')) else None)"

section \<open>The frame\<close>

text \<open>
  The frame is a window of 51 words: the word below the saved registers that \<^verbatim>\<open>popfq\<close> goes through, the
  49 words of the fixed frame, and the return address the stub's call pushed.
\<close>

definition frame_ready :: "vmem \<Rightarrow> u64 \<Rightarrow> bool" where
  "frame_ready m b \<longleftrightarrow> in_space b (8 * 51) \<and> list_all (vm_writable m) (span_addrs b (8 * 51))"

abbreviation frame :: "vmem \<Rightarrow> u64 \<Rightarrow> (nat \<Rightarrow> u64) \<Rightarrow> vmem" where
  "frame m b f \<equiv> overlay m b 51 f"

lemma frame_load:
  assumes "frame_ready m b" and "unat c mod 8 = 0" and "unat c div 8 < 51"
  shows "load64 (frame m b f) (b + c) = Some (f (unat c div 8))" and "load64 (frame m b f) (c + b) = Some (f (unat c div 8))"
proof -
  have "8 * (unat c div 8) = unat c" using assms(2) by auto
  then have "of_nat (8 * (unat c div 8)) = c" by simp
  with load_window [of b 51 "unat c div 8" m f] assms(1,3) show "load64 (frame m b f) (b + c) = Some (f (unat c div 8))"
    by (simp only: frame_ready_def)
  then show "load64 (frame m b f) (c + b) = Some (f (unat c div 8))" by (simp only: add.commute [of c])
qed

lemma frame_store:
  assumes "frame_ready m b" and "unat c mod 8 = 0" and "unat c div 8 < 51"
  shows "store64 (frame m b f) (b + c) v = Some (frame m b (f(unat c div 8 := v)))"
    and "store64 (frame m b f) (c + b) v = Some (frame m b (f(unat c div 8 := v)))"
proof -
  have "8 * (unat c div 8) = unat c" using assms(2) by auto
  then have "of_nat (8 * (unat c div 8)) = c" by simp
  with store_window [of b 51 "unat c div 8" m f v] assms(1,3)
  show "store64 (frame m b f) (b + c) v = Some (frame m b (f(unat c div 8 := v)))" by (simp only: frame_ready_def)
  then show "store64 (frame m b f) (c + b) v = Some (frame m b (f(unat c div 8 := v)))" by (simp only: add.commute [of c])
qed

lemma frame_base:
  "frame_ready m b \<Longrightarrow> load64 (frame m b f) b = Some (f 0)"
  "frame_ready m b \<Longrightarrow> store64 (frame m b f) b v = Some (frame m b (f(0 := v)))"
  using frame_load [of m b 0 f] frame_store [of m b 0 f v] by simp_all

lemmas frame_access = frame_load frame_store frame_base load128_def store128_def push64_def set_reg_def add.assoc

text \<open>What the frame holds after the registers were saved.\<close>

definition saved :: "'w cpu \<Rightarrow> (nat \<Rightarrow> u64) \<Rightarrow> bool" where
  "saved s g \<longleftrightarrow>
     g 1 = c_regs s R15 \<and> g 2 = c_regs s R14 \<and> g 3 = c_regs s R13 \<and> g 4 = c_regs s R12 \<and> g 5 = c_regs s R11 \<and>
     g 6 = c_regs s R10 \<and> g 7 = c_regs s R9 \<and> g 8 = c_regs s R8 \<and> g 9 = c_regs s RBP \<and> g 10 = c_regs s RDI \<and>
     g 11 = c_regs s RSI \<and> g 12 = c_regs s RDX \<and> g 13 = c_regs s RCX \<and> g 14 = c_regs s RBX \<and> g 15 = c_regs s RAX \<and>
     g 16 = pushfq_image (c_flags s) \<and>
     (\<forall>i<16. g (17 + 2 * i) = ucast (c_xmm s i) \<and> g (18 + 2 * i) = ucast (drop_bit 64 (c_xmm s i)))"

definition save_words :: "'w cpu \<Rightarrow> (nat \<Rightarrow> u64) \<Rightarrow> nat \<Rightarrow> u64" where
  "save_words s f = f(
     17 := ucast (c_xmm s 0), 18 := ucast (drop_bit 64 (c_xmm s 0)),
     19 := ucast (c_xmm s 1), 20 := ucast (drop_bit 64 (c_xmm s 1)),
     21 := ucast (c_xmm s 2), 22 := ucast (drop_bit 64 (c_xmm s 2)),
     23 := ucast (c_xmm s 3), 24 := ucast (drop_bit 64 (c_xmm s 3)),
     25 := ucast (c_xmm s 4), 26 := ucast (drop_bit 64 (c_xmm s 4)),
     27 := ucast (c_xmm s 5), 28 := ucast (drop_bit 64 (c_xmm s 5)),
     29 := ucast (c_xmm s 6), 30 := ucast (drop_bit 64 (c_xmm s 6)),
     31 := ucast (c_xmm s 7), 32 := ucast (drop_bit 64 (c_xmm s 7)),
     33 := ucast (c_xmm s 8), 34 := ucast (drop_bit 64 (c_xmm s 8)),
     35 := ucast (c_xmm s 9), 36 := ucast (drop_bit 64 (c_xmm s 9)),
     37 := ucast (c_xmm s 10), 38 := ucast (drop_bit 64 (c_xmm s 10)),
     39 := ucast (c_xmm s 11), 40 := ucast (drop_bit 64 (c_xmm s 11)),
     41 := ucast (c_xmm s 12), 42 := ucast (drop_bit 64 (c_xmm s 12)),
     43 := ucast (c_xmm s 13), 44 := ucast (drop_bit 64 (c_xmm s 13)),
     45 := ucast (c_xmm s 14), 46 := ucast (drop_bit 64 (c_xmm s 14)),
     47 := ucast (c_xmm s 15), 48 := ucast (drop_bit 64 (c_xmm s 15)),
     16 := pushfq_image (c_flags s), 15 := c_regs s RAX, 14 := c_regs s RBX, 13 := c_regs s RCX, 12 := c_regs s RDX, 11 := c_regs s RSI, 10 := c_regs s RDI, 9 := c_regs s RBP, 8 := c_regs s R8, 7 := c_regs s R9, 6 := c_regs s R10, 5 := c_regs s R11, 4 := c_regs s R12, 3 := c_regs s R13, 2 := c_regs s R14, 1 := c_regs s R15)"

lemma all_less_16: "(\<forall>i<16. P i) \<longleftrightarrow> P 0 \<and> P 1 \<and> P 2 \<and> P 3 \<and> P 4 \<and> P 5 \<and> P 6 \<and> P 7 \<and> P 8 \<and> P 9 \<and>
    P 10 \<and> P 11 \<and> P 12 \<and> P 13 \<and> P 14 \<and> P (15 :: nat)"
proof -
  have "(\<forall>i<16. P i) \<longleftrightarrow> list_all P [0..<16]" by (auto simp: list_all_iff)
  moreover have "[0..<16] = [0, 1, 2, 3, 4, 5, 6, 7, 8, 9, 10, 11, 12, 13, 14, 15]" by (simp add: upt_rec)
  ultimately show ?thesis by simp
qed

lemma below_16: "\<forall>i<16. f i = g i \<Longrightarrow> \<forall>i\<ge>16. f i = h i \<Longrightarrow> f = (\<lambda>i. if i < 16 then g i else h i)" for f :: "nat \<Rightarrow> 'a"
  by (auto simp: not_less)

lemma save_words_saved: "saved s (save_words s f)" "save_words s f 50 = f 50"
  by (simp_all add: saved_def save_words_def all_less_16)

lemma save_block:
  assumes "frame_ready m b" and "c_mem s = frame m b f" and "c_regs s RSP = 0x190 + b"
  shows "exec_block e bridge_save s = Some (s\<lparr>c_mem := frame m b (save_words s f),
      c_regs := (c_regs s)(RSP := 8 + b, RBX := 8 + b, RDI := f 50, R9 := 0x190 + b,
        RSI := c_regs s RAX, RDX := c_regs s R10, RCX := c_regs s RCX, R8 := ucast (c_xmm s 5))\<rparr>)"
  using assms by (simp add: bridge_save_def frame_access save_words_def)

section \<open>The private stack\<close>

lemma slot_index: "ucast (ucast (v :: u64) AND (i :: u32)) = v AND ucast i"
  by (rule bit_word_eqI) (auto simp: bit_and_iff bit_ucast_iff dest: bit_imp_le_length)

lemma pick_stack_block:
  assumes "load64 (c_mem s) (me_gs_base e + 0x48) = Some thread_id"
  shows "\<exists>f. exec_block e bridge_pick_stack s = Some (s\<lparr>c_flags := f, c_regs := (c_regs s)
      (RAX := push_bit BRIDGE_STACK_SHIFT (drop_bit 2 thread_id AND (of_nat BRIDGE_STACK_SLOTS - 1)),
       R15 := bridge_stack_slot (me_symbol e) thread_id)\<rparr>) \<and>
     f AND NOT USER_FLAGS = c_flags s AND NOT USER_FLAGS"
proof -
  let ?i = "drop_bit 2 thread_id AND (of_nat BRIDGE_STACK_SLOTS - 1)"
  let ?o = "push_bit BRIDGE_STACK_SHIFT ?i"
  have i: "ucast (ucast (drop_bit 2 thread_id) AND (of_nat BRIDGE_STACK_SLOTS - 1 :: u32)) = ?i"
    by (simp add: slot_index BRIDGE_STACK_SLOTS_def)
  show ?thesis
    by (intro exI [of _ "arith_flags (me_status e (bridge_stack_slot (me_symbol e) thread_id)) (arith_flags (me_status e ?o)
        (arith_flags (me_status e ?i) (arith_flags (me_status e (drop_bit 2 thread_id)) (c_flags s))))"] conjI)
      (simp_all add: bridge_pick_stack_def set_reg_def Let_def i assms bridge_stack_slot_def)
qed

text \<open>What the others write while the thread waits does not touch the frame or the protection.\<close>

definition others_keep :: "'w machine_env \<Rightarrow> u64 \<Rightarrow> bool" where
  "others_keep e b \<longleftrightarrow> (\<forall>k m. vm_writable (me_others e k m) = vm_writable m \<and>
     (\<forall>x. unat (x - b) < 8 * 51 \<longrightarrow> vm_bytes (me_others e k m) x = vm_bytes m x))"

definition frame_kept :: "u64 \<Rightarrow> vmem \<Rightarrow> vmem \<Rightarrow> bool" where
  "frame_kept b m m' \<longleftrightarrow> vm_writable m' = vm_writable m \<and> (\<forall>x. unat (x - b) < 8 * 51 \<longrightarrow> vm_bytes m' x = vm_bytes m x)"

lemma frame_kept_trans: "frame_kept b m m' \<Longrightarrow> frame_kept b m' m'' \<Longrightarrow> frame_kept b m m''"
  by (simp add: frame_kept_def)

lemma frame_kept_write:
  assumes "process_vm_writev m a bs = Some m'" and "apart b (8 * 51) a (length bs)"
  shows "frame_kept b m m'"
proof -
  from assms(1) have m': "m' = m\<lparr>vm_bytes := poke (vm_bytes m) a bs\<rparr>" by (auto simp: process_vm_writev_def split: if_splits)
  have "poke (vm_bytes m) a bs x = vm_bytes m x" if "unat (x - b) < 8 * 51" for x
    using that assms(2) by (intro poke_other) (auto simp: apart_def list_all_iff)
  then show ?thesis by (simp add: frame_kept_def m')
qed

lemma lock_after_keeps:
  assumes "lock_after e slot n k m = Some m'" and "others_keep e b" and "apart b (8 * 51) slot 4"
  shows "frame_kept b m m'"
  using assms(1)
proof (induction n arbitrary: k m)
  case 0
  then show ?case using frame_kept_write assms(3) by (fastforce simp: store32_def split: bind_splits if_splits)
next
  case (Suc n)
  then obtain v m1 where s: "store32 m slot (v OR 1) = Some m1" "lock_after e slot n (Suc k) (me_others e k m1) = Some m'"
    by (auto split: bind_splits if_splits)
  have "frame_kept b m m1" using frame_kept_write [of m slot "to_le 4 (v OR 1)" m1 b] s(1) assms(3) by (simp add: store32_def)
  moreover have "frame_kept b m1 (me_others e k m1)" using assms(2) by (simp add: others_keep_def frame_kept_def)
  ultimately show ?case using Suc.IH [OF s(2)] frame_kept_trans by blast
qed

lemma kept_frame: "frame_kept b (frame m b g) m' \<Longrightarrow> frame m' b g = m'"
  by (rule window_kept) (simp add: frame_kept_def)

lemma kept_ready: "frame_ready m b \<Longrightarrow> vm_writable m' = vm_writable m \<Longrightarrow> frame_ready m' b"
  by (simp add: frame_ready_def)

section \<open>The spin loop\<close>

lemma bridge_positions:
  "length dispatcher_bridge = 101" "dispatcher_bridge ! 46 = Lock_Bts R15" "dispatcher_bridge ! 47 = Jnc 50"
  "dispatcher_bridge ! 48 = Pause" "dispatcher_bridge ! 49 = Jmp 46" "dispatcher_bridge ! 89 = Jnc 97"
  "dispatcher_bridge ! 96 = Jmp_Mem (- 0x10)" "dispatcher_bridge ! 100 = Jmp_Mem (- 8)"
  by (simp_all add: dispatcher_bridge_def bridge_save_def bridge_pick_stack_def bridge_spin_def bridge_call_def bridge_restore_def
      bridge_tagged_exit_def bridge_ordinary_exit_def)

lemma spin_loop:
  assumes "lock_after e (c_regs s R15) n (c_spins s) (c_mem s) = Some m'"
  shows "\<exists>f k. (\<forall>fuel. run e dispatcher_bridge (4 * n + 2 + fuel) 46 s = run e dispatcher_bridge fuel 50 (s\<lparr>c_mem := m', c_flags := f, c_spins := k\<rparr>)) \<and>
     f AND NOT USER_FLAGS = c_flags s AND NOT USER_FLAGS"
  using assms
proof (induction n arbitrary: s)
  case 0
  then obtain v where v: "load32 (c_mem s) (c_regs s R15) = Some v" "\<not> bit v 0" "store32 (c_mem s) (c_regs s R15) (v OR 1) = Some m'"
    by (auto split: bind_splits if_splits)
  let ?f = "carry_flags (me_status e (ucast v)) False (c_flags s)"
  have "run e dispatcher_bridge (4 * 0 + 2 + fuel) 46 s = run e dispatcher_bridge fuel 50 (s\<lparr>c_mem := m', c_flags := ?f, c_spins := c_spins s\<rparr>)" for fuel
    using v by (simp add: bridge_positions numeral_2_eq_2)
  then show ?case by (intro exI [of _ ?f] exI [of _ "c_spins s"]) simp
next
  case (Suc n)
  then obtain v m1 where v: "load32 (c_mem s) (c_regs s R15) = Some v" "bit v 0" "store32 (c_mem s) (c_regs s R15) (v OR 1) = Some m1"
    and l: "lock_after e (c_regs s R15) n (Suc (c_spins s)) (me_others e (c_spins s) m1) = Some m'"
    by (auto split: bind_splits if_splits)
  let ?f = "carry_flags (me_status e (ucast v)) True (c_flags s)"
  let ?s = "s\<lparr>c_flags := ?f, c_mem := me_others e (c_spins s) m1, c_spins := Suc (c_spins s)\<rparr>"
  have turn: "run e dispatcher_bridge (Suc (Suc (Suc (Suc fuel)))) 46 s = run e dispatcher_bridge fuel 46 ?s" for fuel
    using v(1,3) v(2) by (simp add: bridge_positions)
  have "4 * Suc n + 2 + fuel = Suc (Suc (Suc (Suc (4 * n + 2 + fuel))))" for fuel by simp
  with turn have step: "run e dispatcher_bridge (4 * Suc n + 2 + fuel) 46 s = run e dispatcher_bridge (4 * n + 2 + fuel) 46 ?s" for fuel
    by (simp only:)
  from Suc.IH [of ?s] l obtain f k where
    "\<forall>fuel. run e dispatcher_bridge (4 * n + 2 + fuel) 46 ?s = run e dispatcher_bridge fuel 50 (?s\<lparr>c_mem := m', c_flags := f, c_spins := k\<rparr>)"
    "f AND NOT USER_FLAGS = ?f AND NOT USER_FLAGS" by auto
  then show ?case using step by (intro exI [of _ f] exI [of _ k]) simp
qed

section \<open>Restoring the registers\<close>

lemma restore_block:
  assumes "frame_ready m b" and "c_mem s = frame m b (g(49 := target))" and "c_regs s RSP = 8 + b" and "saved s0 g"
  shows "\<exists>f. exec_block e bridge_restore s = Some (s\<lparr>c_mem := frame m b (g(49 := target, 0 := g 16)),
       c_regs := (c_regs s0)(RSP := 8 + b), c_xmm := \<lambda>i. if i < 16 then c_xmm s0 i else c_xmm s i, c_flags := f\<rparr>) \<and>
     (bit f 0 \<longleftrightarrow> bit target 63) \<and> f AND NOT USER_FLAGS = c_flags s AND NOT (USER_FLAGS OR RESUME_FLAG)"
proof -
  let ?f = "popfq_flags (g 16) (c_flags s)"
  let ?x = "(c_xmm s)(0 := c_xmm s0 0, 1 := c_xmm s0 1, 2 := c_xmm s0 2, 3 := c_xmm s0 3, 4 := c_xmm s0 4, 5 := c_xmm s0 5,
    6 := c_xmm s0 6, 7 := c_xmm s0 7, 8 := c_xmm s0 8, 9 := c_xmm s0 9, 10 := c_xmm s0 10, 11 := c_xmm s0 11,
    12 := c_xmm s0 12, 13 := c_xmm s0 13, 14 := c_xmm s0 14, 15 := c_xmm s0 15)"
  have "\<forall>i<16. ?x i = c_xmm s0 i" by (simp add: all_less_16)
  moreover have "\<forall>i\<ge>16. ?x i = c_xmm s i" by auto
  ultimately have x: "?x = (\<lambda>i. if i < 16 then c_xmm s0 i else c_xmm s i)" by (rule below_16)
  let ?r = "(c_regs s)(R15 := c_regs s0 R15, R14 := c_regs s0 R14, R13 := c_regs s0 R13, R12 := c_regs s0 R12, R11 := c_regs s0 R11, R10 := c_regs s0 R10, R9 := c_regs s0 R9, R8 := c_regs s0 R8, RBP := c_regs s0 RBP, RDI := c_regs s0 RDI, RSI := c_regs s0 RSI, RDX := c_regs s0 RDX, RCX := c_regs s0 RCX, RBX := c_regs s0 RBX, RAX := c_regs s0 RAX, RSP := b + 8)"
  have r: "?r = (c_regs s0)(RSP := 8 + b)"
  proof
    fix q show "?r q = ((c_regs s0)(RSP := 8 + b)) q" by (cases q) simp_all
  qed
  have sv: "exec_block e bridge_restore s = Some (s\<lparr>c_mem := frame m b (g(49 := target, 0 := g 16)), c_regs := ?r, c_xmm := ?x,
       c_flags := carry_flags (me_status e target) (bit target 63) ?f\<rparr>)"
    using assms by (simp add: bridge_restore_def frame_access saved_def all_less_16 halves)
  show ?thesis unfolding sv x r by (intro exI [of _ "carry_flags (me_status e target) (bit target 63) ?f"]) simp
qed

section \<open>The call\<close>

lemma scribble_keeps [simp]: "vm_writable (scribble rsp d g m) = vm_writable m"
  by (simp add: scribble_def)

text \<open>A byte of the private stack below the return address.\<close>

lemma scribble_bytes:
  assumes "in_space slot 0x8000" and "d \<le> 0x7ff4" and "vm_bytes (scribble (slot + 0x7ff8) d g m) x \<noteq> vm_bytes m x"
  shows "x \<in> set (span_addrs slot 0x8000)" and "4 \<le> unat (x - slot)"
proof -
  from assms(3) have "unat (slot + 0x7ff8 - x - 1) < d" by (auto simp: scribble_def split: if_splits)
  then obtain j where j: "j < d" "slot + 0x7ff8 - x - 1 = of_nat j" by (metis of_nat_unat ucast_id)
  then have "x - slot = 0x7ff7 - of_nat j" by (simp add: algebra_simps)
  also have "\<dots> = of_nat (0x7ff7 - j)" using j(1) assms(2) by simp
  finally have "unat (x - slot) = 0x7ff7 - j" by (simp only: unat_of_nat) simp
  then show "x \<in> set (span_addrs slot 0x8000)" "4 \<le> unat (x - slot)"
    using j(1) assms(2) window_member [OF assms(1)] by auto
qed

text \<open>Part of the private stack is writable and apart from the frame when all of it is.\<close>

definition stack_ready :: "vmem \<Rightarrow> u64 \<Rightarrow> u64 \<Rightarrow> bool" where
  "stack_ready m b slot \<longleftrightarrow> in_space slot 0x8000 \<and> list_all (vm_writable m) (span_addrs slot 0x8000) \<and> apart b (8 * 51) slot 0x8000"

lemma stack_part:
  assumes "stack_ready m b slot" and "k + n \<le> 0x8000" and "0 < n"
  shows "in_space (slot + of_nat k) n" and "list_all (vm_writable m) (span_addrs (slot + of_nat k) n)" and "apart b (8 * 51) (slot + of_nat k) n"
proof -
  have sp: "in_space slot 0x8000" using assms(1) by (simp add: stack_ready_def)
  have "unat (slot + of_nat k) = unat slot + k" using assms(2,3) by (intro unat_offset [OF sp]) simp
  then show sp': "in_space (slot + of_nat k) n" using sp assms(2) by (simp add: in_space_def)
  have "set (span_addrs (slot + of_nat k) n) \<subseteq> set (span_addrs slot 0x8000)"
  proof
    fix x assume "x \<in> set (span_addrs (slot + of_nat k) n)"
    then obtain i where "i < n" "x = slot + of_nat (k + i)" by (auto simp: set_addrs add.assoc)
    then show "x \<in> set (span_addrs slot 0x8000)" using assms(2) unfolding set_addrs by (intro image_eqI [of _ _ "k + i"]) simp_all
  qed
  then show "list_all (vm_writable m) (span_addrs (slot + of_nat k) n)" "apart b (8 * 51) (slot + of_nat k) n"
    using assms(1) by (auto simp: stack_ready_def apart_def list_all_iff)
qed

lemma stack_write:
  assumes "stack_ready m b slot" and "k + length bs \<le> 0x8000" and "bs \<noteq> []"
  shows "process_vm_writev m (slot + of_nat k) bs = Some (m\<lparr>vm_bytes := poke (vm_bytes m) (slot + of_nat k) bs\<rparr>)"
    and "frame_kept b m (m\<lparr>vm_bytes := poke (vm_bytes m) (slot + of_nat k) bs\<rparr>)"
proof -
  have l: "0 < length bs" using assms(3) by simp
  show w: "process_vm_writev m (slot + of_nat k) bs = Some (m\<lparr>vm_bytes := poke (vm_bytes m) (slot + of_nat k) bs\<rparr>)"
    using stack_part [OF assms(1,2) l] by (simp add: process_vm_writev_def)
  show "frame_kept b m (m\<lparr>vm_bytes := poke (vm_bytes m) (slot + of_nat k) bs\<rparr>)"
    using frame_kept_write [OF w stack_part(3) [OF assms(1,2) l]] .
qed

lemma stack_ready_cong: "vm_writable m' = vm_writable m \<Longrightarrow> stack_ready m' b slot = stack_ready m b slot"
  by (simp add: stack_ready_def)

lemma scribble_keeps_frame:
  assumes "stack_ready m b slot" and "d \<le> 0x7ff4"
  shows "frame_kept b m' (scribble (slot + 0x7ff8) d g m')"
proof -
  have sp: "in_space slot 0x8000" using assms(1) by (simp add: stack_ready_def)
  have "vm_bytes (scribble (slot + 0x7ff8) d g m') x = vm_bytes m' x" if "unat (x - b) < 8 * 51" for x
    using that assms(1) scribble_bytes(1) [OF sp assms(2), of g m' x] by (auto simp: stack_ready_def apart_def list_all_iff)
  then show ?thesis by (simp add: frame_kept_def)
qed

text \<open>The memory the selector runs on: the return address of its call is on the private stack.\<close>

definition with_return :: "u64 \<Rightarrow> u64 \<Rightarrow> vmem \<Rightarrow> vmem" where
  "with_return site slot m = m\<lparr>vm_bytes := poke (vm_bytes m) (slot + 0x7ff8) (to_le 8 site)\<rparr>"

definition after_selector :: "selector_noise \<Rightarrow> u64 \<Rightarrow> vmem \<Rightarrow> vmem" where
  "after_selector z slot m = (let m' = scribble (slot + 0x7ff8) (sn_depth z) (sn_stack z) m in
     m'\<lparr>vm_bytes := poke (vm_bytes m') slot (to_le 4 (0 :: u32))\<rparr>)"

lemma push_return:
  assumes "stack_ready m b slot"
  shows "store64 m (slot + 0x7ff8) site = Some (with_return site slot m)" and "frame_kept b m (with_return site slot m)"
  using stack_write [OF assms, of "0x7ff8" "to_le 8 site"]
  by (simp_all add: store64_def with_return_def flip: length_0_conv)

lemma after_selector_ok:
  assumes "stack_ready m b slot" and "vm_writable m' = vm_writable m" and "sn_depth z \<le> 0x7ff4"
  shows "store32 (scribble (slot + 0x7ff8) (sn_depth z) (sn_stack z) m') slot 0 = Some (after_selector z slot m')"
    and "frame_kept b m' (after_selector z slot m')"
proof -
  let ?m = "scribble (slot + 0x7ff8) (sn_depth z) (sn_stack z) m'"
  have r: "stack_ready ?m b slot" using assms(1,2) stack_ready_cong [of ?m m b slot] by simp
  note w = stack_write [OF r, of 0 "to_le 4 0"]
  show "store32 ?m slot 0 = Some (after_selector z slot m')"
    using w(1) by (simp add: store32_def after_selector_def Let_def flip: length_0_conv)
  have "frame_kept b ?m (after_selector z slot m')" using w(2) by (simp add: after_selector_def Let_def flip: length_0_conv)
  then show "frame_kept b m' (after_selector z slot m')"
    using scribble_keeps_frame [OF assms(1,3)] frame_kept_trans by blast
qed

lemma call_block:
  assumes "frame_ready m b" and "c_mem s = frame m b g" and "c_regs s RBX = 8 + b" and "c_regs s R15 = slot"
    and "stack_ready m b slot" and "sn_depth z \<le> 0x7ff4" and "me_callee me = call_selector e z"
    and "dispatcher_target e (c_regs s RDI) (c_regs s RSI) (c_regs s R9)
      ((c_world s)\<lparr>ds_mem := with_return (me_return_site me) slot (frame m b g)\<rparr>) = (w, target)"
    and "frame_kept b (with_return (me_return_site me) slot (frame m b g)) (ds_mem w)"
  shows "\<exists>s'. exec_block me bridge_call s = Some s' \<and> c_mem s' = frame (after_selector z slot (ds_mem w)) b (g(49 := target)) \<and>
     c_regs s' RSP = 8 + b \<and> c_world s' = w \<and> vm_writable (after_selector z slot (ds_mem w)) = vm_writable m \<and>
     c_flags s' AND NOT USER_FLAGS = c_flags s AND NOT (USER_FLAGS OR RESUME_FLAG)"
proof -
  let ?m = "after_selector z slot (ds_mem w)"
  have r: "stack_ready (frame m b g) b slot" using assms(5) stack_ready_cong [of "frame m b g" m] by simp
  have wr: "vm_writable (ds_mem w) = vm_writable (frame m b g)" using assms(9) by (simp add: frame_kept_def with_return_def)
  note ret = push_return [OF r, of "me_return_site me"] and sel = after_selector_ok [OF r wr assms(6)]
  have wm: "vm_writable ?m = vm_writable m" using sel(2) wr by (simp add: frame_kept_def)
  have "frame_kept b (frame m b g) ?m" using ret(2) assms(9) sel(2) frame_kept_trans by blast
  then have fr: "frame ?m b g = ?m" by (rule kept_frame)
  then have st: "store64 ?m (0x188 + b) target = Some (frame ?m b (g(49 := target)))"
    using frame_store(2) [OF kept_ready [OF assms(1) wm], of "0x188" g target] by simp
  show ?thesis
    using assms(2-4,7,8) ret(1) [unfolded add.commute [of slot]] sel(1) [unfolded add.commute [of slot]] st wm
    by (simp add: bridge_call_def push64_def set_reg_def BRIDGE_STACK_SHIFT_def call_selector_def Let_def add.assoc)
qed

lemma clear_resume: "f AND NOT (USER_FLAGS OR RESUME_FLAG) = f AND NOT USER_FLAGS" if "f AND RESUME_FLAG = 0"
proof (rule bit_word_eqI)
  fix n
  have "\<not> bit (f AND RESUME_FLAG) n" using that by simp
  then show "bit (f AND NOT (USER_FLAGS OR RESUME_FLAG)) n = bit (f AND NOT USER_FLAGS) n"
    by (auto simp: bit_or_iff bit_and_iff bit_not_iff)
qed

lemma clear_outside: "f AND NOT USER_FLAGS = g AND NOT USER_FLAGS \<Longrightarrow> f AND NOT (USER_FLAGS OR RESUME_FLAG) = g AND NOT (USER_FLAGS OR RESUME_FLAG)"
  by (simp flip: and.assoc)

section \<open>The two exits\<close>

lemma ordinary_exit_block:
  assumes "frame_ready m b" and "c_mem s = frame m b g" and "c_regs s RSP = 8 + b" and "g 16 = pushfq_image f"
    and "c_flags s AND NOT USER_FLAGS = f AND NOT USER_FLAGS" and "f AND RESUME_FLAG = 0"
  shows "exec_block e bridge_ordinary_exit s = Some (s\<lparr>c_mem := frame m b (g(0 := g 16)), c_flags := f, c_regs := (c_regs s)(RSP := b + 0x190)\<rparr>)"
proof -
  have "popfq_flags (g 16) (c_flags s) = f"
    by (rule popfq_restores [OF assms(5,6)]) (simp_all add: assms(4) pushfq_image_user)
  with assms(1-3) show ?thesis by (simp add: bridge_ordinary_exit_def frame_access)
qed

lemma mask_outside: "((f AND NOT c) OR t) AND NOT u = f AND NOT u" if "c AND NOT u = 0" "t AND NOT u = 0" for f c t u :: u64
proof (rule bit_word_eqI)
  fix n assume "n < LENGTH(64)"
  moreover have "\<not> bit (c AND NOT u) n" "\<not> bit (t AND NOT u) n" using that by simp_all
  ultimately show "bit (((f AND NOT c) OR t) AND NOT u) n = bit (f AND NOT u) n" by (auto simp: bit_or_iff bit_and_iff bit_not_iff)
qed

lemma direct_path_user:
  "direct_path_eflags f AND NOT USER_FLAGS = f AND NOT USER_FLAGS"
  "((pushfq_image f AND - 0x882) OR 0x44) AND USER_FLAGS = direct_path_eflags f AND USER_FLAGS"
proof -
  show "direct_path_eflags f AND NOT USER_FLAGS = f AND NOT USER_FLAGS"
    unfolding direct_path_eflags_def by (rule mask_outside) (simp_all add: TEST_ZERO_CLEAR_FLAGS_def TEST_ZERO_SET_FLAGS_def USER_FLAGS_def)
  have c: "(- 0x882 :: u64) = NOT TEST_ZERO_CLEAR_FLAGS" "(0x44 :: u64) = TEST_ZERO_SET_FLAGS"
    by (simp_all add: TEST_ZERO_CLEAR_FLAGS_def TEST_ZERO_SET_FLAGS_def)
  have "(pushfq_image f AND k) AND USER_FLAGS = (f AND k) AND USER_FLAGS" for k
    using arg_cong [OF pushfq_image_user, of "\<lambda>v. v AND k" f] by (simp only: ac_simps)
  then show "((pushfq_image f AND - 0x882) OR 0x44) AND USER_FLAGS = direct_path_eflags f AND USER_FLAGS"
    unfolding direct_path_eflags_def c by (simp only: bit.conj_disj_distrib2)
qed

lemma tagged_exit_block:
  assumes "frame_ready m b" and "c_mem s = frame m b g" and "c_regs s RSP = 8 + b" and "g 16 = pushfq_image f"
    and "c_flags s AND NOT USER_FLAGS = f AND NOT USER_FLAGS" and "f AND RESUME_FLAG = 0"
  shows "exec_block e bridge_tagged_exit s = Some (s\<lparr>c_mem := frame m b (g(49 := g 49 AND NOT RAW_TARGET_TAG,
      16 := (pushfq_image f AND - 0x882) OR 0x44, 0 := (pushfq_image f AND - 0x882) OR 0x44)),
      c_flags := direct_path_eflags f, c_regs := (c_regs s)(RSP := b + 0x198)\<rparr>)"
proof -
  have "popfq_flags ((pushfq_image f AND - 0x882) OR 0x44) f' = direct_path_eflags f" if "f' AND NOT USER_FLAGS = f AND NOT USER_FLAGS" for f'
    by (rule popfq_restores [OF that assms(6) direct_path_user(2,1)])
  with assms(1-5) show ?thesis by (simp add: bridge_tagged_exit_def frame_access update_mem64_def RAW_TARGET_TAG_def)
qed

section \<open>The whole trampoline\<close>

lemma run_at:
  assumes "exec_block e blk s = Some s'" and "list_all straight blk" and "P = pre @ blk @ post" and "length pre = pc" and "length blk = k"
  shows "run e P (k + n) pc s = run e P n (pc + k) s'"
  using run_block [OF assms(1,2), of pre post n] assms(3-5) by simp

lemmas bridge_blocks = bridge_save_def bridge_pick_stack_def bridge_spin_def bridge_call_def bridge_restore_def
  bridge_tagged_exit_def bridge_ordinary_exit_def

lemma bridge_runs:
  "exec_block e bridge_save s = Some s' \<Longrightarrow> run e dispatcher_bridge (40 + n) 0 s = run e dispatcher_bridge n 40 s'"
  "exec_block e bridge_pick_stack s = Some s' \<Longrightarrow> run e dispatcher_bridge (6 + n) 40 s = run e dispatcher_bridge n 46 s'"
  "exec_block e bridge_call s = Some s' \<Longrightarrow> run e dispatcher_bridge (5 + n) 50 s = run e dispatcher_bridge n 55 s'"
  "exec_block e bridge_restore s = Some s' \<Longrightarrow> run e dispatcher_bridge (34 + n) 55 s = run e dispatcher_bridge n 89 s'"
  "exec_block e bridge_tagged_exit s = Some s' \<Longrightarrow> run e dispatcher_bridge (6 + n) 90 s = run e dispatcher_bridge n 96 s'"
  "exec_block e bridge_ordinary_exit s = Some s' \<Longrightarrow> run e dispatcher_bridge (3 + n) 97 s = run e dispatcher_bridge n 100 s'"
proof -
  note P = dispatcher_bridge_def bridge_blocks
  show "exec_block e bridge_save s = Some s' \<Longrightarrow> run e dispatcher_bridge (40 + n) 0 s = run e dispatcher_bridge n 40 s'"
    using run_at [of e bridge_save s s' dispatcher_bridge "[]" _ 0 40 n] by (simp add: P)
  show "exec_block e bridge_pick_stack s = Some s' \<Longrightarrow> run e dispatcher_bridge (6 + n) 40 s = run e dispatcher_bridge n 46 s'"
    using run_at [of e bridge_pick_stack s s' dispatcher_bridge "bridge_save" _ 40 6 n] by (simp add: P)
  show "exec_block e bridge_call s = Some s' \<Longrightarrow> run e dispatcher_bridge (5 + n) 50 s = run e dispatcher_bridge n 55 s'"
    using run_at [of e bridge_call s s' dispatcher_bridge "bridge_save @ bridge_pick_stack @ bridge_spin" _ 50 5 n] by (simp add: P)
  show "exec_block e bridge_restore s = Some s' \<Longrightarrow> run e dispatcher_bridge (34 + n) 55 s = run e dispatcher_bridge n 89 s'"
    using run_at [of e bridge_restore s s' dispatcher_bridge "bridge_save @ bridge_pick_stack @ bridge_spin @ bridge_call" _ 55 34 n] by (simp add: P)
  show "exec_block e bridge_tagged_exit s = Some s' \<Longrightarrow> run e dispatcher_bridge (6 + n) 90 s = run e dispatcher_bridge n 96 s'"
    using run_at [of e bridge_tagged_exit s s' dispatcher_bridge "bridge_save @ bridge_pick_stack @ bridge_spin @ bridge_call @ bridge_restore @ [Jnc 97]" _ 90 6 n] by (simp add: P)
  show "exec_block e bridge_ordinary_exit s = Some s' \<Longrightarrow> run e dispatcher_bridge (3 + n) 97 s = run e dispatcher_bridge n 100 s'"
    using run_at [of e bridge_ordinary_exit s s' dispatcher_bridge "bridge_save @ bridge_pick_stack @ bridge_spin @ bridge_call @ bridge_restore @ [Jnc 97] @ bridge_tagged_exit @ [Jmp_Mem (- 0x10)]" _ 97 3 n] by (simp add: P)
qed

text \<open>Where the trampoline leaves: the restored registers, the flags of the path, and the target.\<close>

definition bridge_flags :: "u64 \<Rightarrow> u64 \<Rightarrow> u64" where
  "bridge_flags target f = (if bit target 63 then direct_path_eflags f else f)"

definition bridge_rsp :: "u64 \<Rightarrow> u64 \<Rightarrow> u64" where
  "bridge_rsp target rsp = (if bit target 63 then rsp + 8 else rsp)"

definition restored :: "'w cpu \<Rightarrow> u64 \<Rightarrow> 'w cpu \<Rightarrow> bool" where
  "restored s target s' \<longleftrightarrow> c_regs s' = (c_regs s)(RSP := bridge_rsp target (c_regs s RSP)) \<and>
     (\<forall>i<16. c_xmm s' i = c_xmm s i) \<and> c_flags s' = bridge_flags target (c_flags s)"

lemma eight_more: "8 + n = Suc (6 + Suc n)" "Suc (6 + Suc n) = Suc (3 + Suc (3 + n))"
  by simp_all

lemma untagged_target: "target AND NOT RAW_TARGET_TAG = target" if "\<not> bit target 63"
proof (rule bit_word_eqI)
  fix n
  have "bit target n \<Longrightarrow> n \<noteq> 63" using that by auto
  then show "n < LENGTH(64) \<Longrightarrow> bit (target AND NOT RAW_TARGET_TAG) n = bit target n"
    by (auto simp: bit_and_iff bit_not_iff RAW_TARGET_TAG_def bit_push_bit_iff bit_1_iff simp del: push_bit_of_1)
qed

lemma run_exits:
  assumes "frame_ready m b" and "c_mem s = frame m b g" and "g 49 = target" and "g 16 = pushfq_image f"
    and "c_regs s RSP = 8 + b" and "bit (c_flags s) 0 \<longleftrightarrow> bit target 63"
    and "c_flags s AND NOT USER_FLAGS = f AND NOT USER_FLAGS" and "f AND RESUME_FLAG = 0"
  shows "\<exists>s' g'. run e dispatcher_bridge (8 + fuel) 89 s = Exited (target AND NOT RAW_TARGET_TAG) s' \<and>
     c_regs s' = (c_regs s)(RSP := bridge_rsp target (0x190 + b)) \<and> c_xmm s' = c_xmm s \<and> c_flags s' = bridge_flags target f \<and>
     c_mem s' = frame m b g' \<and> g' 50 = g 50 \<and> c_world s' = c_world s"
proof (cases "bit target 63")
  case True
  let ?v = "(pushfq_image f AND - 0x882) OR 0x44"
  let ?g = "g(49 := g 49 AND NOT RAW_TARGET_TAG, 16 := ?v, 0 := ?v)"
  let ?s = "s\<lparr>c_mem := frame m b ?g, c_flags := direct_path_eflags f, c_regs := (c_regs s)(RSP := b + 0x198)\<rparr>"
  have "run e dispatcher_bridge (Suc k) 89 s = run e dispatcher_bridge k 90 s" for k
    using True assms(6) by (simp add: bridge_positions)
  from this [of "6 + Suc fuel"] have "run e dispatcher_bridge (8 + fuel) 89 s = run e dispatcher_bridge (6 + Suc fuel) 90 s"
    by (simp only: eight_more)
  also have "\<dots> = run e dispatcher_bridge (Suc fuel) 96 ?s"
    by (rule bridge_runs(5) [OF tagged_exit_block [OF assms(1,2,5,4,7,8)]])
  also have "\<dots> = Exited (target AND NOT RAW_TARGET_TAG) ?s"
    using assms(1,3) by (simp add: bridge_positions frame_access)
  finally show ?thesis using True by (intro exI [of _ ?s] exI [of _ ?g]) (simp add: bridge_rsp_def bridge_flags_def add.commute [of b])
next
  case False
  let ?s = "s\<lparr>c_mem := frame m b (g(0 := g 16)), c_flags := f, c_regs := (c_regs s)(RSP := b + 0x190)\<rparr>"
  have at_end: "run e dispatcher_bridge (Suc k) 100 ?s = Exited target ?s" for k
    using assms(1,3) by (simp add: bridge_positions frame_access)
  have "run e dispatcher_bridge (Suc k) 89 s = run e dispatcher_bridge k 97 s" for k
    using False assms(6) by (simp add: bridge_positions)
  from this [of "3 + Suc (3 + fuel)"] have "run e dispatcher_bridge (8 + fuel) 89 s = run e dispatcher_bridge (3 + Suc (3 + fuel)) 97 s"
    by (simp only: eight_more)
  also have "\<dots> = run e dispatcher_bridge (Suc (3 + fuel)) 100 ?s"
    by (rule bridge_runs(6) [OF ordinary_exit_block [OF assms(1,2,5,4,7,8)]])
  also have "\<dots> = Exited target ?s" using at_end .
  finally show ?thesis using False untagged_target [OF False] by (intro exI [of _ ?s] exI [of _ "g(0 := g 16)"]) (simp add: bridge_rsp_def bridge_flags_def add.commute [of b])
qed

text \<open>
  What the trampoline relies on: a mapped stack around the stack pointer, a mapped private stack
  and thread block away from it, threads that leave the frame alone, and no pending resume flag.
\<close>

definition frame_base :: "'w cpu \<Rightarrow> u64" where
  "frame_base s = c_regs s RSP + - 0x190"

definition bridge_callable :: "'w machine_env \<Rightarrow> u64 \<Rightarrow> 'w cpu \<Rightarrow> bool" where
  "bridge_callable me thread_id s \<longleftrightarrow> writable_window (c_mem s) (frame_base s) (8 * 51) \<and>
     stack_ready (c_mem s) (frame_base s) (bridge_stack_slot (me_symbol me) thread_id) \<and>
     load64 (c_mem s) (me_gs_base me + 0x48) = Some thread_id \<and> apart (frame_base s) (8 * 51) (me_gs_base me + 0x48) 8 \<and>
     others_keep me (frame_base s) \<and> c_flags s AND RESUME_FLAG = 0"

definition saved_memory :: "'w cpu \<Rightarrow> vmem" where
  "saved_memory s = frame (c_mem s) (frame_base s) (save_words s (\<lambda>k. from_le (span (c_mem s) (frame_base s + of_nat (8 * k)) 8)))"

text \<open>The memory the selector is called with, when the lock is free after \<open>n\<close> failed attempts.\<close>

definition selector_memory :: "'w machine_env \<Rightarrow> nat \<Rightarrow> u64 \<Rightarrow> 'w cpu \<Rightarrow> vmem option" where
  "selector_memory me n slot s = map_option (with_return (me_return_site me) slot) (lock_after me slot n (c_spins s) (saved_memory s))"

lemma run_to_call:
  assumes "bridge_callable me thread_id s" and "lock_after me slot n (c_spins s) (saved_memory s) = Some m"
    and "slot = bridge_stack_slot (me_symbol me) thread_id" and "load64 (c_mem s) (c_regs s RSP) = Some return_address"
  shows "\<exists>s1 g. (\<forall>fuel. run me dispatcher_bridge (48 + 4 * n + fuel) 0 s = run me dispatcher_bridge fuel 50 s1) \<and>
     m = frame m (frame_base s) g \<and> frame_ready m (frame_base s) \<and> stack_ready m (frame_base s) slot \<and>
     saved s g \<and> g 50 = return_address \<and> c_mem s1 = m \<and> c_world s1 = c_world s \<and>
     c_flags s1 AND NOT USER_FLAGS = c_flags s AND NOT USER_FLAGS \<and>
     c_regs s1 RBX = 8 + frame_base s \<and> c_regs s1 R15 = slot \<and> c_regs s1 RDI = return_address \<and> c_regs s1 RSI = c_regs s RAX \<and>
     c_regs s1 R9 = c_regs s RSP"
proof -
  define b where "b = frame_base s"
  define f where "f = (\<lambda>k. from_le (span (c_mem s) (b + of_nat (8 * k)) 8) :: u64)"
  note c = assms(1) [unfolded bridge_callable_def, folded b_def]
  have rsp: "c_regs s RSP = 0x190 + b" by (simp add: b_def frame_base_def)
  have ready: "frame_ready (c_mem s) b" using c by (simp add: frame_ready_def writable_window_def readable_def)
  have mem: "c_mem s = frame (c_mem s) b f" using window_of [of "c_mem s" b 51] c by (simp only: f_def writable_window_def)
  have ret: "f 50 = return_address" using assms(4) frame_load(2) [OF ready, of "0x190" f] mem rsp by simp
  have sm: "saved_memory s = frame (c_mem s) b (save_words s f)" by (simp only: saved_memory_def f_def b_def)
  let ?s1 = "s\<lparr>c_mem := saved_memory s, c_regs := (c_regs s)(RSP := 8 + b, RBX := 8 + b, RDI := f 50, R9 := 0x190 + b,
        RSI := c_regs s RAX, RDX := c_regs s R10, RCX := c_regs s RCX, R8 := ucast (c_xmm s 5))\<rparr>"
  have r1: "run me dispatcher_bridge (40 + k) 0 s = run me dispatcher_bridge k 40 ?s1" for k
    unfolding sm by (rule bridge_runs(1) [OF save_block [OF ready mem rsp]])
  have "load64 (c_mem ?s1) (me_gs_base me + 0x48) = Some thread_id" using c by (simp add: sm load64_def read_apart)
  from pick_stack_block [of ?s1, OF this] obtain f2 where
    f2: "exec_block me bridge_pick_stack ?s1 = Some (?s1\<lparr>c_flags := f2, c_regs := (c_regs ?s1)
      (RAX := push_bit BRIDGE_STACK_SHIFT (drop_bit 2 thread_id AND (of_nat BRIDGE_STACK_SLOTS - 1)), R15 := slot)\<rparr>)"
      (is "_ = Some ?s2") "f2 AND NOT USER_FLAGS = c_flags s AND NOT USER_FLAGS" unfolding assms(3) by auto
  have "lock_after me (c_regs ?s2 R15) n (c_spins ?s2) (c_mem ?s2) = Some m" using assms(2) by simp
  from spin_loop [OF this] obtain f3 k3 where
    r3: "\<forall>fuel. run me dispatcher_bridge (4 * n + 2 + fuel) 46 ?s2 = run me dispatcher_bridge fuel 50 (?s2\<lparr>c_mem := m, c_flags := f3, c_spins := k3\<rparr>)"
      "f3 AND NOT USER_FLAGS = c_flags ?s2 AND NOT USER_FLAGS" by blast
  have "run me dispatcher_bridge (48 + 4 * n + fuel) 0 s = run me dispatcher_bridge (40 + (6 + (4 * n + 2 + fuel))) 0 s" for fuel
    by (simp add: ac_simps)
  then have run: "\<forall>fuel. run me dispatcher_bridge (48 + 4 * n + fuel) 0 s = run me dispatcher_bridge fuel 50 (?s2\<lparr>c_mem := m, c_flags := f3, c_spins := k3\<rparr>)"
    using r1 bridge_runs(2) [OF f2(1)] r3(1) by (simp only:) blast
  have "apart b (8 * 51) slot 4" using stack_part(3) [of "c_mem s" b slot 0 4] c assms(3) by simp
  from lock_after_keeps [OF assms(2) _ this] c have kept: "frame_kept b (frame (c_mem s) b (save_words s f)) m" by (simp only: sm)
  have wr: "vm_writable m = vm_writable (c_mem s)" using kept by (simp add: frame_kept_def)
  show ?thesis
    by (intro exI [of _ "?s2\<lparr>c_mem := m, c_flags := f3, c_spins := k3\<rparr>"] exI [of _ "save_words s f"] conjI run)
      (use kept_frame [OF kept] kept_ready [OF ready wr] stack_ready_cong [OF wr] c assms(3) save_words_saved [of s f] ret rsp f2(2) r3(2)
        in \<open>simp_all add: b_def [symmetric]\<close>)
qed

lemma unlocked:
  assumes "stack_ready m b slot" and "vm_writable m' = vm_writable m"
  shows "load32 (frame (after_selector z slot m') b g) slot = Some 0"
proof -
  have ap: "in_space slot 4" "apart b (8 * 51) slot 4" using stack_part(1,3) [OF assms(1), of 0 4] by simp_all
  let ?m = "after_selector z slot m'"
  have "vm_bytes ?m (slot + of_nat i) = Some (to_le 4 (0 :: u32) ! i)" if "i < 4" for i
    using poke_nth [of slot "to_le 4 (0 :: u32)" i] ap(1) that by (simp add: after_selector_def Let_def)
  then have "readable ?m slot 4" "span ?m slot 4 = to_le 4 (0 :: u32)"
    using ap(1) by (auto simp: readable_def list_all_iff set_addrs span_def intro!: nth_equalityI)
  then show ?thesis unfolding load32_def read_apart [OF ap(2)] by (simp add: process_vm_readv_def from_le_to_le)
qed

lemma after_selector_elsewhere:
  assumes "in_space slot 0x8000" and "sn_depth z \<le> 0x7ff4" and "x \<notin> set (span_addrs slot 0x8000)"
  shows "vm_bytes (after_selector z slot m) x = vm_bytes m x"
proof -
  have "set (span_addrs slot 4) \<subseteq> set (span_addrs slot 0x8000)" by (auto simp: set_addrs)
  with assms(3) have "x \<notin> set (span_addrs slot (length (to_le 4 (0 :: u32))))" by auto
  then show ?thesis using scribble_bytes(1) [OF assms(1,2)] assms(3) by (auto simp: after_selector_def Let_def poke_other)
qed

lemma run_from_call:
  assumes "frame_ready m0 b" and "c_mem s1 = frame m0 b g" and "c_regs s1 RBX = 8 + b" and "c_regs s1 R15 = slot"
    and "stack_ready m0 b slot" and "sn_depth z \<le> 0x7ff4" and "me_callee me = call_selector e z"
    and "dispatcher_target e (c_regs s1 RDI) (c_regs s1 RSI) (c_regs s1 R9)
      ((c_world s1)\<lparr>ds_mem := with_return (me_return_site me) slot (frame m0 b g)\<rparr>) = (w, target)"
    and "frame_kept b (with_return (me_return_site me) slot (frame m0 b g)) (ds_mem w)"
    and "saved s g" and "c_flags s1 AND NOT USER_FLAGS = c_flags s AND NOT USER_FLAGS" and "c_flags s AND RESUME_FLAG = 0"
    and "c_regs s RSP = 0x190 + b"
  shows "\<exists>s' g'. run me dispatcher_bridge (47 + fuel) 50 s1 = Exited (target AND NOT RAW_TARGET_TAG) s' \<and> restored s target s' \<and>
     c_mem s' = frame (after_selector z slot (ds_mem w)) b g' \<and> g' 50 = g 50 \<and> c_world s' = w \<and>
     frame_ready (after_selector z slot (ds_mem w)) b"
proof -
  let ?m = "after_selector z slot (ds_mem w)"
  from call_block [OF assms(1-9)] obtain s2 where
    s2: "exec_block me bridge_call s1 = Some s2" "c_mem s2 = frame ?m b (g(49 := target))"
      "c_regs s2 RSP = 8 + b" "c_world s2 = w" "vm_writable ?m = vm_writable m0"
      "c_flags s2 AND NOT USER_FLAGS = c_flags s1 AND NOT (USER_FLAGS OR RESUME_FLAG)" by blast
  have fl: "c_flags s2 AND NOT USER_FLAGS = c_flags s AND NOT USER_FLAGS"
    using s2(6) clear_outside [OF assms(11)] clear_resume [OF assms(12)] by simp
  have ready: "frame_ready ?m b" by (rule kept_ready [OF assms(1) s2(5)])
  from restore_block [OF ready s2(2,3) assms(10), of me] obtain f where
    s3: "exec_block me bridge_restore s2 = Some (s2\<lparr>c_mem := frame ?m b (g(49 := target, 0 := g 16)),
       c_regs := (c_regs s)(RSP := 8 + b), c_xmm := \<lambda>i. if i < 16 then c_xmm s i else c_xmm s2 i, c_flags := f\<rparr>)" (is "_ = Some ?s3")
      "bit f 0 \<longleftrightarrow> bit target 63" "f AND NOT USER_FLAGS = c_flags s2 AND NOT (USER_FLAGS OR RESUME_FLAG)" by blast
  have "f AND NOT USER_FLAGS = c_flags s AND NOT USER_FLAGS"
    using s3(3) clear_outside [OF fl] clear_resume [OF assms(12)] by simp
  with run_exits [OF ready, of ?s3 "g(49 := target, 0 := g 16)" target "c_flags s" me fuel] assms(10,12) s3(2)
  obtain s' g' where s': "run me dispatcher_bridge (8 + fuel) 89 ?s3 = Exited (target AND NOT RAW_TARGET_TAG) s'"
     "c_regs s' = (c_regs ?s3)(RSP := bridge_rsp target (0x190 + b))" "c_xmm s' = c_xmm ?s3" "c_flags s' = bridge_flags target (c_flags s)"
     "c_mem s' = frame ?m b g'" "g' 50 = g 50" "c_world s' = w"
    by (auto simp: saved_def s2(4))
  have "47 + fuel = 5 + (34 + (8 + fuel))" by simp
  then have "run me dispatcher_bridge (47 + fuel) 50 s1 = Exited (target AND NOT RAW_TARGET_TAG) s'"
    using bridge_runs(3) [OF s2(1)] bridge_runs(4) [OF s3(1)] s'(1) by (simp only:)
  moreover have "restored s target s'" using s'(2-4) assms(13) by (simp add: restored_def)
  ultimately show ?thesis using s'(5-7) ready by blast
qed

lemma dispatcher_bridge_run:
  assumes "bridge_callable me thread_id s" and "slot = bridge_stack_slot (me_symbol me) thread_id"
    and "selector_memory me n slot s = Some m" and "load64 (c_mem s) (c_regs s RSP) = Some return_address"
    and "dispatcher_target e return_address (c_regs s RAX) (c_regs s RSP) ((c_world s)\<lparr>ds_mem := m\<rparr>) = (w, target)"
    and "frame_kept (frame_base s) m (ds_mem w)" and "sn_depth z \<le> 0x7ff4" and "95 + 4 * n \<le> fuel"
  shows "\<exists>s'. run_bridge me e z fuel s = Exited (target AND NOT RAW_TARGET_TAG) s' \<and> restored s target s' \<and> c_world s' = w \<and>
     load32 (c_mem s') slot = Some 0 \<and> load64 (c_mem s') (c_regs s RSP) = Some return_address \<and>
     (\<forall>x. x \<notin> set (span_addrs (frame_base s) 0x198) \<and> x \<notin> set (span_addrs slot 0x8000) \<longrightarrow> vm_bytes (c_mem s') x = vm_bytes (ds_mem w) x)"
proof -
  let ?b = "frame_base s" and ?me = "me\<lparr>me_callee := call_selector e z\<rparr>"
  have c: "bridge_callable ?me thread_id s" using assms(1) by (simp add: bridge_callable_def others_keep_def)
  have la: "lock_after ?me slot n k m0 = lock_after me slot n k m0" for k m0 by (induction n arbitrary: k m0) (simp_all cong: if_cong)
  from assms(3) obtain m0 where m0: "lock_after ?me slot n (c_spins s) (saved_memory s) = Some m0" "m = with_return (me_return_site ?me) slot m0"
    by (auto simp: selector_memory_def la)
  have sl: "slot = bridge_stack_slot (me_symbol ?me) thread_id" using assms(2) by simp
  from run_to_call [OF c m0(1) sl assms(4)] obtain s1 g where
    s1: "\<forall>fuel. run ?me dispatcher_bridge (48 + 4 * n + fuel) 0 s = run ?me dispatcher_bridge fuel 50 s1"
      "m0 = frame m0 ?b g" "frame_ready m0 ?b" "stack_ready m0 ?b slot" "saved s g" "g 50 = return_address"
      "c_mem s1 = m0" "c_world s1 = c_world s" "c_flags s1 AND NOT USER_FLAGS = c_flags s AND NOT USER_FLAGS"
      "c_regs s1 RBX = 8 + ?b" "c_regs s1 R15 = slot" "c_regs s1 RDI = return_address" "c_regs s1 RSI = c_regs s RAX"
      "c_regs s1 R9 = c_regs s RSP" by metis
  have m: "m = with_return (me_return_site ?me) slot (frame m0 ?b g)" unfolding s1(2) [symmetric] by (rule m0(2))
  have d: "me_callee ?me = call_selector e z" "dispatcher_target e (c_regs s1 RDI) (c_regs s1 RSI) (c_regs s1 R9)
      ((c_world s1)\<lparr>ds_mem := with_return (me_return_site ?me) slot (frame m0 ?b g)\<rparr>) = (w, target)"
    using assms(5) unfolding s1(8,12-14) m [symmetric] by simp_all
  have rsp: "c_regs s RSP = 0x190 + ?b" "c_flags s AND RESUME_FLAG = 0" using c by (simp_all add: frame_base_def bridge_callable_def)
  from run_from_call [OF s1(3) trans [OF s1(7,2)] s1(10,11,4) assms(7) d assms(6) [unfolded m] s1(5,9) rsp(2,1), of "fuel - (95 + 4 * n)"]
  obtain s' g' where
    s': "run ?me dispatcher_bridge (47 + (fuel - (95 + 4 * n))) 50 s1 = Exited (target AND NOT RAW_TARGET_TAG) s'" "restored s target s'"
      "c_mem s' = frame (after_selector z slot (ds_mem w)) ?b g'" "g' 50 = g 50" "c_world s' = w"
      "frame_ready (after_selector z slot (ds_mem w)) ?b" by blast
  have "fuel = 48 + 4 * n + (47 + (fuel - (95 + 4 * n)))" using assms(8) by simp
  then have "run_bridge me e z fuel s = Exited (target AND NOT RAW_TARGET_TAG) s'"
    unfolding run_bridge_def using s1(1) s'(1) by metis
  moreover have "load32 (c_mem s') slot = Some 0"
    unfolding s'(3) using assms(6) m0(2) by (intro unlocked [OF s1(4)]) (simp add: frame_kept_def with_return_def)
  moreover have "load64 (c_mem s') (c_regs s RSP) = Some return_address"
    unfolding s'(3) rsp using frame_load(2) [OF s'(6), of "0x190" g'] s'(4) s1(6) by simp
  moreover have "vm_bytes (c_mem s') x = vm_bytes (ds_mem w) x"
    if "x \<notin> set (span_addrs ?b 0x198)" "x \<notin> set (span_addrs slot 0x8000)" for x
    using s1(3,4) after_selector_elsewhere [OF _ assms(7) that(2)] window_member [of ?b "0x198" x] that(1)
    by (simp add: s'(3) overlay_bytes frame_ready_def stack_ready_def)
  ultimately show ?thesis using s'(2,5) by blast
qed

text \<open>
  C2: the trampoline is transparent. Once the lock of the thread's private stack is free, a call
  through Wine's dispatcher slot runs the selector on the return address, service number and
  stack pointer of the call and leaves for the address it answered, without the tag, with every
  general and vector register as at the call. For Wine's dispatcher the stack pointer and the flags are
  those of the call; for a raw system call the stack pointer is one word higher and the flags
  are those of the direct path. The lock is released, the return address is in place, and no memory
  outside the frame and the private stack differs from what the selector left.
\<close>

theorem dispatcher_bridge_transparent:
  assumes "bridge_callable me thread_id s" and "slot = bridge_stack_slot (me_symbol me) thread_id"
    and "selector_memory me n slot s = Some m" and "load64 (c_mem s) (c_regs s RSP) = Some return_address"
    and "dispatcher_target e return_address (c_regs s RAX) (c_regs s RSP) ((c_world s)\<lparr>ds_mem := m\<rparr>) = (w, target)"
    and "frame_kept (frame_base s) m (ds_mem w)" and "sn_depth z \<le> 0x7ff4" and "95 + 4 * n \<le> fuel"
  shows "\<exists>s'. run_bridge me e z fuel s = Exited (target AND NOT RAW_TARGET_TAG) s' \<and> restored s target s' \<and> c_world s' = w \<and>
     load32 (c_mem s') slot = Some 0 \<and> load64 (c_mem s') (c_regs s RSP) = Some return_address \<and>
     (\<forall>x. x \<notin> set (span_addrs (frame_base s) 0x198) \<and> x \<notin> set (span_addrs slot 0x8000) \<longrightarrow> vm_bytes (c_mem s') x = vm_bytes (ds_mem w) x)"
  by (rule dispatcher_bridge_run [OF assms])

section \<open>Threads that share a private stack\<close>

text \<open>
  Every thread of the process goes through the trampoline at its own pace. The threads share the
  lock words, one per slot of the array, which start as the zeros of \<^verbatim>\<open>.bss\<close>. A step is one
  thread reaching the loop, one attempt of \<open>lock bts\<close>, or the store that releases the lock.
\<close>

definition bridge_slot_index :: "u64 \<Rightarrow> u64" where
  "bridge_slot_index thread_id = drop_bit 2 thread_id AND (of_nat BRIDGE_STACK_SLOTS - 1)"

definition try_lock :: "u32 \<Rightarrow> u32 \<times> bool" where
  "try_lock v = (v OR 1, \<not> bit v 0)"

datatype bridge_phase = Outside | Waiting | Inside

record bridge_locks =
  bl_word :: "u64 \<Rightarrow> u32"
  bl_phase :: "u64 \<Rightarrow> bridge_phase"

definition bridge_locks_new :: bridge_locks where
  "bridge_locks_new = \<lparr>bl_word = \<lambda>_. 0, bl_phase = \<lambda>_. Outside\<rparr>"

inductive lock_step :: "bridge_locks \<Rightarrow> bridge_locks \<Rightarrow> bool" where
  arrive: "bl_phase w t = Outside \<Longrightarrow> lock_step w (w\<lparr>bl_phase := (bl_phase w)(t := Waiting)\<rparr>)"
| attempt: "bl_phase w t = Waiting \<Longrightarrow> try_lock (bl_word w (bridge_slot_index t)) = (v, acquired) \<Longrightarrow>
    lock_step w (w\<lparr>bl_word := (bl_word w)(bridge_slot_index t := v),
      bl_phase := (bl_phase w)(t := if acquired then Inside else Waiting)\<rparr>)"
| release: "bl_phase w t = Inside \<Longrightarrow>
    lock_step w (w\<lparr>bl_word := (bl_word w)(bridge_slot_index t := 0), bl_phase := (bl_phase w)(t := Outside)\<rparr>)"

text \<open>The attempt is what the instruction does to the lock word and the carry that decides the jump.\<close>

lemma lock_bts_attempt:
  assumes "load32 (c_mem s) (c_regs s r) = Some v" and "exec1 e (Lock_Bts r) s = Some s'"
  shows "store32 (c_mem s) (c_regs s r) (fst (try_lock v)) = Some (c_mem s')" and "bit (c_flags s') 0 \<longleftrightarrow> \<not> snd (try_lock v)"
  using assms by (auto simp: try_lock_def)

definition locks_inv :: "bridge_locks \<Rightarrow> bool" where
  "locks_inv w \<longleftrightarrow> (\<forall>t. bl_phase w t = Inside \<longrightarrow> bit (bl_word w (bridge_slot_index t)) 0) \<and>
     (\<forall>t t'. bl_phase w t = Inside \<and> bl_phase w t' = Inside \<and> bridge_slot_index t = bridge_slot_index t' \<longrightarrow> t = t')"

lemma lock_step_inv: "lock_step w w' \<Longrightarrow> locks_inv w \<Longrightarrow> locks_inv w'"
proof (induction rule: lock_step.induct)
  case (attempt w t v acquired)
  then show ?case
    by (cases acquired) (auto simp: locks_inv_def try_lock_def bit_or_iff split: if_splits)
qed (auto simp: locks_inv_def split: if_splits)

lemma locks_reachable: "lock_step\<^sup>*\<^sup>* bridge_locks_new w \<Longrightarrow> locks_inv w"
proof (induction rule: rtranclp_induct)
  case (step y z)
  then show ?case using lock_step_inv by blast
qed (simp add: locks_inv_def bridge_locks_new_def)

lemma slot_index_bound: "unat (bridge_slot_index t) < BRIDGE_STACK_SLOTS"
proof -
  have "bridge_slot_index t \<le> 0x3ff" by (simp add: bridge_slot_index_def BRIDGE_STACK_SLOTS_def word_and_le1)
  then show ?thesis by (simp add: word_le_nat_alt BRIDGE_STACK_SLOTS_def)
qed

lemma stack_slot_at:
  assumes "in_space stacks (BRIDGE_STACK_SLOTS * 2 ^ BRIDGE_STACK_SHIFT)"
  shows "unat (bridge_stack_slot stacks t) = unat stacks + unat (bridge_slot_index t) * 2 ^ BRIDGE_STACK_SHIFT"
proof -
  have b: "unat (bridge_slot_index t) < 1024" using slot_index_bound by (simp add: BRIDGE_STACK_SLOTS_def)
  have e: "bridge_stack_slot stacks t = stacks + of_nat (unat (bridge_slot_index t) * 2 ^ BRIDGE_STACK_SHIFT)"
    unfolding bridge_stack_slot_def bridge_slot_index_def [symmetric] by (simp add: push_bit_eq_mult)
  show ?thesis unfolding e by (rule unat_offset [OF assms]) (use b in \<open>simp add: BRIDGE_STACK_SLOTS_def BRIDGE_STACK_SHIFT_def\<close>)
qed

text \<open>
  C17: no two threads are ever on the same private stack. However the threads of the process
  interleave, two different threads that are past the lock at the same time use disjoint stacks,
  each wholly inside the array.
\<close>

theorem private_stacks_exclusive:
  assumes "lock_step\<^sup>*\<^sup>* bridge_locks_new w" and "in_space stacks (BRIDGE_STACK_SLOTS * 2 ^ BRIDGE_STACK_SHIFT)"
    and "bl_phase w t = Inside" and "bl_phase w t' = Inside" and "t \<noteq> t'"
  shows "disjoint_ranges (bridge_stack_slot stacks t) (2 ^ BRIDGE_STACK_SHIFT) (bridge_stack_slot stacks t') (2 ^ BRIDGE_STACK_SHIFT) \<and>
    unat stacks \<le> unat (bridge_stack_slot stacks t) \<and>
    unat (bridge_stack_slot stacks t) + 2 ^ BRIDGE_STACK_SHIFT \<le> unat stacks + BRIDGE_STACK_SLOTS * 2 ^ BRIDGE_STACK_SHIFT"
proof -
  have "bridge_slot_index t \<noteq> bridge_slot_index t'" using locks_reachable [OF assms(1)] assms(3-5) by (auto simp: locks_inv_def)
  then have "unat (bridge_slot_index t) < unat (bridge_slot_index t') \<or> unat (bridge_slot_index t') < unat (bridge_slot_index t)"
    by (metis linorder_neqE_nat unsigned_word_eqI)
  then have "disjoint_ranges (bridge_stack_slot stacks t) (2 ^ BRIDGE_STACK_SHIFT) (bridge_stack_slot stacks t') (2 ^ BRIDGE_STACK_SHIFT)"
    by (auto simp: disjoint_ranges_def stack_slot_at [OF assms(2)] BRIDGE_STACK_SHIFT_def)
  then show ?thesis using slot_index_bound [of t] by (simp add: stack_slot_at [OF assms(2)] BRIDGE_STACK_SHIFT_def BRIDGE_STACK_SLOTS_def)
qed

theorem private_stacks_exclusive_witness:
  "\<exists>w. lock_step\<^sup>*\<^sup>* bridge_locks_new w \<and> bl_phase w 4 = Inside \<and> bl_phase w 8 = Inside \<and>
     disjoint_ranges (bridge_stack_slot 0x100000 4) 0x8000 (bridge_stack_slot 0x100000 8) 0x8000"
proof -
  let ?a = "bridge_locks_new\<lparr>bl_phase := (bl_phase bridge_locks_new)(4 := Waiting)\<rparr>"
  let ?b = "?a\<lparr>bl_word := (bl_word ?a)(1 := 1), bl_phase := (bl_phase ?a)(4 := Inside)\<rparr>"
  let ?c = "?b\<lparr>bl_phase := (bl_phase ?b)(8 := Waiting)\<rparr>"
  let ?d = "?c\<lparr>bl_word := (bl_word ?c)(2 := 1), bl_phase := (bl_phase ?c)(8 := Inside)\<rparr>"
  have i: "bridge_slot_index 4 = 1" "bridge_slot_index 8 = 2" by (simp_all add: bridge_slot_index_def BRIDGE_STACK_SLOTS_def)
  have "lock_step bridge_locks_new ?a" by (rule lock_step.arrive) (simp add: bridge_locks_new_def)
  moreover have "lock_step ?a ?b" using lock_step.attempt [of ?a 4 1 True] by (simp add: i try_lock_def bridge_locks_new_def)
  moreover have "lock_step ?b ?c" by (rule lock_step.arrive) (simp add: bridge_locks_new_def)
  moreover have "lock_step ?c ?d" using lock_step.attempt [of ?c 8 1 True] by (simp add: i try_lock_def bridge_locks_new_def)
  ultimately have r: "lock_step\<^sup>*\<^sup>* bridge_locks_new ?d" by (meson rtranclp.rtrancl_into_rtrancl rtranclp.rtrancl_refl)
  moreover have "in_space 0x100000 (BRIDGE_STACK_SLOTS * 2 ^ BRIDGE_STACK_SHIFT)"
    by (simp add: in_space_def BRIDGE_STACK_SLOTS_def BRIDGE_STACK_SHIFT_def)
  ultimately show ?thesis using private_stacks_exclusive [OF r, of "0x100000" 4 8]
    by (intro exI [of _ ?d]) (simp add: BRIDGE_STACK_SHIFT_def)
qed

section \<open>A call of the copied stub\<close>

text \<open>
  The process of \<open>stub_state\<close> with a stack up to \<open>0x30008\<close> that holds the return address, the
  private stacks at \<open>0x100000\<close>, and the thread block of Windows thread 4 at \<open>0x40000\<close>.
\<close>

definition bridge_sample_mem :: vmem where
  "bridge_sample_mem = \<lparr>vm_bytes = \<lambda>x.
       if 0x2fe70 \<le> x \<and> x < 0x30008 then Some (case map_of [(0x30000, 0x1f), (0x30002, 0x02)] x of Some v \<Rightarrow> v | None \<Rightarrow> 0)
       else if 0x100000 \<le> x \<and> x < 0x110000 then Some 0
       else if 0x40048 \<le> x \<and> x < 0x40050 then Some (if x = 0x40048 then 4 else 0)
       else vm_bytes stub_mem x,
     vm_writable = \<lambda>x. 0x2fe70 \<le> x \<and> x < 0x30008 \<or> 0x100000 \<le> x \<and> x < 0x110000\<rparr>"

definition bridge_sample_cpu :: "dispatch_state cpu" where
  "bridge_sample_cpu = \<lparr>c_regs = (\<lambda>_. 0x55)(RSP := 0x30000, RAX := 0x246), c_xmm = \<lambda>i. of_nat i, c_flags = 0x202,
     c_mem = bridge_sample_mem, c_spins = 0, c_world = stub_state\<rparr>"

definition bridge_sample_env :: "dispatch_state machine_env" where
  "bridge_sample_env = \<lparr>me_symbol = 0x100000, me_gs_base = 0x40000, me_status = \<lambda>_. 0x8d5, me_others = \<lambda>_ m. m,
     me_return_site = 0x7f0000000000, me_callee = \<lambda>_. None\<rparr>"

definition bridge_sample_noise :: selector_noise where
  "bridge_sample_noise = \<lparr>sn_regs = \<lambda>_. 0xdead, sn_xmm = \<lambda>_. 0, sn_flags = 0x8d5, sn_depth = 0x1000, sn_stack = \<lambda>_. 0xcc\<rparr>"

lemma sample_loads:
  "load64 bridge_sample_mem 0x30000 = Some 0x2001f" "load64 bridge_sample_mem 0x40048 = Some 4"
  "load32 bridge_sample_mem 0x108000 = Some 0"
  by code_simp+

lemma sample_slot: "bridge_stack_slot 0x100000 4 = 0x108000" "frame_base bridge_sample_cpu = 0x2fe70"
  by (simp_all add: bridge_stack_slot_def BRIDGE_STACK_SHIFT_def BRIDGE_STACK_SLOTS_def frame_base_def bridge_sample_cpu_def)

lemma addrs_bound:
  assumes "in_space a n" and "x \<in> set (span_addrs a n)"
  shows "unat a \<le> unat x \<and> unat x < unat a + n"
  using mem_addrs_iff [OF assms(1)] assms(2) by blast

lemma apart_below: "apart b n a k" if "in_space b n" "in_space a k" "unat b + n \<le> unat a \<or> unat a + k \<le> unat b"
proof -
  have False if "x \<in> set (span_addrs a k)" "unat (x - b) < n" for x
    using that addrs_bound [OF \<open>in_space a k\<close>, of x] addrs_bound [OF \<open>in_space b n\<close>, of x] window_member [OF \<open>in_space b n\<close>, of x]
      \<open>unat b + n \<le> unat a \<or> unat a + k \<le> unat b\<close> by auto
  then show ?thesis by (auto simp: apart_def list_all_iff)
qed

lemma sample_callable: "bridge_callable bridge_sample_env 4 bridge_sample_cpu"
proof -
  have sp: "in_space 0x2fe70 408" "in_space 0x108000 0x8000" "in_space 0x40048 8" by (simp_all add: in_space_def)
  have w: "writable_window bridge_sample_mem 0x2fe70 408"
    using sp(1) addrs_bound [OF sp(1)] by (fastforce simp: writable_window_def readable_def list_all_iff bridge_sample_mem_def word_le_nat_alt word_less_nat_alt)
  have "list_all (vm_writable bridge_sample_mem) (span_addrs 0x108000 0x8000)"
    using addrs_bound [OF sp(2)] by (fastforce simp: list_all_iff bridge_sample_mem_def word_le_nat_alt word_less_nat_alt)
  moreover have "apart 0x2fe70 408 0x108000 0x8000" "apart 0x2fe70 408 0x40048 8" using sp by (simp_all add: apart_below)
  ultimately show ?thesis
    using sp w sample_loads(2) sample_slot(2) by (simp add: bridge_callable_def stack_ready_def sample_slot(1) bridge_sample_env_def others_keep_def)
      (simp add: bridge_sample_cpu_def RESUME_FLAG_def)
qed

lemma read_memory_cong: "(\<And>x. x \<in> set (span_addrs a n) \<Longrightarrow> vm_bytes m x = vm_bytes m' x) \<Longrightarrow> read_memory m a n = read_memory m' a n"
  by (auto simp: read_memory_def process_vm_readv_def readable_def span_def list_all_iff)

lemma poked_elsewhere: "x \<notin> set (span_addrs a (length bs)) \<Longrightarrow> vm_bytes (m\<lparr>vm_bytes := poke (vm_bytes m) a bs\<rparr>) x = vm_bytes m x"
  by (simp add: poke_other)

lemma sample_selector_memory:
  "\<exists>m. selector_memory bridge_sample_env 0 0x108000 bridge_sample_cpu = Some m \<and>
     (\<forall>x. unat x < 0x2fe70 \<or> 0x30008 \<le> unat x \<and> unat x < 0x40048 \<longrightarrow> vm_bytes m x = vm_bytes stub_mem x)"
proof -
  let ?g = "save_words bridge_sample_cpu (\<lambda>k. from_le (span bridge_sample_mem (0x2fe70 + of_nat (8 * k)) 8))"
  let ?m = "frame bridge_sample_mem 0x2fe70 ?g"
  have sp: "in_space 0x2fe70 408" "in_space 0x108000 0x8000" by (simp_all add: in_space_def)
  have sm: "saved_memory bridge_sample_cpu = ?m" unfolding saved_memory_def sample_slot(2) by (simp add: bridge_sample_cpu_def)
  have st: "stack_ready ?m 0x2fe70 0x108000"
    using sample_callable stack_ready_cong [of ?m bridge_sample_mem]
    by (simp add: bridge_callable_def sample_slot bridge_sample_env_def) (simp add: bridge_sample_cpu_def)
  have ap: "apart 0x2fe70 (8 * 51) 0x108000 4" using stack_part(3) [OF st, of 0 4] by simp
  have "load32 ?m 0x108000 = Some 0" unfolding load32_def read_apart [OF ap] using sample_loads(3) by (simp add: load32_def)
  moreover have "store32 ?m 0x108000 1 = Some (?m\<lparr>vm_bytes := poke (vm_bytes ?m) 0x108000 (to_le 4 (1 :: u32))\<rparr>)" (is "_ = Some ?m1")
    using stack_write(1) [OF st, of 0 "to_le 4 (1 :: u32)"] by (simp add: store32_def flip: length_0_conv)
  ultimately have "lock_after bridge_sample_env 0x108000 0 (c_spins bridge_sample_cpu) (saved_memory bridge_sample_cpu) = Some ?m1"
    by (simp add: sm)
  moreover have "vm_bytes (with_return site 0x108000 ?m1) x = vm_bytes stub_mem x"
    if "unat x < 0x2fe70 \<or> 0x30008 \<le> unat x \<and> unat x < 0x40048" for site x
  proof -
    have f: "\<not> unat (x - 0x2fe70) < 8 * 51"
      using that addrs_bound [OF sp(1), of x] window_member [OF sp(1), of x] by auto
    have "in_space 0x108000 4" "in_space 0x10fff8 8" by (simp_all add: in_space_def)
    then have p: "x \<notin> set (span_addrs 0x108000 (length (to_le 4 (1 :: u32))))" "x \<notin> set (span_addrs (0x108000 + 0x7ff8) (length (to_le 8 site)))"
      using that addrs_bound [of "0x108000" 4 x] addrs_bound [of "0x10fff8" 8 x] by auto
    have "vm_bytes (with_return site 0x108000 ?m1) x = vm_bytes bridge_sample_mem x"
      unfolding with_return_def poked_elsewhere [OF p(2)] poked_elsewhere [OF p(1)] overlay_bytes by (simp only: f if_False)
    then show ?thesis using that by (auto simp: bridge_sample_mem_def word_le_nat_alt word_less_nat_alt)
  qed
  ultimately show ?thesis by (auto simp: selector_memory_def)
qed

lemma sample_selected:
  "\<exists>m k. selector_memory bridge_sample_env 0 0x108000 bridge_sample_cpu = Some m \<and>
     dispatcher_target stub_env 0x2001f 0x246 0x30000 (stub_state\<lparr>ds_mem := m\<rparr>) =
       (stub_state\<lparr>ds_mem := m, ds_markers := k\<rparr>, 0x20010 OR RAW_TARGET_TAG) \<and>
     markers_inv k \<and> lookup_marker k (7, 0x30008, 0x20012) = Some Armed"
proof -
  from sample_selector_memory obtain m where m: "selector_memory bridge_sample_env 0 0x108000 bridge_sample_cpu = Some m"
    "\<And>x. unat x < 0x2fe70 \<or> 0x30008 \<le> unat x \<and> unat x < 0x40048 \<Longrightarrow> vm_bytes m x = vm_bytes stub_mem x" by blast
  have rd: "read_memory m a n = read_memory stub_mem a n" if "in_space a n" "unat a + n \<le> 0x2fe70 \<or> 0x30008 \<le> unat a \<and> unat a + n \<le> 0x40048" for a n
    using that addrs_bound [OF that(1)] by (intro read_memory_cong m(2)) (meson order_trans order_less_le_trans)
  have "find_syscall m 0x2001f 0x246 = find_syscall stub_mem 0x2001f 0x246"
    by (simp add: find_syscall_def checked_sub_def rd in_space_def cong: option.case_cong)
  moreover have "read_u64 m 0x30008 = read_u64 stub_mem 0x30008" by (simp add: read_u64_def rd in_space_def)
  ultimately show ?thesis using stub_call_on [of m] stub_syscall m(1) by auto
qed

theorem dispatcher_bridge_transparent_witness:
  "\<exists>s' k. run_bridge bridge_sample_env stub_env bridge_sample_noise 100 bridge_sample_cpu = Exited 0x20010 s' \<and>
     c_regs s' = (c_regs bridge_sample_cpu)(RSP := 0x30008) \<and> c_flags s' = 0x246 \<and> c_xmm s' 5 = 5 \<and>
     ds_markers (c_world s') = k \<and> lookup_marker k (7, 0x30008, 0x20012) = Some Armed"
proof -
  from sample_selected obtain m k where
    m: "selector_memory bridge_sample_env 0 0x108000 bridge_sample_cpu = Some m"
    "dispatcher_target stub_env 0x2001f 0x246 0x30000 (stub_state\<lparr>ds_mem := m\<rparr>) =
       (stub_state\<lparr>ds_mem := m, ds_markers := k\<rparr>, 0x20010 OR RAW_TARGET_TAG)" "lookup_marker k (7, 0x30008, 0x20012) = Some Armed" by blast
  have r: "c_regs bridge_sample_cpu RSP = 0x30000" "c_regs bridge_sample_cpu RAX = 0x246" "c_mem bridge_sample_cpu = bridge_sample_mem"
    "c_world bridge_sample_cpu = stub_state" "c_flags bridge_sample_cpu = 0x202" "c_xmm bridge_sample_cpu = of_nat" "me_symbol bridge_sample_env = 0x100000"
    by (simp_all add: bridge_sample_cpu_def bridge_sample_env_def fun_eq_iff)
  have t: "bit (0x20010 OR RAW_TARGET_TAG) 63" "(0x20010 OR RAW_TARGET_TAG) AND NOT RAW_TARGET_TAG = 0x20010" by (simp_all add: RAW_TARGET_TAG_def)
  from dispatcher_bridge_transparent [of bridge_sample_env 4 bridge_sample_cpu "0x108000" 0 m "0x2001f" stub_env
      "stub_state\<lparr>ds_mem := m, ds_markers := k\<rparr>" "0x20010 OR RAW_TARGET_TAG" bridge_sample_noise 100]
  obtain s' where s': "run_bridge bridge_sample_env stub_env bridge_sample_noise 100 bridge_sample_cpu = Exited 0x20010 s'"
      "restored bridge_sample_cpu (0x20010 OR RAW_TARGET_TAG) s'" "c_world s' = stub_state\<lparr>ds_mem := m, ds_markers := k\<rparr>"
    using sample_callable m(1,2) sample_loads(1) sample_slot(1) r t(2) by (auto simp: frame_kept_def bridge_sample_noise_def)
  from s'(2) t(1) have "c_regs s' = (c_regs bridge_sample_cpu)(RSP := 0x30008)" "c_flags s' = 0x246" "\<forall>i<16. c_xmm s' i = of_nat i"
    by (simp_all add: restored_def bridge_rsp_def bridge_flags_def r direct_path_eflags_def TEST_ZERO_CLEAR_FLAGS_def TEST_ZERO_SET_FLAGS_def)
  then show ?thesis using s'(1,3) m(3) by (intro exI [of _ s'] exI [of _ k]) simp
qed

end
