(* ===== verification/Marker_Races.thy ===== *)
theory Marker_Races
  imports Markers
begin

text \<open>
  The marker table of \<^verbatim>\<open>syscall/reflex_markers.rs\<close> under concurrent use. \<open>Markers\<close> runs each operation alone;
  here every atomic load, store, compare-exchange and counter update of \<^verbatim>\<open>remember_marker\<close>, \<^verbatim>\<open>find_marker\<close>,
  \<^verbatim>\<open>consume\<close>, \<^verbatim>\<open>cancel\<close>, \<^verbatim>\<open>retire_markers\<close> and \<^verbatim>\<open>release_marker\<close> is a step of its own, and the threads
  of the process interleave. A thread is known by its id, and works on keys with that id only.
\<close>

section \<open>Cells and operations\<close>

text \<open>The atomics of a slot besides its stack word; the flag selects the upper half.\<close>

datatype cell = CellTid | CellRip | CellPhase | CellXmm4 bool | CellXmm5 bool | CellR11 | CellEflags

fun put_cell :: "cell \<Rightarrow> u64 \<Rightarrow> marker \<Rightarrow> marker" where
  "put_cell CellTid v k = k\<lparr>mk_tid := v\<rparr>"
| "put_cell CellRip v k = k\<lparr>mk_rip := v\<rparr>"
| "put_cell CellPhase v k = k\<lparr>mk_phase := v\<rparr>"
| "put_cell (CellXmm4 upper) v k = k\<lparr>mk_xmm4 := if upper then (fst (mk_xmm4 k), v) else (v, snd (mk_xmm4 k))\<rparr>"
| "put_cell (CellXmm5 upper) v k = k\<lparr>mk_xmm5 := if upper then (fst (mk_xmm5 k), v) else (v, snd (mk_xmm5 k))\<rparr>"
| "put_cell CellR11 v k = k\<lparr>mk_r11 := v\<rparr>"
| "put_cell CellEflags v k = k\<lparr>mk_eflags := v\<rparr>"

fun get_cell :: "cell \<Rightarrow> marker \<Rightarrow> u64" where
  "get_cell CellTid k = mk_tid k"
| "get_cell CellRip k = mk_rip k"
| "get_cell CellPhase k = mk_phase k"
| "get_cell (CellXmm4 upper) k = (if upper then snd else fst) (mk_xmm4 k)"
| "get_cell (CellXmm5 upper) k = (if upper then snd else fst) (mk_xmm5 k)"
| "get_cell CellR11 k = mk_r11 k"
| "get_cell CellEflags k = mk_eflags k"

definition save_stores :: "saved_context \<Rightarrow> (cell \<times> u64) list" where
  "save_stores c =
    [(CellXmm4 False, fst (halves (sc_xmm4 c))), (CellXmm5 False, fst (halves (sc_xmm5 c))),
     (CellXmm4 True, snd (halves (sc_xmm4 c))), (CellXmm5 True, snd (halves (sc_xmm5 c))),
     (CellR11, sc_r11 c), (CellEflags, sc_eflags c)]"

definition saved_cells :: "cell list" where
  "saved_cells = [CellR11, CellEflags, CellXmm4 False, CellXmm5 False, CellXmm4 True, CellXmm5 True]"

definition loaded_context :: "(cell \<Rightarrow> u64) \<Rightarrow> saved_context" where
  "loaded_context f = \<lparr>sc_xmm4 = unhalves (f (CellXmm4 False), f (CellXmm4 True)),
     sc_xmm5 = unhalves (f (CellXmm5 False), f (CellXmm5 True)), sc_r11 = f CellR11, sc_eflags = f CellEflags\<rparr>"

definition release_stores :: "(cell \<times> u64) list" where
  "release_stores =
    [(CellTid, 0), (CellRip, 0), (CellPhase, 0), (CellXmm4 False, 0), (CellXmm5 False, 0), (CellXmm4 True, 0), (CellXmm5 True, 0),
     (CellR11, 0), (CellEflags, 0)]"

datatype marker_op = Arm u64 u64 | Consume u64 u64 saved_context | Cancel u64 u64 | Retire u64

datatype op_result = Remembered bool | Consumed "phase option" | Ended

datatype purpose = ForConsume saved_context | ForCancel

text \<open>What follows the release of a slot, and what follows the stores to a reserved one.\<close>

datatype cont = Finish op_result | RetireRest u64 "nat list"

datatype after = Publish u64 | Unreserve cont

datatype mr_pc =
    is_idle: Idle
  | Probe u64 u64 "nat list"
  | Count nat u64 u64
  | Store nat "(cell \<times> u64) list" after
  | FindActive u64 u64 purpose
  | FindStack u64 u64 purpose "nat list"
  | FindTid u64 u64 purpose nat "nat list"
  | FindRip u64 u64 purpose nat "nat list"
  | Claim nat u64 saved_context
  | Save nat "(cell \<times> u64) list"
  | Reclaim nat u64
  | Load nat u64 "cell list" "cell \<Rightarrow> u64"
  | Release nat u64 cont
  | Sub cont
  | RetireActive u64
  | RetireTid u64 "nat list"
  | RetireStack u64 nat "nat list"
  | RetireCheck u64 nat u64 "nat list"
  | Answer op_result

record mr_shared =
  ms_active :: u32
  ms_slots :: "nat \<Rightarrow> marker"

abbreviation RESERVED :: u64 where "RESERVED \<equiv> - 1"

definition put_slot :: "nat \<Rightarrow> marker \<Rightarrow> mr_shared \<Rightarrow> mr_shared" where
  "put_slot i k h = h\<lparr>ms_slots := (ms_slots h)(i := k)\<rparr>"

fun continue :: "cont \<Rightarrow> mr_pc" where
  "continue (Finish r) = Answer r"
| "continue (RetireRest s is) = RetireTid s is"

fun missing :: "purpose \<Rightarrow> op_result" where
  "missing (ForConsume c) = Consumed None"
| "missing ForCancel = Ended"

fun found :: "purpose \<Rightarrow> nat \<Rightarrow> u64 \<Rightarrow> mr_pc" where
  "found (ForConsume c) i s = Claim i s c"
| "found ForCancel i s = Release i s (Finish Ended)"

text \<open>The entry of an operation, up to its first access to the table.\<close>

fun op_start :: "u64 \<Rightarrow> marker_op \<Rightarrow> mr_pc" where
  "op_start t (Arm s r) = (if t = 0 \<or> s = 0 \<or> r = 0 then Answer (Remembered False) else Probe s r (probe_slots s))"
| "op_start t (Consume s r c) = (if t = 0 \<or> s = 0 \<or> r = 0 then Answer (Consumed None) else FindActive s r (ForConsume c))"
| "op_start t (Cancel s r) = FindActive s r ForCancel"
| "op_start t (Retire s) = (if t = 0 then Answer Ended else RetireActive s)"

text \<open>One atomic access by the thread \<open>t\<close>.\<close>

fun mr_next :: "u64 \<Rightarrow> mr_shared \<Rightarrow> mr_pc \<Rightarrow> (mr_shared \<times> mr_pc) option" where
  "mr_next t h Idle = None"
| "mr_next t h (Answer r) = None"
| "mr_next t h (Probe s r []) = Some (h, Answer (Remembered False))"
| "mr_next t h (Probe s r (i # is)) =
     (if mk_stack (ms_slots h i) = 0 then Some (put_slot i ((ms_slots h i)\<lparr>mk_stack := RESERVED\<rparr>) h, Count i s r)
      else Some (h, Probe s r is))"
| "mr_next t h (Count i s r) = Some (h\<lparr>ms_active := ms_active h + 1\<rparr>, Store i [(CellTid, t), (CellRip, r), (CellPhase, 0)] (Publish s))"
| "mr_next t h (Store i ((c, v) # cs) a) = Some (put_slot i (put_cell c v (ms_slots h i)) h, Store i cs a)"
| "mr_next t h (Store i [] (Publish s)) = Some (put_slot i ((ms_slots h i)\<lparr>mk_stack := s\<rparr>) h, Answer (Remembered True))"
| "mr_next t h (Store i [] (Unreserve k)) = Some (put_slot i ((ms_slots h i)\<lparr>mk_stack := 0\<rparr>) h, Sub k)"
| "mr_next t h (FindActive s r p) = Some (h, if ms_active h = 0 then Answer (missing p) else FindStack s r p (probe_slots s))"
| "mr_next t h (FindStack s r p []) = Some (h, Answer (missing p))"
| "mr_next t h (FindStack s r p (i # is)) = Some (h, if mk_stack (ms_slots h i) = s then FindTid s r p i is else FindStack s r p is)"
| "mr_next t h (FindTid s r p i is) = Some (h, if mk_tid (ms_slots h i) = t then FindRip s r p i is else FindStack s r p is)"
| "mr_next t h (FindRip s r p i is) = Some (h, if mk_rip (ms_slots h i) = r then found p i s else FindStack s r p is)"
| "mr_next t h (Claim i s c) =
     (if mk_phase (ms_slots h i) = 0 then Some (put_slot i ((ms_slots h i)\<lparr>mk_phase := 1\<rparr>) h, Save i (save_stores c))
      else Some (h, Reclaim i s))"
| "mr_next t h (Save i ((c, v) # cs)) = Some (put_slot i (put_cell c v (ms_slots h i)) h, Save i cs)"
| "mr_next t h (Save i []) = Some (h, Answer (Consumed (Some Route)))"
| "mr_next t h (Reclaim i s) =
     (if mk_phase (ms_slots h i) = 1 then Some (put_slot i ((ms_slots h i)\<lparr>mk_phase := 2\<rparr>) h, Load i s saved_cells (\<lambda>_. 0))
      else Some (h, Release i s (Finish (Consumed None))))"
| "mr_next t h (Load i s (c # cs) f) = Some (h, Load i s cs (f(c := get_cell c (ms_slots h i))))"
| "mr_next t h (Load i s [] f) = Some (h, Release i s (Finish (Consumed (Some (Replay (loaded_context f))))))"
| "mr_next t h (Release i s k) =
     (if mk_stack (ms_slots h i) = s then Some (put_slot i ((ms_slots h i)\<lparr>mk_stack := RESERVED\<rparr>) h, Store i release_stores (Unreserve k))
      else Some (h, continue k))"
| "mr_next t h (Sub k) = Some (h\<lparr>ms_active := ms_active h - 1\<rparr>, continue k)"
| "mr_next t h (RetireActive s) = Some (h, if ms_active h = 0 then Answer Ended else RetireTid s [0..<MARKER_CAPACITY])"
| "mr_next t h (RetireTid s []) = Some (h, Answer Ended)"
| "mr_next t h (RetireTid s (i # is)) = Some (h, if mk_tid (ms_slots h i) = t then RetireStack s i is else RetireTid s is)"
| "mr_next t h (RetireStack s i is) =
     (let recorded = mk_stack (ms_slots h i) in
      Some (h, if recorded = 0 \<or> recorded = RESERVED \<or> recorded > s then RetireTid s is else RetireCheck s i recorded is))"
| "mr_next t h (RetireCheck s i recorded is) =
     Some (h, if mk_tid (ms_slots h i) = t then Release i recorded (RetireRest s is) else RetireTid s is)"

section \<open>Threads\<close>

text \<open>
  \<open>mw_op\<close> is the operation a thread is in, \<open>mw_log\<close> what its finished operations returned. An operation starts for a thread with a
  positive \<^verbatim>\<open>pid_t\<close>, and for a stack pointer below the reserved value.
\<close>

record mr_world =
  mw_shared :: mr_shared
  mw_pc :: "u64 \<Rightarrow> mr_pc"
  mw_op :: "u64 \<Rightarrow> marker_op"
  mw_log :: "u64 \<Rightarrow> (marker_op \<times> op_result) list"

definition mr_initial :: mr_world where
  "mr_initial = \<lparr>mw_shared = \<lparr>ms_active = 0, ms_slots = \<lambda>_. MARKER_EMPTY\<rparr>, mw_pc = \<lambda>_. Idle, mw_op = \<lambda>_. Retire 0, mw_log = \<lambda>_. []\<rparr>"

fun sane_op :: "marker_op \<Rightarrow> bool" where
  "sane_op (Arm s r) \<longleftrightarrow> s \<noteq> RESERVED"
| "sane_op (Consume s r c) \<longleftrightarrow> good_context c"
| "sane_op (Cancel s r) \<longleftrightarrow> True"
| "sane_op (Retire s) \<longleftrightarrow> True"

definition is_thread :: "u64 \<Rightarrow> bool" where
  "is_thread t \<longleftrightarrow> 0 < t \<and> t < 2 ^ 31"

text \<open>The sequential meaning: a map per thread from stack pointer and instruction pointer.\<close>

type_synonym marker_map = "u64 \<times> u64 \<rightharpoonup> marker_view"

fun spec_op :: "marker_op \<Rightarrow> op_result \<Rightarrow> marker_map \<Rightarrow> marker_map option" where
  "spec_op (Arm s r) (Remembered ok) m = (if \<not> ok then Some m else if s = 0 \<or> r = 0 then None else Some (m((s, r) \<mapsto> Armed)))"
| "spec_op (Consume s r c) (Consumed a) m = (case m (s, r) of
     None \<Rightarrow> if a = None then Some m else None
   | Some Armed \<Rightarrow> if a = Some Route then Some (m((s, r) \<mapsto> Routed c)) else None
   | Some (Routed c') \<Rightarrow> if a = Some (Replay c') then Some (m((s, r) := None)) else None)"
| "spec_op (Cancel s r) Ended m = Some (m((s, r) := None))"
| "spec_op (Retire s) Ended m = Some (\<lambda>k. if fst k \<le> s then None else m k)"
| "spec_op _ _ m = None"

definition spec_run :: "(marker_op \<times> op_result) list \<Rightarrow> marker_map option" where
  "spec_run l = fold (\<lambda>(p, r) m. Option.bind m (spec_op p r)) l (Some Map.empty)"

text \<open>
  Events of the process: a call, an access, a return. The bridge arms a key only while its thread has no marker under it:
  \<^verbatim>\<open>prepare_dispatch\<close> retires the markers at or below that stack pointer first.
\<close>

datatype mr_event = Call u64 marker_op | Access u64 | Return u64

fun fresh_key :: "marker_op \<Rightarrow> marker_map option \<Rightarrow> bool" where
  "fresh_key (Arm s r) (Some m) \<longleftrightarrow> m (s, r) = None"
| "fresh_key _ _ \<longleftrightarrow> True"

fun mr_do :: "mr_event \<Rightarrow> mr_world \<Rightarrow> mr_world option" where
  "mr_do (Call t p) w =
     (if is_thread t \<and> is_idle (mw_pc w t) \<and> sane_op p \<and> fresh_key p (spec_run (mw_log w t))
      then Some (w\<lparr>mw_pc := (mw_pc w)(t := op_start t p), mw_op := (mw_op w)(t := p)\<rparr>) else None)"
| "mr_do (Access t) w = (case mr_next t (mw_shared w) (mw_pc w t) of
     None \<Rightarrow> None | Some (h, pc) \<Rightarrow> Some (w\<lparr>mw_shared := h, mw_pc := (mw_pc w)(t := pc)\<rparr>))"
| "mr_do (Return t) w = (case mw_pc w t of
     Answer r \<Rightarrow> Some (w\<lparr>mw_pc := (mw_pc w)(t := Idle), mw_log := (mw_log w)(t := mw_log w t @ [(mw_op w t, r)])\<rparr>)
   | _ \<Rightarrow> None)"

fun mr_run :: "mr_event list \<Rightarrow> mr_world \<Rightarrow> mr_world option" where
  "mr_run [] w = Some w"
| "mr_run (e # es) w = (case mr_do e w of None \<Rightarrow> None | Some w' \<Rightarrow> mr_run es w')"

section \<open>The slots of one thread\<close>

definition own :: "u64 \<Rightarrow> (nat \<Rightarrow> marker) \<Rightarrow> nat \<Rightarrow> bool" where
  "own t sl i \<longleftrightarrow> mk_tid (sl i) = t \<and> mk_stack (sl i) \<noteq> 0 \<and> mk_stack (sl i) \<noteq> RESERVED"

definition place :: "marker \<Rightarrow> u64 \<times> u64" where
  "place k = (mk_stack k, mk_rip k)"

definition kept_context :: "marker \<Rightarrow> saved_context" where
  "kept_context k = loaded_context (\<lambda>c. get_cell c k)"

definition kept_view :: "marker \<Rightarrow> marker_view" where
  "kept_view k = (if mk_phase k = 0 then Armed else Routed (kept_context k))"

definition tracks :: "u64 \<Rightarrow> (nat \<Rightarrow> marker) \<Rightarrow> marker_map \<Rightarrow> bool" where
  "tracks t sl m \<longleftrightarrow> (\<forall>i j. own t sl i \<and> own t sl j \<and> place (sl i) = place (sl j) \<longrightarrow> i = j) \<and>
     (\<forall>i. own t sl i \<longrightarrow> mk_rip (sl i) \<noteq> 0 \<and> mk_phase (sl i) \<le> 1 \<and> m (place (sl i)) = Some (kept_view (sl i))) \<and>
     (\<forall>k v. m k = Some v \<longrightarrow> (\<exists>i. own t sl i \<and> place (sl i) = k))"

lemma own_upd: "own t (sl(i := k)) j \<longleftrightarrow> (if j = i then own t (\<lambda>_. k) 0 else own t sl j)"
  by (simp add: own_def)

lemma own_const [simp]: "own t (\<lambda>_. k) j \<longleftrightarrow> mk_tid k = t \<and> mk_stack k \<noteq> 0 \<and> mk_stack k \<noteq> RESERVED"
  by (simp add: own_def)

definition same_own :: "u64 \<Rightarrow> (nat \<Rightarrow> marker) \<Rightarrow> (nat \<Rightarrow> marker) \<Rightarrow> bool" where
  "same_own t sl sl' \<longleftrightarrow> (\<forall>i. (own t sl i \<longleftrightarrow> own t sl' i) \<and> (own t sl i \<longrightarrow> sl' i = sl i))"

lemma tracks_same: "same_own t sl sl' \<Longrightarrow> tracks t sl' m \<longleftrightarrow> tracks t sl m"
proof -
  have "tracks t b m" if "same_own t a b" "tracks t a m" for a b
  proof -
    have o: "own t b i \<longleftrightarrow> own t a i" "own t a i \<Longrightarrow> b i = a i" for i using that(1) by (auto simp: same_own_def)
    from that(2) show ?thesis by (simp add: tracks_def o cong: conj_cong)
  qed
  moreover assume "same_own t sl sl'"
  moreover from this have "same_own t sl' sl" by (auto simp: same_own_def)
  ultimately show ?thesis by blast
qed

lemma tracks_other: "\<not> own t sl i \<Longrightarrow> \<not> own t (\<lambda>_. k) 0 \<Longrightarrow> tracks t (sl(i := k)) m \<longleftrightarrow> tracks t sl m"
  by (rule tracks_same) (auto simp: same_own_def own_upd simp del: own_const)

lemma tracks_put:
  assumes tr: "tracks t sl m" and k: "own t (\<lambda>_. k) 0" "mk_rip k \<noteq> 0" "mk_phase k \<le> 1"
    and old: "own t sl i \<and> place (sl i) = place k \<or> \<not> own t sl i \<and> m (place k) = None"
  shows "tracks t (sl(i := k)) (m(place k \<mapsto> kept_view k))"
proof -
  have diff: "place (sl j) \<noteq> place k" if "own t sl j" "j \<noteq> i" for j
    using tr old that unfolding tracks_def by (metis option.distinct(1))
  have o: "own t (sl(i := k)) j \<longleftrightarrow> j = i \<or> own t sl j" for j using k(1) by (simp add: own_upd)
  have inj: "a = b" if "own t (sl(i := k)) a" "own t (sl(i := k)) b" "place ((sl(i := k)) a) = place ((sl(i := k)) b)" for a b
    using that tr diff unfolding o tracks_def by (metis fun_upd_apply)
  have vals: "mk_rip ((sl(i := k)) j) \<noteq> 0 \<and> mk_phase ((sl(i := k)) j) \<le> 1 \<and>
      (m(place k \<mapsto> kept_view k)) (place ((sl(i := k)) j)) = Some (kept_view ((sl(i := k)) j))" if "own t (sl(i := k)) j" for j
    using that k tr diff [of j] unfolding o tracks_def by (cases "j = i") auto
  have "\<exists>j. own t (sl(i := k)) j \<and> place ((sl(i := k)) j) = q" if q: "(m(place k \<mapsto> kept_view k)) q = Some v" for q v
  proof (cases "q = place k")
    case True then show ?thesis by (intro exI [of _ i]) (simp add: o)
  next
    case False
    with q tr obtain j where "own t sl j" "place (sl j) = q" unfolding tracks_def by (metis fun_upd_apply)
    with False old show ?thesis by (intro exI [of _ j]) (auto simp: o tracks_def)
  qed
  with inj vals show ?thesis unfolding tracks_def by blast
qed

lemma tracks_drop:
  assumes tr: "tracks t sl m" and i: "own t sl i" and k: "\<not> own t (\<lambda>_. k) 0"
  shows "tracks t (sl(i := k)) (m(place (sl i) := None))"
proof -
  have o: "own t (sl(i := k)) j \<longleftrightarrow> j \<noteq> i \<and> own t sl j" for j using k by (auto simp: own_upd simp del: own_const)
  have diff: "own t sl j \<Longrightarrow> j \<noteq> i \<Longrightarrow> place (sl j) \<noteq> place (sl i)" for j using tr i unfolding tracks_def by blast
  then show ?thesis using tr unfolding tracks_def o by (auto split: if_splits) metis
qed

section \<open>What a thread knows at each point\<close>

fun holds :: "mr_pc \<Rightarrow> nat option" where
  "holds (Count i s r) = Some i"
| "holds (Store i cs a) = Some i"
| "holds _ = None"

definition stored :: "(cell \<times> u64) list \<Rightarrow> marker \<Rightarrow> marker" where
  "stored cs = fold (\<lambda>(c, v). put_cell c v) cs"

fun op_of :: "u64 \<Rightarrow> u64 \<Rightarrow> purpose \<Rightarrow> marker_op" where
  "op_of s r (ForConsume c) = Consume s r c"
| "op_of s r ForCancel = Cancel s r"

definition done_ok :: "u64 \<Rightarrow> (nat \<Rightarrow> marker) \<Rightarrow> marker_op \<Rightarrow> marker_map \<Rightarrow> op_result \<Rightarrow> bool" where
  "done_ok t sl p m a \<longleftrightarrow> (\<exists>m'. spec_op p a m = Some m' \<and> tracks t sl m')"

definition retiring :: "u64 \<Rightarrow> (nat \<Rightarrow> marker) \<Rightarrow> u64 \<Rightarrow> marker_map \<Rightarrow> nat list \<Rightarrow> bool" where
  "retiring t sl s m is \<longleftrightarrow> (\<exists>m1. tracks t sl m1 \<and> (\<forall>k. s < fst k \<longrightarrow> m1 k = m k) \<and>
     (\<forall>i. own t sl i \<and> mk_stack (sl i) \<le> s \<longrightarrow> i \<in> set is))"

fun cont_ok :: "u64 \<Rightarrow> (nat \<Rightarrow> marker) \<Rightarrow> marker_op \<Rightarrow> marker_map \<Rightarrow> cont \<Rightarrow> bool" where
  "cont_ok t sl p m (Finish a) \<longleftrightarrow> done_ok t sl p m a"
| "cont_ok t sl p m (RetireRest s is) \<longleftrightarrow> p = Retire s \<and> retiring t sl s m is"

definition searching :: "u64 \<Rightarrow> (nat \<Rightarrow> marker) \<Rightarrow> marker_op \<Rightarrow> marker_map \<Rightarrow> u64 \<Rightarrow> u64 \<Rightarrow> purpose \<Rightarrow> nat list \<Rightarrow> bool" where
  "searching t sl p m s r q is \<longleftrightarrow> p = op_of s r q \<and> tracks t sl m \<and> (\<forall>i. own t sl i \<and> place (sl i) = (s, r) \<longrightarrow> i \<in> set is)"

definition arming :: "u64 \<Rightarrow> (nat \<Rightarrow> marker) \<Rightarrow> marker_op \<Rightarrow> marker_map \<Rightarrow> u64 \<Rightarrow> u64 \<Rightarrow> bool" where
  "arming t sl p m s r \<longleftrightarrow> p = Arm s r \<and> s \<noteq> 0 \<and> s \<noteq> RESERVED \<and> r \<noteq> 0 \<and> m (s, r) = None \<and> tracks t sl m"

definition at_place :: "u64 \<Rightarrow> (nat \<Rightarrow> marker) \<Rightarrow> nat \<Rightarrow> u64 \<Rightarrow> u64 \<Rightarrow> bool" where
  "at_place t sl i s r \<longleftrightarrow> own t sl i \<and> place (sl i) = (s, r)"

fun local_ok :: "u64 \<Rightarrow> (nat \<Rightarrow> marker) \<Rightarrow> marker_op \<Rightarrow> marker_map \<Rightarrow> mr_pc \<Rightarrow> bool" where
  "local_ok t sl p m Idle \<longleftrightarrow> tracks t sl m"
| "local_ok t sl p m (Answer a) \<longleftrightarrow> done_ok t sl p m a"
| "local_ok t sl p m (Probe s r is) \<longleftrightarrow> arming t sl p m s r \<and> set is \<subseteq> {..<MARKER_CAPACITY}"
| "local_ok t sl p m (Count i s r) \<longleftrightarrow> arming t sl p m s r"
| "local_ok t sl p m (Store i cs (Publish s)) \<longleftrightarrow> (\<exists>r. arming t sl p m s r \<and> (\<forall>v. (CellTid, v) \<in> set cs \<longrightarrow> v = t) \<and>
     (let k = stored cs (sl i) in mk_tid k = t \<and> mk_rip k = r \<and> mk_phase k = 0))"
| "local_ok t sl p m (Store i cs (Unreserve k)) \<longleftrightarrow> cont_ok t sl p m k \<and> (\<forall>v. (CellTid, v) \<in> set cs \<longrightarrow> v = 0) \<and> mk_tid (stored cs (sl i)) = 0"
| "local_ok t sl p m (FindActive s r q) \<longleftrightarrow> p = op_of s r q \<and> tracks t sl m"
| "local_ok t sl p m (FindStack s r q is) \<longleftrightarrow> searching t sl p m s r q is"
| "local_ok t sl p m (FindTid s r q i is) \<longleftrightarrow> searching t sl p m s r q (i # is) \<and> (own t sl i \<longrightarrow> mk_stack (sl i) = s)"
| "local_ok t sl p m (FindRip s r q i is) \<longleftrightarrow> searching t sl p m s r q (i # is) \<and> own t sl i \<and> mk_stack (sl i) = s"
| "local_ok t sl p m (Claim i s c) \<longleftrightarrow> (\<exists>r. p = Consume s r c \<and> at_place t sl i s r \<and> tracks t sl m)"
| "local_ok t sl p m (Save i cs) \<longleftrightarrow> (\<exists>s r c. p = Consume s r c \<and> at_place t sl i s r \<and> fst ` set cs \<subseteq> set saved_cells \<and>
     m (s, r) = Some Armed \<and> tracks t (sl(i := stored cs (sl i))) (m((s, r) \<mapsto> Routed c)))"
| "local_ok t sl p m (Reclaim i s) \<longleftrightarrow> (\<exists>r c. p = Consume s r c \<and> at_place t sl i s r \<and> tracks t sl m \<and> mk_phase (sl i) = 1)"
| "local_ok t sl p m (Load i s cs f) \<longleftrightarrow> (\<exists>r c. p = Consume s r c \<and> at_place t sl i s r \<and> set cs \<subseteq> set saved_cells \<and>
     m (s, r) = Some (Routed (kept_context (sl i))) \<and> (\<forall>c \<in> set saved_cells - set cs. f c = get_cell c (sl i)) \<and>
     tracks t (sl(i := MARKER_EMPTY)) (m((s, r) := None)))"
| "local_ok t sl p m (Release i s k) \<longleftrightarrow> own t sl i \<and> mk_stack (sl i) = s \<and> cont_ok t (sl(i := MARKER_EMPTY)) p m k"
| "local_ok t sl p m (Sub k) \<longleftrightarrow> cont_ok t sl p m k"
| "local_ok t sl p m (RetireActive s) \<longleftrightarrow> p = Retire s \<and> tracks t sl m"
| "local_ok t sl p m (RetireTid s is) \<longleftrightarrow> p = Retire s \<and> retiring t sl s m is"
| "local_ok t sl p m (RetireStack s i is) \<longleftrightarrow> p = Retire s \<and> retiring t sl s m (i # is) \<and> own t sl i"
| "local_ok t sl p m (RetireCheck s i v is) \<longleftrightarrow> p = Retire s \<and> retiring t sl s m (i # is) \<and> own t sl i \<and> mk_stack (sl i) = v \<and> v \<le> s"

lemma continue_ok: "cont_ok t sl p m k \<Longrightarrow> local_ok t sl p m (continue k)"
  by (cases k) auto

text \<open>No other thread touches the slots a thread owns or holds, and none appears in its name.\<close>

definition stable :: "u64 \<Rightarrow> mr_pc \<Rightarrow> (nat \<Rightarrow> marker) \<Rightarrow> (nat \<Rightarrow> marker) \<Rightarrow> bool" where
  "stable t pc sl sl' \<longleftrightarrow> same_own t sl sl' \<and> (\<forall>i. holds pc = Some i \<longrightarrow> sl' i = sl i)"

lemma same_own_iff: "same_own t sl sl' \<Longrightarrow> own t sl' i \<longleftrightarrow> own t sl i"
  by (auto simp: same_own_def)

lemma same_own_eq: "same_own t sl sl' \<Longrightarrow> own t sl i \<Longrightarrow> sl' i = sl i"
  by (auto simp: same_own_def)

lemma same_own_upd: "same_own t sl sl' \<Longrightarrow> same_own t (sl(i := k)) (sl'(i := k))"
  by (auto simp: same_own_def own_upd simp del: own_const)

lemma done_same: "same_own t sl sl' \<Longrightarrow> done_ok t sl' p m a \<longleftrightarrow> done_ok t sl p m a"
  by (simp add: done_ok_def tracks_same)

lemma retiring_same: "same_own t sl sl' \<Longrightarrow> retiring t sl s m is \<Longrightarrow> retiring t sl' s m is"
  by (simp add: retiring_def tracks_same same_own_iff same_own_eq cong: conj_cong)

lemma cont_same: "same_own t sl sl' \<Longrightarrow> cont_ok t sl p m k \<Longrightarrow> cont_ok t sl' p m k"
  by (cases k) (auto simp: done_same retiring_same)

lemma searching_same: "same_own t sl sl' \<Longrightarrow> searching t sl p m s r q is \<Longrightarrow> searching t sl' p m s r q is"
  by (simp add: searching_def tracks_same same_own_iff same_own_eq cong: conj_cong)

lemma arming_same: "same_own t sl sl' \<Longrightarrow> arming t sl' p m s r \<longleftrightarrow> arming t sl p m s r"
  by (simp add: arming_def tracks_same)

lemma at_place_same: "same_own t sl sl' \<Longrightarrow> at_place t sl i s r \<Longrightarrow> at_place t sl' i s r \<and> sl' i = sl i"
  by (simp add: at_place_def same_own_iff same_own_eq)

lemma local_stable:
  assumes "stable t pc sl sl'" "local_ok t sl p m pc"
  shows "local_ok t sl' p m pc"
proof -
  have s: "same_own t sl sl'" using assms(1) by (simp add: stable_def)
  have h: "holds pc = Some i \<Longrightarrow> sl' i = sl i" for i using assms(1) by (simp add: stable_def)
  note upd = same_own_upd [OF s]
  note simps = tracks_same [OF s] done_same [OF s] arming_same [OF s] same_own_iff [OF s]
  note rules = retiring_same [OF s] cont_same [OF s] searching_same [OF s] at_place_same [OF s]
  note eq = same_own_eq [OF s]
  show ?thesis
  proof (cases "(t, sl, p, m, pc)" rule: local_ok.cases)
    case (12 t sl p m i cs)
    then obtain s r c where e: "p = Consume s r c" "at_place t sl i s r" "fst ` set cs \<subseteq> set saved_cells" "m (s, r) = Some Armed"
        "tracks t (sl(i := stored cs (sl i))) (m((s, r) \<mapsto> Routed c))" using assms(2) by auto
    with 12 rules(4) [of i s r] tracks_same [OF upd, of i "stored cs (sl i)"] show ?thesis by auto
  next
    case (14 t sl p m i s cs f)
    then obtain r c where e: "p = Consume s r c" "at_place t sl i s r" using assms(2) by auto
    with 14 assms(2) rules(4) [of i s r] tracks_same [OF upd, of i MARKER_EMPTY] show ?thesis by auto
  next
    case (15 t sl p m i s k)
    with assms eq [of i] cont_same [OF upd, of i MARKER_EMPTY] same_own_iff [OF s, of i] show ?thesis by auto
  qed (use assms(2) h eq in \<open>auto simp: simps at_place_def intro: rules(1-3)\<close>)
qed

section \<open>Each access keeps what its thread knows\<close>

text \<open>What the table as a whole promises the thread \<open>t\<close> at \<open>pc\<close>.\<close>

definition promised :: "u64 \<Rightarrow> mr_pc \<Rightarrow> mr_shared \<Rightarrow> bool" where
  "promised t pc h \<longleftrightarrow> t \<noteq> 0 \<and> (\<forall>i. mk_tid (ms_slots h i) = t \<longrightarrow> holds pc \<noteq> Some i \<longrightarrow> own t (ms_slots h) i) \<and>
     (\<forall>i. holds pc = Some i \<longrightarrow> mk_stack (ms_slots h i) = RESERVED) \<and> (\<forall>i. own t (ms_slots h) i \<longrightarrow> ms_active h \<noteq> 0 \<and> i < MARKER_CAPACITY)"

lemma put_slot_sel [simp]: "ms_slots (put_slot i k h) = (ms_slots h)(i := k)" "ms_active (put_slot i k h) = ms_active h"
  by (simp_all add: put_slot_def)

lemma stored_simps [simp]: "stored [] k = k" "stored ((c, v) # cs) k = stored cs (put_cell c v k)"
  by (simp_all add: stored_def)

lemma put_cell_stack [simp]: "mk_stack (put_cell c v k) = mk_stack k"
  by (cases c) auto

lemma stored_stack [simp]: "mk_stack (stored cs k) = mk_stack k"
  by (induction cs arbitrary: k) auto

lemma not_own_word: "mk_stack k \<in> {0, RESERVED} \<Longrightarrow> \<not> own t (\<lambda>_. k) 0"
  by auto

lemma not_own_at: "mk_stack (sl i) \<in> {0, RESERVED} \<Longrightarrow> \<not> own t sl i"
  by (auto simp: own_def)

lemma cont_other: "\<not> own t sl i \<Longrightarrow> \<not> own t (\<lambda>_. k) 0 \<Longrightarrow> cont_ok t sl p m c \<Longrightarrow> cont_ok t (sl(i := k)) p m c"
  by (rule cont_same [rotated]) (auto simp: same_own_def own_upd simp del: own_const)

lemma arming_other: "\<not> own t sl i \<Longrightarrow> \<not> own t (\<lambda>_. k) 0 \<Longrightarrow> arming t sl p m s r \<Longrightarrow> arming t (sl(i := k)) p m s r"
  by (simp add: arming_def tracks_other del: own_const)

lemma step_probe:
  "mr_next t h (Probe s r is) = Some (h', pc') \<Longrightarrow> local_ok t (ms_slots h) p m (Probe s r is) \<Longrightarrow> local_ok t (ms_slots h') p m pc'"
  by (cases "is") (auto simp: done_ok_def arming_def tracks_other own_def split: if_splits)

lemma step_count:
  "mr_next t h (Count i s r) = Some (h', pc') \<Longrightarrow> local_ok t (ms_slots h) p m (Count i s r) \<Longrightarrow> local_ok t (ms_slots h') p m pc'"
  by (auto simp: Let_def)

lemma step_publish:
  assumes "mr_next t h (Store i cs (Publish s)) = Some (h', pc')" "local_ok t (ms_slots h) p m (Store i cs (Publish s))"
    and res: "mk_stack (ms_slots h i) = RESERVED"
  shows "local_ok t (ms_slots h') p m pc'"
proof (cases cs)
  case Nil
  obtain r where r: "arming t (ms_slots h) p m s r" "mk_tid (ms_slots h i) = t" "mk_rip (ms_slots h i) = r" "mk_phase (ms_slots h i) = 0"
    using assms(2) Nil by (auto simp: Let_def)
  let ?k = "(ms_slots h i)\<lparr>mk_stack := s\<rparr>"
  have "tracks t ((ms_slots h)(i := ?k)) (m(place ?k \<mapsto> kept_view ?k))"
    by (rule tracks_put) (use r res in \<open>auto simp: arming_def place_def own_def\<close>)
  with r assms(1) Nil show ?thesis by (auto simp: done_ok_def arming_def place_def kept_view_def)
next
  case (Cons a cs')
  with assms show ?thesis
    by (cases a) (auto simp: Let_def arming_other not_own_at not_own_word simp del: own_const)
qed

lemma step_unreserve:
  assumes "mr_next t h (Store i cs (Unreserve k)) = Some (h', pc')" "local_ok t (ms_slots h) p m (Store i cs (Unreserve k))"
    and "mk_stack (ms_slots h i) = RESERVED"
  shows "local_ok t (ms_slots h') p m pc'"
  using assms by (cases cs) (auto simp: cont_other not_own_at not_own_word simp del: own_const)

lemma step_sub: "mr_next t h (Sub k) = Some (h', pc') \<Longrightarrow> local_ok t (ms_slots h) p m (Sub k) \<Longrightarrow> local_ok t (ms_slots h') p m pc'"
  by (auto simp: continue_ok)

lemma step_release:
  assumes "mr_next t h (Release i s k) = Some (h', pc')" "local_ok t (ms_slots h) p m (Release i s k)"
  shows "local_ok t (ms_slots h') p m pc'"
proof -
  let ?sl = "(ms_slots h)(i := MARKER_EMPTY)" and ?k = "(ms_slots h i)\<lparr>mk_stack := RESERVED\<rparr>"
  have "\<not> own t ?sl i" by (simp add: own_def MARKER_EMPTY_def)
  then have "cont_ok t (?sl(i := ?k)) p m k" by (rule cont_other) (use assms(2) in simp_all)
  with assms show ?thesis by (auto simp: release_stores_def)
qed

lemma missing_ok: "tracks t sl m \<Longrightarrow> m (s, r) = None \<Longrightarrow> done_ok t sl (op_of s r q) m (missing q)"
proof -
  assume "tracks t sl m" "m (s, r) = None"
  moreover from this have "m((s, r) := None) = m" by auto
  ultimately show ?thesis by (cases q) (simp_all add: done_ok_def)
qed

lemma tracks_at: "tracks t sl m \<Longrightarrow> at_place t sl i s r \<Longrightarrow> m (s, r) = Some (kept_view (sl i)) \<and> mk_phase (sl i) \<le> 1 \<and> mk_rip (sl i) = r \<and> r \<noteq> 0"
  by (auto simp: tracks_def at_place_def place_def)

lemma tracks_none: "tracks t sl m \<Longrightarrow> (\<And>i. \<not> (own t sl i \<and> place (sl i) = q)) \<Longrightarrow> m q = None"
  by (rule ccontr) (metis not_Some_eq tracks_def)

lemma step_find_active:
  assumes "mr_next t h (FindActive s r q) = Some (h', pc')" "local_ok t (ms_slots h) p m (FindActive s r q)" "promised t (FindActive s r q) h"
  shows "local_ok t (ms_slots h') p m pc'"
proof (cases "ms_active h = 0")
  case True
  have "m (s, r) = None" by (rule tracks_none) (use assms(2,3) True in \<open>auto simp: promised_def\<close>)
  with assms True show ?thesis by (auto intro: missing_ok)
next
  case False
  with assms show ?thesis by (auto simp: searching_def promised_def probe_covers)
qed

lemma step_find_stack:
  assumes "mr_next t h (FindStack s r q is) = Some (h', pc')" "local_ok t (ms_slots h) p m (FindStack s r q is)"
  shows "local_ok t (ms_slots h') p m pc'"
proof (cases "is")
  case Nil
  with assms(2) have "m (s, r) = None" by (auto simp: searching_def intro: tracks_none)
  with assms Nil show ?thesis by (auto simp: searching_def intro: missing_ok)
next
  case (Cons i rest)
  with assms show ?thesis by (auto simp: searching_def place_def)
qed

lemma step_find_tid:
  assumes "mr_next t h (FindTid s r q i is) = Some (h', pc')" "local_ok t (ms_slots h) p m (FindTid s r q i is)" "promised t (FindTid s r q i is) h"
  shows "local_ok t (ms_slots h') p m pc'"
proof (cases "mk_tid (ms_slots h i) = t")
  case True
  then have "own t (ms_slots h) i" using assms(3) by (auto simp: promised_def)
  with True assms(1,2) show ?thesis by auto
next
  case False
  then have "\<not> own t (ms_slots h) i" by (simp add: own_def)
  with False assms(1,2) show ?thesis by (auto simp: searching_def)
qed

lemma step_find_rip:
  assumes "mr_next t h (FindRip s r q i is) = Some (h', pc')" "local_ok t (ms_slots h) p m (FindRip s r q i is)"
  shows "local_ok t (ms_slots h') p m pc'"
proof (cases "mk_rip (ms_slots h i) = r")
  case True
  then have p: "p = op_of s r q" and at: "at_place t (ms_slots h) i s r" and tr: "tracks t (ms_slots h) m"
    using assms(2) by (auto simp: searching_def at_place_def place_def)
  have "tracks t ((ms_slots h)(i := MARKER_EMPTY)) (m(place (ms_slots h i) := None))"
    by (rule tracks_drop) (use tr at in \<open>auto simp: at_place_def MARKER_EMPTY_def\<close>)
  with p at tr assms True show ?thesis by (cases q) (auto simp: done_ok_def at_place_def place_def)
next
  case False
  with assms show ?thesis by (auto simp: searching_def place_def)
qed

lemma word_le_one: "(x :: u64) \<le> 1 \<Longrightarrow> x \<noteq> 0 \<Longrightarrow> x = 1"
  by unat_arith

lemma step_claim:
  assumes step: "mr_next t h (Claim i s c) = Some (h', pc')" and ok: "local_ok t (ms_slots h) p m (Claim i s c)" and "sane_op p"
  shows "local_ok t (ms_slots h') p m pc'"
proof -
  obtain r where p: "p = Consume s r c" and at: "at_place t (ms_slots h) i s r" and tr: "tracks t (ms_slots h) m" using ok by auto
  have c: "good_context c" using \<open>sane_op p\<close> p by simp
  note m = tracks_at [OF tr at]
  let ?k = "(ms_slots h i)\<lparr>mk_phase := 1\<rparr>"
  let ?k' = "stored (save_stores c) ?k"
  have pl: "place ?k' = (s, r)" "own t (\<lambda>_. ?k') 0" "mk_phase ?k' = 1" "mk_rip ?k' = r" using at
    by (auto simp: save_stores_def place_def at_place_def own_def [of t "ms_slots h"])
  have view: "kept_view ?k' = Routed c" using c pl(3)
    by (cases c) (simp add: kept_view_def kept_context_def loaded_context_def save_stores_def good_context_def unhalves_halves)
  have "tracks t ((ms_slots h)(i := ?k')) (m(place ?k' \<mapsto> kept_view ?k'))"
    by (rule tracks_put [OF tr]) (use pl m at in \<open>auto simp: at_place_def simp del: own_const\<close>)
  then have saved: "tracks t ((ms_slots h)(i := ?k')) (m((s, r) \<mapsto> Routed c))" by (simp add: pl view)
  show ?thesis
  proof (cases "mk_phase (ms_slots h i) = 0")
    case True
    have "at_place t ((ms_slots h)(i := ?k)) i s r" using at by (auto simp: at_place_def place_def own_def)
    moreover have "fst ` set (save_stores c) \<subseteq> set saved_cells" by (auto simp: save_stores_def saved_cells_def)
    moreover have "m (s, r) = Some Armed" using m True by (simp add: kept_view_def)
    ultimately show ?thesis using step True p saved by auto
  next
    case False
    have "mk_phase (ms_slots h i) = 1" using m False by (auto intro: word_le_one)
    with step False p at tr show ?thesis by auto
  qed
qed

lemma step_save:
  assumes "mr_next t h (Save i cs) = Some (h', pc')" "local_ok t (ms_slots h) p m (Save i cs)"
  shows "local_ok t (ms_slots h') p m pc'"
proof (cases cs)
  case Nil
  with assms show ?thesis by (auto simp: done_ok_def)
next
  case (Cons a cs')
  have tid: "mk_tid (put_cell c v k) = mk_tid k" "mk_rip (put_cell c v k) = mk_rip k" if "c \<in> set saved_cells" for c v k
    using that by (auto simp: saved_cells_def)
  obtain c v where a: "a = (c, v)" by (cases a)
  obtain s r ctx where p: "p = Consume s r ctx" "at_place t (ms_slots h) i s r" using assms(2) by auto
  have "c \<in> set saved_cells" using assms(2) Cons a by auto
  with p(2) tid have "at_place t ((ms_slots h)(i := put_cell c v (ms_slots h i))) i s r" by (auto simp: at_place_def own_def place_def)
  with assms Cons a p show ?thesis by auto
qed

lemma step_reclaim:
  assumes step: "mr_next t h (Reclaim i s) = Some (h', pc')" and ok: "local_ok t (ms_slots h) p m (Reclaim i s)"
  shows "local_ok t (ms_slots h') p m pc'"
proof -
  obtain r c where p: "p = Consume s r c" and at: "at_place t (ms_slots h) i s r" and tr: "tracks t (ms_slots h) m"
    and ph: "mk_phase (ms_slots h i) = 1" using ok by auto
  let ?k = "(ms_slots h i)\<lparr>mk_phase := 2\<rparr>"
  have "tracks t ((ms_slots h)(i := MARKER_EMPTY)) (m(place (ms_slots h i) := None))"
    by (rule tracks_drop) (use tr at in \<open>auto simp: at_place_def MARKER_EMPTY_def\<close>)
  moreover have "at_place t ((ms_slots h)(i := ?k)) i s r" using at by (auto simp: at_place_def place_def own_def)
  moreover have "m (s, r) = Some (Routed (kept_context ?k))" using tracks_at [OF tr at] ph
    by (simp add: kept_view_def kept_context_def loaded_context_def)
  ultimately show ?thesis using step ph p at by (auto simp: at_place_def)
qed

lemma loaded_cong: "(\<forall>c \<in> set saved_cells. f c = get_cell c k) \<Longrightarrow> loaded_context f = kept_context k"
  by (simp add: saved_cells_def kept_context_def loaded_context_def)

lemma step_load:
  assumes "mr_next t h (Load i s cs f) = Some (h', pc')" "local_ok t (ms_slots h) p m (Load i s cs f)"
  shows "local_ok t (ms_slots h') p m pc'"
proof (cases cs)
  case Nil
  with assms(2) have "loaded_context f = kept_context (ms_slots h i)" by (auto intro: loaded_cong)
  with assms Nil show ?thesis by (auto simp: at_place_def place_def done_ok_def)
next
  case (Cons c cs')
  with assms show ?thesis by auto
qed

lemma step_retire_active:
  assumes "mr_next t h (RetireActive s) = Some (h', pc')" "local_ok t (ms_slots h) p m (RetireActive s)" "promised t (RetireActive s) h"
  shows "local_ok t (ms_slots h') p m pc'"
proof (cases "ms_active h = 0")
  case True
  have "m q = None" for q by (rule tracks_none) (use assms(2,3) True in \<open>auto simp: promised_def\<close>)
  then have "m = Map.empty" by auto
  with assms True show ?thesis by (auto simp: done_ok_def)
next
  case False
  with assms show ?thesis by (auto simp: retiring_def promised_def)
qed

lemma retiring_skip: "retiring t sl s m (i # is) \<Longrightarrow> \<not> (own t sl i \<and> mk_stack (sl i) \<le> s) \<Longrightarrow> retiring t sl s m is"
  by (auto simp: retiring_def)

lemma step_retire_tid:
  assumes "mr_next t h (RetireTid s is) = Some (h', pc')" "local_ok t (ms_slots h) p m (RetireTid s is)" "promised t (RetireTid s is) h"
  shows "local_ok t (ms_slots h') p m pc'"
proof (cases "is")
  case Nil
  obtain m1 where m1: "tracks t (ms_slots h) m1" "\<forall>k. s < fst k \<longrightarrow> m1 k = m k" "\<forall>i. own t (ms_slots h) i \<longrightarrow> \<not> mk_stack (ms_slots h i) \<le> s"
    using assms(2) Nil by (auto simp: retiring_def)
  have "m1 q = None" if "fst q \<le> s" for q
    by (rule tracks_none [OF m1(1)]) (use that m1(3) in \<open>auto simp: place_def\<close>)
  with m1(2) have "m1 = (\<lambda>k. if fst k \<le> s then None else m k)" by (auto simp: not_le)
  with assms Nil m1(1) show ?thesis by (auto simp: done_ok_def)
next
  case (Cons i rest)
  have "mk_tid (ms_slots h i) = t \<longleftrightarrow> own t (ms_slots h) i" using assms(3) by (auto simp: promised_def own_def)
  with Cons assms(1,2) show ?thesis by (auto intro: retiring_skip)
qed

lemma step_retire_stack:
  assumes "mr_next t h (RetireStack s i is) = Some (h', pc')" "local_ok t (ms_slots h) p m (RetireStack s i is)"
  shows "local_ok t (ms_slots h') p m pc'"
proof -
  have "mk_stack (ms_slots h i) \<noteq> 0" "mk_stack (ms_slots h i) \<noteq> RESERVED" using assms(2) by (auto simp: own_def)
  with assms show ?thesis using retiring_skip [of t "ms_slots h" s m i "is"] by (auto simp: Let_def not_less)
qed

lemma step_retire_check:
  assumes "mr_next t h (RetireCheck s i v is) = Some (h', pc')" "local_ok t (ms_slots h) p m (RetireCheck s i v is)"
  shows "local_ok t (ms_slots h') p m pc'"
proof -
  have i: "own t (ms_slots h) i" "mk_stack (ms_slots h i) = v" "v \<le> s" "p = Retire s" using assms(2) by auto
  obtain m1 where m1: "tracks t (ms_slots h) m1" "\<forall>k. s < fst k \<longrightarrow> m1 k = m k"
      "\<forall>j. own t (ms_slots h) j \<and> mk_stack (ms_slots h j) \<le> s \<longrightarrow> j \<in> set (i # is)" using assms(2) by (auto simp: retiring_def)
  have e: "\<not> own t (\<lambda>_. MARKER_EMPTY) 0" by (simp add: MARKER_EMPTY_def)
  have "retiring t ((ms_slots h)(i := MARKER_EMPTY)) s m is" unfolding retiring_def
    by (rule exI [of _ "m1(place (ms_slots h i) := None)"])
      (use m1 i e in \<open>auto simp: own_upd place_def simp del: own_const intro!: tracks_drop [of _ _ _ i, simplified place_def]\<close>)
  with i assms(1) show ?thesis by (auto simp: own_def)
qed

lemma step_store:
  assumes "mr_next t h (Store i cs a) = Some (h', pc')" "local_ok t (ms_slots h) p m (Store i cs a)" "promised t (Store i cs a) h"
  shows "local_ok t (ms_slots h') p m pc'"
proof -
  have "mk_stack (ms_slots h i) = RESERVED" using assms(3) by (simp add: promised_def)
  with assms step_publish step_unreserve show ?thesis by (cases a) metis+
qed

lemma local_step:
  assumes "mr_next t h pc = Some (h', pc')" "local_ok t (ms_slots h) p m pc" "promised t pc h" "sane_op p"
  shows "local_ok t (ms_slots h') p m pc'"
  using assms
  by (cases pc; hypsubst)
    ((rule step_probe step_count step_store step_find_active step_find_stack step_find_tid step_find_rip step_claim step_save step_reclaim
      step_load step_release step_sub step_retire_active step_retire_tid step_retire_stack step_retire_check; assumption | simp)+)

section \<open>The table as a whole\<close>

definition shape :: "(nat \<Rightarrow> marker) \<Rightarrow> (u64 \<Rightarrow> nat option) \<Rightarrow> bool" where
  "shape sl ho \<longleftrightarrow> (\<forall>t i. ho t = Some i \<longrightarrow> mk_stack (sl i) = RESERVED \<and> mk_tid (sl i) \<in> {0, t}) \<and>
     (\<forall>t u i. ho t = Some i \<and> ho u = Some i \<longrightarrow> t = u) \<and> (\<forall>i. mk_stack (sl i) = 0 \<longrightarrow> mk_tid (sl i) = 0) \<and>
     (\<forall>i. mk_stack (sl i) \<noteq> 0 \<longrightarrow> i < MARKER_CAPACITY) \<and>
     (\<forall>i. mk_stack (sl i) = RESERVED \<and> mk_tid (sl i) \<noteq> 0 \<longrightarrow> ho (mk_tid (sl i)) = Some i)"

lemma shapeD:
  assumes "shape sl ho"
  shows "ho t = Some i \<Longrightarrow> mk_stack (sl i) = RESERVED" "ho t = Some i \<Longrightarrow> mk_tid (sl i) \<in> {0, t}"
    "ho t = Some i \<Longrightarrow> ho u = Some i \<Longrightarrow> t = u" "mk_stack (sl i) = 0 \<Longrightarrow> mk_tid (sl i) = 0"
    "mk_stack (sl i) \<noteq> 0 \<Longrightarrow> i < MARKER_CAPACITY" "mk_stack (sl i) = RESERVED \<Longrightarrow> mk_tid (sl i) = t \<Longrightarrow> t \<noteq> 0 \<Longrightarrow> ho t = Some i"
  using assms unfolding shape_def by blast+

text \<open>A write by \<open>t\<close>: to the slot it holds, to one it owns, or to a free one; it ends holding the slot exactly when it is reserved.\<close>

definition slot_change :: "u64 \<Rightarrow> (nat \<Rightarrow> marker) \<Rightarrow> nat option \<Rightarrow> nat \<Rightarrow> marker \<Rightarrow> nat option \<Rightarrow> bool" where
  "slot_change t sl x i k y \<longleftrightarrow> i < MARKER_CAPACITY \<and> (x = Some i \<or> x = None \<and> (own t sl i \<or> mk_stack (sl i) = 0)) \<and> mk_tid k \<in> {0, t} \<and>
     (y = Some i \<and> mk_stack k = RESERVED \<or> y = None \<and> mk_stack k \<noteq> RESERVED) \<and> (mk_stack k = 0 \<longrightarrow> mk_tid k = 0)"

lemma shape_change:
  assumes sh: "shape sl ho" and ch: "slot_change t sl (ho t) i k y" and "t \<noteq> 0"
  shows "shape (sl(i := k)) (ho(t := y))"
proof -
  note D = shapeD [OF sh]
  have other: "ho u \<noteq> Some i" if "u \<noteq> t" for u
    using that ch D(1) [of u i] D(3) [of u i t] by (auto simp: slot_change_def own_def)
  have y: "y = Some j \<Longrightarrow> j = i \<and> mk_stack k = RESERVED" for j using ch by (auto simp: slot_change_def)
  have k: "mk_tid k \<in> {0, t}" "mk_stack k = 0 \<Longrightarrow> mk_tid k = 0" "mk_stack k = RESERVED \<Longrightarrow> y = Some i" "i < MARKER_CAPACITY"
    using ch by (auto simp: slot_change_def)
  have t: "ho t = Some j \<Longrightarrow> j = i" for j using ch by (auto simp: slot_change_def)
  show ?thesis unfolding shape_def
  proof (intro conjI allI impI)
    fix u j assume "(ho(t := y)) u = Some j"
    then have "u = t \<and> j = i \<and> mk_stack k = RESERVED \<or> u \<noteq> t \<and> j \<noteq> i \<and> ho u = Some j"
      using y [of j] other [of u] by (cases "u = t") auto
    then show "mk_stack ((sl(i := k)) j) = RESERVED" "mk_tid ((sl(i := k)) j) \<in> {0, u}"
      using k(1) D(1) [of u j] D(2) [of u j] by auto
  next
    fix u v j assume "(ho(t := y)) u = Some j \<and> (ho(t := y)) v = Some j"
    then show "u = v" using y [of j] other [of u] other [of v] D(3) [of u j v] by (auto split: if_splits)
  next
    fix j
    show "mk_stack ((sl(i := k)) j) = 0 \<Longrightarrow> mk_tid ((sl(i := k)) j) = 0" using k D(4) by (auto split: if_splits)
    show "mk_stack ((sl(i := k)) j) \<noteq> 0 \<Longrightarrow> j < MARKER_CAPACITY" using k D(5) by (auto split: if_splits)
    assume "mk_stack ((sl(i := k)) j) = RESERVED \<and> mk_tid ((sl(i := k)) j) \<noteq> 0"
    then show "(ho(t := y)) (mk_tid ((sl(i := k)) j)) = Some j"
      using k t D(6) [of j] by (cases "j = i") auto
  qed
qed

lemma stable_change:
  assumes sh: "shape sl ho" and ch: "slot_change t sl (ho t) i k y" and u: "u \<noteq> t" "u \<noteq> 0" "ho u = holds pc"
  shows "stable u pc sl (sl(i := k))"
proof -
  note D = shapeD [OF sh]
  have "holds pc \<noteq> Some i" using u ch D(1) [of u i] D(3) [of u i t] by (auto simp: slot_change_def own_def)
  moreover have "mk_tid (sl i) \<noteq> u" using u ch D(2) [of t i] D(4) [of i] by (auto simp: slot_change_def own_def)
  moreover have "mk_tid k \<noteq> u" using u ch by (auto simp: slot_change_def)
  ultimately show ?thesis by (auto simp: stable_def same_own_def own_def)
qed

fun weight :: "mr_pc \<Rightarrow> u32" where
  "weight (Count i s r) = 1"
| "weight (Sub k) = - 1"
| "weight _ = 0"

definition taken :: "marker \<Rightarrow> u32" where
  "taken k = (if mk_stack k = 0 then 0 else 1)"

lemma continue_idle [simp]: "holds (continue k) = None" "weight (continue k) = 0"
  by (cases k; simp)+

definition reads :: "mr_shared \<Rightarrow> mr_pc \<Rightarrow> mr_shared \<Rightarrow> mr_pc \<Rightarrow> bool" where
  "reads h pc h' pc' \<longleftrightarrow> ms_slots h' = ms_slots h \<and> holds pc' = holds pc \<and> ms_active h' + weight pc' = ms_active h + weight pc"

definition writes :: "u64 \<Rightarrow> mr_shared \<Rightarrow> mr_pc \<Rightarrow> mr_shared \<Rightarrow> mr_pc \<Rightarrow> bool" where
  "writes t h pc h' pc' \<longleftrightarrow> (\<exists>i k. ms_slots h' = (ms_slots h)(i := k) \<and> slot_change t (ms_slots h) (holds pc) i k (holds pc') \<and>
     ms_active h' = ms_active h \<and> weight pc' + taken (ms_slots h i) = weight pc + taken k)"

lemma effect_held:
  assumes "mr_next t h (Store i cs a) = Some (h', pc')" "local_ok t (ms_slots h) p m (Store i cs a)"
    and "mk_stack (ms_slots h i) = RESERVED" "mk_tid (ms_slots h i) \<in> {0, t}" "i < MARKER_CAPACITY"
  shows "writes t h (Store i cs a) h' pc'"
proof (cases cs)
  case Nil
  with assms show ?thesis unfolding writes_def
    by (cases a; intro exI [of _ i]; force simp: slot_change_def taken_def arming_def)
next
  case (Cons x cs')
  obtain c v where x: "x = (c, v)" by (cases x)
  have "mk_tid (put_cell c v (ms_slots h i)) \<in> {0, t}" using assms(2,4) Cons x by (cases a; cases c) auto
  with assms Cons x show ?thesis unfolding writes_def
    by (intro exI [of _ i] exI [of _ "put_cell c v (ms_slots h i)"]) (auto simp: slot_change_def taken_def)
qed

lemma effect_own:
  assumes "ms_slots h' = (ms_slots h)(i := k)" and own: "own t (ms_slots h) i" and k: "mk_tid k = mk_tid (ms_slots h i)"
    and st: "mk_stack k = mk_stack (ms_slots h i) \<and> holds pc' = None \<or> mk_stack k = RESERVED \<and> holds pc' = Some i"
    and "holds pc = None" "ms_active h' = ms_active h" "weight pc' = weight pc" and sh: "shape (ms_slots h) ho"
  shows "writes t h pc h' pc'"
proof -
  have i: "mk_tid (ms_slots h i) = t" "mk_stack (ms_slots h i) \<noteq> 0" "mk_stack (ms_slots h i) \<noteq> RESERVED"
    using own by (auto simp: own_def)
  have "i < MARKER_CAPACITY" by (rule shapeD(5) [OF sh i(2)])
  with st i own k assms(5) have "slot_change t (ms_slots h) (holds pc) i k (holds pc')"
    by (elim disjE conjE) (simp_all add: slot_change_def)
  moreover have "taken k = taken (ms_slots h i)" using st i by (elim disjE) (simp_all add: taken_def)
  ultimately show ?thesis unfolding writes_def using assms by (intro exI [of _ i] exI [of _ k]) simp
qed

lemma effect:
  assumes step: "mr_next t h pc = Some (h', pc')" and ok: "local_ok t (ms_slots h) p m pc"
    and sh: "shape (ms_slots h) ho" and ho: "ho t = holds pc"
  shows "reads h pc h' pc' \<or> writes t h pc h' pc'"
proof -
  note D = shapeD [OF sh]
  note upd = effect_own [OF _ _ _ _ _ _ _ sh, of h' _ _ t pc' pc]
  show ?thesis
  proof (cases pc)
    case (Probe s r "is")
    show ?thesis
    proof (cases "\<exists>i js. is = i # js \<and> mk_stack (ms_slots h i) = 0")
      case True
      then obtain i js where i: "is = i # js" "mk_stack (ms_slots h i) = 0" by blast
      have "writes t h pc h' pc'" unfolding writes_def using i ok step Probe D(4) [of i]
        by (intro exI [of _ i] exI [of _ "(ms_slots h i)\<lparr>mk_stack := RESERVED\<rparr>"]) (auto simp: slot_change_def taken_def)
      then show ?thesis by blast
    next
      case False
      with step Probe show ?thesis by (cases "is") (auto simp: reads_def)
    qed
  next
    case (Store i cs a)
    have "ho t = Some i" using Store ho by simp
    then have "writes t h (Store i cs a) h' pc'"
      by (intro effect_held) (use step ok Store D(1) D(2) D(5) [of i] in auto)
    with Store show ?thesis by simp
  next
    case (Claim i s c)
    with ok have "own t (ms_slots h) i" by (auto simp: at_place_def)
    with step Claim upd [of i "(ms_slots h i)\<lparr>mk_phase := 1\<rparr>"] show ?thesis by (auto simp: reads_def split: if_splits)
  next
    case (Save i cs)
    with ok have i: "own t (ms_slots h) i" "fst ` set cs \<subseteq> set saved_cells" by (auto simp: at_place_def)
    have "mk_tid (put_cell c v k) = mk_tid k" if "c \<in> set saved_cells" for c v k using that by (auto simp: saved_cells_def)
    with i step Save upd [of i "put_cell (fst (hd cs)) (snd (hd cs)) (ms_slots h i)"] show ?thesis
      by (cases cs) (auto simp: reads_def)
  next
    case (Reclaim i s)
    with ok have "own t (ms_slots h) i" by (auto simp: at_place_def)
    with step Reclaim upd [of i "(ms_slots h i)\<lparr>mk_phase := 2\<rparr>"] show ?thesis by (auto simp: reads_def split: if_splits)
  next
    case (Release i s k)
    with step ok upd [of i "(ms_slots h i)\<lparr>mk_stack := RESERVED\<rparr>"] show ?thesis by auto
  next
    case (FindStack s r q "is")
    with step show ?thesis by (cases "is") (auto simp: reads_def)
  next
    case (FindRip s r q i "is")
    with step show ?thesis by (cases q) (auto simp: reads_def)
  next
    case (Load i s cs f)
    with step show ?thesis by (cases cs) (auto simp: reads_def)
  next
    case (RetireTid s "is")
    with step show ?thesis by (cases "is") (auto simp: reads_def)
  qed (use step in \<open>auto simp: reads_def Let_def\<close>)
qed

section \<open>The counter\<close>

text \<open>
  The counter lags behind the table by the threads that have reserved a slot and not yet counted it, and leads it by those that have
  freed one and not yet uncounted it. With fewer than \<open>2 ^ 31\<close> threads it cannot wrap to zero while a marker is published.
\<close>

definition counted :: "mr_shared \<Rightarrow> (u64 \<Rightarrow> mr_pc) \<Rightarrow> bool" where
  "counted h pcs \<longleftrightarrow> ms_active h + (\<Sum>u \<in> UNIV. weight (pcs u)) = (\<Sum>i < MARKER_CAPACITY. taken (ms_slots h i))"

lemma sum_upd: "finite A \<Longrightarrow> a \<in> A \<Longrightarrow> (\<Sum>u \<in> A. f ((g(a := b)) u)) = (\<Sum>u \<in> A. f (g u)) - f (g a) + (f b :: u32)"
proof -
  assume A: "finite A" "a \<in> A"
  have "(\<Sum>u \<in> A - {a}. f ((g(a := b)) u)) = (\<Sum>u \<in> A - {a}. f (g u))" by (rule sum.cong) auto
  then show ?thesis using A by (simp only: sum.remove [OF A]) simp
qed

lemma counter_balance:
  fixes a a' w w' W T x y :: u32
  assumes "a + W = T" "a' + w' + x = a + w + y"
  shows "a' + (W - w + w') = T - x + y"
proof -
  have "a' = a + w + y - x - w'" using assms(2) by (metis add_diff_cancel_right')
  with assms(1) show ?thesis by (simp add: algebra_simps)
qed

lemma pcs_sum: "(\<Sum>u \<in> UNIV. weight ((pcs(t := pc')) u)) = (\<Sum>u \<in> UNIV. weight (pcs u)) - weight (pcs t) + weight pc'"
  for pcs :: "u64 \<Rightarrow> mr_pc"
  by (rule sum_upd) auto

lemma counted_reads: "reads h (pcs t) h' pc' \<Longrightarrow> counted h pcs \<Longrightarrow> counted h' (pcs(t := pc'))"
  unfolding counted_def pcs_sum by (drule counter_balance [where x = 0 and y = 0]) (auto simp: reads_def)

lemma counted_writes: "writes t h (pcs t) h' pc' \<Longrightarrow> counted h pcs \<Longrightarrow> counted h' (pcs(t := pc'))"
proof -
  assume "writes t h (pcs t) h' pc'" and c: "counted h pcs"
  then obtain i k where w: "ms_slots h' = (ms_slots h)(i := k)" "i < MARKER_CAPACITY" "ms_active h' = ms_active h"
      "weight pc' + taken (ms_slots h i) = weight (pcs t) + taken k" by (auto simp: writes_def slot_change_def)
  have "(\<Sum>j < MARKER_CAPACITY. taken (ms_slots h' j)) = (\<Sum>j < MARKER_CAPACITY. taken (ms_slots h j)) - taken (ms_slots h i) + taken k"
    unfolding w(1) by (rule sum_upd) (use w(2) in auto)
  moreover have "ms_active h' + weight pc' + taken (ms_slots h i) = ms_active h + weight (pcs t) + taken k"
    using w(3,4) by (simp only: add.assoc)
  ultimately show ?thesis using c counter_balance unfolding counted_def pcs_sum by metis
qed

definition counting :: "mr_pc \<Rightarrow> bool" where "counting pc \<longleftrightarrow> weight pc = 1"
definition uncounting :: "mr_pc \<Rightarrow> bool" where "uncounting pc \<longleftrightarrow> weight pc = - 1"

lemma weight_alt: "weight pc = of_bool (counting pc) - of_bool (uncounting pc)"
  by (cases pc) (auto simp: counting_def uncounting_def)

lemma few_threads: "card {u. is_thread u} \<le> 2 ^ 31"
proof -
  have "unat ` {u. is_thread u} \<subseteq> {..<2 ^ 31}" by (auto simp: is_thread_def word_less_nat_alt)
  then have "card (unat ` {u. is_thread u}) \<le> 2 ^ 31" using card_mono [of "{..<2 ^ 31}"] by (metis card_lessThan finite_lessThan)
  moreover have "inj_on unat {u. is_thread u}" by (rule inj_onI) (simp add: word_unat_eq_iff)
  ultimately show ?thesis by (simp only: card_image)
qed

lemma fewer_reserved:
  assumes sh: "shape (ms_slots h) (\<lambda>u. holds (pcs u))" and own: "own t (ms_slots h) i"
  shows "card {u. counting (pcs u)} < card {i. i < MARKER_CAPACITY \<and> mk_stack (ms_slots h i) \<noteq> 0}" (is "card ?C < card ?O")
proof -
  have held: "\<exists>j. holds (pcs u) = Some j" if "u \<in> ?C" for u using that by (cases "pcs u") (auto simp: counting_def)
  have "inj_on (\<lambda>u. the (holds (pcs u))) ?C"
  proof (rule inj_onI)
    fix u v assume "u \<in> ?C" "v \<in> ?C" "the (holds (pcs u)) = the (holds (pcs v))"
    with held obtain j where "holds (pcs u) = Some j" "holds (pcs v) = Some j" by (metis option.sel)
    then show "u = v" by (rule shapeD(3) [OF sh])
  qed
  moreover have "(\<lambda>u. the (holds (pcs u))) ` ?C \<subseteq> ?O - {i}"
  proof
    fix j assume "j \<in> (\<lambda>u. the (holds (pcs u))) ` ?C"
    then obtain u where u: "u \<in> ?C" "j = the (holds (pcs u))" by blast
    with held [OF u(1)] have "holds (pcs u) = Some j" by auto
    then have "mk_stack (ms_slots h j) = RESERVED" by (rule shapeD(1) [OF sh])
    moreover from this have "j < MARKER_CAPACITY" by (intro shapeD(5) [OF sh]) simp
    moreover have "mk_stack (ms_slots h i) \<noteq> RESERVED" using own by (simp add: own_def)
    ultimately show "j \<in> ?O - {i}" by auto
  qed
  ultimately have "card ?C \<le> card (?O - {i})" by (intro card_inj_on_le) auto
  moreover have "i \<in> ?O" using own shapeD(5) [OF sh] by (auto simp: own_def)
  then have "Suc (card (?O - {i})) = card ?O" by (intro card_Suc_Diff1) auto
  ultimately show ?thesis by linarith
qed

lemma published_counted:
  assumes sh: "shape (ms_slots h) (\<lambda>u. holds (pcs u))" and ct: "counted h pcs" and own: "own t (ms_slots h) i"
    and th: "\<And>u. pcs u \<noteq> Idle \<Longrightarrow> is_thread u"
  shows "ms_active h \<noteq> 0"
proof
  assume zero: "ms_active h = 0"
  let ?C = "{u. counting (pcs u)}" and ?S = "{u. uncounting (pcs u)}" and ?O = "{i. i < MARKER_CAPACITY \<and> mk_stack (ms_slots h i) \<noteq> 0}"
  note CO = fewer_reserved [OF sh own]
  have "card ?O \<le> card {..<MARKER_CAPACITY}" by (rule card_mono) auto
  then have O: "card ?O \<le> 256" by (simp add: MARKER_CAPACITY_def)
  have "card ?S \<le> card {u. is_thread u}" by (rule card_mono) (auto simp: uncounting_def intro!: th)
  with few_threads have S: "card ?S \<le> 2 ^ 31" by linarith
  have "(\<Sum>u \<in> UNIV. weight (pcs u)) = of_nat (card ?C) - of_nat (card ?S)"
    by (simp add: weight_alt sum_subtractf sum_of_bool_eq)
  moreover have "(\<Sum>j < MARKER_CAPACITY. taken (ms_slots h j)) = of_nat (card ?O)"
  proof -
    have "taken k = of_bool (mk_stack k \<noteq> 0)" for k by (simp add: taken_def)
    moreover have "{..<MARKER_CAPACITY} \<inter> {j. mk_stack (ms_slots h j) \<noteq> 0} = ?O" by auto
    ultimately show ?thesis by (simp only: sum_of_bool_eq finite_lessThan)
  qed
  ultimately have "(of_nat (card ?O + card ?S - card ?C) :: u32) = 0" using ct zero CO by (simp add: counted_def of_nat_diff algebra_simps)
  then have "2 ^ 32 dvd card ?O + card ?S - card ?C" by (simp add: word_of_nat_eq_0_iff)
  with CO O S show False by (auto dest!: dvd_imp_le)
qed

section \<open>Every run of the threads\<close>

definition mr_inv :: "mr_world \<Rightarrow> bool" where
  "mr_inv w \<longleftrightarrow> shape (ms_slots (mw_shared w)) (\<lambda>u. holds (mw_pc w u)) \<and> counted (mw_shared w) (mw_pc w) \<and>
     (\<forall>u. mw_pc w u \<noteq> Idle \<longrightarrow> is_thread u \<and> sane_op (mw_op w u)) \<and>
     (\<forall>u. u \<noteq> 0 \<longrightarrow> (\<exists>m. spec_run (mw_log w u) = Some m \<and> local_ok u (ms_slots (mw_shared w)) (mw_op w u) m (mw_pc w u)))"

lemma mr_initial_inv: "mr_inv mr_initial"
  by (simp add: mr_inv_def mr_initial_def shape_def counted_def taken_def MARKER_EMPTY_def spec_run_def tracks_def own_def)

lemma promised_now:
  assumes "mr_inv w" "t \<noteq> 0"
  shows "promised t (mw_pc w t) (mw_shared w)"
proof -
  have sh: "shape (ms_slots (mw_shared w)) (\<lambda>u. holds (mw_pc w u))" and ct: "counted (mw_shared w) (mw_pc w)"
    and th: "\<And>u. mw_pc w u \<noteq> Idle \<Longrightarrow> is_thread u" using assms(1) by (auto simp: mr_inv_def)
  note D = shapeD [OF sh]
  show ?thesis unfolding promised_def
  proof (intro conjI allI impI)
    fix i assume i: "mk_tid (ms_slots (mw_shared w) i) = t" "holds (mw_pc w t) \<noteq> Some i"
    then show "own t (ms_slots (mw_shared w)) i" using D(4) [of i] D(6) [of i t] assms(2) by (auto simp: own_def)
  next
    fix i assume "holds (mw_pc w t) = Some i"
    then show "mk_stack (ms_slots (mw_shared w) i) = RESERVED" by (rule D(1))
  next
    fix i assume own: "own t (ms_slots (mw_shared w)) i"
    show "ms_active (mw_shared w) \<noteq> 0" by (rule published_counted [OF sh ct own th])
    show "i < MARKER_CAPACITY" using own by (intro D(5)) (simp add: own_def)
  qed (rule assms(2))
qed

lemma op_start_ok:
  assumes "tracks t sl m" "sane_op p" "fresh_key p (Some m)" "t \<noteq> 0"
  shows "local_ok t sl p m (op_start t p) \<and> holds (op_start t p) = None \<and> weight (op_start t p) = 0"
proof (cases p)
  case (Consume s r c)
  have "m (s, r) = None" if "s = 0 \<or> r = 0"
    by (rule tracks_none [OF assms(1)]) (use assms(1) that in \<open>auto simp: tracks_def place_def own_def\<close>)
  with Consume assms show ?thesis by (auto simp: done_ok_def)
qed (use assms in \<open>auto simp: done_ok_def arming_def probe_covers\<close>)

lemma mr_inv_call:
  assumes inv: "mr_inv w" and ev: "mr_do (Call t p) w = Some w'"
  shows "mr_inv w'"
proof -
  have c: "is_thread t" "mw_pc w t = Idle" "sane_op p" "fresh_key p (spec_run (mw_log w t))"
    and w': "w' = w\<lparr>mw_pc := (mw_pc w)(t := op_start t p), mw_op := (mw_op w)(t := p)\<rparr>" using ev by (auto simp: is_idle_def split: if_splits)
  have t: "t \<noteq> 0" using c(1) by (auto simp: is_thread_def)
  obtain m where m: "spec_run (mw_log w t) = Some m" "tracks t (ms_slots (mw_shared w)) m" using inv t c(2) by (fastforce simp: mr_inv_def)
  have st: "local_ok t (ms_slots (mw_shared w)) p m (op_start t p)" "holds (op_start t p) = None" "weight (op_start t p) = 0"
    using op_start_ok [OF m(2) c(3) _ t] c(4) m(1) by auto
  have "(\<lambda>u. holds (mw_pc w' u)) = (\<lambda>u. holds (mw_pc w u))" using st(2) c(2) by (auto simp: w')
  moreover have "counted (mw_shared w) ((mw_pc w)(t := op_start t p))"
    by (rule counted_reads) (use inv st c in \<open>auto simp: mr_inv_def reads_def\<close>)
  ultimately show ?thesis using inv c m st by (auto simp: mr_inv_def w')
qed

lemma mr_inv_return:
  assumes inv: "mr_inv w" and ev: "mr_do (Return t) w = Some w'"
  shows "mr_inv w'"
proof -
  obtain a where a: "mw_pc w t = Answer a"
    and w': "w' = w\<lparr>mw_pc := (mw_pc w)(t := Idle), mw_log := (mw_log w)(t := mw_log w t @ [(mw_op w t, a)])\<rparr>"
    using ev by (auto split: mr_pc.splits)
  then have "mw_pc w t \<noteq> Idle" by simp
  then have "is_thread t" using inv by (simp add: mr_inv_def)
  then have t: "t \<noteq> 0" by (auto simp: is_thread_def)
  then obtain m where "spec_run (mw_log w t) = Some m" "done_ok t (ms_slots (mw_shared w)) (mw_op w t) m a"
    using inv a by (fastforce simp: mr_inv_def)
  then obtain m' where m': "spec_run (mw_log w' t) = Some m'" "tracks t (ms_slots (mw_shared w)) m'"
    by (auto simp: done_ok_def w' spec_run_def)
  have "(\<lambda>u. holds (mw_pc w' u)) = (\<lambda>u. holds (mw_pc w u))" using a by (auto simp: w')
  moreover have "counted (mw_shared w) ((mw_pc w)(t := Idle))"
    by (rule counted_reads) (use inv a in \<open>auto simp: mr_inv_def reads_def\<close>)
  ultimately show ?thesis using inv m' by (auto simp: mr_inv_def w')
qed

lemma stable_effect:
  assumes "reads h pc h' pc' \<or> writes t h pc h' pc'" and "shape (ms_slots h) ho" "ho t = holds pc" "u \<noteq> t" "u \<noteq> 0" "ho u = holds pcu"
  shows "stable u pcu (ms_slots h) (ms_slots h')"
  using assms(1)
proof
  assume "writes t h pc h' pc'"
  then obtain i k where i: "ms_slots h' = (ms_slots h)(i := k)" "slot_change t (ms_slots h) (ho t) i k (holds pc')"
    using assms(3) by (auto simp: writes_def)
  show ?thesis unfolding i(1) by (rule stable_change [OF assms(2) i(2) assms(4-6)])
qed (simp add: reads_def stable_def same_own_def)

lemma mr_inv_access:
  assumes inv: "mr_inv w" and ev: "mr_do (Access t) w = Some w'"
  shows "mr_inv w'"
proof -
  obtain h' pc' where nx: "mr_next t (mw_shared w) (mw_pc w t) = Some (h', pc')"
    and w': "w' = w\<lparr>mw_shared := h', mw_pc := (mw_pc w)(t := pc')\<rparr>" using ev by (auto split: option.splits)
  let ?h = "mw_shared w" and ?pc = "mw_pc w t"
  have "?pc \<noteq> Idle" using nx by auto
  then have th: "is_thread t" "sane_op (mw_op w t)" "t \<noteq> 0" using inv by (auto simp: mr_inv_def is_thread_def)
  obtain m where m: "spec_run (mw_log w t) = Some m" "local_ok t (ms_slots ?h) (mw_op w t) m ?pc" using inv th(3) by (auto simp: mr_inv_def)
  have sh: "shape (ms_slots ?h) (\<lambda>u. holds (mw_pc w u))" and ct: "counted ?h (mw_pc w)" using inv by (auto simp: mr_inv_def)
  have mine: "local_ok t (ms_slots h') (mw_op w t) m pc'" by (rule local_step [OF nx m(2) promised_now [OF inv th(3)] th(2)])
  have ef: "reads ?h ?pc h' pc' \<or> writes t ?h ?pc h' pc'" by (rule effect [OF nx m(2) sh]) simp
  have ho: "(\<lambda>u. holds (mw_pc w' u)) = (\<lambda>u. holds (mw_pc w u))(t := holds pc')" by (auto simp: w')
  have "counted h' ((mw_pc w)(t := pc'))" using ef ct counted_reads counted_writes by blast
  moreover have "shape (ms_slots h') (\<lambda>u. holds (mw_pc w' u))" using ef shape_change [OF sh _ th(3)] sh
    unfolding ho by (auto simp: reads_def writes_def fun_upd_idem)
  moreover have "stable u (mw_pc w u) (ms_slots ?h) (ms_slots h')" if "u \<noteq> t" "u \<noteq> 0" for u
    using ef by (rule stable_effect) (use sh that in auto)
  then have "\<exists>m. spec_run (mw_log w u) = Some m \<and> local_ok u (ms_slots h') (mw_op w u) m (mw_pc w u)" if "u \<noteq> t" "u \<noteq> 0" for u
    using inv that local_stable unfolding mr_inv_def by blast
  ultimately show ?thesis using inv th m mine by (auto simp: mr_inv_def w')
qed

lemma mr_inv_run: "mr_run es w = Some w' \<Longrightarrow> mr_inv w \<Longrightarrow> mr_inv w'"
proof (induction es arbitrary: w)
  case (Cons e es)
  then obtain w1 where w1: "mr_do e w = Some w1" "mr_run es w1 = Some w'" by (auto split: option.splits)
  have "mr_inv w1" using w1(1) Cons.prems(2) mr_inv_call mr_inv_access mr_inv_return by (cases e) blast+
  with w1 Cons.IH show ?case by blast
qed simp

text \<open>
  C18: However the accesses of the threads interleave, the calls of one thread return what they would if it were alone: its
  finished calls are a run of the sequential map, which arms, routes once, replays the saved context once and forgets. While the
  thread is between calls, its slots of the table hold exactly that map, each key once and complete; no other thread has changed,
  taken or half-written one of them.
\<close>

theorem marker_calls_look_sequential:
  assumes "mr_run es mr_initial = Some w" "is_thread t"
  shows "\<exists>m. spec_run (mw_log w t) = Some m \<and> (mw_pc w t = Idle \<longrightarrow> tracks t (ms_slots (mw_shared w)) m)"
proof -
  have "mr_inv w" using assms(1) mr_initial_inv by (rule mr_inv_run)
  moreover have "t \<noteq> 0" using assms(2) by (auto simp: is_thread_def)
  ultimately obtain m where "spec_run (mw_log w t) = Some m" "local_ok t (ms_slots (mw_shared w)) (mw_op w t) m (mw_pc w t)"
    by (auto simp: mr_inv_def)
  then show ?thesis by (intro exI [of _ m]) auto
qed

text \<open>
  Two threads whose stack pointers probe the same slot first: the second finds it reserved and takes the next one, publishes and
  returns while the first is still storing, and the first then routes its marker.
\<close>

definition race_context :: saved_context where
  "race_context = \<lparr>sc_xmm4 = replicate 16 1, sc_xmm5 = replicate 16 2, sc_r11 = 3, sc_eflags = 4\<rparr>"

definition race_schedule :: "mr_event list" where
  "race_schedule =
     [Call 7 (Arm 0x1000 0x40), Call 8 (Arm 0x2000 0x40), Access 7, Access 8, Access 7, Access 8, Access 8, Access 7,
      Access 8, Access 8, Access 8, Access 8, Return 8, Access 7, Access 7, Access 7, Return 7,
      Call 7 (Consume 0x1000 0x40 race_context), Access 7, Access 7, Access 7, Access 7, Access 7,
      Access 7, Access 7, Access 7, Access 7, Access 7, Access 7, Access 7, Return 7]"

lemma race_probes: "\<exists>rest. probe_slots 0x1000 = 0 # 1 # rest \<and> probe_slots 0x2000 = 0 # 1 # rest"
proof -
  have "[0..<MARKER_CAPACITY] = 0 # 1 # [2..<MARKER_CAPACITY]" by (simp add: upt_conv_Cons MARKER_CAPACITY_def numeral_2_eq_2)
  moreover have "marker_slot 0x1000 = 0" "marker_slot 0x2000 = 0" by (simp_all add: marker_slot_def MARKER_CAPACITY_def)
  ultimately show ?thesis by (simp add: probe_slots_def MARKER_CAPACITY_def)
qed

lemma race_schedule_runs:
  "\<exists>w. mr_run race_schedule mr_initial = Some w \<and> mw_pc w 7 = Idle \<and>
     mw_log w 7 = [(Arm 0x1000 0x40, Remembered True), (Consume 0x1000 0x40 race_context, Consumed (Some Route))] \<and>
     mw_log w 8 = [(Arm 0x2000 0x40, Remembered True)]"
proof -
  obtain rest where r: "probe_slots 0x1000 = 0 # 1 # rest" "probe_slots 0x2000 = 0 # 1 # rest" using race_probes by blast
  show ?thesis
    by (simp add: race_schedule_def mr_initial_def r is_thread_def spec_run_def put_slot_def MARKER_EMPTY_def good_context_def race_context_def save_stores_def)
qed

theorem marker_calls_look_sequential_witness:
  "\<exists>w m. mr_run race_schedule mr_initial = Some w \<and>
     spec_run [(Arm 0x1000 0x40, Remembered True), (Consume 0x1000 0x40 race_context, Consumed (Some Route))] = Some m \<and>
     tracks 7 (ms_slots (mw_shared w)) m"
proof -
  obtain w where w: "mr_run race_schedule mr_initial = Some w" "mw_pc w 7 = Idle"
      "mw_log w 7 = [(Arm 0x1000 0x40, Remembered True), (Consume 0x1000 0x40 race_context, Consumed (Some Route))]"
    using race_schedule_runs by blast
  have "is_thread 7" by (simp add: is_thread_def)
  from marker_calls_look_sequential [OF w(1) this] w show ?thesis by auto
qed

end
