(* ===== verification/Marker_Calls.thy ===== *)
theory Marker_Calls
  imports Marker_Races
begin

text \<open>
  What one call on the marker table of \<^verbatim>\<open>syscall/reflex_markers.rs\<close> does, over the access-by-access model of \<open>Marker_Races\<close>: it
  ends after a bounded number of its own accesses whatever the other threads do, and run alone it is the call of \<open>Markers\<close>.
\<close>

section \<open>No call waits for another thread\<close>

fun cont_cost :: "cont \<Rightarrow> nat" where
  "cont_cost (Finish a) = 0"
| "cont_cost (RetireRest s is) = 16 * length is + 1"

text \<open>An upper bound on the accesses a thread still makes before its call returns.\<close>

fun cost :: "mr_pc \<Rightarrow> nat" where
  "cost Idle = 0"
| "cost (Answer a) = 0"
| "cost (Probe s r is) = length is + 5"
| "cost (Count i s r) = 5"
| "cost (Store i cs (Publish s)) = length cs + 1"
| "cost (Store i cs (Unreserve k)) = length cs + 2 + cont_cost k"
| "cost (FindActive s r q) = 3 * MARKER_CAPACITY + 23"
| "cost (FindStack s r q is) = 3 * length is + 22"
| "cost (FindTid s r q i is) = 3 * length is + 24"
| "cost (FindRip s r q i is) = 3 * length is + 23"
| "cost (Claim i s c) = 21"
| "cost (Save i cs) = length cs + 1"
| "cost (Reclaim i s) = 20"
| "cost (Load i s cs f) = length cs + 13"
| "cost (Release i s k) = 12 + cont_cost k"
| "cost (Sub k) = 1 + cont_cost k"
| "cost (RetireActive s) = 16 * MARKER_CAPACITY + 2"
| "cost (RetireTid s is) = 16 * length is + 1"
| "cost (RetireStack s i is) = 16 * length is + 16"
| "cost (RetireCheck s i v is) = 16 * length is + 15"

lemma cost_continue [simp]: "cost (continue k) = cont_cost k"
  by (cases k) auto

lemma probe_slots_length [simp]: "length (probe_slots s) = MARKER_CAPACITY"
  by (simp add: probe_slots_def)

lemma found_cost: "cost (found q i s) \<le> 21"
  by (cases q) auto

lemma access_cost: "mr_next t h pc = Some (h', pc') \<Longrightarrow> cost pc' < cost pc"
proof (induction t h pc rule: mr_next.induct)
  case (13 t h s r q i "is")
  then show ?case using found_cost [of q i s] by (auto split: if_splits)
next
  case (6 t h i c v cs a)
  then show ?case by (cases a) auto
qed (auto simp: Let_def release_stores_def save_stores_def saved_cells_def split: if_splits)

lemma call_cost: "cost (op_start t p) \<le> 16 * MARKER_CAPACITY + 2"
  by (cases p) (auto simp: MARKER_CAPACITY_def)

lemma access_enabled: "mr_next t h pc = None \<Longrightarrow> pc = Idle \<or> (\<exists>a. pc = Answer a)"
  by (induction t h pc rule: mr_next.induct) (auto simp: Let_def split: if_splits)

fun is_call :: "u64 \<Rightarrow> mr_event \<Rightarrow> bool" where
  "is_call t (Call u p) \<longleftrightarrow> u = t"
| "is_call t _ \<longleftrightarrow> False"

fun is_access :: "u64 \<Rightarrow> mr_event \<Rightarrow> bool" where
  "is_access t (Access u) \<longleftrightarrow> u = t"
| "is_access t _ \<longleftrightarrow> False"

lemma event_cost:
  "mr_do e w = Some w' \<Longrightarrow> of_bool (is_access t e) + cost (mw_pc w' t) \<le> cost (mw_pc w t) + of_bool (is_call t e) * (16 * MARKER_CAPACITY + 2)"
proof (cases e)
  case (Access u)
  moreover assume "mr_do e w = Some w'"
  ultimately obtain h' pc' where "mr_next u (mw_shared w) (mw_pc w u) = Some (h', pc')" "w' = w\<lparr>mw_shared := h', mw_pc := (mw_pc w)(u := pc')\<rparr>"
    by (auto split: option.splits)
  with Access access_cost show ?thesis by fastforce
qed (use call_cost [of t] in \<open>auto simp: is_idle_def split: if_splits mr_pc.splits\<close>)

lemma run_cost:
  "mr_run es w = Some w' \<Longrightarrow> length (filter (is_access t) es) + cost (mw_pc w' t) \<le>
     cost (mw_pc w t) + length (filter (is_call t) es) * (16 * MARKER_CAPACITY + 2)"
proof (induction es arbitrary: w)
  case (Cons e es)
  then obtain w1 where w1: "mr_do e w = Some w1" "mr_run es w1 = Some w'" by (auto split: option.splits)
  from Cons.IH [OF w1(2)] event_cost [OF w1(1), of t] show ?case by (auto simp: algebra_simps split: if_splits)
qed simp



section \<open>A call alone\<close>

function alone :: "u64 \<Rightarrow> mr_shared \<Rightarrow> mr_pc \<Rightarrow> mr_shared \<times> mr_pc" where
  "alone t h pc = (case mr_next t h pc of None \<Rightarrow> (h, pc) | Some (h', pc') \<Rightarrow> alone t h' pc')"
  by auto
termination by (relation "measure (\<lambda>(t, h, pc). cost pc)") (auto intro: access_cost)

declare alone.simps [simp del]

lemma alone_stop [simp]: "alone t h Idle = (h, Idle)" "alone t h (Answer a) = (h, Answer a)"
  by (simp_all add: alone.simps [of t h])

lemma alone_step: "mr_next t h pc = Some (h', pc') \<Longrightarrow> alone t h pc = alone t h' pc'"
  by (simp add: alone.simps [of t h])

definition table :: "mr_shared \<Rightarrow> markers" where
  "table h = \<lparr>mt_active = ms_active h, mt_slots = map (ms_slots h) [0..<MARKER_CAPACITY]\<rparr>"

fun seq_op :: "u64 \<Rightarrow> marker_op \<Rightarrow> markers \<Rightarrow> markers \<times> op_result" where
  "seq_op t (Arm s r) m = map_prod id Remembered (remember_marker m (t, s, r))"
| "seq_op t (Consume s r c) m = map_prod id Consumed (consume_marker m (t, s, r) c)"
| "seq_op t (Cancel s r) m = (cancel_marker m (t, s, r), Ended)"
| "seq_op t (Retire s) m = (retire_markers m t s, Ended)"

lemma table_nth [simp]: "i < MARKER_CAPACITY \<Longrightarrow> mt_slots (table h) ! i = ms_slots h i"
  by (simp add: table_def)

lemma table_active [simp]: "mt_active (table h) = ms_active h" "has_active_markers (table h) \<longleftrightarrow> ms_active h \<noteq> 0"
  by (simp_all add: table_def has_active_markers_def)

lemma table_put_slot: "i < MARKER_CAPACITY \<Longrightarrow> table (put_slot i k h) = (table h)\<lparr>mt_slots := (mt_slots (table h))[i := k]\<rparr>"
  by (auto simp: table_def put_slot_def nth_list_update intro!: nth_equalityI)

lemma table_set_active: "table (h\<lparr>ms_active := a\<rparr>) = (table h)\<lparr>mt_active := a\<rparr>"
  by (simp add: table_def)

lemma put_slot_put_slot [simp]: "put_slot i k (put_slot i k' h) = put_slot i k h"
  by (simp add: put_slot_def)

lemma put_slot_same [simp]: "put_slot i (ms_slots h i) h = h"
  by (simp add: put_slot_def)

lemma put_slot_active: "(put_slot i k h)\<lparr>ms_active := a\<rparr> = put_slot i k (h\<lparr>ms_active := a\<rparr>)"
  by (cases h) (simp add: put_slot_def)

lemma alone_store: "alone t h (Store i cs a) = alone t (put_slot i (stored cs (ms_slots h i)) h) (Store i [] a)"
proof (induction cs arbitrary: h)
  case Nil
  show ?case by simp
next
  case (Cons x cs)
  obtain c v where x: "x = (c, v)" by (cases x)
  show ?case by (simp add: x alone_step [of t h "Store i ((c, v) # cs) a"] Cons.IH [of "put_slot i (put_cell c v (ms_slots h i)) h"])
qed

lemma alone_save: "alone t h (Save i cs) = (put_slot i (stored cs (ms_slots h i)) h, Answer (Consumed (Some Route)))"
proof (induction cs arbitrary: h)
  case Nil
  show ?case by (simp add: alone_step [of t h "Save i []"])
next
  case (Cons x cs)
  obtain c v where x: "x = (c, v)" by (cases x)
  show ?case by (simp add: x alone_step [of t h "Save i ((c, v) # cs)"] Cons.IH)
qed

lemma alone_release:
  assumes "i < MARKER_CAPACITY"
  shows "\<exists>h'. alone t h (Release i s k) = alone t h' (continue k) \<and> table h' = release_marker (table h) i s"
proof (cases "mk_stack (ms_slots h i) = s")
  case True
  let ?h = "put_slot i MARKER_EMPTY h"
  let ?r = "(ms_slots h i)\<lparr>mk_stack := RESERVED\<rparr>"
  have clear: "(stored release_stores ?r)\<lparr>mk_stack := 0\<rparr> = MARKER_EMPTY"
    by (cases "ms_slots h i") (simp add: release_stores_def MARKER_EMPTY_def)
  have "alone t h (Release i s k) = alone t (put_slot i ?r h) (Store i release_stores (Unreserve k))"
    using True by (simp add: alone_step [of t h "Release i s k"])
  also have "\<dots> = alone t (put_slot i (stored release_stores ?r) h) (Store i [] (Unreserve k))" by (simp add: alone_store [of t _ i release_stores])
  also have "\<dots> = alone t ?h (Sub k)" by (simp add: alone_step [of t _ "Store i [] (Unreserve k)"] clear)
  also have "\<dots> = alone t (?h\<lparr>ms_active := ms_active h - 1\<rparr>) (continue k)" by (simp add: alone_step [of t ?h "Sub k"])
  finally show ?thesis using True assms
    by (intro exI conjI) (auto simp: table_set_active table_put_slot release_marker_def table_def [of h])
next
  case False
  with assms show ?thesis by (intro exI [of _ h]) (simp add: alone_step release_marker_def)
qed

lemma alone_probe:
  "alone t h (Probe s r is) = (case List.find (\<lambda>i. mk_stack (ms_slots h i) = 0) is of
     None \<Rightarrow> (h, Answer (Remembered False))
   | Some i \<Rightarrow> (put_slot i ((ms_slots h i)\<lparr>mk_tid := t, mk_rip := r, mk_phase := 0, mk_stack := s\<rparr>) (h\<lparr>ms_active := ms_active h + 1\<rparr>),
       Answer (Remembered True)))"
proof (induction "is")
  case (Cons i "is")
  show ?case
  proof (cases "mk_stack (ms_slots h i) = 0")
    case True
    let ?r = "(ms_slots h i)\<lparr>mk_stack := RESERVED\<rparr>" and ?h = "h\<lparr>ms_active := ms_active h + 1\<rparr>"
    let ?cs = "[(CellTid, t), (CellRip, r), (CellPhase, 0)]"
    have "alone t h (Probe s r (i # is)) = alone t (put_slot i ?r h) (Count i s r)"
      using True by (simp add: alone_step [of t h "Probe s r (i # is)"])
    also have "\<dots> = alone t (put_slot i ?r ?h) (Store i ?cs (Publish s))" by (simp add: alone_step [of t _ "Count i s r"] put_slot_active)
    also have "\<dots> = alone t (put_slot i (stored ?cs ?r) ?h) (Store i [] (Publish s))" by (simp add: alone_store [of t _ i ?cs])
    finally show ?thesis using True by (simp add: alone_step [of t _ "Store i [] (Publish s)"])
  next
    case False
    with Cons.IH show ?thesis by (simp add: alone_step [of t h "Probe s r (i # is)"])
  qed
qed (simp add: alone_step [of t h "Probe s r []"])

lemma alone_find:
  "alone t h (FindStack s r q is) =
     (case List.find (\<lambda>i. mk_stack (ms_slots h i) = s \<and> mk_tid (ms_slots h i) = t \<and> mk_rip (ms_slots h i) = r) is of
        None \<Rightarrow> (h, Answer (missing q)) | Some i \<Rightarrow> alone t h (found q i s))"
  by (induction "is")
    (simp_all add: alone_step [of t h "FindStack s r q []"] alone_step [of t h "FindStack s r q (i # is)" for i "is"]
      alone_step [of t h "FindTid s r q i is" for i "is"] alone_step [of t h "FindRip s r q i is" for i "is"])

lemma table_find:
  "List.find (\<lambda>i. P (mt_slots (table h) ! i)) (probe_slots s) = List.find (\<lambda>i. P (ms_slots h i)) (probe_slots s)"
  by (rule find_cong) (auto simp: probe_covers)

lemma found_bound: "List.find P (probe_slots s) = Some i \<Longrightarrow> i < MARKER_CAPACITY"
proof -
  assume "List.find P (probe_slots s) = Some i"
  then have "i \<in> set (probe_slots s)" by (auto simp: find_Some_iff)
  then show ?thesis by (simp add: probe_covers)
qed

lemma alone_search:
  "alone t h (FindActive s r q) = (case find_marker (table h) (t, s, r) of
     None \<Rightarrow> (h, Answer (missing q)) | Some i \<Rightarrow> alone t h (found q i s))"
  using table_find [of "\<lambda>k. mk_stack k = s \<and> mk_tid k = t \<and> mk_rip k = r" h s]
  by (simp add: alone_step [of t h "FindActive s r q"] alone_find find_marker_def)

lemma find_marker_bound: "find_marker m (t, s, r) = Some i \<Longrightarrow> i < MARKER_CAPACITY"
  by (auto simp: find_marker_def split: if_splits intro: found_bound)

lemma alone_load: "alone t h (Load i s cs f) =
    alone t h (Release i s (Finish (Consumed (Some (Replay (loaded_context (\<lambda>c. if c \<in> set cs then get_cell c (ms_slots h i) else f c)))))))"
proof (induction cs arbitrary: f)
  case (Cons c cs)
  have "(\<lambda>d. if d \<in> set cs then get_cell d (ms_slots h i) else (f(c := get_cell c (ms_slots h i))) d) =
      (\<lambda>d. if d \<in> set (c # cs) then get_cell d (ms_slots h i) else f d)" by auto
  with Cons.IH show ?case by (simp add: alone_step [of t h "Load i s (c # cs) f"])
qed (simp add: alone_step [of t h "Load i s [] f" for f])

lemma alone_claim:
  assumes i: "i < MARKER_CAPACITY"
  shows "\<exists>h' a. alone t h (Claim i s c) = (h', Answer (Consumed a)) \<and> (table h', a) =
    (let m = table h; k = ms_slots h i in
     if mk_phase k = 0 then (m\<lparr>mt_slots := (mt_slots m)[i := k\<lparr>mk_phase := 1, mk_xmm4 := halves (sc_xmm4 c), mk_xmm5 := halves (sc_xmm5 c),
         mk_r11 := sc_r11 c, mk_eflags := sc_eflags c\<rparr>]\<rparr>, Some Route)
     else if mk_phase k = 1 then (release_marker (m\<lparr>mt_slots := (mt_slots m)[i := k\<lparr>mk_phase := 2\<rparr>]\<rparr>) i s, Some (Replay (kept_context k)))
     else (release_marker m i s, None))"
proof -
  let ?k = "ms_slots h i"
  consider "mk_phase ?k = 0" | "mk_phase ?k = 1" | "mk_phase ?k \<noteq> 0" "mk_phase ?k \<noteq> 1" by blast
  then show ?thesis
  proof cases
    case 1
    have "stored (save_stores c) (?k\<lparr>mk_phase := 1\<rparr>) = ?k\<lparr>mk_phase := 1, mk_xmm4 := halves (sc_xmm4 c), mk_xmm5 := halves (sc_xmm5 c),
         mk_r11 := sc_r11 c, mk_eflags := sc_eflags c\<rparr>" by (cases ?k) (simp add: save_stores_def)
    with 1 i show ?thesis by (simp add: alone_step [of t h "Claim i s c"] alone_save table_put_slot Let_def)
  next
    case 2
    let ?h = "put_slot i (?k\<lparr>mk_phase := 2\<rparr>) h"
    have ctx: "loaded_context (\<lambda>c. if c \<in> set saved_cells then get_cell c (ms_slots ?h i) else 0) = kept_context ?k"
      by (simp add: kept_context_def loaded_context_def saved_cells_def)
    obtain h' where h': "alone t ?h (Release i s (Finish (Consumed (Some (Replay (kept_context ?k)))))) = (h', Answer (Consumed (Some (Replay (kept_context ?k)))))"
        "table h' = release_marker (table ?h) i s" using alone_release [OF i, of t ?h s "Finish (Consumed (Some (Replay (kept_context ?k))))"] by auto
    have "alone t h (Claim i s c) = alone t ?h (Load i s saved_cells (\<lambda>_. 0))"
      using 2 by (simp add: alone_step [of t h "Claim i s c"] alone_step [of t h "Reclaim i s"])
    with h' 2 i ctx show ?thesis by (simp add: alone_load table_put_slot Let_def)
  next
    case 3
    obtain h' where "alone t h (Release i s (Finish (Consumed None))) = (h', Answer (Consumed None))" "table h' = release_marker (table h) i s"
      using alone_release [OF i, of t h s "Finish (Consumed None)"] by auto
    with 3 show ?thesis by (simp add: alone_step [of t h "Claim i s c"] alone_step [of t h "Reclaim i s"] Let_def)
  qed
qed

lemma alone_retire:
  "set is \<subseteq> {..<MARKER_CAPACITY} \<Longrightarrow> \<exists>h'. alone t h (RetireTid s is) = (h', Answer Ended) \<and> table h' = fold (retire_one t s) is (table h)"
proof (induction "is" arbitrary: h)
  case Nil
  show ?case by (simp add: alone_step [of t h "RetireTid s []"])
next
  case (Cons i "is")
  let ?k = "ms_slots h i"
  have i: "i < MARKER_CAPACITY" and rest: "set is \<subseteq> {..<MARKER_CAPACITY}" using Cons.prems by auto
  have "\<exists>h'. alone t h (RetireTid s (i # is)) = alone t h' (RetireTid s is) \<and> table h' = retire_one t s i (table h)"
  proof (cases "mk_tid ?k = t \<and> \<not> (mk_stack ?k = 0 \<or> mk_stack ?k = RESERVED \<or> mk_stack ?k > s)")
    case True
    obtain h' where "alone t h (Release i (mk_stack ?k) (RetireRest s is)) = alone t h' (RetireTid s is)" "table h' = release_marker (table h) i (mk_stack ?k)"
      using alone_release [OF i, of t h "mk_stack ?k" "RetireRest s is"] by auto
    with True i show ?thesis by (intro exI [of _ h']) (simp add: alone_step [of t h "RetireTid s (i # is)"] alone_step [of t h "RetireStack s i is"]
        alone_step [of t h "RetireCheck s i v is" for v] retire_one_def Let_def)
  next
    case False
    with i show ?thesis by (intro exI [of _ h]) (auto simp: alone_step [of t h "RetireTid s (i # is)"] alone_step [of t h "RetireStack s i is"] retire_one_def Let_def)
  qed
  then obtain h1 where "alone t h (RetireTid s (i # is)) = alone t h1 (RetireTid s is)" "table h1 = retire_one t s i (table h)" by blast
  with Cons.IH [OF rest, of h1] show ?case by auto
qed

lemma arm_alone: "map_prod table id (alone t h (op_start t (Arm s r))) = map_prod id Answer (seq_op t (Arm s r) (table h))"
  using table_find [of "\<lambda>k. mk_stack k = 0" h s]
  by (auto simp: remember_marker_def alone_probe table_put_slot table_set_active found_bound split: option.splits)

lemma consume_alone: "map_prod table id (alone t h (op_start t (Consume s r c))) = map_prod id Answer (seq_op t (Consume s r c) (table h))"
proof (cases "find_marker (table h) (t, s, r)")
  case None
  then show ?thesis by (auto simp: consume_marker_def alone_search)
next
  case (Some i)
  then have i: "i < MARKER_CAPACITY" by (rule find_marker_bound)
  with Some alone_claim [OF i, of t h s c] show ?thesis
    by (auto simp: consume_marker_def alone_search Let_def kept_context_def loaded_context_def unhalves_def split: if_splits)
qed

lemma cancel_alone: "map_prod table id (alone t h (op_start t (Cancel s r))) = map_prod id Answer (seq_op t (Cancel s r) (table h))"
proof (cases "find_marker (table h) (t, s, r)")
  case (Some i)
  then have i: "i < MARKER_CAPACITY" by (rule find_marker_bound)
  with Some alone_release [OF i, of t h s "Finish Ended"] show ?thesis by (auto simp: cancel_marker_def alone_search)
qed (simp add: cancel_marker_def alone_search)

lemma retire_alone: "map_prod table id (alone t h (op_start t (Retire s))) = map_prod id Answer (seq_op t (Retire s) (table h))"
  using alone_retire [of "[0..<MARKER_CAPACITY]" t h s]
  by (auto simp: retire_markers_def alone_step [of t h "RetireActive s"] lessThan_atLeast0)

text \<open>
  C20: The accesses of a call, run without interruption from any table, are the call of \<open>Markers\<close>: the same table, the same
  counter and the same answer. The two models of \<^verbatim>\<open>reflex_markers.rs\<close> agree.
\<close>

theorem marker_accesses_make_the_call:
  "map_prod table id (alone t h (op_start t p)) = map_prod id Answer (seq_op t p (table h))"
  by (cases p) (simp_all only: arm_alone consume_alone cancel_alone retire_alone)

end
