(* ===== verification/Trampoline_Races.thy ===== *)
theory Trampoline_Races
  imports Int2e
begin

text \<open>
  The table of private trampolines of \<^verbatim>\<open>syscall/int2e.rs\<close> under concurrent faults. \<open>Int2e\<close> takes a fault as one step; here every
  load, compare-exchange, construction and unmapping of \<^verbatim>\<open>private_syscall_trampoline\<close> and \<^verbatim>\<open>build_or_reuse_private_trampoline\<close> is a
  step of its own, and any number of threads fault at once, at the same site or at sites that probe the same slots. The pages a
  thread got from \<^verbatim>\<open>build_private_trampoline\<close> are kept with their code; that function returns a page nobody else has, or nothing.
\<close>

section \<open>The accesses\<close>

datatype tr_pc =
    is_resting: Resting
  | LoadSite u64 nat "nat list"
  | ClaimSite u64 nat "nat list"
  | LoadTarget u64 nat
  | Build u64 nat
  | PublishTarget u64 nat u64
  | Unmap u64 u64 u64
  | Found u64 "u64 option"

record tr_shared =
  ts_sites :: "nat \<Rightarrow> u64"
  ts_targets :: "nat \<Rightarrow> u64"
  ts_pages :: "u64 \<rightharpoonup> bytes"

fun probe_at :: "u64 \<Rightarrow> nat list \<Rightarrow> tr_pc" where
  "probe_at site [] = Found site None"
| "probe_at site (i # is) = LoadSite site i is"

text \<open>The entry: a site at the end of the address space has no next instruction.\<close>

definition tr_start :: "u64 \<Rightarrow> tr_pc" where
  "tr_start site = (if next_instruction site = None then Found site None else probe_at site (site_probe site))"

text \<open>One access; \<open>page\<close> is what the construction of a trampoline returns, should it be next.\<close>

fun tr_next :: "u64 option \<Rightarrow> tr_shared \<Rightarrow> tr_pc \<Rightarrow> (tr_shared \<times> tr_pc) option" where
  "tr_next page h Resting = None"
| "tr_next page h (Found site a) = None"
| "tr_next page h (LoadSite site i is) =
     Some (h, if ts_sites h i = site then LoadTarget site i
              else if ts_sites h i \<noteq> 0 then probe_at site is else ClaimSite site i is)"
| "tr_next page h (ClaimSite site i is) =
     (if ts_sites h i = 0 then Some (h\<lparr>ts_sites := (ts_sites h)(i := site)\<rparr>, LoadTarget site i)
      else Some (h, LoadSite site i is))"
| "tr_next page h (LoadTarget site i) =
     Some (h, if ts_targets h i \<noteq> 0 then Found site (Some (ts_targets h i)) else Build site i)"
| "tr_next page h (Build site i) = (case page of
     None \<Rightarrow> Some (h, Found site None)
   | Some a \<Rightarrow> if a = 0 \<or> ts_pages h a \<noteq> None then None
       else Some (h\<lparr>ts_pages := (ts_pages h)(a \<mapsto> trampoline_code (site + 2))\<rparr>, PublishTarget site i a))"
| "tr_next page h (PublishTarget site i built) =
     (if ts_targets h i = 0 then Some (h\<lparr>ts_targets := (ts_targets h)(i := built)\<rparr>, Found site (Some built))
      else Some (h, Unmap site built (ts_targets h i)))"
| "tr_next page h (Unmap site built existing) =
     Some (h\<lparr>ts_pages := (ts_pages h)(built := None)\<rparr>, Found site (Some existing))"

record tr_world =
  tw_shared :: tr_shared
  tw_pc :: "nat \<Rightarrow> tr_pc"
  tw_log :: "(u64 \<times> u64 option) list"

definition tr_initial :: tr_world where
  "tr_initial = \<lparr>tw_shared = \<lparr>ts_sites = \<lambda>_. 0, ts_targets = \<lambda>_. 0, ts_pages = Map.empty\<rparr>, tw_pc = \<lambda>_. Resting, tw_log = []\<rparr>"

text \<open>A thread faults at a site, makes an access, or goes on with what it found.\<close>

datatype tr_event = Fault nat u64 | TrAccess nat "u64 option" | Resume nat

fun tr_do :: "tr_event \<Rightarrow> tr_world \<Rightarrow> tr_world option" where
  "tr_do (Fault t site) w =
     (if is_resting (tw_pc w t) \<and> site \<noteq> 0 then Some (w\<lparr>tw_pc := (tw_pc w)(t := tr_start site)\<rparr>) else None)"
| "tr_do (TrAccess t page) w = (case tr_next page (tw_shared w) (tw_pc w t) of
     None \<Rightarrow> None | Some (h, pc) \<Rightarrow> Some (w\<lparr>tw_shared := h, tw_pc := (tw_pc w)(t := pc)\<rparr>))"
| "tr_do (Resume t) w = (case tw_pc w t of
     Found site a \<Rightarrow> Some (w\<lparr>tw_pc := (tw_pc w)(t := Resting), tw_log := tw_log w @ [(site, a)]\<rparr>)
   | _ \<Rightarrow> None)"

fun tr_run :: "tr_event list \<Rightarrow> tr_world \<Rightarrow> tr_world option" where
  "tr_run [] w = Some w"
| "tr_run (e # es) w = (case tr_do e w of None \<Rightarrow> None | Some w' \<Rightarrow> tr_run es w')"

section \<open>The invariant\<close>

text \<open>A slot is passed over for a site when another site has it; slots are never given back.\<close>

definition passed :: "tr_shared \<Rightarrow> u64 \<Rightarrow> nat list \<Rightarrow> bool" where
  "passed h site is \<longleftrightarrow> (\<forall>i \<in> set is. ts_sites h i \<noteq> 0 \<and> ts_sites h i \<noteq> site)"

definition published :: "tr_shared \<Rightarrow> u64 \<Rightarrow> u64 \<Rightarrow> bool" where
  "published h site a \<longleftrightarrow> a \<noteq> 0 \<and> (\<exists>i. ts_sites h i = site \<and> ts_targets h i = a)"

fun in_flight :: "tr_pc \<Rightarrow> u64 option" where
  "in_flight (PublishTarget site i built) = Some built"
| "in_flight (Unmap site built existing) = Some built"
| "in_flight _ = None"

fun tr_local :: "tr_shared \<Rightarrow> tr_pc \<Rightarrow> bool" where
  "tr_local h Resting \<longleftrightarrow> True"
| "tr_local h (LoadSite site i is) \<longleftrightarrow> site \<noteq> 0 \<and> (\<exists>pre. site_probe site = pre @ i # is \<and> passed h site pre)"
| "tr_local h (ClaimSite site i is) \<longleftrightarrow> site \<noteq> 0 \<and> (\<exists>pre. site_probe site = pre @ i # is \<and> passed h site pre)"
| "tr_local h (LoadTarget site i) \<longleftrightarrow> site \<noteq> 0 \<and> ts_sites h i = site"
| "tr_local h (Build site i) \<longleftrightarrow> site \<noteq> 0 \<and> ts_sites h i = site"
| "tr_local h (PublishTarget site i built) \<longleftrightarrow> site \<noteq> 0 \<and> built \<noteq> 0 \<and> ts_sites h i = site \<and> ts_pages h built = Some (trampoline_code (site + 2))"
| "tr_local h (Unmap site built existing) \<longleftrightarrow> published h site existing"
| "tr_local h (Found site a) \<longleftrightarrow> (\<forall>b. a = Some b \<longrightarrow> published h site b)"

definition tr_shape :: "tr_shared \<Rightarrow> bool" where
  "tr_shape h \<longleftrightarrow> (\<forall>j. ts_sites h j \<noteq> 0 \<longrightarrow> (\<exists>pre post. site_probe (ts_sites h j) = pre @ j # post \<and> passed h (ts_sites h j) pre)) \<and>
     (\<forall>i. ts_targets h i \<noteq> 0 \<longrightarrow> ts_sites h i \<noteq> 0 \<and> ts_pages h (ts_targets h i) = Some (trampoline_code (ts_sites h i + 2)))"

definition tr_pages_ok :: "tr_shared \<Rightarrow> (nat \<Rightarrow> u64 option) \<Rightarrow> bool" where
  "tr_pages_ok h fl \<longleftrightarrow> dom (ts_pages h) = {a. a \<noteq> 0 \<and> a \<in> range (ts_targets h)} \<union> {a. \<exists>t. fl t = Some a} \<and>
     (\<forall>t a. fl t = Some a \<longrightarrow> a \<noteq> 0 \<and> a \<notin> range (ts_targets h)) \<and> (\<forall>t u a. fl t = Some a \<and> fl u = Some a \<longrightarrow> t = u)"

definition tr_inv :: "tr_world \<Rightarrow> bool" where
  "tr_inv w \<longleftrightarrow> tr_shape (tw_shared w) \<and> tr_pages_ok (tw_shared w) (\<lambda>t. in_flight (tw_pc w t)) \<and>
     (\<forall>t. tr_local (tw_shared w) (tw_pc w t)) \<and> (\<forall>(site, a) \<in> set (tw_log w). \<forall>b. a = Some b \<longrightarrow> published (tw_shared w) site b)"

lemma site_unique:
  assumes "tr_shape h" "ts_sites h i = ts_sites h j" "ts_sites h i \<noteq> 0"
  shows "i = j"
proof -
  obtain p q where i: "site_probe (ts_sites h i) = p @ i # q" "passed h (ts_sites h i) p" using assms unfolding tr_shape_def by metis
  obtain r s where j: "site_probe (ts_sites h i) = r @ j # s" "passed h (ts_sites h i) r" using assms unfolding tr_shape_def by metis
  have "p @ i # q = r @ j # s" using i(1) j(1) by simp
  moreover have "i \<notin> set r" "j \<notin> set p" using i(2) j(2) assms(2) by (auto simp: passed_def)
  ultimately show ?thesis by (auto simp: append_eq_append_conv2 append_eq_Cons_conv Cons_eq_append_conv)
qed

text \<open>What an access may change: a free slot is taken, an empty target is set, and the rest stays; pages change only for the one who has them.\<close>

definition grows :: "tr_shared \<Rightarrow> tr_shared \<Rightarrow> bool" where
  "grows h h' \<longleftrightarrow> (\<forall>i. ts_sites h i \<noteq> 0 \<longrightarrow> ts_sites h' i = ts_sites h i) \<and> (\<forall>i. ts_targets h i \<noteq> 0 \<longrightarrow> ts_targets h' i = ts_targets h i)"

lemma grows_refl [simp]: "grows h h"
  by (simp add: grows_def)

lemma passed_grows: "grows h h' \<Longrightarrow> passed h site is \<Longrightarrow> passed h' site is"
  by (auto simp: passed_def grows_def)

lemma published_grows: "grows h h' \<Longrightarrow> tr_shape h \<Longrightarrow> published h site a \<Longrightarrow> published h' site a"
  by (fastforce simp: published_def grows_def tr_shape_def)

lemma access_grows: "tr_next page h pc = Some (h', pc') \<Longrightarrow> grows h h'"
  by (cases pc) (auto simp: grows_def split: if_splits option.splits)

lemma local_grows:
  assumes "grows h h'" "tr_shape h" "tr_local h pc" "\<And>a. in_flight pc = Some a \<Longrightarrow> ts_pages h' a = ts_pages h a"
  shows "tr_local h' pc"
  using assms passed_grows [OF assms(1)] published_grows [OF assms(1,2)] by (cases pc) (auto simp: grows_def)

lemma probe_at_local: "site \<noteq> 0 \<Longrightarrow> site_probe site = pre @ is \<Longrightarrow> passed h site pre \<Longrightarrow> tr_local h (probe_at site is)"
  by (cases "is") auto

lemma probe_at_idle [simp]: "in_flight (probe_at site is) = None"
  by (cases "is") auto

lemma tr_local_step:
  assumes step: "tr_next page h pc = Some (h', pc')" and ok: "tr_local h pc" and sh: "tr_shape h"
  shows "tr_local h' pc'"
proof (cases pc)
  case (LoadSite site i "is")
  then obtain pre where pre: "site \<noteq> 0" "site_probe site = pre @ i # is" "passed h site pre" using ok by auto
  consider "ts_sites h i = site" | "ts_sites h i \<noteq> site" "ts_sites h i \<noteq> 0" | "ts_sites h i = 0" "site \<noteq> 0" using pre(1) by blast
  then show ?thesis
  proof cases
    case 2
    with pre have "tr_local h (probe_at site is)" by (intro probe_at_local [of _ "pre @ [i]"]) (auto simp: passed_def)
    with 2 step LoadSite show ?thesis by auto
  qed (use pre step LoadSite in auto)
next
  case (PublishTarget site i built)
  then show ?thesis using step ok by (auto simp: published_def split: if_splits intro!: exI [of _ i])
next
  case (LoadTarget site i)
  then show ?thesis using step ok by (auto simp: published_def)
next
  case (Unmap site built existing)
  then show ?thesis using step ok by (auto simp: published_def)
qed (use step ok in \<open>auto split: if_splits option.splits\<close>)

lemma tr_shape_step:
  assumes step: "tr_next page h pc = Some (h', pc')" and ok: "tr_local h pc" and sh: "tr_shape h"
    and pg: "\<And>a. in_flight pc = Some a \<Longrightarrow> a \<noteq> 0 \<and> a \<notin> range (ts_targets h)"
  shows "tr_shape h'"
proof -
  note keep = passed_grows [OF access_grows [OF step]]
  have probes: "\<exists>pre post. site_probe (ts_sites h j) = pre @ j # post \<and> passed h' (ts_sites h j) pre" if "ts_sites h j \<noteq> 0" for j
    using sh that keep unfolding tr_shape_def by meson
  have targets: "ts_sites h i \<noteq> 0 \<and> ts_pages h (ts_targets h i) = Some (trampoline_code (ts_sites h i + 2))" if "ts_targets h i \<noteq> 0" for i
    using sh that by (simp add: tr_shape_def)
  show ?thesis
  proof (cases pc)
    case (ClaimSite site i "is")
    show ?thesis
    proof (cases "ts_sites h i = 0")
      case True
      then have h': "h' = h\<lparr>ts_sites := (ts_sites h)(i := site)\<rparr>" using step ClaimSite by simp
      obtain pre where "site_probe site = pre @ i # is" "passed h' site pre" using ok ClaimSite keep by auto
      then have "\<exists>pre post. site_probe (ts_sites h' j) = pre @ j # post \<and> passed h' (ts_sites h' j) pre" if "ts_sites h' j \<noteq> 0" for j
        using that probes [of j] by (cases "j = i") (auto simp: h')
      moreover have "ts_sites h' j \<noteq> 0 \<and> ts_pages h' (ts_targets h' j) = Some (trampoline_code (ts_sites h' j + 2))" if "ts_targets h' j \<noteq> 0" for j
        using that targets [of j] True by (auto simp: h')
      ultimately show ?thesis unfolding tr_shape_def by blast
    qed (use step ClaimSite sh in auto)
  next
    case (Build site i)
    then show ?thesis using step probes targets by (fastforce simp: tr_shape_def passed_def split: option.splits if_splits)
  next
    case (PublishTarget site i built)
    then show ?thesis using step ok probes targets by (auto simp: tr_shape_def passed_def split: if_splits)
  next
    case (Unmap site built existing)
    then have "ts_targets h j \<noteq> built" for j using pg [of built] by auto
    then show ?thesis using step Unmap probes targets by (auto simp: tr_shape_def passed_def)
  qed (use step sh in auto)
qed

lemma tr_pages_step:
  assumes step: "tr_next page h (pcs t) = Some (h', pc')" and ok: "tr_pages_ok h (\<lambda>u. in_flight (pcs u))"
  shows "tr_pages_ok h' (\<lambda>u. in_flight ((pcs(t := pc')) u)) \<and> (\<forall>u a. u \<noteq> t \<longrightarrow> in_flight (pcs u) = Some a \<longrightarrow> ts_pages h' a = ts_pages h a)"
proof -
  let ?fl = "\<lambda>u. in_flight (pcs u)"
  have dom: "ts_pages h a \<noteq> None \<longleftrightarrow> a \<noteq> 0 \<and> a \<in> range (ts_targets h) \<or> (\<exists>u. ?fl u = Some a)" for a using ok by (auto simp: tr_pages_ok_def)
  have fl: "?fl u = Some a \<Longrightarrow> a \<noteq> 0 \<and> a \<notin> range (ts_targets h)" "?fl u = Some a \<Longrightarrow> ?fl v = Some a \<Longrightarrow> u = v" for u v a
    using ok by (auto simp: tr_pages_ok_def)
  have apart: "in_flight (pcs u) \<noteq> Some (ts_targets h x)" for u x using fl(1) [of u "ts_targets h x"] by auto
  have same: ?thesis if "ts_targets h' = ts_targets h" "ts_pages h' = ts_pages h" "in_flight pc' = in_flight (pcs t)"
  proof -
    have "(\<lambda>u. in_flight ((pcs(t := pc')) u)) = ?fl" using that(3) by auto
    with ok that show ?thesis by (simp add: tr_pages_ok_def)
  qed
  have landed: "{a. \<exists>u. in_flight ((pcs(t := pc')) u) = Some a} = {a. \<exists>u. ?fl u = Some a} - {built}"
    if "in_flight pc' = None" "?fl t = Some built" for built
  proof -
    have "in_flight ((pcs(t := pc')) u) = Some b \<longleftrightarrow> ?fl u = Some b \<and> b \<noteq> built" for u b using that fl(2) [of u built t] by (cases "u = t") auto
    then show ?thesis by (simp only: set_eq_iff mem_Collect_eq Diff_iff singleton_iff) blast
  qed
  show ?thesis
  proof (cases "pcs t")
    case (Build site i)
    show ?thesis
    proof (cases page)
      case (Some a)
      then have a: "a \<noteq> 0" "ts_pages h a = None" "ts_targets h' = ts_targets h" "ts_pages h' = (ts_pages h)(a \<mapsto> trampoline_code (site + 2))" "in_flight pc' = Some a"
        using step Build by (auto split: if_splits)
      have "a \<notin> range (ts_targets h)" "\<And>u. ?fl u \<noteq> Some a" using dom [of a] a by auto
      moreover from this have f: "{b. \<exists>u. in_flight ((pcs(t := pc')) u) = Some b} = insert a {b. \<exists>u. ?fl u = Some b}"
      proof -
        have "in_flight (pcs t) = None" using Build by simp
        then have "in_flight ((pcs(t := pc')) u) = Some b \<longleftrightarrow> u = t \<and> b = a \<or> ?fl u = Some b" for u b using a(5) by auto
        then show ?thesis by blast
      qed
      ultimately show ?thesis unfolding tr_pages_ok_def f using a ok fl by (auto simp: tr_pages_ok_def split: if_splits)
    next
      case None
      show ?thesis by (rule same) (use step Build None in auto)
    qed
  next
    case (PublishTarget site i built)
    show ?thesis
    proof (cases "ts_targets h i = 0")
      case True
      then have a: "ts_targets h' = (ts_targets h)(i := built)" "ts_pages h' = ts_pages h" "in_flight pc' = None" using step PublishTarget by auto
      have b: "?fl t = Some built" using PublishTarget by simp
      have r: "{a. a \<noteq> 0 \<and> a \<in> range (ts_targets h')} = insert built {a. a \<noteq> 0 \<and> a \<in> range (ts_targets h)}"
        using True fl(1) [OF b] by (auto simp: a(1) image_iff split: if_splits)
      have f: "{a. \<exists>u. in_flight ((pcs(t := pc')) u) = Some a} = {a. \<exists>u. ?fl u = Some a} - {built}"
        using a(3) b by (rule landed)
      show ?thesis unfolding tr_pages_ok_def r f
        using ok a b fl apart by (auto simp: tr_pages_ok_def split: if_splits)
    next
      case False
      show ?thesis by (rule same) (use step PublishTarget False in auto)
    qed
  next
    case (Unmap site built existing)
    then have a: "ts_targets h' = ts_targets h" "ts_pages h' = (ts_pages h)(built := None)" "in_flight pc' = None" "?fl t = Some built" using step by auto
    have f: "{a. \<exists>u. in_flight ((pcs(t := pc')) u) = Some a} = {a. \<exists>u. ?fl u = Some a} - {built}"
      using a(3,4) by (rule landed)
    show ?thesis unfolding tr_pages_ok_def f
      using ok a fl by (auto simp: tr_pages_ok_def split: if_splits)
  qed (rule same; use step in \<open>auto split: if_splits\<close>)+
qed

lemma tr_inv_access:
  assumes inv: "tr_inv w" and ev: "tr_do (TrAccess t page) w = Some w'"
  shows "tr_inv w'"
proof -
  obtain h' pc' where nx: "tr_next page (tw_shared w) (tw_pc w t) = Some (h', pc')"
    and w': "w' = w\<lparr>tw_shared := h', tw_pc := (tw_pc w)(t := pc')\<rparr>" using ev by (auto split: option.splits)
  have sh: "tr_shape (tw_shared w)" and pg: "tr_pages_ok (tw_shared w) (\<lambda>t. in_flight (tw_pc w t))"
    and lo: "\<And>u. tr_local (tw_shared w) (tw_pc w u)" using inv by (auto simp: tr_inv_def)
  note gr = access_grows [OF nx]
  note pages = tr_pages_step [OF nx pg]
  have "tr_shape h'" by (rule tr_shape_step [OF nx lo sh]) (use pg in \<open>auto simp: tr_pages_ok_def\<close>)
  moreover have "tr_local h' (((tw_pc w)(t := pc')) u)" for u
    using tr_local_step [OF nx lo sh] local_grows [OF gr sh lo [of u]] pages by (cases "u = t") auto
  ultimately show ?thesis using inv pages published_grows [OF gr sh] by (auto simp: tr_inv_def w')
qed

lemma tr_inv_do: "tr_inv w \<Longrightarrow> tr_do e w = Some w' \<Longrightarrow> tr_inv w'"
proof (cases e)
  case (Fault t site)
  moreover assume inv: "tr_inv w" and "tr_do e w = Some w'"
  ultimately have r: "tw_pc w t = Resting" "site \<noteq> 0" and w': "w' = w\<lparr>tw_pc := (tw_pc w)(t := tr_start site)\<rparr>"
    by (auto simp: is_resting_def split: if_splits)
  have st: "tr_local (tw_shared w) (tr_start site)" "in_flight (tr_start site) = None"
    using r(2) probe_at_local [of site "[]" "site_probe site" "tw_shared w"] by (simp_all add: tr_start_def passed_def)
  have "(\<lambda>u. in_flight (tw_pc w' u)) = (\<lambda>u. in_flight (tw_pc w u))" using st(2) r(1) by (auto simp: w')
  with inv st(1) show ?thesis by (auto simp: tr_inv_def w')
next
  case (Resume t)
  moreover assume inv: "tr_inv w" and "tr_do e w = Some w'"
  ultimately obtain site a where r: "tw_pc w t = Found site a"
    and w': "w' = w\<lparr>tw_pc := (tw_pc w)(t := Resting), tw_log := tw_log w @ [(site, a)]\<rparr>" by (auto split: tr_pc.splits)
  have "tr_local (tw_shared w) (Found site a)" using inv r unfolding tr_inv_def by metis
  moreover have "(\<lambda>u. in_flight (tw_pc w' u)) = (\<lambda>u. in_flight (tw_pc w u))" using r by (auto simp: w')
  ultimately show ?thesis using inv by (auto simp: tr_inv_def w')
qed (use tr_inv_access in blast)

lemma tr_inv_run: "tr_run es w = Some w' \<Longrightarrow> tr_inv w \<Longrightarrow> tr_inv w'"
  by (induction es arbitrary: w) (auto split: option.splits intro: tr_inv_do)

lemma tr_initial_inv: "tr_inv tr_initial"
  by (simp add: tr_inv_def tr_initial_def tr_shape_def tr_pages_ok_def)

text \<open>
  C21: Threads that fault at the same \<open>int 2e\<close> at the same time agree on its trampoline. In every interleaving all calls that
  return a trampoline for a site return the same one, its page is mapped and holds the code that continues after that site, and
  a page built in vain is given back: once every thread has gone on, the only pages are the published ones.
\<close>

theorem one_trampoline_per_site:
  assumes "tr_run es tr_initial = Some w"
  shows "(\<forall>site a b. (site, Some a) \<in> set (tw_log w) \<and> (site, Some b) \<in> set (tw_log w) \<longrightarrow> a = b) \<and>
    (\<forall>site a. (site, Some a) \<in> set (tw_log w) \<longrightarrow> ts_pages (tw_shared w) a = Some (trampoline_code (site + 2))) \<and>
    ((\<forall>t. tw_pc w t = Resting) \<longrightarrow> dom (ts_pages (tw_shared w)) = {a. a \<noteq> 0 \<and> a \<in> range (ts_targets (tw_shared w))})"
proof -
  have inv: "tr_inv w" using assms tr_initial_inv by (rule tr_inv_run)
  then have sh: "tr_shape (tw_shared w)" and pg: "tr_pages_ok (tw_shared w) (\<lambda>t. in_flight (tw_pc w t))" by (auto simp: tr_inv_def)
  have log: "published (tw_shared w) site a" if "(site, Some a) \<in> set (tw_log w)" for site a using inv that by (auto simp: tr_inv_def)
  have one: "a = b" if pub: "published (tw_shared w) site a" "published (tw_shared w) site b" for site a b
  proof -
    obtain i j where i: "a \<noteq> 0" "ts_sites (tw_shared w) i = site" "ts_targets (tw_shared w) i = a"
        and j: "ts_sites (tw_shared w) j = site" "ts_targets (tw_shared w) j = b" using pub by (auto simp: published_def)
    have "i = j" by (rule site_unique [OF sh]) (use i j sh in \<open>auto simp: tr_shape_def\<close>)
    with i j show ?thesis by simp
  qed
  have "ts_pages (tw_shared w) a = Some (trampoline_code (site + 2))" if "published (tw_shared w) site a" for site a
    using that sh by (auto simp: published_def tr_shape_def)
  moreover have "dom (ts_pages (tw_shared w)) = {a. a \<noteq> 0 \<and> a \<in> range (ts_targets (tw_shared w))}" if "\<forall>t. tw_pc w t = Resting"
    using pg that by (simp add: tr_pages_ok_def)
  ultimately show ?thesis using log one by (intro conjI allI impI) (simp_all, metis)
qed

text \<open>Two threads fault at one site, both build, and the second to publish takes the page of the first.\<close>

definition two_faults :: "tr_event list" where
  "two_faults =
     [Fault 0 0x1000, Fault 1 0x1000, TrAccess 0 None, TrAccess 1 None, TrAccess 0 None, TrAccess 1 None, TrAccess 1 None,
      TrAccess 0 None, TrAccess 1 None, TrAccess 0 (Some 0x7000), TrAccess 1 (Some 0x8000), TrAccess 1 None, TrAccess 0 None,
      TrAccess 0 None, Resume 1, Resume 0]"

lemma two_faults_run: "\<exists>w. tr_run two_faults tr_initial = Some w \<and> tw_log w = [(0x1000, Some 0x8000), (0x1000, Some 0x8000)] \<and> (\<forall>t. tw_pc w t = Resting)"
proof -
  have "next_instruction 0x1000 \<noteq> None" by (simp add: next_instruction_def checked_add_def INT2E_INSTRUCTION_def)
  moreover obtain i rest where "site_probe 0x1000 = i # rest" by (cases "site_probe 0x1000") (auto simp: site_probe_def TRAMPOLINE_CAPACITY_def)
  ultimately have "tr_start 0x1000 = LoadSite 0x1000 i rest" by (simp add: tr_start_def)
  then show ?thesis by (simp add: two_faults_def tr_initial_def)
qed

theorem one_trampoline_per_site_witness:
  "\<exists>w. tr_run two_faults tr_initial = Some w \<and> ts_pages (tw_shared w) 0x8000 = Some (trampoline_code 0x1002) \<and>
     dom (ts_pages (tw_shared w)) = {a. a \<noteq> 0 \<and> a \<in> range (ts_targets (tw_shared w))}"
proof -
  obtain w where w: "tr_run two_faults tr_initial = Some w" "tw_log w = [(0x1000, Some 0x8000), (0x1000, Some 0x8000)]" "\<forall>t. tw_pc w t = Resting"
    using two_faults_run by blast
  from one_trampoline_per_site [OF w(1)] w(2,3) have "ts_pages (tw_shared w) 0x8000 = Some (trampoline_code (0x1000 + 2))"
      "dom (ts_pages (tw_shared w)) = {a. a \<noteq> 0 \<and> a \<in> range (ts_targets (tw_shared w))}" by auto
  with w(1) show ?thesis by (intro exI [of _ w]) simp
qed

end
