(* ===== verification/Diagnostics.thy ===== *)
theory Diagnostics
  imports Prelude
begin

text \<open>
  \<^verbatim>\<open>runtime/src/syscall/diagnostics.rs\<close>: the ring of the last trapped system calls, and its dump into the
  debug log at a fault on a null address. An operation is one step, the writing mark on a slot
  being visible only inside it; a slot that carries the mark, or a newer ticket, is left alone.
\<close>

section \<open>Events and the ring\<close>

definition HISTORY_CAPACITY :: nat where "HISTORY_CAPACITY = 32"
definition WRITING_BIT :: u64 where "WRITING_BIT = push_bit 63 1"
definition NULL_FAULT_DUMP_LIMIT :: u64 where "NULL_FAULT_DUMP_LIMIT = 4"

datatype disposition = Forwarded | BridgeReplayRestored | ReflexBypassForwarded | LocallyCompleted | ReflexRouteDeclined | ReflexRedirected

fun disposition_code :: "disposition \<Rightarrow> u64" where
  "disposition_code Forwarded = 0"
| "disposition_code BridgeReplayRestored = 1"
| "disposition_code ReflexBypassForwarded = 2"
| "disposition_code LocallyCompleted = 3"
| "disposition_code ReflexRouteDeclined = 4"
| "disposition_code ReflexRedirected = 5"

type_synonym event = "u64 list"

definition make_event :: "u64 \<Rightarrow> u64 \<Rightarrow> disposition \<Rightarrow> u64 list \<Rightarrow> event" where
  "make_event tid signal_code d registers = [tid, signal_code, disposition_code d] @ take 10 registers"

definition with_disposition :: "event \<Rightarrow> disposition \<Rightarrow> event" where
  "with_disposition ev d = ev[2 := disposition_code d]"

record slot =
  sl_sequence :: u64
  sl_fields :: event

record event_ring =
  hi_next :: u64
  hi_slots :: "slot list"

definition ring_new :: event_ring where
  "ring_new = \<lparr>hi_next = 0, hi_slots = replicate HISTORY_CAPACITY \<lparr>sl_sequence = 0, sl_fields = replicate 13 0\<rparr>\<rparr>"

definition slot_index :: "u64 \<Rightarrow> nat" where
  "slot_index ticket = unat ticket mod HISTORY_CAPACITY"

definition record_event :: "event \<Rightarrow> event_ring \<Rightarrow> event_ring" where
  "record_event ev h =
     (let ticket = hi_next h;
          h1 = h\<lparr>hi_next := ticket + 1\<rparr>;
          i = slot_index ticket;
          sequence = ticket + 1;
          current = sl_sequence (hi_slots h ! i) in
      if current AND WRITING_BIT \<noteq> 0 \<or> current > sequence then h1
      else h1\<lparr>hi_slots := (hi_slots h)[i := \<lparr>sl_sequence = sequence, sl_fields = ev\<rparr>]\<rparr>)"

definition visit_tickets :: "u64 \<Rightarrow> u64 list" where
  "visit_tickets e = map of_nat [unat e - HISTORY_CAPACITY..<unat e]"

definition visit_recent :: "event_ring \<Rightarrow> (u64 \<times> event) list" where
  "visit_recent h = List.map_filter (\<lambda>ticket.
      let s = hi_slots h ! slot_index ticket in
      if sl_sequence s = ticket + 1 then Some (ticket, sl_fields s) else None) (visit_tickets (hi_next h))"

section \<open>The dump\<close>

definition record_game_event :: "bool \<Rightarrow> bool \<Rightarrow> event \<Rightarrow> event_ring \<Rightarrow> event_ring" where
  "record_game_event debug game ev h = (if debug \<and> game then record_event ev h else h)"

type_synonym log_line = "string \<times> u64 option"

definition event_lines :: "u64 \<times> event \<Rightarrow> log_line list" where
  "event_lines te = (''NBA SIGSYS history event'', None) # (''NBA SIGSYS sequence='', Some (fst te)) #
     map (\<lambda>(n, f). (''NBA SIGSYS '' @ n @ ''='', Some f))
       (zip [''tid'', ''signal_code'', ''disposition'', ''RIP'', ''RSP'', ''RAX'', ''R10'', ''RCX'', ''RDX'', ''R8'', ''R9'', ''R13'', ''XMM5 low''] (snd te))"

definition dump_on_null_fault :: "bool \<Rightarrow> event_ring \<Rightarrow> u64 \<Rightarrow> u64 \<Rightarrow> u64 \<Rightarrow> u64 \<Rightarrow> u64 \<times> log_line list" where
  "dump_on_null_fault game h address rip tid dumps =
     (if address \<noteq> 0 \<or> \<not> game then (dumps, [])
      else if dumps \<ge> NULL_FAULT_DUMP_LIMIT then (dumps + 1, [])
      else (dumps + 1,
        [(''NBA null-address SIGSEGV; recent SIGSYS history follows'', None), (''NBA fault tid='', Some tid), (''NBA fault RIP='', Some rip)]
        @ concat (map event_lines (visit_recent h))))"

section \<open>What the ring holds\<close>

text \<open>After the events \<open>es\<close>: the last of them are in their slots, and unused slots are fresh.\<close>

definition holds :: "event_ring \<Rightarrow> event list \<Rightarrow> bool" where
  "holds h es \<longleftrightarrow> length es < 2 ^ 63 \<and> hi_next h = of_nat (length es) \<and> length (hi_slots h) = HISTORY_CAPACITY \<and>
     (\<forall>t < length es. length es \<le> t + HISTORY_CAPACITY \<longrightarrow>
        hi_slots h ! (t mod HISTORY_CAPACITY) = \<lparr>sl_sequence = of_nat (t + 1), sl_fields = es ! t\<rparr>) \<and>
     (\<forall>i < HISTORY_CAPACITY. length es \<le> i \<longrightarrow> sl_sequence (hi_slots h ! i) = 0)"

lemma unat_small: "n < 2 ^ 64 \<Longrightarrow> unat (of_nat n :: u64) = n"
  by (simp add: unat_of_nat)

lemma holds_new: "holds ring_new []"
  by (simp add: holds_def ring_new_def)

lemma not_writing:
  assumes "unat w < 2 ^ 63"
  shows "w AND WRITING_BIT = (0 :: u64)"
proof (rule bit_word_eqI)
  fix n
  have "\<not> bit w 63"
  proof -
    have "unat (drop_bit 63 w) = 0" using assms by (simp add: drop_bit_eq_div unat_div)
    then have "drop_bit 63 w = 0" by (simp only: unat_eq_zero)
    then have "\<not> bit (drop_bit 63 w) 0" by simp
    then show ?thesis unfolding bit_drop_bit_eq by simp
  qed
  then show "bit (w AND WRITING_BIT) n = bit (0 :: u64) n"
    unfolding bit_and_iff WRITING_BIT_def bit_push_bit_iff bit_1_iff by (cases "n = 63") auto
qed

lemma record_event_holds:
  assumes h: "holds h es" and len: "Suc (length es) < 2 ^ 63"
  shows "holds (record_event ev h) (es @ [ev])"
proof -
  let ?n = "length es" and ?i = "length es mod HISTORY_CAPACITY"
  have cap: "HISTORY_CAPACITY = 32" by (simp add: HISTORY_CAPACITY_def)
  have i: "slot_index (hi_next h) = ?i" "?i < length (hi_slots h)"
    using h len by (simp_all add: slot_index_def holds_def unat_small HISTORY_CAPACITY_def)
  have cur: "unat (sl_sequence (hi_slots h ! ?i)) \<le> ?n"
  proof (cases "?n < HISTORY_CAPACITY")
    case True
    with h show ?thesis by (simp add: holds_def)
  next
    case False
    let ?t = "?n - HISTORY_CAPACITY"
    have "?t mod HISTORY_CAPACITY = ?i" using False by (simp add: le_mod_geq)
    moreover have "?t < ?n" "?n \<le> ?t + HISTORY_CAPACITY" using False cap by simp_all
    ultimately have "hi_slots h ! ?i = \<lparr>sl_sequence = of_nat (?t + 1), sl_fields = es ! ?t\<rparr>"
      using h unfolding holds_def by metis
    then show ?thesis using len cap False unat_small [of "?t + 1"] by simp
  qed
  have seq: "unat (hi_next h + 1) = ?n + 1"
    using h len unat_small [of "?n + 1"] by (simp add: holds_def add.commute)
  have w: "sl_sequence (hi_slots h ! ?i) AND WRITING_BIT = 0" "\<not> sl_sequence (hi_slots h ! ?i) > hi_next h + 1"
    using cur len seq by (auto intro!: not_writing simp: word_less_nat_alt simp del: unat_1)
  let ?h = "h\<lparr>hi_next := hi_next h + 1, hi_slots := (hi_slots h)[?i := \<lparr>sl_sequence = hi_next h + 1, sl_fields = ev\<rparr>]\<rparr>"
  have eq: "record_event ev h = ?h" using w i by (simp add: record_event_def Let_def)
  have "hi_slots ?h ! (t mod HISTORY_CAPACITY) = \<lparr>sl_sequence = of_nat (t + 1), sl_fields = (es @ [ev]) ! t\<rparr>"
    if t: "t < Suc ?n" "Suc ?n \<le> t + HISTORY_CAPACITY" for t
  proof (cases "t = ?n")
    case True
    with i h show ?thesis by (simp add: holds_def add.commute)
  next
    case False
    then have "t mod HISTORY_CAPACITY \<noteq> ?i"
    proof -
      obtain d where d: "?n = t + d" "0 < d" "d < HISTORY_CAPACITY" using t False by (metis Suc_le_lessD add_less_cancel_left less_Suc_eq less_imp_add_positive)
      then show ?thesis using mod_eq_dvd_iff_nat [of t ?n HISTORY_CAPACITY] by (auto simp: nat_dvd_not_less)
    qed
    with False t h show ?thesis by (simp add: holds_def nth_append)
  qed
  moreover have "sl_sequence (hi_slots ?h ! j) = 0" if "j < HISTORY_CAPACITY" "Suc ?n \<le> j" for j
    using that h by (simp add: holds_def)
  ultimately show ?thesis using h len unfolding eq holds_def by (simp add: add.commute)
qed

lemma record_events_hold:
  "length es < 2 ^ 63 \<Longrightarrow> holds (fold record_event es ring_new) es"
proof (induction es rule: rev_induct)
  case (snoc ev es)
  then show ?case using record_event_holds [of _ es ev] by simp
qed (simp add: holds_new)

text \<open>
  The ring keeps the most recent trapped calls in order. After any number of recorded
  events a dump shows exactly the last 32 of them (all of them when there are fewer), oldest
  first, each with its sequence number.
\<close>

lemma history_keeps_most_recent:
  assumes "length es < 2 ^ 63"
  shows "visit_recent (fold record_event es ring_new) =
    map (\<lambda>t. (of_nat t, es ! t)) [length es - HISTORY_CAPACITY..<length es]"
proof -
  let ?h = "fold record_event es ring_new"
  note h = record_events_hold [OF assms]
  then have n: "unat (hi_next ?h) = length es" using assms by (simp add: holds_def unat_small)
  have tickets: "visit_tickets (hi_next ?h) = map of_nat [length es - HISTORY_CAPACITY..<length es]"
    by (simp add: visit_tickets_def n)
  have slot: "hi_slots ?h ! slot_index (of_nat t) = \<lparr>sl_sequence = of_nat t + 1, sl_fields = es ! t\<rparr>"
    if "t \<in> set [length es - HISTORY_CAPACITY..<length es]" for t
  proof -
    from that assms have "slot_index (of_nat t) = t mod HISTORY_CAPACITY" by (simp add: slot_index_def unat_small)
    moreover have "t < length es" "length es \<le> t + HISTORY_CAPACITY" using that by auto
    ultimately show ?thesis using h by (simp add: holds_def add.commute)
  qed
  show ?thesis
    unfolding visit_recent_def tickets
    by (simp add: List.map_filter_def comp_def slot Let_def cong: filter_cong map_cong)
qed

end
