(* ===== verification/History_Races.thy ===== *)
theory History_Races
  imports Diagnostics
begin

text \<open>
  The ring of trapped system calls of \<^verbatim>\<open>syscall/diagnostics.rs\<close> under concurrent use. \<open>Diagnostics\<close> takes a record or a dump as one
  step; here every access of \<^verbatim>\<open>History::record\<close> and \<^verbatim>\<open>History::visit_recent\<close> is a step of its own. Signal handlers on any number of
  threads record and dump at once, and the ring wraps under them.
\<close>

section \<open>The accesses\<close>

definition FIELD_COUNT :: nat where "FIELD_COUNT = 13"

datatype hr_pc =
    is_still: Still
  | TakeTicket event
  | CheckSlot u64 event
  | MarkSlot u64 event u64
  | FillSlot u64 event nat
  | LoadEnd
  | Look "u64 list" "(u64 \<times> event) list"
  | ReadField u64 "u64 list" event "(u64 \<times> event) list"
  | Shown "(u64 \<times> event) list"

record hr_shared =
  hs_next :: u64
  hs_slots :: "nat \<Rightarrow> slot"

definition set_slot :: "u64 \<Rightarrow> (slot \<Rightarrow> slot) \<Rightarrow> hr_shared \<Rightarrow> hr_shared" where
  "set_slot ticket f h = h\<lparr>hs_slots := (hs_slots h)(slot_index ticket := f (hs_slots h (slot_index ticket)))\<rparr>"

fun hr_next :: "hr_shared \<Rightarrow> hr_pc \<Rightarrow> (hr_shared \<times> hr_pc) option" where
  "hr_next h Still = None"
| "hr_next h (Shown v) = None"
| "hr_next h (TakeTicket ev) = Some (h\<lparr>hs_next := hs_next h + 1\<rparr>, CheckSlot (hs_next h) ev)"
| "hr_next h (CheckSlot ticket ev) =
     (let current = sl_sequence (hs_slots h (slot_index ticket)) in
      Some (h, if current AND WRITING_BIT \<noteq> 0 \<or> current > ticket + 1 then Still else MarkSlot ticket ev current))"
| "hr_next h (MarkSlot ticket ev current) =
     (if sl_sequence (hs_slots h (slot_index ticket)) = current
      then Some (set_slot ticket (\<lambda>s. s\<lparr>sl_sequence := (ticket + 1) OR WRITING_BIT\<rparr>) h, FillSlot ticket ev 0)
      else Some (h, CheckSlot ticket ev))"
| "hr_next h (FillSlot ticket ev k) =
     (if k < FIELD_COUNT then Some (set_slot ticket (\<lambda>s. s\<lparr>sl_fields := (sl_fields s)[k := ev ! k]\<rparr>) h, FillSlot ticket ev (k + 1))
      else Some (set_slot ticket (\<lambda>s. s\<lparr>sl_sequence := ticket + 1\<rparr>) h, Still))"
| "hr_next h LoadEnd = Some (h, Look (visit_tickets (hs_next h)) [])"
| "hr_next h (Look [] v) = Some (h, Shown v)"
| "hr_next h (Look (ticket # rest) v) =
     Some (h, if sl_sequence (hs_slots h (slot_index ticket)) = ticket + 1 then ReadField ticket rest [] v else Look rest v)"
| "hr_next h (ReadField ticket rest got v) =
     (if length got < FIELD_COUNT
      then Some (h, ReadField ticket rest (got @ [sl_fields (hs_slots h (slot_index ticket)) ! length got]) v)
      else Some (h, Look rest (if sl_sequence (hs_slots h (slot_index ticket)) = ticket + 1 then v @ [(ticket, got)] else v)))"

text \<open>\<open>hw_events\<close> keeps the events in the order of their tickets, \<open>hw_shown\<close> what the dumps visited.\<close>

record hr_world =
  hw_shared :: hr_shared
  hw_pc :: "nat \<Rightarrow> hr_pc"
  hw_events :: "event list"
  hw_shown :: "(u64 \<times> event) list"

definition hr_initial :: hr_world where
  "hr_initial = \<lparr>hw_shared = \<lparr>hs_next = 0, hs_slots = \<lambda>_. \<lparr>sl_sequence = 0, sl_fields = replicate FIELD_COUNT 0\<rparr>\<rparr>,
     hw_pc = \<lambda>_. Still, hw_events = [], hw_shown = []\<rparr>"

datatype hr_event = Record nat event | Dump nat | HrAccess nat | Show nat

fun ticketed :: "hr_pc \<Rightarrow> event list" where
  "ticketed (TakeTicket ev) = [ev]"
| "ticketed _ = []"

fun hr_do :: "hr_event \<Rightarrow> hr_world \<Rightarrow> hr_world option" where
  "hr_do (Record t ev) w =
     (if is_still (hw_pc w t) \<and> length ev = FIELD_COUNT then Some (w\<lparr>hw_pc := (hw_pc w)(t := TakeTicket ev)\<rparr>) else None)"
| "hr_do (Dump t) w = (if is_still (hw_pc w t) then Some (w\<lparr>hw_pc := (hw_pc w)(t := LoadEnd)\<rparr>) else None)"
| "hr_do (HrAccess t) w = (case hr_next (hw_shared w) (hw_pc w t) of
     None \<Rightarrow> None
   | Some (h, pc) \<Rightarrow> Some (w\<lparr>hw_shared := h, hw_pc := (hw_pc w)(t := pc), hw_events := hw_events w @ ticketed (hw_pc w t)\<rparr>))"
| "hr_do (Show t) w = (case hw_pc w t of
     Shown v \<Rightarrow> Some (w\<lparr>hw_pc := (hw_pc w)(t := Still), hw_shown := hw_shown w @ v\<rparr>)
   | _ \<Rightarrow> None)"

fun hr_run :: "hr_event list \<Rightarrow> hr_world \<Rightarrow> hr_world option" where
  "hr_run [] w = Some w"
| "hr_run (e # es) w = (case hr_do e w of None \<Rightarrow> None | Some w' \<Rightarrow> hr_run es w')"

section \<open>The invariant\<close>

text \<open>
  \<open>lv\<close> is one more than the last ticket a slot was marked with; it only grows. A slot is busy while some thread fills it.
\<close>

fun filling :: "hr_pc \<Rightarrow> u64 option" where
  "filling (FillSlot ticket ev k) = Some ticket"
| "filling _ = None"

fun ticket_of :: "hr_pc \<Rightarrow> u64 option" where
  "ticket_of (CheckSlot ticket ev) = Some ticket"
| "ticket_of (MarkSlot ticket ev c) = Some ticket"
| "ticket_of (FillSlot ticket ev k) = Some ticket"
| "ticket_of _ = None"

definition busy :: "(nat \<Rightarrow> hr_pc) \<Rightarrow> nat \<Rightarrow> bool" where
  "busy pcs j \<longleftrightarrow> (\<exists>t ticket. filling (pcs t) = Some ticket \<and> slot_index ticket = j)"

definition recorded :: "event list \<Rightarrow> u64 \<Rightarrow> event \<Rightarrow> bool" where
  "recorded es ticket ev \<longleftrightarrow> unat ticket < length es \<and> es ! unat ticket = ev"

fun shown_of :: "hr_pc \<Rightarrow> (u64 \<times> event) list" where
  "shown_of (Look r v) = v"
| "shown_of (ReadField ticket r f v) = v"
| "shown_of (Shown v) = v"
| "shown_of _ = []"

fun to_visit :: "hr_pc \<Rightarrow> u64 list" where
  "to_visit (Look r v) = r"
| "to_visit (ReadField ticket r f v) = ticket # r"
| "to_visit _ = []"

fun hr_local :: "(nat \<Rightarrow> slot) \<Rightarrow> event list \<Rightarrow> (nat \<Rightarrow> nat) \<Rightarrow> (nat \<Rightarrow> bool) \<Rightarrow> hr_pc \<Rightarrow> bool" where
  "hr_local sl es lv b (TakeTicket ev) \<longleftrightarrow> length ev = FIELD_COUNT"
| "hr_local sl es lv b (CheckSlot ticket ev) \<longleftrightarrow> recorded es ticket ev \<and> length ev = FIELD_COUNT \<and> lv (slot_index ticket) \<noteq> unat ticket + 1"
| "hr_local sl es lv b (MarkSlot ticket ev c) \<longleftrightarrow> recorded es ticket ev \<and> length ev = FIELD_COUNT \<and> lv (slot_index ticket) \<noteq> unat ticket + 1 \<and>
     c AND WRITING_BIT = 0 \<and> c \<le> ticket + 1"
| "hr_local sl es lv b (FillSlot ticket ev k) \<longleftrightarrow> recorded es ticket ev \<and> length ev = FIELD_COUNT \<and> k \<le> FIELD_COUNT \<and>
     lv (slot_index ticket) = unat ticket + 1 \<and> sl_sequence (sl (slot_index ticket)) = (ticket + 1) OR WRITING_BIT \<and>
     take k (sl_fields (sl (slot_index ticket))) = take k ev"
| "hr_local sl es lv b (ReadField ticket r f v) \<longleftrightarrow> length f \<le> FIELD_COUNT \<and> unat ticket + 1 \<le> lv (slot_index ticket) \<and>
     (lv (slot_index ticket) = unat ticket + 1 \<longrightarrow> \<not> b (slot_index ticket) \<and> f = take (length f) (es ! unat ticket))"
| "hr_local sl es lv b _ \<longleftrightarrow> True"

definition hr_slots :: "(nat \<Rightarrow> slot) \<Rightarrow> event list \<Rightarrow> (nat \<Rightarrow> nat) \<Rightarrow> (nat \<Rightarrow> bool) \<Rightarrow> bool" where
  "hr_slots sl es lv b \<longleftrightarrow> (\<forall>j. length (sl_fields (sl j)) = FIELD_COUNT \<and> lv j \<le> length es \<and>
     (\<not> b j \<longrightarrow> sl_sequence (sl j) = of_nat (lv j) \<and> (lv j \<noteq> 0 \<longrightarrow> sl_fields (sl j) = es ! (lv j - 1))))"

definition hr_inv :: "(nat \<Rightarrow> nat) \<Rightarrow> hr_world \<Rightarrow> bool" where
  "hr_inv lv w \<longleftrightarrow> hs_next (hw_shared w) = of_nat (length (hw_events w)) \<and>
     hr_slots (hs_slots (hw_shared w)) (hw_events w) lv (busy (hw_pc w)) \<and>
     (\<forall>t. hr_local (hs_slots (hw_shared w)) (hw_events w) lv (busy (hw_pc w)) (hw_pc w t) \<and>
        (\<forall>ticket \<in> set (to_visit (hw_pc w t)). unat ticket < length (hw_events w)) \<and>
        (\<forall>(ticket, ev) \<in> set (shown_of (hw_pc w t)). recorded (hw_events w) ticket ev)) \<and>
     (\<forall>t u ticket. ticket_of (hw_pc w t) = Some ticket \<and> ticket_of (hw_pc w u) = Some ticket \<longrightarrow> t = u) \<and>
     (\<forall>(ticket, ev) \<in> set (hw_shown w). recorded (hw_events w) ticket ev)"

lemma writing_nonzero [simp]: "WRITING_BIT \<noteq> 0"
proof
  assume "WRITING_BIT = 0"
  then have "\<not> bit WRITING_BIT 63" by simp
  then show False by (simp add: WRITING_BIT_def bit_simps)
qed

lemma unat_ticket: "unat ticket < 2 ^ 63 \<Longrightarrow> unat (ticket + 1) = unat ticket + 1" for ticket :: u64
  by (subst unat_add_no_overflow) simp_all

lemma recorded_append: "recorded es ticket ev \<Longrightarrow> recorded (es @ xs) ticket ev"
  by (auto simp: recorded_def nth_append)

text \<open>The invariant of a small ring, for at most \<open>2 ^ 63\<close> tickets; a word without the writing mark is then its ticket plus one.\<close>

lemma hr_invD:
  assumes "hr_inv lv w"
  shows "hs_next (hw_shared w) = of_nat (length (hw_events w))" "hr_slots (hs_slots (hw_shared w)) (hw_events w) lv (busy (hw_pc w))"
    "hr_local (hs_slots (hw_shared w)) (hw_events w) lv (busy (hw_pc w)) (hw_pc w t)"
    "ticket \<in> set (to_visit (hw_pc w t)) \<Longrightarrow> unat ticket < length (hw_events w)"
    "(ticket, ev) \<in> set (shown_of (hw_pc w t)) \<Longrightarrow> recorded (hw_events w) ticket ev"
    "ticket_of (hw_pc w t) = Some ticket \<Longrightarrow> ticket_of (hw_pc w u) = Some ticket \<Longrightarrow> t = u"
    "(ticket, ev) \<in> set (hw_shown w) \<Longrightarrow> recorded (hw_events w) ticket ev"
  using assms unfolding hr_inv_def by blast+

lemma hr_invI:
  assumes "hs_next (hw_shared w) = of_nat (length (hw_events w))" "hr_slots (hs_slots (hw_shared w)) (hw_events w) lv b" "busy (hw_pc w) = b"
    and "\<And>t. hr_local (hs_slots (hw_shared w)) (hw_events w) lv b (hw_pc w t)"
    and "\<And>t ticket. ticket \<in> set (to_visit (hw_pc w t)) \<Longrightarrow> unat ticket < length (hw_events w)"
    and "\<And>t ticket ev. (ticket, ev) \<in> set (shown_of (hw_pc w t)) \<Longrightarrow> recorded (hw_events w) ticket ev"
    and "\<And>t u ticket. ticket_of (hw_pc w t) = Some ticket \<Longrightarrow> ticket_of (hw_pc w u) = Some ticket \<Longrightarrow> t = u"
    and "\<And>ticket ev. (ticket, ev) \<in> set (hw_shown w) \<Longrightarrow> recorded (hw_events w) ticket ev"
  shows "hr_inv lv w"
  using assms unfolding hr_inv_def by blast

lemma busy_upd: "filling pc' = filling (pcs t) \<Longrightarrow> busy (pcs(t := pc')) = busy pcs"
proof
  fix j
  assume "filling pc' = filling (pcs t)"
  then have "filling ((pcs(t := pc')) u) = filling (pcs u)" for u by simp
  then show "busy (pcs(t := pc')) j = busy pcs j" by (simp only: busy_def)
qed

text \<open>A step that leaves the slots and the events as they are.\<close>

lemma hr_inv_quiet:
  assumes inv: "hr_inv lv w" and w': "w' = w\<lparr>hw_pc := (hw_pc w)(t := pc')\<rparr>" and f: "filling pc' = filling (hw_pc w t)"
    and k: "ticket_of pc' = None \<or> ticket_of pc' = ticket_of (hw_pc w t)"
    and l: "hr_local (hs_slots (hw_shared w)) (hw_events w) lv (busy (hw_pc w)) pc'"
    and v: "set (to_visit pc') \<subseteq> {ticket. unat ticket < length (hw_events w)}"
    and s: "\<forall>(ticket, ev) \<in> set (shown_of pc'). recorded (hw_events w) ticket ev"
  shows "hr_inv lv w'"
proof -
  have b: "busy (hw_pc w') = busy (hw_pc w)" using busy_upd [of pc' "hw_pc w" t] f by (simp add: w')
  have u: "t' = u" if "ticket_of (hw_pc w' t') = Some ticket" "ticket_of (hw_pc w' u) = Some ticket" for t' u ticket
  proof -
    have "ticket_of (hw_pc w x) = Some ticket" if "ticket_of (hw_pc w' x) = Some ticket" for x using that k by (auto simp: w' split: if_splits)
    with that show ?thesis by (blast intro: hr_invD(6) [OF inv])
  qed
  show ?thesis
  proof (rule hr_invI [OF _ _ b])
    show "t' = x" if "ticket_of (hw_pc w' t') = Some ticket" "ticket_of (hw_pc w' x) = Some ticket" for t' x ticket using that by (rule u)
  qed (use hr_invD [OF inv] l v s in \<open>auto simp: w' split: if_splits\<close>)
qed

lemma busyI: "pcs t = FillSlot ticket ev k \<Longrightarrow> busy pcs (slot_index ticket)"
  unfolding busy_def by (intro exI [of _ t] exI [of _ ticket]) simp

lemma busy_marked: "hr_inv lv w \<Longrightarrow> busy (hw_pc w) j \<Longrightarrow> sl_sequence (hs_slots (hw_shared w) j) AND WRITING_BIT \<noteq> 0"
proof -
  assume inv: "hr_inv lv w" and "busy (hw_pc w) j"
  then obtain t ticket where t: "filling (hw_pc w t) = Some ticket" "slot_index ticket = j" by (auto simp: busy_def)
  then obtain ev k where "hw_pc w t = FillSlot ticket ev k" by (cases "hw_pc w t") auto
  with hr_invD(3) [OF inv, of t] t(2) show ?thesis by auto
qed

lemma unmarked_level:
  assumes inv: "hr_inv lv w" and small: "length (hw_events w) < 2 ^ 63"
    and un: "sl_sequence (hs_slots (hw_shared w) j) AND WRITING_BIT = 0"
  shows "\<not> busy (hw_pc w) j \<and> unat (sl_sequence (hs_slots (hw_shared w) j)) = lv j"
proof -
  have nb: "\<not> busy (hw_pc w) j" using busy_marked [OF inv] un by blast
  with hr_invD(2) [OF inv] have "sl_sequence (hs_slots (hw_shared w) j) = of_nat (lv j)" "lv j \<le> length (hw_events w)" by (auto simp: hr_slots_def)
  with small nb show ?thesis by (simp add: unat_small)
qed

lemma published_slot:
  assumes inv: "hr_inv lv w" and small: "length (hw_events w) < 2 ^ 63"
    and "unat ticket < length (hw_events w)" "sl_sequence (hs_slots (hw_shared w) (slot_index ticket)) = ticket + 1"
  shows "\<not> busy (hw_pc w) (slot_index ticket) \<and> lv (slot_index ticket) = unat ticket + 1"
proof -
  have u: "unat (ticket + 1) = unat ticket + 1" using small assms(3) by (intro unat_ticket) simp
  then have "(ticket + 1) AND WRITING_BIT = 0" using small assms(3) by (intro not_writing) simp
  with unmarked_level [OF inv small, of "slot_index ticket"] assms(4) u show ?thesis by simp
qed

section \<open>The accesses keep it\<close>

lemma hr_take:
  assumes inv: "hr_inv lv w" and pc: "hw_pc w t = TakeTicket ev" and small: "Suc (length (hw_events w)) < 2 ^ 63"
    and w': "hr_do (HrAccess t) w = Some w'"
  shows "hr_inv lv w'"
proof -
  let ?n = "hs_next (hw_shared w)" and ?es = "hw_events w @ [ev]"
  have n: "unat ?n = length (hw_events w)" using hr_invD(1) [OF inv] small by (simp add: unat_small)
  have w: "w' = w\<lparr>hw_shared := (hw_shared w)\<lparr>hs_next := ?n + 1\<rparr>, hw_pc := (hw_pc w)(t := CheckSlot ?n ev), hw_events := ?es\<rparr>"
    using w' pc by simp
  have b: "busy (hw_pc w') = busy (hw_pc w)" using busy_upd [of "CheckSlot ?n ev" "hw_pc w" t] pc by (simp add: w)
  have loc: "hr_local sl ?es lv c p" if "hr_local sl (hw_events w) lv c p" "\<forall>ticket \<in> set (to_visit p). unat ticket < length (hw_events w)" for sl c p
    using that by (cases p) (auto simp: recorded_append nth_append)
  have below: "unat ticket < length (hw_events w)" if "ticket_of (hw_pc w u) = Some ticket" for u ticket
    using that hr_invD(3) [OF inv, of u] by (cases "hw_pc w u") (auto simp: recorded_def)
  have len: "length ev = FIELD_COUNT" using hr_invD(3) [OF inv, of t] pc by simp
  have lv: "lv (slot_index ?n) \<noteq> unat ?n + 1" 
  proof -
    have "lv (slot_index ?n) \<le> length (hw_events w)" using hr_invD(2) [OF inv] by (simp add: hr_slots_def)
    with n show ?thesis by simp
  qed
  have slots: "hr_slots (hs_slots (hw_shared w)) ?es lv (busy (hw_pc w))"
    unfolding hr_slots_def
  proof (intro allI)
    fix j
    have "lv j - 1 < length (hw_events w)" if "lv j \<noteq> 0" using hr_invD(2) [OF inv] that unfolding hr_slots_def by (metis Suc_diff_1 less_eq_Suc_le neq0_conv)
    then show "length (sl_fields (hs_slots (hw_shared w) j)) = FIELD_COUNT \<and> lv j \<le> length ?es \<and>
        (\<not> busy (hw_pc w) j \<longrightarrow> sl_sequence (hs_slots (hw_shared w) j) = of_nat (lv j) \<and> (lv j \<noteq> 0 \<longrightarrow> sl_fields (hs_slots (hw_shared w) j) = ?es ! (lv j - 1)))"
      using hr_invD(2) [OF inv] by (auto simp: hr_slots_def nth_append le_SucI)
  qed
  show ?thesis
  proof (rule hr_invI [OF _ _ b])
    show "hr_local (hs_slots (hw_shared w')) (hw_events w') lv (busy (hw_pc w)) (hw_pc w' u)" for u
      using loc [OF hr_invD(3) [OF inv, of u]] hr_invD(4) [OF inv, of _ u] n len lv by (cases "u = t") (auto simp: w recorded_def)
    show "t' = u" if "ticket_of (hw_pc w' t') = Some ticket" "ticket_of (hw_pc w' u) = Some ticket" for t' u ticket
      using that below [of t' ticket] below [of u ticket] n hr_invD(6) [OF inv, of t' ticket u] by (auto simp: w split: if_splits)
  next
    fix u ticket assume "ticket \<in> set (to_visit (hw_pc w' u))"
    then have "unat ticket < length (hw_events w)" using hr_invD(4) [OF inv, of ticket u] by (cases "u = t") (auto simp: w)
    then show "unat ticket < length (hw_events w')" by (simp add: w)
  next
    fix u ticket e assume "(ticket, e) \<in> set (shown_of (hw_pc w' u))"
    then have "recorded (hw_events w) ticket e" using hr_invD(5) [OF inv, of ticket e u] by (cases "u = t") (auto simp: w)
    then show "recorded (hw_events w') ticket e" by (simp add: w recorded_append)
  qed (use hr_invD(1,7) [OF inv] slots in \<open>auto simp: w recorded_append\<close>)
qed

text \<open>A step that changes one slot, of the ticket that its thread has.\<close>

lemma hr_inv_slot:
  assumes inv: "hr_inv lv w" and k: "ticket_of (hw_pc w t) = Some ticket" "ticket_of pc' = None \<or> ticket_of pc' = Some ticket"
    and pc': "to_visit pc' = []" "shown_of pc' = []"
    and w': "w' = w\<lparr>hw_shared := set_slot ticket f (hw_shared w), hw_pc := (hw_pc w)(t := pc')\<rparr>"
    and b: "\<And>j. busy (hw_pc w') j \<longleftrightarrow> (if j = slot_index ticket then c else busy (hw_pc w) j)"
    and slot: "length (sl_fields s') = FIELD_COUNT" "n \<le> length (hw_events w)"
      "\<not> c \<Longrightarrow> sl_sequence s' = of_nat n \<and> (n \<noteq> 0 \<longrightarrow> sl_fields s' = hw_events w ! (n - 1))"
    and s': "s' = f (hs_slots (hw_shared w) (slot_index ticket))"
    and mine: "hr_local (hs_slots (hw_shared w')) (hw_events w) (lv(slot_index ticket := n)) (busy (hw_pc w')) pc'"
    and others: "\<And>u. u \<noteq> t \<Longrightarrow> hr_local (hs_slots (hw_shared w')) (hw_events w) (lv(slot_index ticket := n)) (busy (hw_pc w')) (hw_pc w u)"
  shows "hr_inv (lv(slot_index ticket := n)) w'"
proof (rule hr_invI [OF _ _ refl])
  show "hr_slots (hs_slots (hw_shared w')) (hw_events w') (lv(slot_index ticket := n)) (busy (hw_pc w'))"
    unfolding hr_slots_def b using hr_invD(2) [OF inv] slot s' by (auto simp: w' set_slot_def hr_slots_def)
  show "hr_local (hs_slots (hw_shared w')) (hw_events w') (lv(slot_index ticket := n)) (busy (hw_pc w')) (hw_pc w' u)" for u
    using mine others [of u] by (cases "u = t") (auto simp: w')
  show "t' = u" if "ticket_of (hw_pc w' t') = Some q" "ticket_of (hw_pc w' u) = Some q" for t' u q
  proof -
    have "ticket_of (hw_pc w x) = Some q" if "ticket_of (hw_pc w' x) = Some q" for x using that k by (auto simp: w' split: if_splits)
    with that show ?thesis by (blast intro: hr_invD(6) [OF inv])
  qed
qed (use hr_invD [OF inv] pc' in \<open>auto simp: w' set_slot_def split: if_splits\<close>)

lemma other_filler:
  assumes "hr_inv lv w" "hw_pc w t = FillSlot ticket ev k" "u \<noteq> t" "filling (hw_pc w u) = Some q"
  shows "slot_index q \<noteq> slot_index ticket"
proof
  assume eq: "slot_index q = slot_index ticket"
  obtain ev' k' where u: "hw_pc w u = FillSlot q ev' k'" using assms(4) by (cases "hw_pc w u") auto
  have "unat q = unat ticket" using hr_invD(3) [OF assms(1), of t] hr_invD(3) [OF assms(1), of u] assms(2) u eq by simp
  then have "q = ticket" by (simp add: word_unat_eq_iff)
  with hr_invD(6) [OF assms(1), of t ticket u] assms(2,3) u show False by simp
qed

lemma hr_mark:
  assumes inv: "hr_inv lv w" and pc: "hw_pc w t = MarkSlot ticket ev c" and small: "length (hw_events w) < 2 ^ 63"
    and same: "sl_sequence (hs_slots (hw_shared w) (slot_index ticket)) = c" and w': "hr_do (HrAccess t) w = Some w'"
  shows "hr_inv (lv(slot_index ticket := unat ticket + 1)) w'"
proof -
  let ?j = "slot_index ticket"
  have l: "recorded (hw_events w) ticket ev" "length ev = FIELD_COUNT" "lv ?j \<noteq> unat ticket + 1" "c AND WRITING_BIT = 0" "c \<le> ticket + 1"
    using hr_invD(3) [OF inv, of t] pc by auto
  have T: "unat ticket < length (hw_events w)" "unat (ticket + 1) = unat ticket + 1"
  proof -
    show t: "unat ticket < length (hw_events w)" using l(1) by (simp add: recorded_def)
    show "unat (ticket + 1) = unat ticket + 1" using t small by (intro unat_ticket) simp
  qed
  have free: "\<not> busy (hw_pc w) ?j" "unat c = lv ?j" using unmarked_level [OF inv small, of ?j] l(4) same by auto
  then have less: "lv ?j < unat ticket + 1" using l(3,5) T(2) by (simp add: word_le_nat_alt)
  have w: "w' = w\<lparr>hw_shared := set_slot ticket (\<lambda>s. s\<lparr>sl_sequence := (ticket + 1) OR WRITING_BIT\<rparr>) (hw_shared w), hw_pc := (hw_pc w)(t := FillSlot ticket ev 0)\<rparr>"
    using w' pc same by simp
  have b: "busy (hw_pc w') j \<longleftrightarrow> (if j = ?j then True else busy (hw_pc w) j)" for j
  proof -
    have "filling (hw_pc w' u) = Some q \<longleftrightarrow> u = t \<and> q = ticket \<or> filling (hw_pc w u) = Some q" for u q using pc by (auto simp: w)
    then show ?thesis unfolding busy_def by auto
  qed
  have ne: "unat ticket \<noteq> unat q" if "ticket_of (hw_pc w u) = Some q" "u \<noteq> t" for u q
    using that hr_invD(6) [OF inv, of t ticket u] pc by (auto simp: word_unat_eq_iff)
  show ?thesis
  proof (rule hr_inv_slot [OF inv _ _ _ _ w b])
    fix u assume u: "u \<noteq> t"
    have nb: "filling (hw_pc w u) = Some q \<Longrightarrow> slot_index q \<noteq> ?j" for q using free(1) unfolding busy_def by blast
    show "hr_local (hs_slots (hw_shared w')) (hw_events w) (lv(?j := unat ticket + 1)) (busy (hw_pc w')) (hw_pc w u)"
      using hr_invD(3) [OF inv, of u] nb ne [OF _ u] less b by (cases "hw_pc w u") (auto simp: w set_slot_def)
  qed (use pc l T hr_invD(2) [OF inv] in \<open>auto simp: w set_slot_def hr_slots_def\<close>)
qed

lemma hr_fill:
  assumes inv: "hr_inv lv w" and pc: "hw_pc w t = FillSlot ticket ev k" and "k < FIELD_COUNT" and w': "hr_do (HrAccess t) w = Some w'"
  shows "hr_inv lv w'"
proof -
  let ?j = "slot_index ticket" and ?f = "\<lambda>s. s\<lparr>sl_fields := (sl_fields s)[k := ev ! k]\<rparr>"
  have l: "recorded (hw_events w) ticket ev" "length ev = FIELD_COUNT" "lv ?j = unat ticket + 1"
      "take k (sl_fields (hs_slots (hw_shared w) ?j)) = take k ev" using hr_invD(3) [OF inv, of t] pc by auto
  have len: "length (sl_fields (hs_slots (hw_shared w) ?j)) = FIELD_COUNT" "lv ?j \<le> length (hw_events w)" using hr_invD(2) [OF inv] by (auto simp: hr_slots_def)
  have w: "w' = w\<lparr>hw_shared := set_slot ticket ?f (hw_shared w), hw_pc := (hw_pc w)(t := FillSlot ticket ev (k + 1))\<rparr>"
    using w' pc assms(3) by simp
  have b: "busy (hw_pc w') = busy (hw_pc w)" using busy_upd [of "FillSlot ticket ev (k + 1)" "hw_pc w" t] pc by (simp add: w)
  have here: "busy (hw_pc w) ?j" using pc by (rule busyI)
  have "hr_inv (lv(?j := lv ?j)) w'"
  proof (rule hr_inv_slot [OF inv _ _ _ _ w, where c = True])
    fix u assume u: "u \<noteq> t"
    show "hr_local (hs_slots (hw_shared w')) (hw_events w) (lv(?j := lv ?j)) (busy (hw_pc w')) (hw_pc w u)"
      using hr_invD(3) [OF inv, of u] other_filler [OF inv pc u] unfolding b by (cases "hw_pc w u") (auto simp: w set_slot_def)
  next
    have "take (k + 1) ((sl_fields (hs_slots (hw_shared w) ?j))[k := ev ! k]) = take (k + 1) ev"
      using l(2,4) len(1) assms(3) by (simp add: take_Suc_conv_app_nth take_update_cancel)
    then show "hr_local (hs_slots (hw_shared w')) (hw_events w) (lv(?j := lv ?j)) (busy (hw_pc w')) (FillSlot ticket ev (k + 1))"
      using hr_invD(3) [OF inv, of t] pc assms(3) by (simp add: w set_slot_def)
  qed (use pc b here len in auto)
  then show ?thesis by simp
qed

lemma hr_seal:
  assumes inv: "hr_inv lv w" and pc: "hw_pc w t = FillSlot ticket ev k" and "\<not> k < FIELD_COUNT" and small: "length (hw_events w) < 2 ^ 63"
    and w': "hr_do (HrAccess t) w = Some w'"
  shows "hr_inv lv w'"
proof -
  let ?j = "slot_index ticket" and ?f = "\<lambda>s. s\<lparr>sl_sequence := ticket + 1\<rparr>"
  have l: "recorded (hw_events w) ticket ev" "length ev = FIELD_COUNT" "lv ?j = unat ticket + 1" "k \<le> FIELD_COUNT"
      "take k (sl_fields (hs_slots (hw_shared w) ?j)) = take k ev" using hr_invD(3) [OF inv, of t] pc by auto
  have len: "length (sl_fields (hs_slots (hw_shared w) ?j)) = FIELD_COUNT" "lv ?j \<le> length (hw_events w)" using hr_invD(2) [OF inv] by (auto simp: hr_slots_def)
  have w: "w' = w\<lparr>hw_shared := set_slot ticket ?f (hw_shared w), hw_pc := (hw_pc w)(t := Still)\<rparr>" using w' pc assms(3) by simp
  have full: "sl_fields (hs_slots (hw_shared w) ?j) = ev" using l(2,4,5) len(1) assms(3) by simp
  have b: "busy (hw_pc w') j \<longleftrightarrow> (if j = ?j then False else busy (hw_pc w) j)" for j
  proof -
    have "filling (hw_pc w' u) = Some q \<longleftrightarrow> u \<noteq> t \<and> filling (hw_pc w u) = Some q" for u q by (auto simp: w)
    moreover have "u \<noteq> t" if "filling (hw_pc w u) = Some q" "slot_index q \<noteq> ?j" for u q using that pc by auto
    ultimately show ?thesis unfolding busy_def using other_filler [OF inv pc] by (cases "j = ?j") (simp_all, metis+)
  qed
  have "hr_inv (lv(?j := lv ?j)) w'"
  proof (rule hr_inv_slot [OF inv _ _ _ _ w b])
    fix u assume u: "u \<noteq> t"
    show "hr_local (hs_slots (hw_shared w')) (hw_events w) (lv(?j := lv ?j)) (busy (hw_pc w')) (hw_pc w u)"
      using hr_invD(3) [OF inv, of u] other_filler [OF inv pc u] b by (cases "hw_pc w u") (auto simp: w set_slot_def)
  next
    show "sl_sequence (?f (hs_slots (hw_shared w) ?j)) = of_nat (lv ?j) \<and> (lv ?j \<noteq> 0 \<longrightarrow> sl_fields (?f (hs_slots (hw_shared w) ?j)) = hw_events w ! (lv ?j - 1))"
      using l(1,3) full by (simp add: recorded_def add.commute)
  qed (use pc len in auto)
  then show ?thesis by simp
qed

lemma visit_tickets_bound: "n < 2 ^ 63 \<Longrightarrow> ticket \<in> set (visit_tickets (of_nat n)) \<Longrightarrow> unat ticket < n"
  by (auto simp: visit_tickets_def unat_small)

lemma hr_read:
  assumes inv: "hr_inv lv w" and pc: "hw_pc w t = ReadField ticket r got v" and small: "length (hw_events w) < 2 ^ 63"
    and w': "hr_do (HrAccess t) w = Some w'"
  shows "hr_inv lv w'"
proof -
  let ?j = "slot_index ticket" and ?sl = "hs_slots (hw_shared w)"
  have l: "length got \<le> FIELD_COUNT" "unat ticket + 1 \<le> lv ?j" "lv ?j = unat ticket + 1 \<Longrightarrow> \<not> busy (hw_pc w) ?j \<and> got = take (length got) (hw_events w ! unat ticket)"
    using hr_invD(3) [OF inv, of t] pc by auto
  have below: "unat q < length (hw_events w)" if "q \<in> set (ticket # r)" for q using hr_invD(4) [OF inv, of q t] pc that by simp
  have shown: "\<forall>(q, ev) \<in> set v. recorded (hw_events w) q ev" using hr_invD(5) [OF inv, of _ _ t] pc by auto
  have held: "sl_fields (?sl ?j) = hw_events w ! unat ticket \<and> length (hw_events w ! unat ticket) = FIELD_COUNT" if "lv ?j = unat ticket + 1"
    using hr_invD(2) [OF inv] l(3) [OF that] that unfolding hr_slots_def by (metis add_diff_cancel_right' add_is_0 one_neq_zero)
  show ?thesis
  proof (cases "length got < FIELD_COUNT")
    case True
    define g where "g = got @ [sl_fields (?sl ?j) ! length got]"
    have g: "length g = length got + 1" "w' = w\<lparr>hw_pc := (hw_pc w)(t := ReadField ticket r g v)\<rparr>" using w' pc True by (auto simp: g_def)
    have "g = take (length got + 1) (hw_events w ! unat ticket)" if "lv ?j = unat ticket + 1"
      using held [OF that] l(3) [OF that] True unfolding g_def by (metis Suc_eq_plus1 take_Suc_conv_app_nth)
    then show ?thesis by (intro hr_inv_quiet [OF inv g(2)]) (use pc True g(1) l below shown in auto)
  next
    case False
    let ?v = "if sl_sequence (?sl ?j) = ticket + 1 then v @ [(ticket, got)] else v"
    have "recorded (hw_events w) ticket got" if "sl_sequence (?sl ?j) = ticket + 1"
    proof -
      have lv: "lv ?j = unat ticket + 1" using published_slot [OF inv small _ that] below by simp
      with l(1,3) held False show ?thesis using below by (simp add: recorded_def)
    qed
    then show ?thesis by (intro hr_inv_quiet [OF inv, of _ t "Look r ?v"]) (use w' pc False below shown in auto)
  qed
qed

lemma hr_access:
  assumes inv: "hr_inv lv w" and ev: "hr_do (HrAccess t) w = Some w'" and small: "length (hw_events w') < 2 ^ 63"
  shows "\<exists>lv'. hr_inv lv' w'"
proof -
  obtain h pc' where nx: "hr_next (hw_shared w) (hw_pc w t) = Some (h, pc')"
    and w': "w' = w\<lparr>hw_shared := h, hw_pc := (hw_pc w)(t := pc'), hw_events := hw_events w @ ticketed (hw_pc w t)\<rparr>"
    using ev by (auto split: option.splits)
  have small': "length (hw_events w) < 2 ^ 63" using small by (simp add: w')
  note quiet = hr_inv_quiet [OF inv, of w' t pc']
  show ?thesis
  proof (cases "hw_pc w t")
    case (TakeTicket e)
    then have "Suc (length (hw_events w)) < 2 ^ 63" using small by (simp add: w')
    with hr_take [OF inv TakeTicket _ ev] show ?thesis by blast
  next
    case (CheckSlot ticket e)
    have "hr_inv lv w'" by (rule quiet) (use hr_invD(3) [OF inv, of t] nx CheckSlot in \<open>auto simp: w' Let_def not_less split: if_splits\<close>)
    then show ?thesis by blast
  next
    case (MarkSlot ticket e c)
    show ?thesis
    proof (cases "sl_sequence (hs_slots (hw_shared w) (slot_index ticket)) = c")
      case True
      from hr_mark [OF inv MarkSlot small' True ev] show ?thesis by blast
    next
      case False
      have "hr_inv lv w'" by (rule quiet) (use hr_invD(3) [OF inv, of t] nx MarkSlot False in \<open>auto simp: w'\<close>)
      then show ?thesis by blast
    qed
  next
    case (FillSlot ticket e k)
    from hr_fill [OF inv FillSlot _ ev] hr_seal [OF inv FillSlot _ small' ev] show ?thesis by blast
  next
    case LoadEnd
    have "hr_inv lv w'" by (rule quiet)
      (use hr_invD(1) [OF inv] nx LoadEnd visit_tickets_bound [OF small'] in \<open>auto simp: w'\<close>)
    then show ?thesis by blast
  next
    case (Look r v)
    have old: "\<forall>q \<in> set r. unat q < length (hw_events w)" "\<forall>(q, ev) \<in> set v. recorded (hw_events w) q ev"
      using hr_invD(4) [OF inv, of _ t] hr_invD(5) [OF inv, of _ _ t] Look by auto
    have "hr_inv lv w'"
    proof (cases r)
      case (Cons q r')
      with published_slot [OF inv small', of q] old(1)
      have "sl_sequence (hs_slots (hw_shared w) (slot_index q)) = q + 1 \<Longrightarrow> \<not> busy (hw_pc w) (slot_index q) \<and> lv (slot_index q) = unat q + 1" by auto
      then show ?thesis by (intro quiet) (use Look Cons nx old in \<open>auto simp: w' split: if_splits\<close>)
    qed (rule quiet; use Look nx old in \<open>auto simp: w'\<close>)
    then show ?thesis by blast
  next
    case (ReadField ticket r got v)
    from hr_read [OF inv ReadField small' ev] show ?thesis by blast
  qed (use nx in auto)
qed

lemma hr_step:
  assumes inv: "hr_inv lv w" and ev: "hr_do e w = Some w'" and small: "length (hw_events w') < 2 ^ 63"
  shows "\<exists>lv'. hr_inv lv' w'"
proof (cases e)
  case (Record t x)
  have "hr_inv lv w'" by (rule hr_inv_quiet [OF inv, of _ t "TakeTicket x"]) (use ev Record in \<open>auto simp: is_still_def split: if_splits\<close>)
  then show ?thesis by blast
next
  case (Dump t)
  have "hr_inv lv w'" by (rule hr_inv_quiet [OF inv, of _ t LoadEnd]) (use ev Dump in \<open>auto simp: is_still_def split: if_splits\<close>)
  then show ?thesis by blast
next
  case (HrAccess t)
  from hr_access [OF inv ev [unfolded HrAccess] small] show ?thesis .
next
  case (Show t)
  obtain v where v: "hw_pc w t = Shown v" and w': "w' = w\<lparr>hw_pc := (hw_pc w)(t := Still), hw_shown := hw_shown w @ v\<rparr>"
    using ev Show by (auto split: hr_pc.splits)
  have quiet: "hr_inv lv (w\<lparr>hw_pc := (hw_pc w)(t := Still)\<rparr>)" by (rule hr_inv_quiet [OF inv refl]) (use v in auto)
  have "\<forall>(q, x) \<in> set v. recorded (hw_events w) q x" using hr_invD(5) [OF inv, of _ _ t] v by auto
  with quiet have "hr_inv lv w'" unfolding hr_inv_def w' by auto
  then show ?thesis by blast
qed

lemma events_grow: "hr_do e w = Some w' \<Longrightarrow> length (hw_events w) \<le> length (hw_events w')"
  by (cases e) (auto split: if_splits option.splits hr_pc.splits)

lemma events_grow_run: "hr_run es w = Some w' \<Longrightarrow> length (hw_events w) \<le> length (hw_events w')"
  by (induction es arbitrary: w) (auto split: option.splits intro: order_trans dest: events_grow)

lemma hr_run_inv: "hr_run es w = Some w' \<Longrightarrow> hr_inv lv w \<Longrightarrow> length (hw_events w') < 2 ^ 63 \<Longrightarrow> \<exists>lv'. hr_inv lv' w'"
proof (induction es arbitrary: w lv)
  case (Cons e es)
  then obtain w1 where w1: "hr_do e w = Some w1" "hr_run es w1 = Some w'" by (auto split: option.splits)
  have "length (hw_events w1) < 2 ^ 63" using events_grow_run [OF w1(2)] Cons.prems(3) by linarith
  with hr_step [OF Cons.prems(2) w1(1)] Cons.IH [OF w1(2)] Cons.prems(3) show ?case by blast
qed auto

lemma hr_initial_inv: "hr_inv (\<lambda>_. 0) hr_initial"
  by (rule hr_invI [where b = "\<lambda>_. False"]) (auto simp: hr_initial_def hr_slots_def busy_def)

text \<open>
  C22: A dump never shows a mixed record. In every interleaving of handlers that record and handlers that dump, with the ring
  wrapping under both, an event visited under a ticket is, in all its fields, the event that was recorded with that ticket, as long
  as fewer than \<open>2 ^ 63\<close> tickets have been given out.
\<close>

theorem dumped_event_not_torn:
  assumes "hr_run es hr_initial = Some w" "length (hw_events w) < 2 ^ 63" "(ticket, ev) \<in> set (hw_shown w)"
  shows "unat ticket < length (hw_events w) \<and> hw_events w ! unat ticket = ev"
proof -
  obtain lv where "hr_inv lv w" using hr_run_inv [OF assms(1) hr_initial_inv assms(2)] by blast
  from hr_invD(7) [OF this assms(3)] show ?thesis by (simp add: recorded_def)
qed

text \<open>A handler has recorded, a second one is half way through its record, and a third dumps.\<close>

definition dump_schedule :: "hr_event list" where
  "dump_schedule = [Record 0 (replicate 13 7), Record 1 (replicate 13 5)] @ replicate 17 (HrAccess 0) @ replicate 6 (HrAccess 1) @
     [Dump 2] @ replicate 9 (HrAccess 2) @ [HrAccess 1] @ replicate 9 (HrAccess 2) @ [Show 2]"

lemma dump_schedule_runs:
  "\<exists>w. hr_run dump_schedule hr_initial = Some w \<and> length (hw_events w) = 2 \<and> hw_shown w = [(0, replicate 13 7)]"
proof -
  have "visit_tickets 2 = [0, 1]" by (simp add: visit_tickets_def HISTORY_CAPACITY_def upt_conv_Cons)
  then show ?thesis
    by (simp add: dump_schedule_def hr_initial_def set_slot_def slot_index_def HISTORY_CAPACITY_def FIELD_COUNT_def replicate_numeral_Cons WRITING_BIT_def Let_def)
qed

theorem dumped_event_not_torn_witness:
  "\<exists>w. hr_run dump_schedule hr_initial = Some w \<and> (0, replicate 13 7) \<in> set (hw_shown w) \<and> hw_events w ! 0 = replicate 13 7"
proof -
  obtain w where w: "hr_run dump_schedule hr_initial = Some w" "length (hw_events w) = 2" "hw_shown w = [(0, replicate 13 7)]"
    using dump_schedule_runs by blast
  with dumped_event_not_torn [OF w(1), of 0 "replicate 13 7"] show ?thesis by (intro exI [of _ w]) simp
qed

end
