(* ===== verification/Pe_Export.thy ===== *)
theory Pe_Export
  imports Procmem "HOL-Library.List_Lexorder"
begin

text \<open>
  \<^verbatim>\<open>runtime/src/syscall/pe_export.rs\<close>: the walk of the loader list to a module's base address, and
  of a module's export table to the service number in a named export. Byte slices are compared
  in the lexicographic order of \<^theory_text>\<open>List_Lexorder\<close>, which is the order of Rust's \<open>[u8]\<close>. The
  bounded walk of the loader list carries its remaining steps; the binary search terminates
  because its interval shrinks.
\<close>

section \<open>Addresses\<close>

definition PE_HEADER_LIMIT :: u32 where "PE_HEADER_LIMIT = 0x1000"
definition MODULE_LIMIT :: nat where "MODULE_LIMIT = 256"
definition EXPORT_LIMIT :: u32 where "EXPORT_LIMIT = 4096"
definition MAX_MODULE_NAME_UNITS :: nat where "MAX_MODULE_NAME_UNITS = 32"

definition offset :: "u64 \<Rightarrow> u64 \<Rightarrow> u64 option" where
  "offset base amount = checked_add base amount"

definition rva :: "u64 \<Rightarrow> u32 \<Rightarrow> u32 \<Rightarrow> u64 option" where
  "rva base image_size v = (if v < image_size then offset base (ucast v) else None)"

section \<open>The loader list\<close>

fun unit_pairs :: "bytes \<Rightarrow> (u8 \<times> u8) list" where
  "unit_pairs (a # b # rest) = (a, b) # unit_pairs rest"
| "unit_pairs _ = []"

definition module_name_matches :: "vmem \<Rightarrow> u64 \<Rightarrow> bytes \<Rightarrow> bool" where
  "module_name_matches m entry name =
     (if length name > MAX_MODULE_NAME_UNITS then False
      else case Option.bind (offset entry 0x58) (read_u16 m) of
        None \<Rightarrow> False
      | Some len \<Rightarrow>
          if unat len \<noteq> length name * 2 then False
          else case Option.bind (offset entry 0x60) (read_u64 m) of
            None \<Rightarrow> False
          | Some base_name \<Rightarrow>
              (case read_memory m base_name (length name * 2) of
                 None \<Rightarrow> False
               | Some bs \<Rightarrow> list_all (\<lambda>((lo, hi), c). eq_ignore_ascii_case lo c \<and> hi = 0) (zip (unit_pairs bs) name)))"

fun walk_modules :: "vmem \<Rightarrow> bytes \<Rightarrow> u64 \<Rightarrow> nat \<Rightarrow> u64 \<Rightarrow> u64 option" where
  "walk_modules m name head 0 entry = None"
| "walk_modules m name head (Suc n) entry =
     (if entry = head \<or> entry = 0 then None
      else if module_name_matches m entry name then Option.bind (offset entry 0x30) (read_u64 m)
      else Option.bind (read_u64 m entry) (walk_modules m name head n))"

definition base_from_peb :: "vmem \<Rightarrow> u64 \<Rightarrow> bytes \<Rightarrow> u64 option" where
  "base_from_peb m peb name =
     Option.bind (Option.bind (offset peb 0x18) (read_u64 m)) (\<lambda>ldr.
     Option.bind (offset ldr 0x10) (\<lambda>head.
     Option.bind (read_u64 m head) (walk_modules m name head MODULE_LIMIT)))"

text \<open>\<open>gs\<close> is what \<^verbatim>\<open>arch_prctl(ARCH_GET_GS)\<close> stores, \<open>None\<close> when it fails.\<close>

definition module_base :: "vmem \<Rightarrow> u64 option \<Rightarrow> bytes \<Rightarrow> u64 option" where
  "module_base m gs name =
     Option.bind gs (\<lambda>gs_base.
     Option.bind (Option.bind (offset gs_base 0x60) (read_u64 m)) (\<lambda>peb. base_from_peb m peb name))"

section \<open>The export table\<close>

record export_table =
  et_base :: u64
  et_image_size :: u32
  et_function_count :: u32
  et_name_count :: u32
  et_functions :: u32
  et_names :: u32
  et_ordinals :: u32

definition export_table_of :: "vmem \<Rightarrow> u64 \<Rightarrow> export_table option" where
  "export_table_of m base =
     Option.bind (read_memory m base 0x40) (\<lambda>dos.
     if take 2 dos \<noteq> ascii ''MZ'' then None
     else let pe_offset = from_le (take 4 (drop 0x3c dos)) :: u32 in
     if pe_offset > PE_HEADER_LIMIT then None
     else Option.bind (offset base (ucast pe_offset)) (\<lambda>pe.
     Option.bind (read_memory m pe 4) (\<lambda>signature.
     if signature \<noteq> ascii ''PE'' @ [0, 0] then None
     else Option.bind (offset pe 24) (\<lambda>optional.
     Option.bind (Option.bind (offset optional 0) (read_u16 m)) (\<lambda>magic.
     if magic \<noteq> 0x20b then None
     else Option.bind (Option.bind (offset optional 56) (read_u32 m)) (\<lambda>image_size.
     Option.bind (Option.bind (offset optional 112) (read_u32 m)) (\<lambda>export_rva.
     Option.bind (rva base image_size export_rva) (\<lambda>export.
     Option.bind (Option.bind (offset export 0x14) (read_u32 m)) (\<lambda>function_count.
     Option.bind (Option.bind (offset export 0x18) (read_u32 m)) (\<lambda>name_count.
     Option.bind (Option.bind (offset export 0x1c) (read_u32 m)) (\<lambda>functions.
     Option.bind (Option.bind (offset export 0x20) (read_u32 m)) (\<lambda>names.
     Option.bind (Option.bind (offset export 0x24) (read_u32 m)) (\<lambda>ordinals.
     if name_count = 0 \<or> name_count > EXPORT_LIMIT \<or> function_count > EXPORT_LIMIT then None
     else Some \<lparr>et_base = base, et_image_size = image_size, et_function_count = function_count,
       et_name_count = name_count, et_functions = functions, et_names = names, et_ordinals = ordinals\<rparr>)))))))))))))"

text \<open>The slot of an index in one of the tables: \<open>rva(base, image_size, table.checked_add(i.checked_mul(w)?)?)\<close>.\<close>

definition table_slot :: "export_table \<Rightarrow> u32 \<Rightarrow> u32 \<Rightarrow> u32 \<Rightarrow> u64 option" where
  "table_slot t table i w =
     Option.bind (checked_mul i w) (\<lambda>d. Option.bind (checked_add table d) (rva (et_base t) (et_image_size t)))"

definition export_name_at :: "vmem \<Rightarrow> export_table \<Rightarrow> u32 \<Rightarrow> bytes option" where
  "export_name_at m t i =
     Option.bind (table_slot t (et_names t) i 4) (\<lambda>name_slot.
     Option.bind (read_u32 m name_slot) (\<lambda>name_rva.
     Option.bind (rva (et_base t) (et_image_size t) name_rva) (\<lambda>name_address.
     Option.bind (read_memory m name_address 32) (\<lambda>candidate.
     Some (takeWhile (\<lambda>b. b \<noteq> 0) candidate)))))"

definition STUB_HEAD :: bytes where "STUB_HEAD = [0x4c, 0x8b, 0xd1, 0xb8]"

definition service_at :: "vmem \<Rightarrow> export_table \<Rightarrow> u32 \<Rightarrow> u32 option" where
  "service_at m t i =
     Option.bind (table_slot t (et_ordinals t) i 2) (\<lambda>ordinal_slot.
     Option.bind (map_option ucast (read_u16 m ordinal_slot)) (\<lambda>ordinal.
     if ordinal \<ge> et_function_count t then None
     else Option.bind (table_slot t (et_functions t) ordinal 4) (\<lambda>function_slot.
     Option.bind (read_u32 m function_slot) (\<lambda>function_rva.
     Option.bind (rva (et_base t) (et_image_size t) function_rva) (\<lambda>function_address.
     Option.bind (read_memory m function_address 8) (\<lambda>code.
     if take 4 code \<noteq> STUB_HEAD then None else Some (from_le (take 4 (drop 4 code)))))))))"

definition midpoint :: "u32 \<Rightarrow> u32 \<Rightarrow> u32" where
  "midpoint low high = low + (high - low) div 2"

lemma midpoint_bounds:
  assumes "low < high"
  shows "low \<le> midpoint low high" and "midpoint low high < high" and "unat (midpoint low high + 1) = unat (midpoint low high) + 1"
proof -
  from assms have le: "low \<le> high" by simp
  have d: "unat ((high - low) div 2) = (unat high - unat low) div 2"
    using le by (simp add: unat_div_distrib unat_sub)
  have "unat low + (unat high - unat low) div 2 < unat high"
    using assms unfolding word_less_nat_alt by linarith
  moreover have "unat high < 2 ^ 32" using unsigned_less [of high] by simp
  ultimately have m: "unat (midpoint low high) = unat low + (unat high - unat low) div 2" "unat (midpoint low high) < unat high"
    unfolding midpoint_def by (subst unat_add_no_overflow; simp add: d)+
  with \<open>unat high < 2 ^ 32\<close> show "low \<le> midpoint low high" "midpoint low high < high"
    "unat (midpoint low high + 1) = unat (midpoint low high) + 1"
    by (simp_all add: word_le_nat_alt word_less_nat_alt unat_add_no_overflow)
qed

function export_search :: "vmem \<Rightarrow> export_table \<Rightarrow> bytes \<Rightarrow> u32 \<Rightarrow> u32 \<Rightarrow> u32 option" where
  "export_search m t name low high =
     (if \<not> low < high then None
      else case export_name_at m t (midpoint low high) of
        None \<Rightarrow> None
      | Some candidate \<Rightarrow>
          if candidate < name then export_search m t name (midpoint low high + 1) high
          else if name < candidate then export_search m t name low (midpoint low high)
          else service_at m t (midpoint low high))"
  by pat_completeness auto

termination
proof (relation "measure (\<lambda>(m, t, name, low, high). unat high - unat low)")
  fix t :: export_table and low high :: u32
  assume "\<not> \<not> low < high"
  with midpoint_bounds [of low high] show "((m, t, name, midpoint low high + 1, high), (m, t, name, low, high)) \<in> measure (\<lambda>(m, t, name, low, high). unat high - unat low)"
    "((m, t, name, low, midpoint low high), (m, t, name, low, high)) \<in> measure (\<lambda>(m, t, name, low, high). unat high - unat low)" for m name
    by (auto simp: word_less_nat_alt word_le_nat_alt)
qed simp

declare export_search.simps [simp del]

definition export_service :: "vmem \<Rightarrow> u64 \<Rightarrow> bytes \<Rightarrow> u32 option" where
  "export_service m base export_name =
     Option.bind (export_table_of m base) (\<lambda>t. export_search m t export_name 0 (et_name_count t))"

section \<open>The search\<close>

lemma export_search_sound:
  "export_search m t name low high = Some s \<Longrightarrow>
     \<exists>k. low \<le> k \<and> k < high \<and> export_name_at m t k = Some name \<and> service_at m t k = Some s"
proof (induction m t name low high rule: export_search.induct)
  case (1 m t name low high)
  let ?mid = "midpoint low high"
  have lt: "low < high" using "1.prems" by (subst (asm) export_search.simps) (auto split: if_splits)
  note b = midpoint_bounds [OF lt]
  have l: "low \<le> ?mid + 1" using b by (simp add: word_le_nat_alt)
  obtain c where c: "export_name_at m t ?mid = Some c"
    using "1.prems" lt by (subst (asm) export_search.simps) (auto split: option.splits)
  consider "c < name" | "name < c" | "c = name" by (metis linorder_less_linear)
  then show ?case
  proof cases
    case 1
    with "1.prems" lt c have "export_search m t name (?mid + 1) high = Some s"
      by (subst (asm) export_search.simps) simp
    from "1.IH"(1) [OF _ c 1 this] lt l show ?thesis by (meson order.trans not_less)
  next
    case 2
    with "1.prems" lt c have "export_search m t name low ?mid = Some s"
      by (subst (asm) export_search.simps) (simp add: order_less_not_sym)
    from "1.IH"(2) [OF _ c _ 2 this] 2 lt b show ?thesis by (meson less_trans not_less order_less_not_sym)
  next
    case 3
    with "1.prems" lt c have "service_at m t ?mid = Some s"
      by (subst (asm) export_search.simps) simp
    with 3 c b show ?thesis by blast
  qed
qed

definition sorted_names :: "vmem \<Rightarrow> export_table \<Rightarrow> u32 \<Rightarrow> bool" where
  "sorted_names m t n \<longleftrightarrow> (\<forall>j < n. export_name_at m t j \<noteq> None) \<and>
     (\<forall>i j. i < j \<and> j < n \<longrightarrow> the (export_name_at m t i) < the (export_name_at m t j))"

lemma export_search_complete:
  assumes "sorted_names m t n" and "k < n" and "export_name_at m t k = Some name"
  shows "low \<le> k \<Longrightarrow> k < high \<Longrightarrow> high \<le> n \<Longrightarrow> export_search m t name low high = service_at m t k"
proof (induction "unat high - unat low" arbitrary: low high rule: less_induct)
  case less
  let ?mid = "midpoint low high"
  from less.prems have lt: "low < high" by (meson le_less_trans)
  note b = midpoint_bounds [OF lt]
  have mn: "?mid < n" using b less.prems by (meson less_le_trans)
  obtain c where c: "export_name_at m t ?mid = Some c" using assms(1) mn by (auto simp: sorted_names_def)
  have mono: "x < y" if "i < j" "j < n" "export_name_at m t i = Some x" "export_name_at m t j = Some y" for i j x y
    using assms(1) that by (force simp: sorted_names_def)
  consider "?mid < k" | "k < ?mid" | "k = ?mid" by (metis linorder_less_linear)
  then show ?case
  proof cases
    case 1
    then have "c < name" using mono assms(2,3) c by blast
    moreover have "?mid + 1 \<le> k" using 1 b by (simp add: word_le_nat_alt word_less_nat_alt)
    moreover have "unat high - unat (?mid + 1) < unat high - unat low"
      using b lt by (simp add: word_le_nat_alt word_less_nat_alt)
    ultimately show ?thesis using less.hyps [of high "?mid + 1"] less.prems lt c
      by (subst export_search.simps) simp
  next
    case 2
    then have "name < c" using mono mn assms(3) c by blast
    moreover have "unat ?mid - unat low < unat high - unat low"
      using b lt 2 less.prems by (simp add: word_le_nat_alt word_less_nat_alt)
    moreover have "?mid \<le> n" using mn by simp
    ultimately show ?thesis using less.hyps [of ?mid low] less.prems(1) 2 lt c
      by (subst export_search.simps) (simp add: order_less_not_sym)
  next
    case 3
    with lt c assms(3) show ?thesis by (subst export_search.simps) simp
  qed
qed

text \<open>
  C39: the search over the export names is right. On a table whose names are readable and
  strictly sorted it returns, for a name of the table, the service number of that export, and
  nothing for a name the table does not have, whatever the table's size.
\<close>

theorem export_service_finds_export:
  assumes "export_table_of m base = Some t" and "sorted_names m t (et_name_count t)"
  shows "\<forall>s. export_service m base name = Some s \<longleftrightarrow>
    (\<exists>k < et_name_count t. export_name_at m t k = Some name \<and> service_at m t k = Some s)"
proof (intro allI iffI)
  fix s assume "export_service m base name = Some s"
  with assms(1) export_search_sound [of m t name 0 "et_name_count t" s]
  show "\<exists>k < et_name_count t. export_name_at m t k = Some name \<and> service_at m t k = Some s"
    by (auto simp: export_service_def)
next
  fix s assume "\<exists>k < et_name_count t. export_name_at m t k = Some name \<and> service_at m t k = Some s"
  then obtain k where k: "k < et_name_count t" "export_name_at m t k = Some name" "service_at m t k = Some s" by blast
  with export_search_complete [OF assms(2) k(1,2), of 0 "et_name_count t"] assms(1)
  show "export_service m base name = Some s" by (simp add: export_service_def)
qed

text \<open>A module image with one export, as bytes at given offsets over zeroes.\<close>

definition sample_image :: vmem where
  "sample_image = \<lparr>vm_bytes = \<lambda>x. if 0x10000 \<le> x \<and> x < 0x11000 then
     Some (case map_of
       (if x < 0x10040 then [(0x10000, 0x4d), (0x10001, 0x5a), (0x1003c, 0x80)]
        else if x < 0x10200 then [(0x10080, 0x50), (0x10081, 0x45), (0x10098, 0x0b), (0x10099, 0x02), (0x100d1, 0x10), (0x10109, 0x02)]
        else if x < 0x10300 then [(0x10214, 1), (0x10218, 1), (0x1021d, 0x03), (0x10220, 0x40), (0x10221, 0x03), (0x10224, 0x60), (0x10225, 0x03)]
        else if x < 0x10382 then [(0x10301, 0x04), (0x10340, 0x80), (0x10341, 0x03), (0x10380, 0x4e), (0x10381, 0x74)]
        else if x < 0x10400 then []
        else [(0x10400, 0x4c), (0x10401, 0x8b), (0x10402, 0xd1), (0x10403, 0xb8), (0x10404, 0x5a), (0x10405, 0x13)]) x of
         Some b \<Rightarrow> b | None \<Rightarrow> 0) else None, vm_writable = \<lambda>x. False\<rparr>"

definition sample_table :: export_table where
  "sample_table = \<lparr>et_base = 0x10000, et_image_size = 0x1000, et_function_count = 1, et_name_count = 1,
     et_functions = 0x300, et_names = 0x340, et_ordinals = 0x360\<rparr>"

lemma sample_image_parses:
  "export_table_of sample_image 0x10000 = Some sample_table"
  "export_name_at sample_image sample_table 0 = Some (ascii ''Nt'')"
  "service_at sample_image sample_table 0 = Some 0x135a"
  by code_simp+

theorem export_service_finds_export_witness:
  "export_service sample_image 0x10000 (ascii ''Nt'') = Some 0x135a \<and>
   export_service sample_image 0x10000 (ascii ''Zw'') = None"
proof -
  have z: "j = 0" if "j < et_name_count sample_table" for j using that by (simp add: sample_table_def word_less_nat_alt unat_eq_0)
  have "sorted_names sample_image sample_table (et_name_count sample_table)"
    using sample_image_parses(2) z unfolding sorted_names_def by (metis not_less_zero option.simps(3) word_not_simps(1))
  note f = export_service_finds_export [OF sample_image_parses(1) this]
  have n: "(0 :: u32) < et_name_count sample_table" by (simp add: sample_table_def)
  have "export_service sample_image 0x10000 (ascii ''Nt'') = Some 0x135a"
    using f [of "ascii ''Nt''"] n sample_image_parses(2,3) by blast
  moreover have "export_service sample_image 0x10000 (ascii ''Zw'') \<noteq> Some s" for s
  proof -
    have "ascii ''Nt'' \<noteq> ascii ''Zw''" by simp
    with f [of "ascii ''Zw''"] z sample_image_parses(2) show ?thesis by (metis option.inject)
  qed
  ultimately show ?thesis by blast
qed

end
