(* ===== verification/Reflex_State.thy ===== *)
theory Reflex_State
  imports Kuser_Patch
begin

text \<open>
  The Reflex registration and routing state of \<^verbatim>\<open>protocol/reflex/control.rs\<close> and
  \<^verbatim>\<open>protocol/reflex/state.rs\<close>. The fields of \<open>reflex\<close> are the atomics of \<^verbatim>\<open>State\<close>, those
  that hold an enum's discriminant carrying the enum itself. The trait \<^verbatim>\<open>Host\<close> is a record of
  functions over a host state; what the state machine relies on of it is the locale
  \<open>reflex_host\<close>. \<open>handle_cpuid\<close> and \<open>route_syscall\<close> are one caller on its own;
  \<open>reflex_step\<close> at the end interleaves registrations atomic access by atomic access.
\<close>

section \<open>Control vocabulary\<close>

definition ARM_TARGET_CR3 :: u32 where "ARM_TARGET_CR3 = 0x69696969"
definition REGISTER_RESUME_HANDLER :: u32 where "REGISTER_RESUME_HANDLER = 0x00336933"
definition SET_TIME :: u32 where "SET_TIME = 0x00336967"
definition REGISTER_SYSTEM_SYSCALL_ID :: u32 where "REGISTER_SYSTEM_SYSCALL_ID = 0x00336943"
definition REGISTER_ATTRIBUTES_HANDLER :: u32 where "REGISTER_ATTRIBUTES_HANDLER = 0x00336934"
definition REGISTER_ATTRIBUTES_SYSCALL_ID :: u32 where "REGISTER_ATTRIBUTES_SYSCALL_ID = 0x00336944"
definition CLIENT_SESSION_MARKER :: u32 where "CLIENT_SESSION_MARKER = 0x00693369"
definition REGISTER_TARGET_PID :: u32 where "REGISTER_TARGET_PID = 0x1337"
definition SYSCALL_BYPASS_MAGIC :: u64 where "SYSCALL_BYPASS_MAGIC = 0x1337133713371337"
definition SINGLE_DISPATCH_SELECTORS :: "u64 list" where "SINGLE_DISPATCH_SELECTORS = [0x13371337, 0x13371338]"
definition USER_RCX_MAX :: u64 where "USER_RCX_MAX = 0x7fffffffffff"
definition DISPATCH_BYPASS_SYSCALL :: u64 where "DISPATCH_BYPASS_SYSCALL = 0x7fffffffffff"
definition TRANSITION_WAIT_LIMIT :: nat where "TRANSITION_WAIT_LIMIT = 4096"

lemmas control_leaves = ARM_TARGET_CR3_def REGISTER_RESUME_HANDLER_def SET_TIME_def
  REGISTER_SYSTEM_SYSCALL_ID_def REGISTER_ATTRIBUTES_HANDLER_def REGISTER_ATTRIBUTES_SYSCALL_ID_def
  CLIENT_SESSION_MARKER_def REGISTER_TARGET_PID_def

definition cpuid_argument :: "u32 \<Rightarrow> u64 \<Rightarrow> u64 \<Rightarrow> u64" where
  "cpuid_argument leaf rcx rdx = (if leaf = REGISTER_TARGET_PID then rdx else rcx)"

section \<open>State\<close>

datatype routing = Unregistered | ResumeTarget | DualDispatch

datatype identity_scope = Unobserved | Process | DebugRegisterThread

datatype syscall_convention = ResumeReplay | SelectorDispatch | DualConvention

datatype routing_state = RsUnregistered | RsResumeTarget | RsDualDispatch
  | RegisteringResumeTarget | RegisteringDualDispatch | PromotingDualDispatch

fun routing_stable :: "routing_state \<Rightarrow> routing" where
  "routing_stable RsResumeTarget = ResumeTarget"
| "routing_stable RsDualDispatch = DualDispatch"
| "routing_stable RsUnregistered = Unregistered"
| "routing_stable RegisteringResumeTarget = Unregistered"
| "routing_stable RegisteringDualDispatch = Unregistered"
| "routing_stable PromotingDualDispatch = Unregistered"

datatype reflex_action = Native | Consumed

record syscall_route =
  route_target :: u64
  rax_is_resume :: bool

record 'h host =
  h_set_offset :: "u64 \<Rightarrow> 'h \<Rightarrow> 'h"
  h_select_legacy :: "'h \<Rightarrow> 'h"
  h_legacy_active :: "'h \<Rightarrow> bool"
  h_selector_recipe :: "'h \<Rightarrow> recipe"
  h_patch_kuser :: "recipe \<Rightarrow> 'h \<Rightarrow> 'h \<times> bool"
  h_set_hwprofile_guid :: "'h \<Rightarrow> 'h"
  h_yield :: "'h \<Rightarrow> 'h"
  h_log :: "string \<Rightarrow> 'h \<Rightarrow> 'h"
  h_log_hex :: "string \<Rightarrow> u64 \<Rightarrow> 'h \<Rightarrow> 'h"

record reflex =
  rx_routing :: routing_state
  rx_identity :: identity_scope
  rx_target_pid :: u64
  rx_convention :: syscall_convention
  rx_resume_target :: u64
  rx_system_target :: u64
  rx_system_id :: u32
  rx_attributes_target :: u64
  rx_attributes_id :: u32

definition reflex_new :: reflex where
  "reflex_new = \<lparr>rx_routing = RsUnregistered, rx_identity = Unobserved, rx_target_pid = 0,
     rx_convention = ResumeReplay, rx_resume_target = 0, rx_system_target = 0, rx_system_id = - 1,
     rx_attributes_target = 0, rx_attributes_id = - 1\<rparr>"

definition reflex_routing :: "reflex \<Rightarrow> routing" where
  "reflex_routing s = routing_stable (rx_routing s)"

definition reflex_target_pid :: "reflex \<Rightarrow> u64 option" where
  "reflex_target_pid s = (if rx_target_pid s \<noteq> 0 then Some (rx_target_pid s) else None)"

definition has_registered_target_process :: "reflex \<Rightarrow> bool" where
  "has_registered_target_process s \<longleftrightarrow> rx_target_pid s \<noteq> 0 \<and> reflex_routing s \<noteq> Unregistered"

definition resume_identity_unarmed :: "reflex \<Rightarrow> bool" where
  "resume_identity_unarmed s \<longleftrightarrow> reflex_routing s \<noteq> DualDispatch \<and> rx_resume_target s = 0"

section \<open>Operations\<close>

definition kuser_recipe :: "'h host \<Rightarrow> 'h \<Rightarrow> reflex \<Rightarrow> recipe" where
  "kuser_recipe H h s = (case rx_convention s of
       ResumeReplay \<Rightarrow> Resume
     | SelectorDispatch \<Rightarrow> h_selector_recipe H h
     | DualConvention \<Rightarrow> Dispatch)"

definition log_control :: "'h host \<Rightarrow> u32 \<Rightarrow> u64 \<Rightarrow> 'h \<Rightarrow> 'h" where
  "log_control H leaf arg h =
     h_log_hex H ''reflex control argument='' arg (h_log_hex H ''reflex control leaf='' (ucast leaf) h)"

fun in_transition :: "routing_state \<Rightarrow> bool" where
  "in_transition RegisteringResumeTarget = True"
| "in_transition RegisteringDualDispatch = True"
| "in_transition PromotingDualDispatch = True"
| "in_transition _ = False"

text \<open>\<open>for _ in 0..n\<close> with the routing word unchanged meanwhile.\<close>

fun wait_for_transition :: "'h host \<Rightarrow> nat \<Rightarrow> routing_state \<Rightarrow> 'h \<Rightarrow> 'h \<times> bool" where
  "wait_for_transition H 0 st h = (h, False)"
| "wait_for_transition H (Suc n) st h =
     (if \<not> in_transition st then (h, True) else wait_for_transition H n st (h_yield H h))"

definition activate_dual_dispatch :: "'h host \<Rightarrow> 'h \<Rightarrow> reflex \<Rightarrow> 'h \<times> reflex \<times> bool" where
  "activate_dual_dispatch H h s =
     (if rx_routing s = RsDualDispatch then (h, s, True)
      else if in_transition (rx_routing s) then
        (fst (wait_for_transition H TRANSITION_WAIT_LIMIT (rx_routing s) h), s, False)
      else
        (let s1 = s\<lparr>rx_routing := (if rx_routing s = RsUnregistered then RegisteringDualDispatch else PromotingDualDispatch)\<rparr>;
             s2 = (if rx_system_target s1 = 0 then s1\<lparr>rx_system_target := rx_resume_target s1\<rparr> else s1);
             s3 = s2\<lparr>rx_convention := DualConvention, rx_routing := RsDualDispatch\<rparr>;
             h1 = h_select_legacy H h;
             h2 = h_log H ''reflex CPU presentation=legacy dual-dispatch'' h1;
             h3 = h_log H ''reflex routing=dual-dispatch active'' h2
         in (h3, s3, True)))"

definition log_registered :: "'h host \<Rightarrow> u64 \<Rightarrow> 'h \<Rightarrow> 'h" where
  "log_registered H target h =
     h_log_hex H ''reflex resume handler='' target (h_log H ''reflex routing=resume-target registered'' h)"

definition register_resume_target :: "'h host \<Rightarrow> u64 \<Rightarrow> 'h \<Rightarrow> reflex \<Rightarrow> 'h \<times> reflex \<times> bool" where
  "register_resume_target H target h s =
     (case rx_routing s of
        RsDualDispatch \<Rightarrow> (h, s\<lparr>rx_system_target := target\<rparr>, True)
      | RsResumeTarget \<Rightarrow>
          (let (h1, ok) = h_patch_kuser H (kuser_recipe H h s) h in
           if \<not> ok then (h_log H ''reflex KUSER patch failed'' h1, s, False)
           else (log_registered H target h1, s\<lparr>rx_resume_target := target\<rparr>, True))
      | RsUnregistered \<Rightarrow>
          (let s1 = s\<lparr>rx_routing := RegisteringResumeTarget, rx_resume_target := target\<rparr>;
               s2 = (if h_legacy_active H h then s1\<lparr>rx_convention := SelectorDispatch\<rparr> else s1);
               s3 = s2\<lparr>rx_routing := RsResumeTarget\<rparr>
           in (log_registered H target h, s3, True))
      | _ \<Rightarrow> (fst (wait_for_transition H TRANSITION_WAIT_LIMIT (rx_routing s) h), s, False))"

definition recipe_log :: "recipe \<Rightarrow> string" where
  "recipe_log r = (case r of
       Dispatch \<Rightarrow> ''reflex KUSER recipe=dispatch''
     | Selector \<Rightarrow> ''reflex KUSER recipe=selector''
     | Resume \<Rightarrow> ''reflex KUSER recipe=resume'')"

definition handle_cpuid :: "'h host \<Rightarrow> u32 \<Rightarrow> u64 \<Rightarrow> u64 \<Rightarrow> 'h \<Rightarrow> reflex \<Rightarrow> 'h \<times> reflex \<times> reflex_action" where
  "handle_cpuid H leaf rcx rdx h s =
     (let arg = cpuid_argument leaf rcx rdx in
      if leaf = ARM_TARGET_CR3 then
        (let h1 = log_control H leaf arg h; s1 = s\<lparr>rx_identity := Process\<rparr> in
         if reflex_routing s1 = ResumeTarget then (h1, s1, Native)
         else (h_log H ''reflex CR3 identity armed'' h1, s1, Consumed))
      else if leaf = CLIENT_SESSION_MARKER then (log_control H leaf arg h, s, Native)
      else if leaf = REGISTER_RESUME_HANDLER then
        (let h1 = log_control H leaf arg h;
             (h2, s2) = (if rx_identity s = Unobserved
               then (h_log H ''reflex debug-register thread identity inferred'' h1, s\<lparr>rx_identity := DebugRegisterThread\<rparr>)
               else (h1, s));
             h3 = h_set_hwprofile_guid H h2;
             h4 = (if reflex_routing s2 = Unregistered then h_log H ''reflex routing=resume-target inferred'' h3 else h3);
             (h5, s5, ok) = register_resume_target H arg h4 s2
         in (h5, s5, if ok then Consumed else Native))
      else if leaf = SET_TIME then
        (h_set_offset H (push_bit 32 arg) (log_control H leaf arg h), s, Consumed)
      else if leaf = REGISTER_TARGET_PID then
        (if reflex_routing s = Unregistered then (h, s, Native)
         else
           (let s1 = s\<lparr>rx_target_pid := arg\<rparr>;
                h1 = h_log_hex H ''reflex target pid='' arg h;
                r = kuser_recipe H h1 s1;
                h2 = h_log H (recipe_log r) h1;
                (h3, ok) = h_patch_kuser H r h2
            in if \<not> ok then (h_log H ''reflex KUSER patch failed'' h3, s1, Native)
               else (h_log H ''reflex KUSER patch ready'' h3, s1, Consumed)))
      else if leaf = REGISTER_SYSTEM_SYSCALL_ID then
        (let (h1, s1, ok) = activate_dual_dispatch H (log_control H leaf arg h) s in
         if \<not> ok then (h1, s1, Native) else (h1, s1\<lparr>rx_system_id := ucast arg\<rparr>, Consumed))
      else if leaf = REGISTER_ATTRIBUTES_HANDLER then
        (let (h1, s1, ok) = activate_dual_dispatch H (log_control H leaf arg h) s in
         if \<not> ok then (h1, s1, Native) else (h1, s1\<lparr>rx_attributes_target := arg\<rparr>, Consumed))
      else if leaf = REGISTER_ATTRIBUTES_SYSCALL_ID then
        (let (h1, s1, ok) = activate_dual_dispatch H (log_control H leaf arg h) s in
         if \<not> ok then (h1, s1, Native) else (h1, s1\<lparr>rx_attributes_id := ucast arg\<rparr>, Consumed))
      else (h, s, Native))"

definition route_when :: "u64 \<Rightarrow> bool \<Rightarrow> syscall_route option" where
  "route_when target resume = (if target \<noteq> 0 then Some \<lparr>route_target = target, rax_is_resume = resume\<rparr> else None)"

definition route_syscall :: "reflex \<Rightarrow> u64 \<Rightarrow> u64 \<Rightarrow> u64 \<Rightarrow> syscall_route option" where
  "route_syscall s number r10 rcx =
     (if rx_routing s \<in> {RsUnregistered, RegisteringDualDispatch} then None
      else case rx_convention s of
        ResumeReplay \<Rightarrow> route_when (rx_resume_target s) True
      | SelectorDispatch \<Rightarrow>
          if number \<notin> set SINGLE_DISPATCH_SELECTORS \<or> rcx > USER_RCX_MAX then None
          else route_when (rx_resume_target s) False
      | DualConvention \<Rightarrow>
          if number = DISPATCH_BYPASS_SYSCALL then None
          else if ucast number = rx_system_id s then
            (if r10 \<noteq> 0 \<or> rcx > USER_RCX_MAX then None else route_when (rx_system_target s) False)
          else if ucast number = rx_attributes_id s \<and> rcx \<le> USER_RCX_MAX then
            route_when (rx_attributes_target s) False
          else None)"

section \<open>The protocol a client sees\<close>

text \<open>
  The registration as the protocol documents it: no client, a client with one resume handler
  (which either takes every system call or only the selector calls), or a client with two
  handlers and their system-call numbers.
\<close>

datatype registration = NoClient | ResumeClient u64 bool | DualClient u64 u32 u64 u32

fun spec_promote :: "registration \<Rightarrow> registration" where
  "spec_promote NoClient = DualClient 0 (- 1) 0 (- 1)"
| "spec_promote (ResumeClient t sel) = DualClient t (- 1) 0 (- 1)"
| "spec_promote (DualClient st si at ai) = DualClient st si at ai"

fun spec_register :: "u64 \<Rightarrow> bool \<Rightarrow> bool \<Rightarrow> registration \<Rightarrow> registration" where
  "spec_register t legacy ok NoClient = ResumeClient t legacy"
| "spec_register t legacy ok (ResumeClient t' sel) = (if ok then ResumeClient t sel else ResumeClient t' sel)"
| "spec_register t legacy ok (DualClient st si at ai) = DualClient t si at ai"

fun set_system_id :: "u32 \<Rightarrow> registration \<Rightarrow> registration" where
  "set_system_id i (DualClient st si at ai) = DualClient st i at ai"
| "set_system_id i R = R"

fun set_attributes_target :: "u64 \<Rightarrow> registration \<Rightarrow> registration" where
  "set_attributes_target t (DualClient st si at ai) = DualClient st si t ai"
| "set_attributes_target t R = R"

fun set_attributes_id :: "u32 \<Rightarrow> registration \<Rightarrow> registration" where
  "set_attributes_id i (DualClient st si at ai) = DualClient st si at i"
| "set_attributes_id i R = R"

fun is_resume_client :: "registration \<Rightarrow> bool" where
  "is_resume_client (ResumeClient _ _) = True"
| "is_resume_client _ = False"

fun is_dual_client :: "registration \<Rightarrow> bool" where
  "is_dual_client (DualClient _ _ _ _) = True"
| "is_dual_client _ = False"

text \<open>
  One control call on the registration and the legacy flag, given whether a page patch it
  asks for succeeds: the new registration, the new flag, and whether the call is consumed.
\<close>

definition spec_control ::
    "u32 \<Rightarrow> u64 \<Rightarrow> bool \<Rightarrow> registration \<times> bool \<Rightarrow> (registration \<times> bool) \<times> reflex_action" where
  "spec_control leaf arg ok = (\<lambda>(R, legacy).
     if leaf = ARM_TARGET_CR3 then ((R, legacy), if is_resume_client R then Native else Consumed)
     else if leaf = REGISTER_RESUME_HANDLER then
       ((spec_register arg legacy ok R, legacy), if is_resume_client R \<and> \<not> ok then Native else Consumed)
     else if leaf = SET_TIME then ((R, legacy), Consumed)
     else if leaf = REGISTER_TARGET_PID then ((R, legacy), if R \<noteq> NoClient \<and> ok then Consumed else Native)
     else if leaf = REGISTER_SYSTEM_SYSCALL_ID then
       ((set_system_id (ucast arg) (spec_promote R), legacy \<or> \<not> is_dual_client R), Consumed)
     else if leaf = REGISTER_ATTRIBUTES_HANDLER then
       ((set_attributes_target arg (spec_promote R), legacy \<or> \<not> is_dual_client R), Consumed)
     else if leaf = REGISTER_ATTRIBUTES_SYSCALL_ID then
       ((set_attributes_id (ucast arg) (spec_promote R), legacy \<or> \<not> is_dual_client R), Consumed)
     else ((R, legacy), Native))"

fun spec_route :: "registration \<Rightarrow> u64 \<Rightarrow> u64 \<Rightarrow> u64 \<Rightarrow> syscall_route option" where
  "spec_route NoClient n r10 rcx = None"
| "spec_route (ResumeClient t sel) n r10 rcx =
     (if sel \<and> (n \<notin> {0x13371337, 0x13371338} \<or> rcx > USER_RCX_MAX) then None else route_when t (\<not> sel))"
| "spec_route (DualClient st si at ai) n r10 rcx =
     (if n = DISPATCH_BYPASS_SYSCALL \<or> rcx > USER_RCX_MAX then None
      else if ucast n = si then (if r10 = 0 then route_when st False else None)
      else if ucast n = ai then route_when at False
      else None)"

definition abs_reg :: "reflex \<Rightarrow> registration" where
  "abs_reg s = (case rx_routing s of
       RsResumeTarget \<Rightarrow> ResumeClient (rx_resume_target s) (rx_convention s = SelectorDispatch)
     | RsDualDispatch \<Rightarrow> DualClient (rx_system_target s) (rx_system_id s) (rx_attributes_target s) (rx_attributes_id s)
     | _ \<Rightarrow> NoClient)"

definition no_dispatch :: "reflex \<Rightarrow> bool" where
  "no_dispatch s \<longleftrightarrow> rx_system_target s = 0 \<and> rx_system_id s = - 1 \<and> rx_attributes_target s = 0 \<and> rx_attributes_id s = - 1"

definition reflex_inv :: "reflex \<Rightarrow> bool" where
  "reflex_inv s \<longleftrightarrow> (case rx_routing s of
       RsUnregistered \<Rightarrow> rx_convention s = ResumeReplay \<and> rx_resume_target s = 0 \<and> no_dispatch s
     | RsResumeTarget \<Rightarrow> rx_convention s \<noteq> DualConvention \<and> no_dispatch s
     | RsDualDispatch \<Rightarrow> rx_convention s = DualConvention
     | _ \<Rightarrow> False)"

lemma reflex_inv_cases [consumes 1, case_names none resume dual]:
  assumes "reflex_inv s"
  obtains "rx_routing s = RsUnregistered" "rx_convention s = ResumeReplay" "rx_resume_target s = 0"
      "no_dispatch s" "abs_reg s = NoClient"
    | "rx_routing s = RsResumeTarget" "rx_convention s \<noteq> DualConvention" "no_dispatch s"
      "abs_reg s = ResumeClient (rx_resume_target s) (rx_convention s = SelectorDispatch)"
    | "rx_routing s = RsDualDispatch" "rx_convention s = DualConvention"
      "abs_reg s = DualClient (rx_system_target s) (rx_system_id s) (rx_attributes_target s) (rx_attributes_id s)"
  using assms by (cases "rx_routing s") (auto simp: reflex_inv_def abs_reg_def)

lemma reflex_inv_new: "reflex_inv reflex_new" "abs_reg reflex_new = NoClient"
  by (simp_all add: reflex_inv_def reflex_new_def no_dispatch_def abs_reg_def)

lemma route_refines:
  assumes "reflex_inv s"
  shows "route_syscall s n r10 rcx = spec_route (abs_reg s) n r10 rcx"
  using assms
proof (cases rule: reflex_inv_cases)
  case resume
  then show ?thesis
    by (cases "rx_convention s") (simp_all add: route_syscall_def SINGLE_DISPATCH_SELECTORS_def)
qed (auto simp: route_syscall_def not_le)

lemma activate_refines:
  assumes "reflex_inv s" and "activate_dual_dispatch H h s = (h', s', ok)"
  shows "ok \<and> reflex_inv s' \<and> rx_routing s' = RsDualDispatch \<and> abs_reg s' = spec_promote (abs_reg s)"
  using assms(1)
proof (cases rule: reflex_inv_cases)
  case none
  with assms(2) show ?thesis
    by (auto simp: activate_dual_dispatch_def Let_def reflex_inv_def abs_reg_def no_dispatch_def)
next
  case resume
  with assms(2) show ?thesis
    by (auto simp: activate_dual_dispatch_def Let_def reflex_inv_def abs_reg_def no_dispatch_def)
next
  case dual
  with assms show ?thesis by (auto simp: activate_dual_dispatch_def)
qed

lemma register_refines:
  assumes "reflex_inv s" and "register_resume_target H t h s = (h', s', ok)"
  shows "reflex_inv s' \<and> abs_reg s' = spec_register t (h_legacy_active H h) ok (abs_reg s) \<and>
         (\<not> is_resume_client (abs_reg s) \<longrightarrow> ok)"
  using assms(1)
proof (cases rule: reflex_inv_cases)
  case none
  with assms(2) show ?thesis
    by (auto simp: register_resume_target_def Let_def reflex_inv_def abs_reg_def no_dispatch_def split: if_splits)
next
  case resume
  with assms(2) show ?thesis
    by (auto simp: register_resume_target_def Let_def reflex_inv_def abs_reg_def no_dispatch_def
        split: if_splits prod.splits)
next
  case dual
  with assms show ?thesis
    by (auto simp: register_resume_target_def reflex_inv_def abs_reg_def)
qed

section \<open>Sequences of control calls\<close>

record control_call =
  cc_leaf :: u32
  cc_rcx :: u64
  cc_rdx :: u64

definition call_arg :: "control_call \<Rightarrow> u64" where
  "call_arg c = cpuid_argument (cc_leaf c) (cc_rcx c) (cc_rdx c)"

fun run_controls :: "'h host \<Rightarrow> control_call list \<Rightarrow> 'h \<Rightarrow> reflex \<Rightarrow> 'h \<times> reflex \<times> reflex_action list" where
  "run_controls H [] h s = (h, s, [])"
| "run_controls H (c # cs) h s =
     (let (h1, s1, a) = handle_cpuid H (cc_leaf c) (cc_rcx c) (cc_rdx c) h s;
          (h2, s2, as) = run_controls H cs h1 s1
      in (h2, s2, a # as))"

fun spec_controls :: "(control_call \<times> bool) list \<Rightarrow> registration \<times> bool \<Rightarrow> (registration \<times> bool) \<times> reflex_action list" where
  "spec_controls [] x = (x, [])"
| "spec_controls ((c, ok) # cs) x =
     (let (x1, a) = spec_control (cc_leaf c) (call_arg c) ok x; (x2, as) = spec_controls cs x1 in (x2, a # as))"

lemma marker_not_time: "CLIENT_SESSION_MARKER \<noteq> SET_TIME" "CLIENT_SESSION_MARKER \<noteq> REGISTER_TARGET_PID"
  by (simp_all add: control_leaves)

lemma spec_register_dual [simp]: "is_dual_client (spec_register t leg ok R) = is_dual_client R"
  by (cases R) simp_all

lemma spec_control_dual_legacy:
  "spec_control leaf arg ok (R, leg) = ((R', leg'), a) \<Longrightarrow> is_dual_client R \<longrightarrow> leg \<Longrightarrow> is_dual_client R' \<longrightarrow> leg'"
  by (auto simp: spec_control_def split: if_splits)

section \<open>The host\<close>

text \<open>
  What the state machine needs of its host: selecting the legacy presentation makes it
  active, and nothing else a control call does changes whether it is.
\<close>

locale reflex_host =
  fixes H :: "'h host"
  assumes select_legacy: "h_legacy_active H (h_select_legacy H h)"
    and legacy_offset: "h_legacy_active H (h_set_offset H t h) = h_legacy_active H h"
    and legacy_patch: "h_patch_kuser H r h = (h', ok) \<Longrightarrow> h_legacy_active H h' = h_legacy_active H h"
    and legacy_guid: "h_legacy_active H (h_set_hwprofile_guid H h) = h_legacy_active H h"
    and legacy_log: "h_legacy_active H (h_log H m h) = h_legacy_active H h"
    and legacy_log_hex: "h_legacy_active H (h_log_hex H m v h) = h_legacy_active H h"
begin

lemmas legacy_kept = legacy_offset legacy_guid legacy_log legacy_log_hex

lemma legacy_log_control: "h_legacy_active H (log_control H leaf arg h) = h_legacy_active H h"
  by (simp add: log_control_def legacy_kept)

lemma legacy_activate:
  assumes "reflex_inv s" and "activate_dual_dispatch H h s = (h', s', ok)"
  shows "h_legacy_active H h' = (h_legacy_active H h \<or> \<not> is_dual_client (abs_reg s))"
  using assms(1)
proof (cases rule: reflex_inv_cases)
  case dual
  with assms(2) show ?thesis by (simp add: activate_dual_dispatch_def)
qed (use assms(2) in \<open>auto simp: activate_dual_dispatch_def Let_def legacy_kept select_legacy\<close>)

lemma legacy_register:
  assumes "reflex_inv s" and "register_resume_target H t h s = (h', s', ok)"
  shows "h_legacy_active H h' = h_legacy_active H h"
  using assms(1)
proof (cases rule: reflex_inv_cases)
  case resume
  with assms(2) legacy_patch show ?thesis
    by (auto simp: register_resume_target_def log_registered_def legacy_kept split: prod.splits if_splits)
qed (use assms(2) in \<open>auto simp: register_resume_target_def log_registered_def Let_def legacy_kept\<close>)

lemma control_resume_handler:
  assumes "reflex_inv s" and "handle_cpuid H REGISTER_RESUME_HANDLER rcx rdx h s = (h', s', act)"
  shows "reflex_inv s' \<and> (\<exists>ok. spec_control REGISTER_RESUME_HANDLER rcx ok (abs_reg s, h_legacy_active H h)
           = ((abs_reg s', h_legacy_active H h'), act))"
proof -
  define s2 where "s2 = (if rx_identity s = Unobserved then s\<lparr>rx_identity := DebugRegisterThread\<rparr> else s)"
  from assms(2) obtain h4 ok where r: "register_resume_target H rcx h4 s2 = (h', s', ok)"
    "h_legacy_active H h4 = h_legacy_active H h" "act = (if ok then Consumed else Native)"
    by (auto simp: handle_cpuid_def cpuid_argument_def control_leaves s2_def Let_def legacy_kept
        legacy_log_control split: prod.splits if_splits)
  have s2: "reflex_inv s2" "abs_reg s2 = abs_reg s"
    using assms(1) by (auto simp: s2_def reflex_inv_def abs_reg_def no_dispatch_def split: routing_state.splits)
  from register_refines [OF s2(1) r(1)] legacy_register [OF s2(1) r(1)] r(2,3) s2(2) show ?thesis
    by (intro conjI exI [of _ ok]) (auto simp: spec_control_def control_leaves)
qed

lemma control_dual:
  assumes "reflex_inv s" and "handle_cpuid H leaf rcx rdx h s = (h', s', act)"
    and "leaf \<in> {REGISTER_SYSTEM_SYSCALL_ID, REGISTER_ATTRIBUTES_HANDLER, REGISTER_ATTRIBUTES_SYSCALL_ID}"
  shows "reflex_inv s' \<and> spec_control leaf rcx ok (abs_reg s, h_legacy_active H h) = ((abs_reg s', h_legacy_active H h'), act)"
proof -
  obtain h1 s1 b where a: "activate_dual_dispatch H (log_control H leaf rcx h) s = (h1, s1, b)"
    by (metis prod_cases3)
  from assms(2,3) a activate_refines [OF assms(1) a] have
    s': "h' = h1" "act = Consumed"
      "s' = (if leaf = REGISTER_SYSTEM_SYSCALL_ID then s1\<lparr>rx_system_id := ucast rcx\<rparr>
             else if leaf = REGISTER_ATTRIBUTES_HANDLER then s1\<lparr>rx_attributes_target := rcx\<rparr>
             else s1\<lparr>rx_attributes_id := ucast rcx\<rparr>)"
    by (auto simp: handle_cpuid_def cpuid_argument_def control_leaves)
  from activate_refines [OF assms(1) a] have
    s1: "rx_routing s1 = RsDualDispatch" "rx_convention s1 = DualConvention"
      "spec_promote (abs_reg s) = DualClient (rx_system_target s1) (rx_system_id s1) (rx_attributes_target s1) (rx_attributes_id s1)"
    by (auto simp: reflex_inv_def abs_reg_def)
  show ?thesis
    using assms(3) s' s1 legacy_activate [OF assms(1) a]
    by (auto simp: spec_control_def control_leaves reflex_inv_def abs_reg_def legacy_log_control)
qed

lemma control_other:
  assumes "reflex_inv s" and "handle_cpuid H leaf rcx rdx h s = (h', s', act)"
    and "leaf \<notin> {REGISTER_RESUME_HANDLER, REGISTER_SYSTEM_SYSCALL_ID, REGISTER_ATTRIBUTES_HANDLER, REGISTER_ATTRIBUTES_SYSCALL_ID}"
  shows "reflex_inv s' \<and> (\<exists>ok. spec_control leaf (cpuid_argument leaf rcx rdx) ok (abs_reg s, h_legacy_active H h)
           = ((abs_reg s', h_legacy_active H h'), act))"
proof (cases "leaf = REGISTER_TARGET_PID \<and> reflex_routing s \<noteq> Unregistered")
  case True
  let ?h1 = "h_log_hex H ''reflex target pid='' rdx h" and ?s1 = "s\<lparr>rx_target_pid := rdx\<rparr>"
  let ?r = "kuser_recipe H ?h1 ?s1"
  obtain h3 ok where p: "h_patch_kuser H ?r (h_log H (recipe_log ?r) ?h1) = (h3, ok)" by fastforce
  from True assms(1,2) p legacy_patch [OF p] have
    "act = (if ok then Consumed else Native)" "s' = ?s1" "h_legacy_active H h' = h_legacy_active H h"
    by (auto simp: handle_cpuid_def cpuid_argument_def control_leaves Let_def legacy_kept split: if_splits)
  moreover have "reflex_inv ?s1" "abs_reg ?s1 = abs_reg s"
    using assms(1) by (auto simp: reflex_inv_def abs_reg_def no_dispatch_def split: routing_state.splits)
  moreover have "abs_reg s \<noteq> NoClient"
    using True assms(1) by (auto simp: reflex_routing_def abs_reg_def reflex_inv_def split: routing_state.splits)
  ultimately show ?thesis
    using True by (intro conjI exI [of _ ok]) (simp_all add: spec_control_def control_leaves)
next
  case False
  have upd: "reflex_inv (s\<lparr>rx_identity := i\<rparr>)" "abs_reg (s\<lparr>rx_identity := i\<rparr>) = abs_reg s" for i
    using assms(1) by (auto simp: reflex_inv_def abs_reg_def no_dispatch_def split: routing_state.splits)
  have client: "is_resume_client (abs_reg s) \<longleftrightarrow> reflex_routing s = ResumeTarget"
    "abs_reg s = NoClient \<longleftrightarrow> reflex_routing s = Unregistered"
    using assms(1) by (auto simp: reflex_routing_def abs_reg_def reflex_inv_def split: routing_state.splits)
  have "reflex_routing (s\<lparr>rx_identity := i\<rparr>) = reflex_routing s" for i by (simp add: reflex_routing_def)
  with assms False upd client marker_not_time show ?thesis
    by (auto simp: handle_cpuid_def spec_control_def cpuid_argument_def Let_def legacy_kept legacy_log_control
        split: if_splits)
qed

lemma control_refines:
  assumes "reflex_inv s" and "handle_cpuid H leaf rcx rdx h s = (h', s', act)"
  shows "reflex_inv s' \<and> (\<exists>ok. spec_control leaf (cpuid_argument leaf rcx rdx) ok (abs_reg s, h_legacy_active H h)
           = ((abs_reg s', h_legacy_active H h'), act))"
proof -
  consider "leaf = REGISTER_RESUME_HANDLER"
    | "leaf \<in> {REGISTER_SYSTEM_SYSCALL_ID, REGISTER_ATTRIBUTES_HANDLER, REGISTER_ATTRIBUTES_SYSCALL_ID}"
    | "leaf \<notin> {REGISTER_RESUME_HANDLER, REGISTER_SYSTEM_SYSCALL_ID, REGISTER_ATTRIBUTES_HANDLER, REGISTER_ATTRIBUTES_SYSCALL_ID}"
    by blast
  then show ?thesis
  proof cases
    case 1
    with control_resume_handler [OF assms(1)] assms(2) show ?thesis
      by (simp add: cpuid_argument_def control_leaves)
  next
    case 2
    then have "cpuid_argument leaf rcx rdx = rcx" by (auto simp: cpuid_argument_def control_leaves)
    with control_dual [OF assms 2] show ?thesis by simp
  next
    case 3
    with control_other [OF assms] show ?thesis by simp
  qed
qed

lemma controls_refine:
  assumes "reflex_inv s" and "run_controls H cs h s = (h', s', as)"
  shows "reflex_inv s' \<and> (\<exists>oks. length oks = length cs \<and>
     spec_controls (zip cs oks) (abs_reg s, h_legacy_active H h) = ((abs_reg s', h_legacy_active H h'), as))"
  using assms
proof (induction cs arbitrary: h s as)
  case (Cons c cs)
  obtain h1 s1 a where 1: "handle_cpuid H (cc_leaf c) (cc_rcx c) (cc_rdx c) h s = (h1, s1, a)"
    by (metis prod_cases3)
  obtain h2 s2 as' where 2: "run_controls H cs h1 s1 = (h2, s2, as')" by (metis prod_cases3)
  from control_refines [OF Cons.prems(1) 1] obtain ok where
    inv1: "reflex_inv s1" and ok: "spec_control (cc_leaf c) (call_arg c) ok (abs_reg s, h_legacy_active H h)
      = ((abs_reg s1, h_legacy_active H h1), a)" by (auto simp: call_arg_def)
  from Cons.prems(2) 1 2 have fin: "h2 = h'" "s2 = s'" by simp_all
  from Cons.IH [OF inv1 2 [unfolded fin]] obtain oks where
    "reflex_inv s'" "length oks = length cs"
    "spec_controls (zip cs oks) (abs_reg s1, h_legacy_active H h1) = ((abs_reg s', h_legacy_active H h'), as')"
    by auto
  with ok Cons.prems(2) 1 2 show ?case by (intro conjI exI [of _ "ok # oks"]) auto
qed simp

text \<open>A dual-dispatch client is only ever seen with the legacy presentation.\<close>

lemma control_keeps_dual_legacy:
  assumes "reflex_inv s" and "handle_cpuid H leaf rcx rdx h s = (h', s', act)"
    and "rx_routing s = RsDualDispatch \<longrightarrow> h_legacy_active H h"
  shows "rx_routing s' = RsDualDispatch \<longrightarrow> h_legacy_active H h'"
proof -
  have dual: "rx_routing s = RsDualDispatch \<longleftrightarrow> is_dual_client (abs_reg s)" if "reflex_inv s" for s
    using that by (cases rule: reflex_inv_cases) auto
  from control_refines [OF assms(1,2)] obtain ok where
    "reflex_inv s'" and ok: "spec_control leaf (cpuid_argument leaf rcx rdx) ok (abs_reg s, h_legacy_active H h)
      = ((abs_reg s', h_legacy_active H h'), act)" by blast
  with dual assms(1,3) spec_control_dual_legacy [OF ok] show ?thesis by blast
qed

lemma controls_keep_dual_legacy:
  assumes "reflex_inv s" and "run_controls H cs h s = (h', s', as)"
    and "rx_routing s = RsDualDispatch \<longrightarrow> h_legacy_active H h"
  shows "rx_routing s' = RsDualDispatch \<longrightarrow> h_legacy_active H h'"
  using assms
proof (induction cs arbitrary: h s as)
  case (Cons c cs)
  obtain h1 s1 a where 1: "handle_cpuid H (cc_leaf c) (cc_rcx c) (cc_rdx c) h s = (h1, s1, a)"
    by (metis prod_cases3)
  obtain as' where 2: "run_controls H cs h1 s1 = (h', s', as')"
    using Cons.prems(2) 1 by (auto split: prod.splits)
  from control_refines [OF Cons.prems(1) 1] have "reflex_inv s1" by blast
  from Cons.IH [OF this 2 control_keeps_dual_legacy [OF Cons.prems(1) 1 Cons.prems(3)]] show ?case .
qed simp

end

section \<open>Concurrent registration\<close>

text \<open>
  The atomic accesses of \<^verbatim>\<open>register_resume_target\<close> and \<^verbatim>\<open>activate_dual_dispatch\<close> as program
  counters. \<open>rx_next\<close> is the next access of a thread; its Boolean is what the environment
  decides (whether the weak compare-exchange fails spuriously, whether the page patch
  succeeds).
\<close>

datatype rx_pc =
    RegLoad u64 | RegCas u64 | RegWait nat u64 | RegDual u64 | RegPatch u64 | RegPatched u64
  | RegStoreTarget u64 | RegLegacy | RegStoreConvention | RegPublish
  | ActLoad | ActCas routing_state | ActWait nat | ActReadResume | ActReadSystem u64
  | ActStoreSystem u64 | ActStoreConvention | ActPublish | ActSelectLegacy
  | RxDone bool

type_synonym rx_shared = "reflex \<times> bool"

fun rx_next :: "bool \<Rightarrow> rx_shared \<Rightarrow> rx_pc \<Rightarrow> (rx_shared \<times> rx_pc) option" where
  "rx_next b (s, leg) (RegLoad a) = Some ((s, leg), case rx_routing s of
       RsDualDispatch \<Rightarrow> RegDual a | RsResumeTarget \<Rightarrow> RegPatch a | RsUnregistered \<Rightarrow> RegCas a | _ \<Rightarrow> RegWait 0 a)"
| "rx_next b (s, leg) (RegCas a) =
     (if b \<and> rx_routing s = RsUnregistered
      then Some ((s\<lparr>rx_routing := RegisteringResumeTarget\<rparr>, leg), RegStoreTarget a)
      else Some ((s, leg), RegLoad a))"
| "rx_next b (s, leg) (RegWait n a) = Some ((s, leg),
     if n = TRANSITION_WAIT_LIMIT then RxDone False
     else if \<not> in_transition (rx_routing s) then RegLoad a else RegWait (n + 1) a)"
| "rx_next b (s, leg) (RegDual a) = Some ((s\<lparr>rx_system_target := a\<rparr>, leg), RxDone True)"
| "rx_next b (s, leg) (RegPatch a) = Some ((s, leg), if b then RegPatched a else RxDone False)"
| "rx_next b (s, leg) (RegPatched a) = Some ((s\<lparr>rx_resume_target := a\<rparr>, leg), RxDone True)"
| "rx_next b (s, leg) (RegStoreTarget a) = Some ((s\<lparr>rx_resume_target := a\<rparr>, leg), RegLegacy)"
| "rx_next b (s, leg) RegLegacy = Some ((s, leg), if leg then RegStoreConvention else RegPublish)"
| "rx_next b (s, leg) RegStoreConvention = Some ((s\<lparr>rx_convention := SelectorDispatch\<rparr>, leg), RegPublish)"
| "rx_next b (s, leg) RegPublish = Some ((s\<lparr>rx_routing := RsResumeTarget\<rparr>, leg), RxDone True)"
| "rx_next b (s, leg) ActLoad = Some ((s, leg), case rx_routing s of
       RsDualDispatch \<Rightarrow> RxDone True | RsResumeTarget \<Rightarrow> ActCas RsResumeTarget
     | RsUnregistered \<Rightarrow> ActCas RsUnregistered | _ \<Rightarrow> ActWait 0)"
| "rx_next b (s, leg) (ActCas from) =
     (if b \<and> rx_routing s = from
      then Some ((s\<lparr>rx_routing := (if from = RsUnregistered then RegisteringDualDispatch else PromotingDualDispatch)\<rparr>, leg), ActReadResume)
      else Some ((s, leg), ActLoad))"
| "rx_next b (s, leg) (ActWait n) = Some ((s, leg),
     if n = TRANSITION_WAIT_LIMIT then RxDone False
     else if \<not> in_transition (rx_routing s) then ActLoad else ActWait (n + 1))"
| "rx_next b (s, leg) ActReadResume = Some ((s, leg), ActReadSystem (rx_resume_target s))"
| "rx_next b (s, leg) (ActReadSystem a) = Some ((s, leg), if rx_system_target s = 0 then ActStoreSystem a else ActStoreConvention)"
| "rx_next b (s, leg) (ActStoreSystem a) = Some ((s\<lparr>rx_system_target := a\<rparr>, leg), ActStoreConvention)"
| "rx_next b (s, leg) ActStoreConvention = Some ((s\<lparr>rx_convention := DualConvention\<rparr>, leg), ActPublish)"
| "rx_next b (s, leg) ActPublish = Some ((s\<lparr>rx_routing := RsDualDispatch\<rparr>, leg), ActSelectLegacy)"
| "rx_next b (s, leg) ActSelectLegacy = Some ((s, True), RxDone True)"
| "rx_next b (s, leg) (RxDone r) = None"

type_synonym rx_state = "rx_shared \<times> (nat \<Rightarrow> rx_pc)"

inductive reflex_step :: "rx_state \<Rightarrow> rx_state \<Rightarrow> bool" where
  rx_step: "rx_next b sh (ts t) = Some (sh', pc') \<Longrightarrow> reflex_step (sh, ts) (sh', ts(t := pc'))"

inductive_cases reflex_stepE: "reflex_step x y"

definition rx_started :: "rx_pc \<Rightarrow> bool" where
  "rx_started pc \<longleftrightarrow> pc = ActLoad \<or> (\<exists>a. pc = RegLoad a)"

fun claims :: "rx_pc \<Rightarrow> routing_state set" where
  "claims (RegStoreTarget a) = {RegisteringResumeTarget}"
| "claims RegLegacy = {RegisteringResumeTarget}"
| "claims RegStoreConvention = {RegisteringResumeTarget}"
| "claims RegPublish = {RegisteringResumeTarget}"
| "claims ActReadResume = {RegisteringDualDispatch, PromotingDualDispatch}"
| "claims (ActReadSystem a) = {RegisteringDualDispatch, PromotingDualDispatch}"
| "claims (ActStoreSystem a) = {RegisteringDualDispatch, PromotingDualDispatch}"
| "claims ActStoreConvention = {RegisteringDualDispatch, PromotingDualDispatch}"
| "claims ActPublish = {RegisteringDualDispatch, PromotingDualDispatch}"
| "claims _ = {}"

text \<open>
  A transitional routing word belongs to exactly one thread, of the matching kind; the
  convention is the dual one exactly from the store that precedes the publication on.
\<close>

definition rx_owner :: "routing_state \<Rightarrow> (nat \<Rightarrow> rx_pc) \<Rightarrow> bool" where
  "rx_owner r ts \<longleftrightarrow>
     (\<forall>t u. claims (ts t) \<noteq> {} \<and> claims (ts u) \<noteq> {} \<longrightarrow> t = u) \<and>
     (\<forall>t. claims (ts t) \<noteq> {} \<longrightarrow> r \<in> claims (ts t)) \<and>
     (in_transition r \<longrightarrow> (\<exists>t. claims (ts t) \<noteq> {}))"

definition rx_coherent :: "reflex \<Rightarrow> (nat \<Rightarrow> rx_pc) \<Rightarrow> bool" where
  "rx_coherent s ts \<longleftrightarrow>
     (rx_convention s = DualConvention \<longleftrightarrow> rx_routing s = RsDualDispatch \<or> (\<exists>t. ts t = ActPublish)) \<and>
     (\<forall>t r. ts t = ActCas r \<longrightarrow> r = RsUnregistered \<or> r = RsResumeTarget)"

lemma rx_coherent_cas: "rx_coherent s ts \<Longrightarrow> ts t = ActCas r \<Longrightarrow> r = RsUnregistered \<or> r = RsResumeTarget"
  unfolding rx_coherent_def by blast

lemma claims_subset: "r \<in> claims pc \<Longrightarrow> in_transition r"
  by (cases pc) auto

lemma rx_owner_claims: "rx_owner r ts \<Longrightarrow> claims (ts t) \<noteq> {} \<Longrightarrow> r \<in> claims (ts t)"
  unfolding rx_owner_def by blast

lemma rx_owner_local:
  "rx_owner r ts \<Longrightarrow> claims pc = claims (ts t) \<Longrightarrow> rx_owner r (ts(t := pc))"
  unfolding rx_owner_def by (auto simp: fun_upd_apply)

lemma rx_owner_claim:
  assumes "rx_owner r ts" and "\<not> in_transition r" and "r' \<in> claims pc"
  shows "rx_owner r' (ts(t := pc))"
proof -
  have none: "claims (ts u) = {}" for u
    using assms(1,2) claims_subset [of r "ts u"] unfolding rx_owner_def by blast
  have only: "u = t" if "claims ((ts(t := pc)) u) \<noteq> {}" for u
    using that none by (cases "u = t") auto
  have "claims ((ts(t := pc)) t) = claims pc" by simp
  with only assms(3) show ?thesis unfolding rx_owner_def by (metis emptyE)
qed

lemma rx_owner_release:
  assumes "rx_owner r ts" and "claims (ts t) \<noteq> {}" and "claims pc = {}" and "\<not> in_transition r'"
  shows "rx_owner r' (ts(t := pc))"
proof -
  have "claims ((ts(t := pc)) u) = {}" for u
    using assms(1-3) by (cases "u = t") (auto simp: rx_owner_def)
  with assms(4) show ?thesis unfolding rx_owner_def by blast
qed

lemma rx_next_claims:
  assumes "rx_next b (s, leg) pc = Some ((s', leg'), pc')" and "\<And>r. pc = ActCas r \<Longrightarrow> \<not> in_transition r"
  shows "rx_routing s' = rx_routing s \<and> claims pc' = claims pc \<or>
         \<not> in_transition (rx_routing s) \<and> rx_routing s' \<in> claims pc' \<or>
         claims pc \<noteq> {} \<and> claims pc' = {} \<and> \<not> in_transition (rx_routing s')"
  using assms by (cases pc) (auto split: if_splits routing_state.splits)

lemma rx_owner_step:
  assumes "rx_owner (rx_routing s) ts" and "rx_next b (s, leg) (ts t) = Some ((s', leg'), pc')"
    and "rx_coherent s ts"
  shows "rx_owner (rx_routing s') (ts(t := pc'))"
proof -
  have "\<not> in_transition r" if "ts t = ActCas r" for r
    using rx_coherent_cas [OF assms(3) that] by auto
  from rx_next_claims [OF assms(2) this] show ?thesis
    using rx_owner_local [OF assms(1)] rx_owner_claim [OF assms(1)] rx_owner_release [OF assms(1)] by metis
qed

lemma publish_kept:
  "ts t \<noteq> ActPublish \<Longrightarrow> pc \<noteq> ActPublish \<Longrightarrow> (\<exists>u. (ts(t := pc)) u = ActPublish) \<longleftrightarrow> (\<exists>u. ts u = ActPublish)"
  by (metis fun_upd_apply)

lemma rx_coherent_step:
  assumes own: "rx_owner (rx_routing s) ts" and nxt: "rx_next b (s, leg) (ts t) = Some ((s', leg'), pc')"
    and coh: "rx_coherent s ts"
  shows "rx_coherent s' (ts(t := pc'))"
proof -
  have cas: "\<forall>u r. (ts(t := pc')) u = ActCas r \<longrightarrow> r = RsUnregistered \<or> r = RsResumeTarget"
  proof (intro allI impI)
    fix u r assume u: "(ts(t := pc')) u = ActCas r"
    show "r = RsUnregistered \<or> r = RsResumeTarget"
    proof (cases "u = t")
      case True
      with u nxt show ?thesis by (cases "ts t") (auto split: if_splits routing_state.splits)
    next
      case False
      with u show ?thesis by (intro rx_coherent_cas [OF coh, of u]) simp
    qed
  qed
  have r: "claims (ts t) \<noteq> {} \<Longrightarrow> rx_routing s \<in> claims (ts t)" using own by (auto simp: rx_owner_def)
  have alone: "u = t" if "claims (ts t) \<noteq> {}" "ts u = ActPublish" for u
    using own that unfolding rx_owner_def by (metis claims.simps(9) insert_not_empty)
  have conv: "rx_convention s = DualConvention \<longleftrightarrow> rx_routing s = RsDualDispatch \<or> (\<exists>u. ts u = ActPublish)"
    using coh by (simp add: rx_coherent_def)
  have "rx_convention s' = DualConvention \<longleftrightarrow> rx_routing s' = RsDualDispatch \<or> (\<exists>u. (ts(t := pc')) u = ActPublish)"
  proof (cases "ts t = ActPublish \<or> ts t = ActStoreConvention")
    case True
    then show ?thesis
    proof
      assume "ts t = ActPublish"
      with nxt conv show ?thesis by auto
    next
      assume "ts t = ActStoreConvention"
      with nxt have "rx_convention s' = DualConvention" "(ts(t := pc')) t = ActPublish" by auto
      then show ?thesis by blast
    qed
  next
    case False
    then have "pc' \<noteq> ActPublish" using nxt by (cases "ts t") (auto split: if_splits routing_state.splits)
    then have ex: "(\<exists>u. (ts(t := pc')) u = ActPublish) \<longleftrightarrow> (\<exists>u. ts u = ActPublish)"
      using False by (intro publish_kept) auto
    have none: "claims (ts t) \<noteq> {} \<Longrightarrow> \<not> (\<exists>u. ts u = ActPublish)" using alone False by blast
    show ?thesis unfolding ex
      using False nxt conv none r rx_coherent_cas [OF coh, of t]
      by (cases "ts t") (auto simp del: ex_simps split: if_splits)
  qed
  with cas show ?thesis by (simp add: rx_coherent_def)
qed

definition rx_inv :: "rx_state \<Rightarrow> bool" where
  "rx_inv x \<longleftrightarrow> rx_owner (rx_routing (fst (fst x))) (snd x) \<and> rx_coherent (fst (fst x)) (snd x)"

lemma rx_inv_step: "reflex_step x y \<Longrightarrow> rx_inv x \<Longrightarrow> rx_inv y"
  by (erule reflex_stepE) (auto simp: rx_inv_def intro: rx_owner_step rx_coherent_step)

lemma rx_inv_init: "(\<And>t. rx_started (ts t)) \<Longrightarrow> rx_inv ((reflex_new, leg), ts)"
proof -
  assume st: "\<And>t. rx_started (ts t)"
  have "claims (ts t) = {} \<and> ts t \<noteq> ActPublish \<and> (\<forall>r. ts t \<noteq> ActCas r)" for t
    using st [of t] by (auto simp: rx_started_def)
  then show ?thesis by (simp add: rx_inv_def rx_owner_def rx_coherent_def reflex_new_def)
qed

lemma rx_inv_reachable:
  "reflex_step\<^sup>*\<^sup>* ((reflex_new, leg), ts) x \<Longrightarrow> (\<And>t. rx_started (ts t)) \<Longrightarrow> rx_inv x"
  by (induction rule: rtranclp_induct) (auto intro: rx_inv_init rx_inv_step)



text \<open>
  Dual dispatch is final. Once the routing word says dual dispatch no interleaving of
  further registrations ever changes it or the convention.
\<close>

lemma dual_dispatch_final:
  assumes "reflex_step\<^sup>*\<^sup>* ((reflex_new, leg0), ts0) ((s, leg), ts)" and "\<And>t. rx_started (ts0 t)"
    and "rx_routing s = RsDualDispatch" and "reflex_step\<^sup>*\<^sup>* ((s, leg), ts) ((s', leg'), ts')"
  shows "rx_routing s' = RsDualDispatch \<and> rx_convention s' = DualConvention"
proof -
  have step: "rx_routing (fst (fst y)) = RsDualDispatch"
    if "reflex_step x y" "rx_inv x" "rx_routing (fst (fst x)) = RsDualDispatch" for x y
  proof -
    from that(1) obtain b s leg ts t s' leg' pc' where
      x: "x = ((s, leg), ts)" "y = ((s', leg'), ts(t := pc'))" and n: "rx_next b (s, leg) (ts t) = Some ((s', leg'), pc')"
      by (elim reflex_stepE) (metis surj_pair)
    have "claims (ts t) = {}"
      using that(2,3) x claims_subset [of RsDualDispatch "ts t"] by (auto simp: rx_inv_def rx_owner_def)
    moreover have "ts t \<noteq> ActCas RsDualDispatch"
      using that(2) x rx_coherent_cas [of s ts t RsDualDispatch] by (auto simp: rx_inv_def)
    ultimately show ?thesis using that(3) x n by (cases "ts t") (auto split: if_splits)
  qed
  have "rx_inv y \<and> rx_routing (fst (fst y)) = RsDualDispatch" if "reflex_step\<^sup>*\<^sup>* ((s, leg), ts) y" for y
    using that rx_inv_reachable [OF assms(1,2)] assms(3)
    by (induction rule: rtranclp_induct) (auto intro: rx_inv_step step)
  from this [OF assms(4)] show ?thesis by (auto simp: rx_inv_def rx_coherent_def)
qed

text \<open>A thread alone, with the environment on its side.\<close>

fun rx_alone :: "nat \<Rightarrow> rx_shared \<times> rx_pc \<Rightarrow> rx_shared \<times> rx_pc" where
  "rx_alone 0 x = x"
| "rx_alone (Suc n) x = (case rx_next True (fst x) (snd x) of None \<Rightarrow> x | Some y \<Rightarrow> rx_alone n y)"

lemma rx_alone_steps:
  "rx_alone n (sh, ts t) = (sh', pc') \<Longrightarrow> reflex_step\<^sup>*\<^sup>* (sh, ts) (sh', ts(t := pc'))"
proof (induction n arbitrary: sh ts)
  case (Suc n)
  show ?case
  proof (cases "rx_next True sh (ts t)")
    case None
    with Suc.prems have "sh' = sh" "pc' = ts t" by simp_all
    then show ?thesis by simp
  next
    case (Some y)
    obtain sh1 pc1 where y: "y = (sh1, pc1)" by (cases y)
    let ?ts = "ts(t := pc1)"
    have "reflex_step\<^sup>*\<^sup>* (sh1, ?ts) (sh', ?ts(t := pc'))"
      using Suc.prems Some y by (intro Suc.IH) simp
    moreover have "reflex_step (sh, ts) (sh1, ?ts)" using Some y by (auto intro: rx_step)
    ultimately show ?thesis by (metis converse_rtranclp_into_rtranclp fun_upd_upd)
  qed
qed auto

lemma rx_alone_numeral: "rx_alone (numeral k) x =
    (case rx_next True (fst x) (snd x) of None \<Rightarrow> x | Some y \<Rightarrow> rx_alone (pred_numeral k) y)"
  by (simp add: numeral_eq_Suc)

lemma activate_alone:
  assumes "\<not> in_transition (rx_routing s)" and "activate_dual_dispatch H h s = (h', s', ok)"
  shows "ok \<and> rx_alone 9 ((s, leg), ActLoad) = ((s', leg \<or> rx_routing s \<noteq> RsDualDispatch), RxDone True)"
  using assms by (cases "rx_routing s") (auto simp: activate_dual_dispatch_def rx_alone_numeral Let_def)

lemma register_alone:
  assumes "\<not> in_transition (rx_routing s)" and "register_resume_target H a h s = (h', s', True)"
  shows "rx_alone 9 ((s, h_legacy_active H h), RegLoad a) = ((s', h_legacy_active H h), RxDone True)"
  using assms
  by (cases "rx_routing s")
    (auto simp: register_resume_target_def rx_alone_numeral Let_def split: prod.splits if_splits)

text \<open>
  The two models agree. A registration that runs without interference, access by access,
  ends within nine steps in exactly the state of the sequential function, for either kind of
  registration and from every state no other thread is changing.
\<close>

lemma sequential_registration_is_an_interleaving:
  assumes "\<not> in_transition (rx_routing s)" and "leg = h_legacy_active H h"
  shows "(ts t = ActLoad \<longrightarrow> activate_dual_dispatch H h s = (h', s', ok) \<longrightarrow>
            ok \<and> reflex_step\<^sup>*\<^sup>* ((s, leg), ts) ((s', leg \<or> rx_routing s \<noteq> RsDualDispatch), ts(t := RxDone True))) \<and>
         (ts t = RegLoad a \<longrightarrow> register_resume_target H a h s = (h', s', True) \<longrightarrow>
            reflex_step\<^sup>*\<^sup>* ((s, leg), ts) ((s', leg), ts(t := RxDone True)))"
  using activate_alone [OF assms(1), of H h h' s' ok leg] register_alone [OF assms(1), of H a h h' s']
    rx_alone_steps [of 9 "(s, leg)" ts t] assms(2) by auto

end
