(* ===== verification/Cpuid_Identity.thy ===== *)
theory Cpuid_Identity
  imports Prelude
begin

text \<open>
  The CPUID reply tables of \<^verbatim>\<open>protocol/cpuid.rs\<close> and the process-wide CPU identity they
  are chosen from. The identity lives in one atomic word that several threads update with
  compare-and-swap loops; \<open>id_step\<close> is the interleaving of those loops, one atomic access
  per step.
\<close>

section \<open>Registers and the artifact profiles\<close>

record registers =
  reg_eax :: u32
  reg_ebx :: u32
  reg_ecx :: u32
  reg_edx :: u32

definition registers_new :: "u32 \<Rightarrow> u32 \<Rightarrow> u32 \<Rightarrow> u32 \<Rightarrow> registers" where
  "registers_new a b c d = \<lparr>reg_eax = a, reg_ebx = b, reg_ecx = c, reg_edx = d\<rparr>"

definition registers_default :: registers where
  "registers_default = registers_new 0 0 0 0"

definition artifact_amd_reply :: "u32 \<Rightarrow> registers option" where
  "artifact_amd_reply leaf =
     (if leaf = 1 then Some (registers_new 0x00a20f12 0x00100800 0x00f8220b 0x178bfbff)
      else if leaf = 0x80000002 then Some (registers_new 0x32304744 0x42545253 0x464d3450 0x20202041)
      else if leaf = 0x80000003 then Some (registers_new 0x20202020 0x20202020 0x20202020 0x20202020)
      else if leaf = 0x80000004 then Some (registers_new 0x20202020 0x20202020 0x20202020 0x00202020)
      else None)"

definition artifact_intel_reply :: "u32 \<Rightarrow> registers option" where
  "artifact_intel_reply leaf =
     (if leaf = 1 then Some (registers_new 0x000a0655 0x00200800 0x01faebff 0xbfebfbff)
      else if leaf = 0x80000002 then Some (registers_new 0x65746e49 0x2952286c 0x6e655020 0x6d756974)
      else if leaf = 0x80000003 then Some (registers_new 0x20295228 0x20555043 0x35323434 0x20402059)
      else if leaf = 0x80000004 then Some (registers_new 0x30372e31 0x007a4847 0 0)
      else None)"

section \<open>The identity\<close>

datatype vendor = Vendor_Unknown | Intel | Amd

datatype cpu_presentation = Denuvo | Legacy

record cpu_identity =
  id_vendor :: vendor
  id_avx :: bool
  id_presentation :: cpu_presentation

definition MODERN_BRAND :: "u32 list" where
  "MODERN_BRAND = [0x756e6544, 0x4f774f76, 0x55504320, 0x31204020, 0x20373333, 0x007a4847, 0, 0, 0, 0, 0, 0]"

definition LEGACY_INTEL_BRAND :: "u32 list" where
  "LEGACY_INTEL_BRAND = [0x65746e49, 0x2952286c, 0x726f4320, 0x4d542865, 0x39692029, 0x3930312d,
     0x204b3030, 0x20555043, 0x2e332040, 0x48473037, 0x0000007a, 0]"

definition LEGACY_AMD_BRAND :: "u32 list" where
  "LEGACY_AMD_BRAND = [0x20444d41, 0x657a7952, 0x2039206e, 0x30303935, 0x32312058, 0x726f432d,
     0x72502065, 0x7365636f, 0x20726f73, 0x20202020, 0x20202020, 0x00202020]"

definition identity_denuvo :: "vendor \<Rightarrow> bool \<Rightarrow> cpu_identity" where
  "identity_denuvo v avx = \<lparr>id_vendor = v, id_avx = avx, id_presentation = Denuvo\<rparr>"

definition with_presentation :: "cpu_identity \<Rightarrow> cpu_presentation \<Rightarrow> cpu_identity" where
  "with_presentation i p = i\<lparr>id_presentation := p\<rparr>"

definition leaf1 :: "cpu_identity \<Rightarrow> registers" where
  "leaf1 i = (case (id_presentation i, id_vendor i, id_avx i) of
       (Denuvo, Vendor_Unknown, _) \<Rightarrow> registers_default
     | (Denuvo, Intel, False) \<Rightarrow> registers_new 0x000a0655 0x00200800 0x01faebff 0xbfebfbff
     | (Denuvo, Intel, True) \<Rightarrow> registers_new 0x000a0655 0x00200800 0x7bfafbff 0xbfebfbff
     | (Legacy, Intel, _) \<Rightarrow> registers_new 0x000a0655 0x00200800 0x7bfafbff 0xbfebfbff
     | (Denuvo, Amd, False) \<Rightarrow> registers_new 0x00a20f12 0x00100800 0x00f8220b 0x178bfbff
     | (Denuvo, Amd, True) \<Rightarrow> registers_new 0x00a20f12 0x00100800 0x7ad8320b 0x178bfbff
     | (Legacy, Amd, _) \<Rightarrow> registers_new 0x00a20f10 0x00180800 0x7ad8320b 0x178bfbff
     | (Legacy, Vendor_Unknown, _) \<Rightarrow> registers_new 0x00a20f10 0x00180800 0x7ad8320b 0)"

definition brand_of :: "cpu_identity \<Rightarrow> u32 list" where
  "brand_of i = (case (id_presentation i, id_vendor i) of
       (Legacy, Intel) \<Rightarrow> LEGACY_INTEL_BRAND
     | (Legacy, _) \<Rightarrow> LEGACY_AMD_BRAND
     | (Denuvo, _) \<Rightarrow> MODERN_BRAND)"

definition identity_fixed_reply :: "cpu_identity \<Rightarrow> u32 \<Rightarrow> registers option" where
  "identity_fixed_reply i leaf =
     (if leaf = 1 then Some (leaf1 i)
      else if leaf = 0x40000000 then Some (case id_vendor i of
          Vendor_Unknown \<Rightarrow> registers_default
        | Intel \<Rightarrow> registers_new 0x40000001 0x65707948 0x67624472 0
        | Amd \<Rightarrow> registers_new 0x40000001 0x706d6953 0x7653656c 0x2020206d)
      else if leaf = 0x40000001 then Some (case id_vendor i of
          Vendor_Unknown \<Rightarrow> registers_default
        | _ \<Rightarrow> registers_new 0x30237648 0 0 0)
      else if 0x80000002 \<le> leaf \<and> leaf \<le> 0x80000004 then
        (let brand = brand_of i; off = unat ((leaf - 0x80000002) * 4) in
         Some (registers_new (brand ! off) (brand ! (off + 1)) (brand ! (off + 2)) (brand ! (off + 3))))
      else None)"

fun vendor_code :: "vendor \<Rightarrow> u32" where
  "vendor_code Vendor_Unknown = 0"
| "vendor_code Intel = 1"
| "vendor_code Amd = 2"

fun presentation_code :: "cpu_presentation \<Rightarrow> u32" where
  "presentation_code Denuvo = 0"
| "presentation_code Legacy = 1"

definition identity_encode :: "cpu_identity \<Rightarrow> u32" where
  "identity_encode i =
     vendor_code (id_vendor i) OR push_bit 2 (if id_avx i then 1 else 0) OR push_bit 3 (presentation_code (id_presentation i))"

definition identity_decode :: "u32 \<Rightarrow> cpu_identity" where
  "identity_decode raw =
     \<lparr>id_vendor = (if raw AND 3 = 1 then Intel else if raw AND 3 = 2 then Amd else Vendor_Unknown),
      id_avx = (raw AND push_bit 2 1 \<noteq> 0),
      id_presentation = (if raw AND push_bit 3 1 = 0 then Denuvo else Legacy)\<rparr>"

definition vendor_from_leaf0 :: "registers \<Rightarrow> vendor" where
  "vendor_from_leaf0 r =
     (if (reg_ebx r, reg_edx r, reg_ecx r) = (0x756e6547, 0x49656e69, 0x6c65746e) then Intel
      else if (reg_ebx r, reg_edx r, reg_ecx r) = (0x68747541, 0x69746e65, 0x444d4163) then Amd
      else Vendor_Unknown)"

definition proton_avx_enabled :: "bytes option \<Rightarrow> bool" where
  "proton_avx_enabled v \<longleftrightarrow> v = Some (ascii ''1'')"

definition WINE_SYSTEM_RIP_MIN :: u64 where "WINE_SYSTEM_RIP_MIN = 0x00006fffff000000"
definition WINE_SYSTEM_RIP_MAX :: u64 where "WINE_SYSTEM_RIP_MAX = 0x0000700000000000"

definition is_wine_system_rip :: "u64 \<Rightarrow> bool" where
  "is_wine_system_rip a \<longleftrightarrow> WINE_SYSTEM_RIP_MIN \<le> a \<and> a < WINE_SYSTEM_RIP_MAX"

section \<open>The active identity under concurrent updates\<close>

definition active_new :: u32 where
  "active_new = identity_encode (identity_denuvo Vendor_Unknown False)"

definition active_load :: "u32 \<Rightarrow> cpu_identity" where
  "active_load raw = identity_decode raw"

definition active_fixed_reply :: "u32 \<Rightarrow> u32 \<Rightarrow> registers option" where
  "active_fixed_reply raw leaf = identity_fixed_reply (active_load raw) leaf"

text \<open>The value each loop computes from the word it loaded.\<close>

definition configure_host_next :: "vendor \<Rightarrow> bool \<Rightarrow> u32 \<Rightarrow> u32" where
  "configure_host_next v avx cur =
     identity_encode (with_presentation (identity_denuvo v avx) (id_presentation (identity_decode cur)))"

definition select_legacy_next :: "u32 \<Rightarrow> u32" where
  "select_legacy_next cur = identity_encode (with_presentation (identity_decode cur) Legacy)"

datatype id_call = ConfigureHost vendor bool | SelectLegacy

fun id_next :: "id_call \<Rightarrow> u32 \<Rightarrow> u32" where
  "id_next (ConfigureHost v avx) cur = configure_host_next v avx cur"
| "id_next SelectLegacy cur = select_legacy_next cur"

text \<open>A thread is before its load, before its compare-exchange, or has returned.\<close>

datatype id_pc = AtLoad id_call | AtCas id_call u32 | Returned id_call

type_synonym id_state = "u32 \<times> (nat \<Rightarrow> id_pc)"

inductive id_step :: "id_state \<Rightarrow> id_state \<Rightarrow> bool" where
  id_load: "ts t = AtLoad c \<Longrightarrow> id_step (raw, ts) (raw, ts(t := AtCas c raw))"
| id_cas_ok: "ts t = AtCas c raw \<Longrightarrow> id_step (raw, ts) (id_next c raw, ts(t := Returned c))"
| id_cas_fail: "ts t = AtCas c cur \<Longrightarrow> raw \<noteq> cur \<Longrightarrow> id_step (raw, ts) (raw, ts(t := AtLoad c))"

inductive_cases id_stepE: "id_step (raw, ts) s'"

section \<open>Encoding\<close>

lemma identity_decode_encode [simp]: "identity_decode (identity_encode i) = i"
proof (cases i)
  case (fields v a p)
  then show ?thesis by (cases v; cases a; cases p) (simp_all add: identity_encode_def identity_decode_def)
qed

lemma identity_fields_eqI:
  "id_vendor i = id_vendor j \<Longrightarrow> id_avx i = id_avx j \<Longrightarrow> id_presentation i = id_presentation j \<Longrightarrow> i = (j :: cpu_identity)"
  by simp

text \<open>
  The identity survives the atomic word: decoding an encoded identity gives it back, so
  two identities share an encoding only when they are equal, and every encoding fits in
  the four bits the layout uses.
\<close>

lemma identity_roundtrip:
  "identity_decode (identity_encode i) = i \<and> (identity_encode i = identity_encode j \<longleftrightarrow> i = j) \<and> identity_encode i < 16"
proof -
  have "identity_encode i < 16"
    by (cases "id_vendor i"; cases "id_avx i"; cases "id_presentation i") (simp_all add: identity_encode_def)
  then show ?thesis by (metis identity_decode_encode)
qed

section \<open>Replies\<close>

text \<open>The brand string a guest reads: leaves 0x80000002 to 0x80000004, register by register.\<close>

definition reg_bytes :: "registers \<Rightarrow> bytes" where
  "reg_bytes r = to_le 4 (reg_eax r) @ to_le 4 (reg_ebx r) @ to_le 4 (reg_ecx r) @ to_le 4 (reg_edx r)"

definition brand_string :: "(u32 \<Rightarrow> registers option) \<Rightarrow> bytes option" where
  "brand_string reply = (case (reply 0x80000002, reply 0x80000003, reply 0x80000004) of
       (Some a, Some b, Some c) \<Rightarrow> Some (reg_bytes a @ reg_bytes b @ reg_bytes c)
     | _ \<Rightarrow> None)"

lemmas reply_simps = identity_fixed_reply_def brand_of_def registers_new_def registers_default_def
  MODERN_BRAND_def LEGACY_INTEL_BRAND_def LEGACY_AMD_BRAND_def artifact_amd_reply_def artifact_intel_reply_def

text \<open>
  The brand string. The three brand leaves spell the NUL-padded modern name under the
  modern presentation, whatever the vendor, and the name of the vendor's older processor
  under the legacy one (AMD's when the vendor is unknown).
\<close>

lemma brand_string_of_identity:
  "brand_string (identity_fixed_reply i) = Some (case id_presentation i of
       Denuvo \<Rightarrow> ascii ''DenuvOwO CPU @ 1337 GHz'' @ replicate 25 0
     | Legacy \<Rightarrow> (if id_vendor i = Intel
         then ascii ''Intel(R) Core(TM) i9-10900K CPU @ 3.70GHz'' @ replicate 7 0
         else ascii ''AMD Ryzen 9 5900X 12-Core Processor'' @ replicate 12 32 @ [0]))"
  by (cases "id_vendor i"; cases "id_presentation i")
    (simp_all add: brand_string_def reply_simps reg_bytes_def to_le_numeral replicate_numeral_Cons)

text \<open>Feature bits of leaf 1 ECX.\<close>

definition FMA3_BIT :: nat where "FMA3_BIT = 12"
definition AES_BIT :: nat where "AES_BIT = 25"
definition XSAVE_BIT :: nat where "XSAVE_BIT = 26"
definition OSXSAVE_BIT :: nat where "OSXSAVE_BIT = 27"
definition AVX_BIT :: nat where "AVX_BIT = 28"
definition F16C_BIT :: nat where "F16C_BIT = 29"
definition RDRAND_BIT :: nat where "RDRAND_BIT = 30"

definition clear_bits :: "nat list \<Rightarrow> u32 \<Rightarrow> u32" where
  "clear_bits bs w = fold (\<lambda>b w. w AND NOT (push_bit b 1)) bs w"

lemmas feature_bits = FMA3_BIT_def AES_BIT_def XSAVE_BIT_def OSXSAVE_BIT_def AVX_BIT_def F16C_BIT_def RDRAND_BIT_def

text \<open>
  The comment at the AMD artifact reply lists six cleared features; the value returned has a
  seventh, AES, cleared as well.
\<close>

lemma artifact_amd_clears_aes_too:
  "map_option reg_ecx (artifact_amd_reply 1) = Some (clear_bits
       [FMA3_BIT, AES_BIT, XSAVE_BIT, OSXSAVE_BIT, AVX_BIT, F16C_BIT, RDRAND_BIT] 0x7ef8320b) \<and>
   map_option reg_ecx (artifact_amd_reply 1) \<noteq> Some (clear_bits
       [FMA3_BIT, XSAVE_BIT, OSXSAVE_BIT, AVX_BIT, F16C_BIT, RDRAND_BIT] 0x7ef8320b)"
  by (simp add: reply_simps clear_bits_def feature_bits)

text \<open>
  Without \<^verbatim>\<open>PROTON_AVX\<close> the modern identity, and either artifact profile, never
  advertise an instruction-set extension that needs extended state (FMA3, XSAVE, OSXSAVE,
  AVX, F16C), and the artifact leaf 1 of a vendor equals the modern leaf 1 of that vendor.
\<close>

lemma no_avx_features_without_proton_avx:
  "id_presentation i = Denuvo \<Longrightarrow> \<not> id_avx i \<Longrightarrow>
     b \<in> {FMA3_BIT, XSAVE_BIT, OSXSAVE_BIT, AVX_BIT, F16C_BIT} \<Longrightarrow>
     \<not> bit (reg_ecx (leaf1 i)) b \<and>
     (id_vendor i = Amd \<longrightarrow> artifact_amd_reply 1 = Some (leaf1 i)) \<and>
     (id_vendor i = Intel \<longrightarrow> artifact_intel_reply 1 = Some (leaf1 i))"
  by (cases "id_vendor i") (auto simp: leaf1_def reply_simps feature_bits)

section \<open>Interleavings\<close>

text \<open>What the calls that have returned have made of the identity the process started with.\<close>

definition returned :: "(nat \<Rightarrow> id_pc) \<Rightarrow> id_call set" where
  "returned ts = {c. \<exists>t. ts t = Returned c}"

definition id_inv :: "cpu_identity \<Rightarrow> id_call set \<Rightarrow> cpu_identity \<Rightarrow> bool" where
  "id_inv i0 C i \<longleftrightarrow>
     (id_presentation i = Legacy \<longleftrightarrow> id_presentation i0 = Legacy \<or> SelectLegacy \<in> C) \<and>
     ((\<forall>v a. ConfigureHost v a \<notin> C) \<longrightarrow> id_vendor i = id_vendor i0 \<and> id_avx i = id_avx i0) \<and>
     (\<forall>v a. ConfigureHost v a \<in> C \<longrightarrow> ConfigureHost (id_vendor i) (id_avx i) \<in> C)"

lemma returned_same: "(\<And>c. ts t \<noteq> Returned c) \<Longrightarrow> (\<And>c. p \<noteq> Returned c) \<Longrightarrow> returned (ts(t := p)) = returned ts"
  by (force simp: returned_def fun_upd_apply)

lemma returned_new: "(\<And>c. ts t \<noteq> Returned c) \<Longrightarrow> returned (ts(t := Returned c)) = insert c (returned ts)"
  by (force simp: returned_def fun_upd_apply)

lemma id_inv_next:
  "id_inv i0 C (identity_decode raw) \<Longrightarrow> id_inv i0 (insert c C) (identity_decode (id_next c raw))"
  by (cases c) (auto simp: id_inv_def configure_host_next_def select_legacy_next_def
      with_presentation_def identity_denuvo_def)

lemma id_inv_step:
  "id_step s s' \<Longrightarrow> id_inv i0 (returned (snd s)) (identity_decode (fst s)) \<Longrightarrow>
   id_inv i0 (returned (snd s')) (identity_decode (fst s'))"
  by (induction rule: id_step.induct) (simp_all add: returned_same returned_new id_inv_next)

lemma id_inv_init: "id_inv i0 (returned (\<lambda>t. AtLoad (calls t))) i0"
  by (simp add: id_inv_def returned_def)

lemma id_inv_reachable:
  "id_step\<^sup>*\<^sup>* (identity_encode i0, \<lambda>t. AtLoad (calls t)) s \<Longrightarrow>
   id_inv i0 (returned (snd s)) (identity_decode (fst s))"
proof (induction rule: rtranclp_induct)
  case base
  then show ?case using id_inv_init by simp
qed (rule id_inv_step)

text \<open>
  C30: no update is lost. However the loads and compare-exchanges of any number of
  \<^verbatim>\<open>configure_host\<close> and \<^verbatim>\<open>select_legacy_presentation\<close> calls interleave, the presentation
  is legacy exactly when it was at the start or some selection has returned, and the vendor
  and AVX flag are those of one of the configurations that returned (those of the start when
  none has).
\<close>

theorem identity_updates_not_lost:
  assumes "id_step\<^sup>*\<^sup>* (identity_encode i0, \<lambda>t. AtLoad (calls t)) (raw, ts)"
  shows "(id_presentation (active_load raw) = Legacy \<longleftrightarrow>
            id_presentation i0 = Legacy \<or> SelectLegacy \<in> returned ts) \<and>
         ((\<forall>v a. ConfigureHost v a \<notin> returned ts) \<longrightarrow>
            id_vendor (active_load raw) = id_vendor i0 \<and> id_avx (active_load raw) = id_avx i0) \<and>
         (\<forall>v a. ConfigureHost v a \<in> returned ts \<longrightarrow>
            ConfigureHost (id_vendor (active_load raw)) (id_avx (active_load raw)) \<in> returned ts)"
  using id_inv_reachable [OF assms] by (simp add: id_inv_def active_load_def)

text \<open>A thread that runs alone returns after at most three steps, whatever it had loaded before.\<close>

lemma id_alone_load:
  assumes "ts t = AtLoad c"
  shows "id_step\<^sup>*\<^sup>* (raw, ts) (id_next c raw, ts(t := Returned c))"
proof -
  have "id_step (raw, ts) (raw, ts(t := AtCas c raw))" using assms by (rule id_load)
  moreover have "id_step (raw, ts(t := AtCas c raw)) (id_next c raw, (ts(t := AtCas c raw))(t := Returned c))"
    by (rule id_cas_ok) simp
  ultimately show ?thesis by (metis converse_rtranclp_into_rtranclp fun_upd_upd r_into_rtranclp)
qed

text \<open>
  The update loops cannot be stuck. From every state a thread that runs without
  interference makes its update and returns, a stale load costing it one retry.
\<close>

lemma identity_update_returns:
  assumes "ts t = AtLoad c \<or> ts t = AtCas c cur"
  shows "\<exists>raw'. id_step\<^sup>*\<^sup>* (raw, ts) (raw', ts(t := Returned c)) \<and> raw' = id_next c raw"
  using assms
proof
  assume "ts t = AtLoad c"
  from id_alone_load [of ts t c raw, OF this] show ?thesis by blast
next
  assume cas: "ts t = AtCas c cur"
  show ?thesis
  proof (cases "cur = raw")
    case True
    with cas id_cas_ok [of ts t c raw] show ?thesis by blast
  next
    case False
    with cas have "id_step (raw, ts) (raw, ts(t := AtLoad c))" by (auto intro: id_cas_fail)
    moreover have "id_step\<^sup>*\<^sup>* (raw, ts(t := AtLoad c)) (id_next c raw, (ts(t := AtLoad c))(t := Returned c))"
      by (rule id_alone_load) simp
    ultimately show ?thesis by (metis converse_rtranclp_into_rtranclp fun_upd_upd)
  qed
qed

theorem identity_updates_not_lost_witness:
  "id_presentation (active_load (id_next SelectLegacy active_new)) = Legacy"
proof -
  have "id_step\<^sup>*\<^sup>* (active_new, \<lambda>t. AtLoad SelectLegacy)
      (id_next SelectLegacy active_new, (\<lambda>t. AtLoad SelectLegacy)(0 := Returned SelectLegacy))"
    by (rule id_alone_load) simp
  from identity_updates_not_lost [OF this [unfolded active_new_def]] show ?thesis
    by (auto simp: returned_def active_new_def)
qed

end
