(* ===== verification/Faketime.thy ===== *)
theory Faketime
  imports Kuser_Page
begin

text \<open>
  The faked clock: the FILETIME arithmetic of \<^verbatim>\<open>protocol/faketime.rs\<close> and the offset of
  \<^verbatim>\<open>runtime/src/faketime.rs\<close>, kept in a local word and published over a datagram socket
  pair that all processes of a prefix inherit. A process's statics are \<open>faketime\<close>; the socket
  is the list of datagrams sent and not yet received, oldest first. \<open>i64\<close> seconds are the
  64-bit word of their two's complement, as the source's casts read them.
\<close>

section \<open>Arithmetic\<close>

definition TICKS_PER_SECOND :: u64 where "TICKS_PER_SECOND = 10000000"
definition SECONDS_1601_TO_1970 :: u64 where "SECONDS_1601_TO_1970 = 86400 * (369 * 365 + 89)"

definition requested_seconds :: "u64 \<Rightarrow> u64" where
  "requested_seconds filetime = filetime div TICKS_PER_SECOND - SECONDS_1601_TO_1970"

definition offset_from_filetime :: "u64 \<Rightarrow> u64 \<Rightarrow> u64" where
  "offset_from_filetime now_seconds filetime = now_seconds - requested_seconds filetime"

definition apply_offset :: "u64 \<Rightarrow> u64 \<Rightarrow> u64" where
  "apply_offset seconds off = seconds - off"

section \<open>State\<close>

type_synonym log_entry = "string \<times> u64 option"

record faketime =
  ft_socketpair_initialized :: bool
  ft_ready :: bool
  ft_real_loaded :: bool
  ft_offset :: u64
  ft_last_peek :: u64
  ft_logged_current :: bool
  ft_logged_apply :: bool
  ft_log :: "log_entry list"

definition faketime_new :: faketime where
  "faketime_new = \<lparr>ft_socketpair_initialized = False, ft_ready = False, ft_real_loaded = False, ft_offset = 0,
     ft_last_peek = - 1, ft_logged_current = False, ft_logged_apply = False, ft_log = []\<rparr>"

text \<open>What the system calls of one operation return.\<close>

record ftenv =
  fe_symbol :: bool
  fe_recv_is_socket :: bool
  fe_send_is_socket :: bool
  fe_recv_is_open :: bool
  fe_send_is_open :: bool
  fe_socketpair_ok :: bool
  fe_dup_ok :: bool
  fe_clock :: "u64 option"
  fe_now_ms :: u64
  fe_write_ok :: bool

definition ft_note :: "string \<Rightarrow> faketime \<Rightarrow> faketime" where
  "ft_note m f = f\<lparr>ft_log := ft_log f @ [(m, None)]\<rparr>"

definition ft_note_hex :: "string \<Rightarrow> u64 \<Rightarrow> faketime \<Rightarrow> faketime" where
  "ft_note_hex m v f = f\<lparr>ft_log := ft_log f @ [(m, Some v)]\<rparr>"

section \<open>Operations\<close>

definition resolve_real_gettimeofday :: "ftenv \<Rightarrow> faketime \<Rightarrow> faketime \<times> bool" where
  "resolve_real_gettimeofday e f =
     (if ft_real_loaded f then (f, True)
      else if fe_symbol e then (f\<lparr>ft_real_loaded := True\<rparr>, True)
      else (f, False))"

definition init_socketpair :: "ftenv \<Rightarrow> faketime \<Rightarrow> faketime" where
  "init_socketpair e f =
     (if ft_socketpair_initialized f then f
      else
        (let f1 = f\<lparr>ft_socketpair_initialized := True\<rparr> in
         if fe_recv_is_socket e \<and> fe_send_is_socket e then f1\<lparr>ft_ready := True\<rparr>
         else if \<not> fe_recv_is_socket e \<and> fe_recv_is_open e \<or> \<not> fe_send_is_socket e \<and> fe_send_is_open e
         then ft_note ''faketime socketpair fds already in use by something else; skipping'' f1
         else if \<not> fe_socketpair_ok e then f1
         else if \<not> fe_dup_ok e then f1
         else f1\<lparr>ft_ready := True\<rparr>))"

definition PEEK_INTERVAL_MS :: u64 where "PEEK_INTERVAL_MS = 10"

definition peek_due :: "u64 \<Rightarrow> faketime \<Rightarrow> faketime \<times> bool" where
  "peek_due now f =
     (if ft_last_peek f \<noteq> - 1 \<and> now - ft_last_peek f < PEEK_INTERVAL_MS then (f, False)
      else (f\<lparr>ft_last_peek := now\<rparr>, True))"

definition note_current :: "string \<Rightarrow> u64 \<Rightarrow> faketime \<Rightarrow> faketime" where
  "note_current m v f =
     (if ft_logged_current f then f
      else ft_note_hex ''faketime current_offset value='' v (ft_note m (f\<lparr>ft_logged_current := True\<rparr>)))"

text \<open>\<open>recv\<close> with \<open>MSG_PEEK\<close> leaves the datagram it returns in the queue.\<close>

definition current_offset :: "ftenv \<Rightarrow> u64 list \<Rightarrow> faketime \<Rightarrow> faketime \<times> u64" where
  "current_offset e queue f =
     (let loc = ft_offset f in
      if loc \<noteq> 0 then (f, loc)
      else
        (let (f1, due) = (if ft_ready f then peek_due (fe_now_ms e) f else (f, True)) in
         if ft_ready f \<and> \<not> due then (f1, loc)
         else if \<not> ft_ready f1 then
           (note_current ''faketime current_offset source=local (socketpair unavailable)'' loc f1, loc)
         else case queue of
             received # _ \<Rightarrow>
               (note_current ''faketime current_offset source=socketpair'' received (f1\<lparr>ft_offset := received\<rparr>), received)
           | [] \<Rightarrow> (note_current ''faketime current_offset source=local (no socket value)'' loc f1, loc)))"

text \<open>\<open>gettimeofday\<close> with a non-null \<open>tv\<close>: the adjusted seconds, or \<open>None\<close> for a failure.\<close>

definition ft_gettimeofday :: "ftenv \<Rightarrow> u64 list \<Rightarrow> faketime \<Rightarrow> faketime \<times> u64 option" where
  "ft_gettimeofday e queue f =
     (let (f1, ok) = resolve_real_gettimeofday e f in
      if \<not> ok then (f1, None)
      else case fe_clock e of
        None \<Rightarrow> (f1, None)
      | Some real \<Rightarrow>
          (let (f2, off) = current_offset e queue f1;
               log_this_call = (off \<noteq> 0 \<and> \<not> ft_logged_apply f2);
               f3 = (if off \<noteq> 0 then f2\<lparr>ft_logged_apply := True\<rparr> else f2);
               adjusted = apply_offset real off;
               f4 = (if log_this_call
                 then ft_note_hex ''faketime gettimeofday adjusted_secs='' adjusted
                   (ft_note_hex ''faketime gettimeofday applied_offset='' off
                     (ft_note_hex ''faketime gettimeofday real_secs='' real f3)) else f3)
           in (f4, Some adjusted)))"

definition ft_set_offset :: "kenv \<Rightarrow> ftenv \<Rightarrow> u64 \<Rightarrow> kuser \<Rightarrow> u64 list \<Rightarrow> faketime \<Rightarrow> kuser \<times> u64 list \<times> faketime" where
  "ft_set_offset ke e filetime k queue f = (case acquire_guard ke k of
       (k1, None) \<Rightarrow> (k1, queue, ft_note ''faketime update busy; retry the command'' f)
     | (k1, Some saved) \<Rightarrow>
         (let (queue', f') =
            (if \<not> ft_real_loaded f then (queue, ft_note ''failed to read faketime clock'' f)
             else case fe_clock e of
               None \<Rightarrow> (queue, ft_note ''failed to read faketime clock'' f)
             | Some secs \<Rightarrow>
                 (let f1 = ft_note_hex ''faketime set_offset real_now_secs='' secs
                             (ft_note_hex ''faketime set_offset filetime='' filetime f);
                      off = offset_from_filetime secs filetime;
                      f2 = (ft_note_hex ''faketime set_offset computed_offset='' off f1)\<lparr>ft_offset := off\<rparr>
                  in if \<not> ft_ready f2
                     then (queue, ft_note ''faketime set_offset socketpair unavailable; offset stays local-only'' f2)
                     else if fe_write_ok e
                     then (queue @ [off], ft_note ''faketime set_offset published via socketpair'' f2)
                     else (queue, ft_note ''faketime set_offset socketpair publish failed'' f2)))
          in (drop_guard saved k1, queue', f')))"

definition linuwux_setup_faketime :: "ftenv \<Rightarrow> faketime \<Rightarrow> faketime" where
  "linuwux_setup_faketime e f = init_socketpair e (fst (resolve_real_gettimeofday e f))"

section \<open>The clock a process sees\<close>

lemmas ft_notes = ft_note_def ft_note_hex_def note_current_def

text \<open>
  The clock arithmetic. After \<^verbatim>\<open>SET_TIME\<close> at real time \<open>now\<close>, real time \<open>now + d\<close> reads as
  the requested FILETIME in Unix seconds plus \<open>d\<close>, for every \<open>d\<close> and without regard to
  wrap-around of any intermediate value.
\<close>

lemma faked_clock_advances:
  "apply_offset (now + d) (offset_from_filetime now filetime) =
     filetime div TICKS_PER_SECOND - SECONDS_1601_TO_1970 + d"
  by (simp add: apply_offset_def offset_from_filetime_def requested_seconds_def)

lemma current_offset_local: "ft_offset f \<noteq> 0 \<Longrightarrow> current_offset e q f = (f, ft_offset f)"
  by (simp add: current_offset_def)

lemma set_offset_stores:
  assumes "ft_real_loaded f" and "fe_clock e = Some now" and "acquire_guard ke k = (k1, Some saved)"
    and "ft_set_offset ke e filetime k q f = (k', q', f')"
  shows "ft_offset f' = offset_from_filetime now filetime \<and> ft_real_loaded f' \<and> ft_ready f' = ft_ready f \<and>
    q' = (if ft_ready f \<and> fe_write_ok e then q @ [offset_from_filetime now filetime] else q) \<and>
    k' = drop_guard saved k1"
  using assms by (auto simp: ft_set_offset_def ft_notes Let_def split: if_splits)

text \<open>
  C39: \<^verbatim>\<open>set_offset\<close> then \<^verbatim>\<open>gettimeofday\<close> in the same process. Once the guard was taken and
  the clock read, every later reading of the clock in that process gives the requested time
  advanced by the real time elapsed, whatever other processes have published, provided
  the request differs from the real time (an offset of zero is not an offset).
\<close>

lemma set_offset_then_gettimeofday:
  assumes "ft_real_loaded f" and "fe_clock e = Some now" and "acquire_guard ke k = (k1, Some saved)"
    and "ft_set_offset ke e filetime k q f = (k', q', f')"
    and "offset_from_filetime now filetime \<noteq> 0" and "fe_clock e' = Some (now + d)"
  shows "snd (ft_gettimeofday e' q'' f') = Some (requested_seconds filetime + d)"
proof -
  from set_offset_stores [OF assms(1-4)] have f': "ft_offset f' = offset_from_filetime now filetime" "ft_real_loaded f'" by auto
  then have "current_offset e' q'' f' = (f', offset_from_filetime now filetime)"
    using assms(5) current_offset_local by metis
  with f' assms(6) show ?thesis
    by (simp add: ft_gettimeofday_def resolve_real_gettimeofday_def apply_offset_def offset_from_filetime_def Let_def add.commute)
qed

definition quiet_ftenv :: "u64 \<Rightarrow> ftenv" where
  "quiet_ftenv now = \<lparr>fe_symbol = True, fe_recv_is_socket = True, fe_send_is_socket = True, fe_recv_is_open = True,
     fe_send_is_open = True, fe_socketpair_ok = True, fe_dup_ok = True, fe_clock = Some now, fe_now_ms = 0, fe_write_ok = True\<rparr>"

definition ready_faketime :: faketime where
  "ready_faketime = faketime_new\<lparr>ft_socketpair_initialized := True, ft_ready := True, ft_real_loaded := True\<rparr>"

lemma guard_taken: "acquire_guard ready_env (fresh_kuser PATCH_UNAPPLIED 0) =
    (guarded ready_env (fresh_kuser PATCH_UNAPPLIED 0), Some {})"
  by (simp add: acquire_guard_def guarded_def ready_env_def fresh_kuser_def)

text \<open>
  The recv of a process without an offset is rationed. Two readings of the clock less
  than the peek interval apart look at the socket at most once: the second one leaves the
  state as it is and answers from the local word.
\<close>

lemma peek_rationed:
  assumes "ft_ready f" and "ft_offset f = 0" and "ft_last_peek f \<noteq> - 1"
    and "fe_now_ms e - ft_last_peek f < PEEK_INTERVAL_MS"
  shows "current_offset e q f = (f, 0)"
  using assms by (simp add: current_offset_def peek_due_def)

text \<open>
  What another process sees is the first offset ever published, since the datagram is peeked
  and never taken. After a second \<^verbatim>\<open>SET_TIME\<close> the publishing process follows the new offset
  while a process that starts reading then still adopts the old one.
\<close>

lemma second_offset_not_seen_by_peers:
  assumes "ft_real_loaded f" and "ft_ready f" and "fe_clock e = Some now" and "fe_write_ok e"
    and "fe_clock e2 = Some now2" and "fe_write_ok e2"
    and "acquire_guard ke k = (k1, Some saved)" and "acquire_guard ke (drop_guard saved k1) = (k2, Some saved2)"
    and "ft_set_offset ke e t1 k [] f = (k', q', f')" and "ft_set_offset ke e2 t2 k' q' f' = (k'', q'', f'')"
    and "ft_ready peer" and "ft_offset peer = 0" and "ft_last_peek peer = - 1"
  shows "ft_offset f'' = offset_from_filetime now2 t2 \<and>
         snd (current_offset e3 q'' peer) = offset_from_filetime now t1"
proof -
  from set_offset_stores [OF assms(1,3,7,9)] assms(2,4) have
    1: "ft_real_loaded f'" "ft_ready f'" "q' = [offset_from_filetime now t1]" "k' = drop_guard saved k1" by auto
  from set_offset_stores [OF 1(1) assms(5) assms(8) [folded 1(4)] assms(10)] 1(2,3) assms(6) have
    "ft_offset f'' = offset_from_filetime now2 t2" "q'' = [offset_from_filetime now t1, offset_from_filetime now2 t2]" by auto
  with assms(11-13) show ?thesis by (simp add: current_offset_def peek_due_def)
qed

lemma guard_again: "acquire_guard ready_env (drop_guard {} (guarded ready_env (fresh_kuser PATCH_UNAPPLIED 0))) =
    (guarded ready_env (fresh_kuser PATCH_UNAPPLIED 0), Some {})"
  by (simp add: acquire_guard_def guarded_def drop_guard_def ready_env_def fresh_kuser_def)

end
