(* ===== verification/Runtime_Host.thy ===== *)
theory Runtime_Host
  imports Reflex_State Cpuid_Identity Faketime
begin

text \<open>
  \<^verbatim>\<open>runtime/src/reflex.rs\<close>: the one implementation of the \<^verbatim>\<open>Host\<close> trait, and the C entry
  points over the process's Reflex state. \<open>rt\<close> collects the state of the modules the host
  calls into (the KUSER page, the CPU identity word, the faked clock, the log); \<open>rt_env\<close> gives
  what the system calls of the n-th such operation return, with no restriction.
\<close>

record rt =
  rt_kuser :: kuser
  rt_identity :: u32
  rt_faketime :: faketime
  rt_queue :: "u64 list"
  rt_log :: "log_entry list"
  rt_env :: "nat \<Rightarrow> kenv \<times> ftenv"
  rt_tick :: nat

definition rt_now :: "rt \<Rightarrow> kenv \<times> ftenv" where
  "rt_now h = rt_env h (rt_tick h)"

definition rt_note :: "string \<Rightarrow> u64 option \<Rightarrow> rt \<Rightarrow> rt" where
  "rt_note m v h = h\<lparr>rt_log := rt_log h @ [(m, v)]\<rparr>"

text \<open>The identity operations of \<^verbatim>\<open>runtime/src/cpuid.rs\<close> the host uses.\<close>

definition cpuid_kuser_recipe :: "u32 \<Rightarrow> int" where
  "cpuid_kuser_recipe raw = (case (id_presentation (active_load raw), id_vendor (active_load raw)) of
       (Legacy, Intel) \<Rightarrow> recipe_code Dispatch
     | (Legacy, _) \<Rightarrow> recipe_code Selector
     | (Denuvo, _) \<Rightarrow> recipe_code Resume)"

definition cpuid_activate_legacy_profile :: "rt \<Rightarrow> rt" where
  "cpuid_activate_legacy_profile h =
     (rt_note ''cpuid presentation selected: legacy protocol'' None h)\<lparr>rt_identity := select_legacy_next (rt_identity h)\<rparr>"

section \<open>The host\<close>

definition host_set_offset :: "u64 \<Rightarrow> rt \<Rightarrow> rt" where
  "host_set_offset t h =
     (let (k, q, f) = ft_set_offset (fst (rt_now h)) (snd (rt_now h)) t (rt_kuser h) (rt_queue h) (rt_faketime h)
      in h\<lparr>rt_kuser := k, rt_queue := q, rt_faketime := f, rt_tick := rt_tick h + 1\<rparr>)"

definition host_legacy_active :: "rt \<Rightarrow> bool" where
  "host_legacy_active h \<longleftrightarrow> cpuid_kuser_recipe (rt_identity h) \<noteq> recipe_code Resume"

definition host_selector_recipe :: "rt \<Rightarrow> recipe" where
  "host_selector_recipe h = (if cpuid_kuser_recipe (rt_identity h) = 2 then Dispatch else Selector)"

definition host_patch_kuser :: "recipe \<Rightarrow> rt \<Rightarrow> rt \<times> bool" where
  "host_patch_kuser r h =
     (let (k, c) = patch_kuser_shared_data_recipe (fst (rt_now h)) (recipe_code r) (rt_kuser h)
      in (h\<lparr>rt_kuser := k, rt_tick := rt_tick h + 1\<rparr>, c = 0))"

definition runtime_host :: "rt host" where
  "runtime_host = \<lparr>h_set_offset = host_set_offset, h_select_legacy = cpuid_activate_legacy_profile,
     h_legacy_active = host_legacy_active, h_selector_recipe = host_selector_recipe,
     h_patch_kuser = host_patch_kuser, h_set_hwprofile_guid = \<lambda>h. h, h_yield = \<lambda>h. h,
     h_log = \<lambda>m. rt_note m None, h_log_hex = \<lambda>m v. rt_note m (Some v)\<rparr>"

section \<open>Entry points\<close>

fun action_code :: "reflex_action \<Rightarrow> int" where
  "action_code Native = 0"
| "action_code Consumed = 1"

definition reflex_handle_cpuid :: "u32 \<Rightarrow> u64 \<Rightarrow> u64 \<Rightarrow> rt \<Rightarrow> reflex \<Rightarrow> rt \<times> reflex \<times> int" where
  "reflex_handle_cpuid leaf rcx rdx h s =
     (let (h', s', a) = handle_cpuid runtime_host leaf rcx rdx h s in (h', s', action_code a))"

definition reflex_resume_identity_unarmed :: "reflex \<Rightarrow> int" where
  "reflex_resume_identity_unarmed s = (if resume_identity_unarmed s then 1 else 0)"

definition reflex_target_process_registered :: "reflex \<Rightarrow> int" where
  "reflex_target_process_registered s = (if has_registered_target_process s then 1 else 0)"

record route_context =
  ctx_rax :: u64
  ctx_r10 :: u64
  ctx_rcx :: u64

definition reflex_route_syscall :: "reflex \<Rightarrow> route_context option \<Rightarrow> (u64 \<times> bool) option" where
  "reflex_route_syscall s ctx = (case ctx of
       None \<Rightarrow> None
     | Some c \<Rightarrow> map_option (\<lambda>r. (route_target r, rax_is_resume r)) (route_syscall s (ctx_rax c) (ctx_r10 c) (ctx_rcx c)))"

section \<open>The host keeps its contract\<close>

lemma legacy_iff: "cpuid_kuser_recipe raw = 0 \<longleftrightarrow> id_presentation (active_load raw) \<noteq> Legacy"
  by (auto simp: cpuid_kuser_recipe_def split: cpu_presentation.splits vendor.splits)

interpretation rh: reflex_host runtime_host
proof unfold_locales
  fix h :: rt
  show "h_legacy_active runtime_host (h_select_legacy runtime_host h)"
    by (simp add: runtime_host_def host_legacy_active_def legacy_iff cpuid_activate_legacy_profile_def
        active_load_def select_legacy_next_def with_presentation_def)
next
  fix r h h' ok assume "h_patch_kuser runtime_host r h = (h', ok)"
  then show "h_legacy_active runtime_host h' = h_legacy_active runtime_host h"
    by (auto simp: runtime_host_def host_patch_kuser_def host_legacy_active_def split: prod.splits)
qed (auto simp: runtime_host_def host_set_offset_def host_legacy_active_def rt_note_def split: prod.splits)

lemma runtime_legacy: "h_legacy_active runtime_host h \<longleftrightarrow> id_presentation (active_load (rt_identity h)) = Legacy"
  by (simp add: runtime_host_def host_legacy_active_def legacy_iff)

definition rt_start :: rt where
  "rt_start = \<lparr>rt_kuser = fresh_kuser PATCH_UNAPPLIED 0, rt_identity = active_new, rt_faketime = ready_faketime,
     rt_queue = [], rt_log = [], rt_env = \<lambda>_. (ready_env, quiet_ftenv 0), rt_tick = 0\<rparr>"

text \<open>
  C9: the protocol. Any sequence of control CPUIDs on a fresh Reflex state, with whatever
  the system calls return, takes the registration and the CPU presentation exactly through
  the documented transitions, for some outcome of each page patch asked for, and reports
  each call as consumed or native accordingly.
\<close>

theorem control_sequence_refines_protocol:
  assumes "run_controls runtime_host cs h reflex_new = (h', s', as)"
  shows "\<exists>oks. length oks = length cs \<and>
    spec_controls (zip cs oks) (NoClient, id_presentation (active_load (rt_identity h)) = Legacy) =
      ((abs_reg s', id_presentation (active_load (rt_identity h')) = Legacy), as)"
  using rh.controls_refine [OF reflex_inv_new(1) assms] by (simp add: reflex_inv_new(2) runtime_legacy)

theorem control_sequence_refines_protocol_witness:
  "\<exists>h' s' as. run_controls runtime_host [\<lparr>cc_leaf = REGISTER_ATTRIBUTES_HANDLER, cc_rcx = 64, cc_rdx = 0\<rparr>] rt_start reflex_new = (h', s', as)
     \<and> as = [Consumed] \<and> abs_reg s' = DualClient 0 (- 1) 64 (- 1)"
proof -
  let ?cs = "[\<lparr>cc_leaf = REGISTER_ATTRIBUTES_HANDLER, cc_rcx = 64, cc_rdx = 0\<rparr>]"
  obtain h' s' as where r: "run_controls runtime_host ?cs rt_start reflex_new = (h', s', as)" by (metis prod_cases3)
  from control_sequence_refines_protocol [OF r] obtain oks where
    o: "length oks = 1" and sp: "spec_controls (zip ?cs oks) (NoClient, id_presentation (active_load (rt_identity rt_start)) = Legacy) =
      ((abs_reg s', id_presentation (active_load (rt_identity h')) = Legacy), as)" by auto
  from o obtain b where "oks = [b]" by (auto simp: length_Suc_conv)
  with sp have "as = [Consumed]" "abs_reg s' = DualClient 0 (- 1) 64 (- 1)"
    by (auto simp: spec_control_def call_arg_def cpuid_argument_def control_leaves)
  with r show ?thesis by blast
qed

lemma run_controls_inv:
  "run_controls runtime_host cs h reflex_new = (h', s', as) \<Longrightarrow> reflex_inv s'"
  using rh.controls_refine [OF reflex_inv_new(1)] by blast

text \<open>
  C10: routing. After any control sequence a trapped system call is routed exactly as the
  registration says: never without a client; to the resume handler always, or only for the
  two selector numbers under the legacy presentation; and with two handlers to the one whose
  number it carries, a null handler routing nothing.
\<close>

theorem route_follows_registration:
  assumes "run_controls runtime_host cs h reflex_new = (h', s', as)"
  shows "route_syscall s' n r10 rcx = spec_route (abs_reg s') n r10 rcx"
  by (rule route_refines [OF run_controls_inv [OF assms]])

theorem route_follows_registration_witness:
  "run_controls runtime_host [] rt_start reflex_new = (rt_start, reflex_new, []) \<and> route_syscall reflex_new 5 0 0 = None"
  using route_follows_registration [of "[]" rt_start rt_start reflex_new "[]" 5 0 0] reflex_inv_new(2) by simp

text \<open>
  A client with two handlers sees an old processor. Whenever dual dispatch is active the
  CPU identity is the legacy one and the page recipe it stands for is not the resume recipe.
\<close>

lemma dual_dispatch_presents_legacy:
  assumes "run_controls runtime_host cs h reflex_new = (h', s', as)" and "reflex_routing s' = DualDispatch"
  shows "id_presentation (active_load (rt_identity h')) = Legacy \<and> cpuid_kuser_recipe (rt_identity h') \<noteq> recipe_code Resume"
proof -
  from assms(2) have "rx_routing s' = RsDualDispatch" by (cases "rx_routing s'") (auto simp: reflex_routing_def)
  moreover have "rx_routing reflex_new = RsDualDispatch \<longrightarrow> h_legacy_active runtime_host h" by (simp add: reflex_new_def)
  ultimately have "h_legacy_active runtime_host h'"
    using rh.controls_keep_dual_legacy [OF reflex_inv_new(1) assms(1)] by blast
  then show ?thesis by (simp add: runtime_legacy legacy_iff)
qed

end
