(* ===== verification/Sigsys_Router.thy ===== *)
theory Sigsys_Router
  imports Pe_Export Kuser_Dispatch Runtime_Host Diagnostics
begin

text \<open>
  \<^verbatim>\<open>runtime/src/syscall/sigsys_router.rs\<close> with \<^verbatim>\<open>win32u_zero_list.rs\<close> and the target-process check of
  \<^verbatim>\<open>reflex_markers.rs\<close>: what the SIGSYS handler does with a trapped system call. The handler returns
  having taken the call (it redirected the thread, or completed the call itself), or hands it to
  Wine's handler, which is outside the model; reading the instruction at an unmapped address
  faults. Traces into the debug log alone are left out.
\<close>

section \<open>The interrupted thread\<close>

record gregs =
  g_rax :: u64
  g_rcx :: u64
  g_rdx :: u64
  g_r8 :: u64
  g_r9 :: u64
  g_r10 :: u64
  g_r11 :: u64
  g_r13 :: u64
  g_rsp :: u64
  g_rip :: u64
  g_efl :: u64

record xmm_regs =
  x4 :: bytes
  x5 :: bytes

record router =
  ro_ds :: dispatch_state
  ro_reflex :: reflex
  ro_service :: u32
  ro_attempts :: u32
  ro_target_logged :: bool
  ro_history :: event_ring
  ro_log :: "(string \<times> u64 option) list"

record trap_env =
  te_ds :: dispatch_env
  te_debug :: bool
  te_game :: bool

definition ro_mem :: "router \<Rightarrow> vmem" where
  "ro_mem r = ds_mem (ro_ds r)"

definition ro_markers :: "router \<Rightarrow> markers" where
  "ro_markers r = ds_markers (ro_ds r)"

definition set_markers :: "markers \<Rightarrow> router \<Rightarrow> router" where
  "set_markers k r = r\<lparr>ro_ds := (ro_ds r)\<lparr>ds_markers := k\<rparr>\<rparr>"

definition set_mem :: "vmem \<Rightarrow> router \<Rightarrow> router" where
  "set_mem m r = r\<lparr>ro_ds := (ro_ds r)\<lparr>ds_mem := m\<rparr>\<rparr>"

section \<open>The window-list probe\<close>

definition STATUS_BUFFER_TOO_SMALL :: u32 where "STATUS_BUFFER_TOO_SMALL = 0xc0000023"
definition EXPORT_NAME :: bytes where "EXPORT_NAME = ascii ''NtUserBuildHwndList''"
definition MODULE_NAME :: bytes where "MODULE_NAME = ascii ''win32u.dll''"
definition RESOLVE_ATTEMPT_LIMIT :: u32 where "RESOLVE_ATTEMPT_LIMIT = 16"

definition known_service :: "u32 \<Rightarrow> u32 option" where
  "known_service known = (if known \<noteq> 0 then Some known else None)"

definition window_list_service :: "trap_env \<Rightarrow> router \<Rightarrow> router \<times> u32 option" where
  "window_list_service e r =
     (if ro_service r \<noteq> 0 then (r, Some (ro_service r))
      else let attempt = ro_attempts r; r1 = r\<lparr>ro_attempts := attempt + 1\<rparr> in
        if attempt \<ge> RESOLVE_ATTEMPT_LIMIT then (r1, known_service (ro_service r1))
        else case Option.bind (Option.bind (module_base (ro_mem r1) (de_gs (te_ds e)) MODULE_NAME)
                    (\<lambda>base. export_service (ro_mem r1) base EXPORT_NAME)) known_service of
          Some number \<Rightarrow> (r1\<lparr>ro_service := number\<rparr>, Some number)
        | None \<Rightarrow> (r1, known_service (ro_service r1)))"

definition complete_zero_capacity :: "vmem \<Rightarrow> gregs \<Rightarrow> u32 \<Rightarrow> vmem \<times> gregs \<times> bool" where
  "complete_zero_capacity m g service =
     (if g_rax g \<noteq> ucast service then (m, g, False)
      else case (Option.bind (offset (g_rsp g) 0x30) (read_u32 m), Option.bind (offset (g_rsp g) 0x38) (read_u64 m),
                 Option.bind (offset (g_rsp g) 0x40) (read_u64 m)) of
        (Some count, Some buffer, Some size_address) \<Rightarrow>
          if count \<noteq> 0 \<or> buffer \<noteq> 0 \<or> size_address = 0 then (m, g, False)
          else (case write_u32 m size_address 1 of
                  (m', True) \<Rightarrow> (m', g\<lparr>g_rax := ucast STATUS_BUFFER_TOO_SMALL\<rparr>, True)
                | (m', False) \<Rightarrow> (m', g, False))
      | _ \<Rightarrow> (m, g, False))"

definition maybe_complete_bypass :: "trap_env \<Rightarrow> router \<Rightarrow> gregs \<Rightarrow> router \<times> gregs \<times> bool" where
  "maybe_complete_bypass e r g =
     (if g_rax g AND 0xf000 \<noteq> 0x1000 then (r, g, False)
      else case window_list_service e r of
        (r1, None) \<Rightarrow> (r1, g, False)
      | (r1, Some service) \<Rightarrow>
          (let (m, g', ok) = complete_zero_capacity (ro_mem r1) g service in (set_mem m r1, g', ok)))"

section \<open>Steps of the handler\<close>

definition SYS_SECCOMP :: int where "SYS_SECCOMP = 1"
definition SYS_USER_DISPATCH :: int where "SYS_USER_DISPATCH = 2"

definition is_bypass :: "bytes \<Rightarrow> bool" where
  "is_bypass xmm5 \<longleftrightarrow> from_le (take 8 xmm5) = SYSCALL_BYPASS_MAGIC"

definition is_registered_target_process :: "trap_env \<Rightarrow> u64 \<Rightarrow> u64 \<Rightarrow> router \<Rightarrow> router \<times> bool" where
  "is_registered_target_process e rip service r =
     (if reflex_target_process_registered (ro_reflex r) = 0 then (r, False)
      else let (m, u) = maybe_repair_wine_unixlib_exports (de_maps (te_ds e)) (ro_mem r) (ds_repair (ro_ds r));
               r1 = r\<lparr>ro_ds := (ro_ds r)\<lparr>ds_mem := m, ds_repair := u\<rparr>\<rparr>
           in (if ro_target_logged r1 then r1
               else r1\<lparr>ro_target_logged := True, ro_log := ro_log r1 @
                 [(''first direct syscall routed by registered Windows process identity'', None),
                  (''target process syscall service='', Some service), (''target process syscall RIP='', Some rip)]\<rparr>, True))"

definition trap_key :: "trap_env \<Rightarrow> gregs \<Rightarrow> marker_key" where
  "trap_key e g = (de_tid (te_ds e), g_rsp g, g_rip g)"

definition trap_context :: "gregs \<Rightarrow> xmm_regs \<Rightarrow> saved_context" where
  "trap_context g x = \<lparr>sc_xmm4 = x4 x, sc_xmm5 = x5 x, sc_r11 = g_r11 g, sc_eflags = g_efl g\<rparr>"

definition trace_event :: "trap_env \<Rightarrow> int \<Rightarrow> gregs \<Rightarrow> xmm_regs \<Rightarrow> event" where
  "trace_event e code g x = make_event (de_tid (te_ds e)) (of_int code) Forwarded
     [g_rip g, g_rsp g, g_rax g, g_r10 g, g_rcx g, g_rdx g, g_r8 g, g_r9 g, g_r13 g, from_le (take 8 (x5 x))]"

definition note_trap :: "trap_env \<Rightarrow> event \<Rightarrow> disposition \<Rightarrow> router \<Rightarrow> router" where
  "note_trap e ev d r = r\<lparr>ro_history := record_game_event (te_debug e) (te_game e) (with_disposition ev d) (ro_history r)\<rparr>"

definition syscall_resume :: "vmem \<Rightarrow> u64 \<Rightarrow> u64 \<Rightarrow> u64 option" where
  "syscall_resume m rip rcx = (case (vm_bytes m rip, vm_bytes m (rip + 1)) of
       (Some a, Some b) \<Rightarrow> Some (if [a, b] = [0x0f, 0x05] then rip + 2 else rcx)
     | _ \<Rightarrow> None)"

datatype outcome = Taken | NotTaken | Faulted

type_synonym handled = "router \<times> gregs \<times> xmm_regs \<times> outcome"

definition restore_replay :: "saved_context \<Rightarrow> gregs \<Rightarrow> xmm_regs \<Rightarrow> gregs \<times> xmm_regs" where
  "restore_replay c g x = (g\<lparr>g_r11 := sc_r11 c, g_efl := sc_eflags c\<rparr>, x\<lparr>x4 := sc_xmm4 c, x5 := sc_xmm5 c\<rparr>)"

definition redirect_bypass :: "trap_env \<Rightarrow> int \<Rightarrow> event \<Rightarrow> bool \<Rightarrow> router \<Rightarrow> gregs \<Rightarrow> xmm_regs \<Rightarrow> handled" where
  "redirect_bypass e code ev bridged r g x =
     (let r1 = (if bridged then set_markers (cancel_marker (ro_markers r) (trap_key e g)) r else r);
          x' = x\<lparr>x5 := replicate 16 0\<rparr>;
          (r2, g', completed) = (if code = SYS_USER_DISPATCH then maybe_complete_bypass e r1 g else (r1, g, False)) in
      if completed then (note_trap e ev LocallyCompleted r2, g', x', Taken)
      else (note_trap e ev ReflexBypassForwarded r2, g', x', NotTaken))"

definition enter_reflex :: "vmem \<Rightarrow> u64 \<times> bool \<Rightarrow> gregs \<Rightarrow> xmm_regs \<Rightarrow> (gregs \<times> xmm_regs) option" where
  "enter_reflex m route g x = (case route of (target, is_resume) \<Rightarrow>
     (let x' = x\<lparr>x4 := to_le 4 (ucast (g_rax g) :: u32) @ drop 4 (x4 x)\<rparr> in
      case (if is_resume then syscall_resume m (g_rip g) (g_rcx g) else Some (g_rcx g)) of
        None \<Rightarrow> None
      | Some rax \<Rightarrow> Some (g\<lparr>g_efl := g_r11 g, g_rax := rax, g_rcx := target, g_rip := target\<rparr>, x')))"

definition redirect_route :: "trap_env \<Rightarrow> event \<Rightarrow> bool \<Rightarrow> router \<Rightarrow> gregs \<Rightarrow> xmm_regs \<Rightarrow> handled" where
  "redirect_route e ev bridged r g x =
     (case reflex_route_syscall (ro_reflex r) (Some \<lparr>ctx_rax = g_rax g, ctx_r10 = g_r10 g, ctx_rcx = g_rcx g\<rparr>) of
        None \<Rightarrow>
          (let r1 = note_trap e ev ReflexRouteDeclined r;
               r2 = (if bridged then set_markers (cancel_marker (ro_markers r1) (trap_key e g)) r1 else r1)
           in (r2, g, x, NotTaken))
      | Some route \<Rightarrow>
          (let r1 = note_trap e ev ReflexRedirected r in
           case enter_reflex (ro_mem r1) route g x of
             None \<Rightarrow> (r1, g, x, Faulted)
           | Some (g', x') \<Rightarrow> (r1, g', x', Taken)))"

definition redirect_trap :: "trap_env \<Rightarrow> int \<Rightarrow> router \<Rightarrow> gregs \<Rightarrow> xmm_regs \<Rightarrow> handled" where
  "redirect_trap e code r0 g x =
     (let ev = trace_event e code g x;
          (k, bridged) = consume_marker (ro_markers r0) (trap_key e g) (trap_context g x);
          r = set_markers k r0 in
      case bridged of
        Some (Replay saved) \<Rightarrow>
          (let (g', x') = restore_replay saved g x in (note_trap e ev BridgeReplayRestored r, g', x', NotTaken))
      | _ \<Rightarrow>
          (let is_bridged_route = (bridged = Some Route) in
           if is_bypass (x5 x) then redirect_bypass e code ev is_bridged_route r g x
           else let (r1, target_process) =
                    (if is_bridged_route then (r, False) else is_registered_target_process e (g_rip g) (g_rax g) r) in
             if \<not> is_bridged_route \<and> \<not> target_process then (note_trap e ev Forwarded r1, g, x, NotTaken)
             else redirect_route e ev is_bridged_route r1 g x))"

text \<open>\<open>None\<close> stands for a null pointer.\<close>

definition redirect :: "trap_env \<Rightarrow> int option \<Rightarrow> gregs option \<Rightarrow> xmm_regs option \<Rightarrow> router \<Rightarrow>
    router \<times> gregs option \<times> xmm_regs option \<times> outcome" where
  "redirect e info context fpregs r = (case (info, context, fpregs) of
       (Some code, Some g, Some x) \<Rightarrow>
         if code \<noteq> SYS_SECCOMP \<and> code \<noteq> SYS_USER_DISPATCH then (r, context, fpregs, NotTaken)
         else (let (r', g', x', out) = redirect_trap e code r g x in (r', Some g', Some x', out))
     | _ \<Rightarrow> (r, context, fpregs, NotTaken))"

section \<open>The bridged call\<close>

lemma ro_simps [simp]:
  "ro_markers (set_markers k r) = k" "ro_mem (set_markers k r) = ro_mem r" "ro_reflex (set_markers k r) = ro_reflex r"
  "ro_markers (note_trap e ev d r) = ro_markers r" "ro_mem (note_trap e ev d r) = ro_mem r"
  "ro_reflex (note_trap e ev d r) = ro_reflex r" "ro_ds (note_trap e ev d r) = ro_ds r"
  "ro_markers (set_mem m r) = ro_markers r" "ro_mem (set_mem m r) = m" "ro_reflex (set_mem m r) = ro_reflex r"
  by (simp_all add: ro_markers_def ro_mem_def set_markers_def set_mem_def note_trap_def)

definition route_of :: "router \<Rightarrow> gregs \<Rightarrow> (u64 \<times> bool) option" where
  "route_of r g = reflex_route_syscall (ro_reflex r) (Some \<lparr>ctx_rax = g_rax g, ctx_r10 = g_r10 g, ctx_rcx = g_rcx g\<rparr>)"

lemma first_trap:
  assumes inv: "markers_inv (ro_markers r0)" and good: "good_key (trap_key e g)" and ctx: "good_context (trap_context g x)"
    and armed: "lookup_marker (ro_markers r0) (trap_key e g) = Some Armed" and "\<not> is_bypass (x5 x)"
    and red: "redirect_trap e code r0 g x = (r1, g1, x1, out)"
  obtains k where "consume_marker (ro_markers r0) (trap_key e g) (trap_context g x) = (k, Some Route)"
    and "markers_inv k" and "lookup_marker k (trap_key e g) = Some (Routed (trap_context g x))"
    and "\<And>key. good_key key \<Longrightarrow> key \<noteq> trap_key e g \<Longrightarrow> lookup_marker k key = lookup_marker (ro_markers r0) key"
    and "redirect_route e (trace_event e code g x) True (set_markers k r0) g x = (r1, g1, x1, out)"
proof -
  from mt.consume_route [OF inv good ctx armed] obtain k where
    k: "consume_marker (ro_markers r0) (trap_key e g) (trap_context g x) = (k, Some Route)" "markers_inv k"
      "lookup_marker k (trap_key e g) = Some (Routed (trap_context g x))"
      "\<And>key. good_key key \<Longrightarrow> key \<noteq> trap_key e g \<Longrightarrow> lookup_marker k key = lookup_marker (ro_markers r0) key" by metis
  with red assms(5) that show thesis by (simp add: redirect_trap_def)
qed

lemma redirect_route_taken:
  assumes "redirect_route e ev bridged r g x = (r1, g1, x1, Taken)"
  shows "\<exists>target is_resume. route_of r g = Some (target, is_resume) \<and> enter_reflex (ro_mem r) (target, is_resume) g x = Some (g1, x1) \<and>
    ro_ds r1 = ro_ds r"
  using assms by (auto simp: redirect_route_def route_of_def Let_def split: option.splits)

lemma replay_trap:
  assumes inv: "markers_inv (ro_markers r)" and good: "good_key (trap_key e g)"
    and routed: "lookup_marker (ro_markers r) (trap_key e g) = Some (Routed c)"
  shows "\<exists>r'. redirect_trap e code r g x = (r', fst (restore_replay c g x), snd (restore_replay c g x), NotTaken) \<and>
    ro_mem r' = ro_mem r \<and> ro_reflex r' = ro_reflex r \<and> markers_inv (ro_markers r') \<and> lookup_marker (ro_markers r') (trap_key e g) = None \<and>
    (\<forall>key. good_key key \<longrightarrow> key \<noteq> trap_key e g \<longrightarrow> lookup_marker (ro_markers r') key = lookup_marker (ro_markers r) key)"
proof -
  from mt.consume_replay [OF inv good routed, of "trap_context g x"] obtain k where
    "consume_marker (ro_markers r) (trap_key e g) (trap_context g x) = (k, Some (Replay c))" "markers_inv k"
    "lookup_marker k (trap_key e g) = None"
    "\<forall>key. good_key key \<longrightarrow> key \<noteq> trap_key e g \<longrightarrow> lookup_marker k key = lookup_marker (ro_markers r) key" by metis
  then show ?thesis by (simp add: redirect_trap_def restore_replay_def)
qed

lemma bridged_round_trip:
  assumes "markers_inv (ro_markers r0)" and "good_key (trap_key e g)" and "good_context (trap_context g x)"
    and "lookup_marker (ro_markers r0) (trap_key e g) = Some Armed" and "\<not> is_bypass (x5 x)"
    and "redirect_trap e code r0 g x = (r1, g1, x1, Taken)"
    and "trap_key e2 g2 = trap_key e g"
  shows "(\<exists>target is_resume. route_of r0 g = Some (target, is_resume) \<and> g_rip g1 = target \<and> g_rcx g1 = target \<and> g_efl g1 = g_r11 g) \<and>
    (\<exists>r2. redirect_trap e2 code2 r1 g2 x2 =
         (r2, g2\<lparr>g_r11 := g_r11 g, g_efl := g_efl g\<rparr>, \<lparr>x4 = x4 x, x5 = x5 x\<rparr>, NotTaken) \<and>
       markers_inv (ro_markers r2) \<and> lookup_marker (ro_markers r2) (trap_key e g) = None \<and>
       (\<forall>key. good_key key \<longrightarrow> key \<noteq> trap_key e g \<longrightarrow> lookup_marker (ro_markers r2) key = lookup_marker (ro_markers r0) key))"
proof -
  from first_trap [OF assms(1-6)] obtain k where k: "markers_inv k"
    "lookup_marker k (trap_key e g) = Some (Routed (trap_context g x))"
    "\<And>key. good_key key \<Longrightarrow> key \<noteq> trap_key e g \<Longrightarrow> lookup_marker k key = lookup_marker (ro_markers r0) key"
    "redirect_route e (trace_event e code g x) True (set_markers k r0) g x = (r1, g1, x1, Taken)" by metis
  from redirect_route_taken [OF k(4)] obtain target is_resume where
    t: "route_of r0 g = Some (target, is_resume)" "enter_reflex (ro_mem r0) (target, is_resume) g x = Some (g1, x1)"
      "ro_ds r1 = ro_ds (set_markers k r0)" by (auto simp: route_of_def)
  then have m: "ro_markers r1 = k" by (simp add: ro_markers_def set_markers_def)
  from replay_trap [of r1 e2 g2 "trap_context g x" code2 x2] k m assms(2,7)
  obtain r2 where "redirect_trap e2 code2 r1 g2 x2 =
      (r2, fst (restore_replay (trap_context g x) g2 x2), snd (restore_replay (trap_context g x) g2 x2), NotTaken)"
    "markers_inv (ro_markers r2)" "lookup_marker (ro_markers r2) (trap_key e g) = None"
    "\<forall>key. good_key key \<longrightarrow> key \<noteq> trap_key e g \<longrightarrow> lookup_marker (ro_markers r2) key = lookup_marker (ro_markers r0) key"
    by auto
  moreover have "snd (restore_replay (trap_context g x) g2 x2) = \<lparr>x4 = x4 x, x5 = x5 x\<rparr>"
    by (simp add: restore_replay_def trap_context_def)
  moreover have "g_rip g1 = target \<and> g_rcx g1 = target \<and> g_efl g1 = g_r11 g"
    using t(2) by (auto simp: enter_reflex_def Let_def split: option.splits)
  ultimately show ?thesis using t(1) by (auto simp: restore_replay_def trap_context_def)
qed

text \<open>
  A bridged call goes through the handler and back. The trap of an armed call enters the
  handler that its registration selects; the trap of the same instruction at the same stack
  depth afterwards is forwarded to Wine with the vector registers, \<open>R11\<close> and flags as they
  were at the first trap, whatever the handler left in them, and the marker is gone, with no
  other marker changed.
\<close>

lemma bridged_call_round_trip:
  assumes "markers_inv (ro_markers r0)" and "good_key (trap_key e g)" and "good_context (trap_context g x)"
    and "lookup_marker (ro_markers r0) (trap_key e g) = Some Armed" and "\<not> is_bypass (x5 x)"
    and "redirect_trap e code r0 g x = (r1, g1, x1, Taken)"
    and "trap_key e2 g2 = trap_key e g"
  shows "(\<exists>target is_resume. route_of r0 g = Some (target, is_resume) \<and> g_rip g1 = target \<and> g_rcx g1 = target \<and> g_efl g1 = g_r11 g) \<and>
    (\<exists>r2. redirect_trap e2 code2 r1 g2 x2 =
         (r2, g2\<lparr>g_r11 := g_r11 g, g_efl := g_efl g\<rparr>, \<lparr>x4 = x4 x, x5 = x5 x\<rparr>, NotTaken) \<and>
       markers_inv (ro_markers r2) \<and> lookup_marker (ro_markers r2) (trap_key e g) = None \<and>
       (\<forall>key. good_key key \<longrightarrow> key \<noteq> trap_key e g \<longrightarrow> lookup_marker (ro_markers r2) key = lookup_marker (ro_markers r0) key))"
  by (rule bridged_round_trip [OF assms])

text \<open>
  Calls that are not Reflex's reach Wine untouched. A trap with no marker, without the
  bypass mark and in a process that has not registered as a target is forwarded with every
  register, all of memory, the markers and the registration as they were.
\<close>

lemma unrelated_trap_forwarded_unchanged:
  assumes "markers_inv (ro_markers r)" and "good_key (trap_key e g)" and "lookup_marker (ro_markers r) (trap_key e g) = None"
    and "\<not> is_bypass (x5 x)" and "reflex_target_process_registered (ro_reflex r) = 0"
  shows "\<exists>r'. redirect e (Some code) (Some g) (Some x) r = (r', Some g, Some x, NotTaken) \<and>
    ro_ds r' = ro_ds r \<and> ro_reflex r' = ro_reflex r"
proof -
  have "set_markers (ro_markers r) r = r" by (simp add: set_markers_def ro_markers_def)
  with mt.consume_none [OF assms(1-3), of "trap_context g x"] assms(4,5) show ?thesis
    by (auto simp: redirect_def redirect_trap_def is_registered_target_process_def split: prod.splits)
qed

section \<open>Bypass\<close>

lemma complete_zero_capacity_cases:
  assumes "complete_zero_capacity m g service = (m', g', done)"
  shows "(\<not> done \<and> m' = m \<and> g' = g) \<or>
    (done \<and> g_rax g = ucast service \<and> g' = g\<lparr>g_rax := ucast STATUS_BUFFER_TOO_SMALL\<rparr> \<and>
     (\<exists>a. Option.bind (offset (g_rsp g) 0x30) (read_u32 m) = Some 0 \<and> Option.bind (offset (g_rsp g) 0x38) (read_u64 m) = Some 0 \<and>
       Option.bind (offset (g_rsp g) 0x40) (read_u64 m) = Some a \<and> a \<noteq> 0 \<and> write_u32 m a 1 = (m', True)))"
  using assms write_memory_failed [of m _ "to_le 4 1" m']
  by (auto simp: complete_zero_capacity_def write_u32_def split: if_splits option.splits prod.splits bool.splits)

text \<open>
  The window-list fix answers one request only. A bypassed call is completed here exactly
  when its number is the discovered service and the stack holds a zero count, a null buffer and
  a writable size address; then the only effects are the status in \<open>RAX\<close> and the size one at
  that address. Every other call leaves registers and memory as they were.
\<close>

lemma window_list_completes_only_the_probe:
  assumes "maybe_complete_bypass e r g = (r', g', completed)"
  shows "ro_markers r' = ro_markers r \<and> ro_reflex r' = ro_reflex r \<and>
    (if completed then
       g' = g\<lparr>g_rax := ucast STATUS_BUFFER_TOO_SMALL\<rparr> \<and> g_rax g = ucast (ro_service r') \<and> ro_service r' \<noteq> 0 \<and>
       (\<exists>a. Option.bind (offset (g_rsp g) 0x30) (read_u32 (ro_mem r)) = Some 0 \<and> Option.bind (offset (g_rsp g) 0x38) (read_u64 (ro_mem r)) = Some 0 \<and>
         Option.bind (offset (g_rsp g) 0x40) (read_u64 (ro_mem r)) = Some a \<and> read_u32 (ro_mem r') a = Some 1 \<and>
         (\<forall>b k. disjoint_ranges a 4 b k \<longrightarrow> read_memory (ro_mem r') b k = read_memory (ro_mem r) b k))
     else g' = g \<and> ro_mem r' = ro_mem r)"
proof (cases "g_rax g AND 0xf000 = 0x1000")
  case True
  obtain r1 svc where w: "window_list_service e r = (r1, svc)" by (cases "window_list_service e r")
  then have r1: "ro_ds r1 = ro_ds r" "ro_reflex r1 = ro_reflex r" "svc = Some n \<Longrightarrow> ro_service r1 = n \<and> n \<noteq> 0" for n
    by (auto simp: window_list_service_def known_service_def Let_def split: if_splits option.splits bind_splits)
  show ?thesis
  proof (cases svc)
    case None
    with assms True w r1 show ?thesis by (auto simp: maybe_complete_bypass_def ro_mem_def ro_markers_def)
  next
    case (Some service)
    obtain m g1 ok where c: "complete_zero_capacity (ro_mem r) g service = (m, g1, ok)"
      by (cases "complete_zero_capacity (ro_mem r) g service") auto
    have mem: "ro_mem r1 = ro_mem r" "ro_markers r1 = ro_markers r" using r1(1) by (simp_all add: ro_mem_def ro_markers_def)
    with assms True w Some c have eq: "r' = set_mem m r1" "g' = g1" "completed = ok" by (auto simp: maybe_complete_bypass_def)
    have "ro_service (set_mem m r1) = service" using r1(3) [OF Some] by (simp add: set_mem_def)
    with complete_zero_capacity_cases [OF c] eq mem r1(2) r1(3) [OF Some] write_u32_effect [of "ro_mem r" _ 1 m True] show ?thesis by auto
  qed
qed (use assms in \<open>auto simp: maybe_complete_bypass_def\<close>)

section \<open>Sample traps\<close>

definition sample_gregs :: gregs where
  "sample_gregs = \<lparr>g_rax = 0x246, g_rcx = 0x2001f, g_rdx = 1, g_r8 = 2, g_r9 = 3, g_r10 = 0, g_r11 = 0x302, g_r13 = 4,
     g_rsp = 0x30008, g_rip = 0x20012, g_efl = 0x202\<rparr>"

definition sample_xmm :: xmm_regs where
  "sample_xmm = \<lparr>x4 = replicate 16 4, x5 = replicate 16 5\<rparr>"

definition sample_reflex :: reflex where
  "sample_reflex = reflex_new\<lparr>rx_routing := RsDualDispatch, rx_convention := DualConvention, rx_system_target := 0x9000, rx_system_id := 0x246\<rparr>"

definition sample_router :: "dispatch_state \<Rightarrow> router" where
  "sample_router w = \<lparr>ro_ds = w, ro_reflex = sample_reflex, ro_service = 0, ro_attempts = 0, ro_target_logged = False,
     ro_history = ring_new, ro_log = []\<rparr>"

definition sample_trap_env :: trap_env where
  "sample_trap_env = \<lparr>te_ds = stub_env, te_debug = False, te_game = True\<rparr>"

lemma sample_trap:
  "good_key (trap_key sample_trap_env sample_gregs)" "good_context (trap_context sample_gregs sample_xmm)"
  "\<not> is_bypass (x5 sample_xmm)" "trap_key sample_trap_env sample_gregs = (7, 0x30008, 0x20012)"
  by (simp_all add: good_key_def good_context_def trap_key_def trap_context_def sample_trap_env_def stub_env_def
      sample_gregs_def sample_xmm_def is_bypass_def SYSCALL_BYPASS_MAGIC_def replicate_numeral_Cons)

lemma sample_route: "reflex_route_syscall sample_reflex (Some \<lparr>ctx_rax = 0x246, ctx_r10 = 0, ctx_rcx = 0x2001f\<rparr>) = Some (0x9000, False)"
  by (simp add: reflex_route_syscall_def route_syscall_def sample_reflex_def DISPATCH_BYPASS_SYSCALL_def USER_RCX_MAX_def route_when_def)

lemma sample_taken:
  assumes "markers_inv (ds_markers w)" and "lookup_marker (ds_markers w) (7, 0x30008, 0x20012) = Some Armed"
  shows "\<exists>r1 g1 x1. redirect_trap sample_trap_env 2 (sample_router w) sample_gregs sample_xmm = (r1, g1, x1, Taken)"
proof -
  have ro: "ro_markers (sample_router w) = ds_markers w" "ro_reflex (sample_router w) = sample_reflex"
    by (simp_all add: sample_router_def ro_markers_def)
  obtain r1 g1 x1 out where red: "redirect_trap sample_trap_env 2 (sample_router w) sample_gregs sample_xmm = (r1, g1, x1, out)"
    by (metis prod_cases4)
  from first_trap [OF _ sample_trap(1,2) _ sample_trap(3) red] ro assms sample_trap(4)
  obtain k where "redirect_route sample_trap_env (trace_event sample_trap_env 2 sample_gregs sample_xmm) True
      (set_markers k (sample_router w)) sample_gregs sample_xmm = (r1, g1, x1, out)" by metis
  then have "out = Taken"
    using sample_route by (auto simp: redirect_route_def ro enter_reflex_def sample_gregs_def Let_def)
  with red show ?thesis by blast
qed

end
