(* ===== verification/Router_Life.thy ===== *)
theory Router_Life
  imports Sigsys_Router
begin

text \<open>
  The life of the state behind the dispatcher slot and the SIGSYS handler: calls through the slot, traps,
  control calls of the client, the installation of the bridge, the registration of the handler's image and writes of
  the program to its memory, in any order. What the theorems about a single call assume of the state holds in
  every state that is reached.
\<close>

definition router_ok :: "router \<Rightarrow> bool" where
  "router_ok r \<longleftrightarrow> stubs_inv (br_stubs (ds_bridge (ro_ds r))) \<and> markers_inv (ro_markers r) \<and> reflex_inv (ro_reflex r)"

text \<open>The registers of a trap as the kernel hands them over: a thread, a stack and an instruction, and full vector registers.\<close>

definition trap_sane :: "trap_env \<Rightarrow> gregs \<Rightarrow> xmm_regs \<Rightarrow> bool" where
  "trap_sane e g x \<longleftrightarrow> good_key (trap_key e g) \<and> length (x4 x) = 16 \<and> length (x5 x) = 16"

section \<open>Calls through the slot\<close>

lemma dispatcher_keeps:
  assumes "stubs_inv (br_stubs (ds_bridge w0))" and "markers_inv (ds_markers w0)" and "de_tid e \<noteq> 0"
    and "unat entry_rsp + 9 < 2 ^ 64" and "dispatcher_target e return_address service entry_rsp w0 = (w, target)"
  shows "stubs_inv (br_stubs (ds_bridge w)) \<and> markers_inv (ds_markers w)"
proof -
  have u: "unat (entry_rsp + 8) = unat entry_rsp + 8" using assms(4) by (subst unat_add_no_overflow) simp_all
  then have rsp: "saturating_add entry_rsp 8 = entry_rsp + 8" "entry_rsp + 8 \<noteq> 0" using assms(4) by (auto simp: saturating_add_def)
  have n: "entry_rsp + 8 \<noteq> - 1"
  proof
    assume "entry_rsp + 8 = - 1"
    then have "unat (entry_rsp + 8) = unat (- 1 :: u64)" by (simp only:)
    moreover have "unat (- 1 :: u64) = 2 ^ 64 - 1" by (simp add: unsigned_minus_1_eq_mask mask_eq_exp_minus_1)
    ultimately show False using u assms(4) by simp
  qed
  let ?p = "prepare_dispatch e (entry_rsp + 8) w0"
  have g: "rip \<noteq> 0 \<Longrightarrow> good_key (de_tid e, entry_rsp + 8, rip)" for rip using rsp(2) assms(3) by (simp add: good_key_def)
  have p: "stubs_inv (br_stubs (ds_bridge ?p))" "markers_inv (ds_markers ?p)"
    using prepare_bridge [OF assms(1)] prepare_markers(1) [OF assms(2) g [of 1] n] by simp_all
  from assms(5) consider "w = ?p"
    | k raw armed where "w = ?p\<lparr>ds_markers := k\<rparr>" "find_syscall (ds_mem ?p) return_address service = Some raw"
      "remember_marker (ds_markers ?p) (de_tid e, entry_rsp + 8, saturating_add raw 2) = (k, armed)"
    unfolding dispatcher_target_def Let_def rsp(1) by (auto simp: should_replay_raw_def split: if_splits prod.splits)
  then show ?thesis
  proof cases
    case (2 k raw armed)
    have "unat raw + 2 \<le> unat return_address" by (rule find_syscall_sound(2) [OF 2(2)])
    moreover have "unat return_address < 2 ^ 64" using unsigned_less [of return_address] by simp
    ultimately have rip: "saturating_add raw 2 = raw + 2" "unat (raw + 2) = unat raw + 2" by (simp_all add: saturating_add_def unat_add_no_overflow)
    then have "raw + 2 \<noteq> 0" by auto
    note key = g [OF this]
    show ?thesis
    proof (cases armed)
      case True
      with mt.arm_ok [OF p(2) key prepare_markers(2) [OF assms(2) key n]] 2(1,3) p(1) rip(1) show ?thesis by simp
    next
      case False
      with mt.arm_full [OF p(2)] 2(1,3) p rip(1) show ?thesis by fastforce
    qed
  qed (simp add: p)
qed

section \<open>Traps\<close>

lemma consume_keeps:
  assumes "markers_inv m" and "good_key k" and "good_context c" and "consume_marker m k c = (m', ph)"
  shows "markers_inv m'"
proof (cases "lookup_marker m k")
  case None
  with mt.consume_none [OF assms(1,2)] assms(1,4) show ?thesis by simp
next
  case (Some v)
  with mt.consume_route [OF assms(1-3)] mt.consume_replay [OF assms(1,2), of _ c] assms(4) show ?thesis by (cases v) auto
qed

lemma repair_keeps: "is_registered_target_process e rip service r = (r', b) \<Longrightarrow>
    ro_markers r' = ro_markers r \<and> ro_reflex r' = ro_reflex r \<and> ds_bridge (ro_ds r') = ds_bridge (ro_ds r)"
  by (auto simp: is_registered_target_process_def ro_markers_def Let_def split: if_splits prod.splits)

lemma service_keeps: "window_list_service e r = (r', s) \<Longrightarrow> ro_ds r' = ro_ds r \<and> ro_reflex r' = ro_reflex r"
  by (auto simp: window_list_service_def Let_def split: if_splits option.splits)

lemma complete_keeps: "maybe_complete_bypass e r g = (r', g', b) \<Longrightarrow>
    ro_markers r' = ro_markers r \<and> ro_reflex r' = ro_reflex r \<and> ds_bridge (ro_ds r') = ds_bridge (ro_ds r)"
  by (auto simp: maybe_complete_bypass_def ro_markers_def set_mem_def dest: service_keeps split: if_splits prod.splits option.splits)

lemma bridge_simps [simp]:
  "ds_bridge (ro_ds (set_markers k r)) = ds_bridge (ro_ds r)" "ds_bridge (ro_ds (note_trap e ev d r)) = ds_bridge (ro_ds r)"
  by (simp_all add: set_markers_def)

lemma bypass_keeps:
  assumes "router_ok r" and "good_key (trap_key e g)" and "redirect_bypass e code ev b r g x = (r', g', x', out)"
  shows "router_ok r'"
proof -
  have "markers_inv (cancel_marker (ro_markers r) (trap_key e g))"
    using mt.drop_forgets [OF _ assms(2)] assms(1) by (simp add: router_ok_def)
  with assms(1,3) show ?thesis
    by (auto simp: redirect_bypass_def router_ok_def Let_def dest!: complete_keeps split: if_splits prod.splits)
qed

lemma route_keeps:
  assumes "router_ok r" and "good_key (trap_key e g)" and "redirect_route e ev b r g x = (r', g', x', out)"
  shows "router_ok r'"
proof -
  have "markers_inv (cancel_marker (ro_markers r) (trap_key e g))"
    using mt.drop_forgets [OF _ assms(2)] assms(1) by (simp add: router_ok_def)
  with assms(1,3) show ?thesis
    by (auto simp: redirect_route_def router_ok_def Let_def split: if_splits prod.splits option.splits)
qed

lemma trap_keeps:
  assumes "router_ok r" and "trap_sane e g x" and "redirect_trap e code r g x = (r', g', x', out)"
  shows "router_ok r'"
proof -
  have good: "good_key (trap_key e g)" "good_context (trap_context g x)" using assms(2) by (simp_all add: trap_sane_def good_context_def trap_context_def)
  obtain k ph where c: "consume_marker (ro_markers r) (trap_key e g) (trap_context g x) = (k, ph)" by fastforce
  have "markers_inv k" using consume_keeps [OF _ good c] assms(1) by (simp add: router_ok_def)
  then have ok: "router_ok (set_markers k r)" using assms(1) by (simp add: router_ok_def)
  have ok1: "router_ok r1" if "is_registered_target_process e rip service (set_markers k r) = (r1, b)" for rip service r1 b
    using repair_keeps [OF that] ok by (simp add: router_ok_def)
  have note_ok: "router_ok (note_trap e ev d q) = router_ok q" for ev d q by (simp add: router_ok_def)
  from assms(3) show ?thesis unfolding redirect_trap_def c Let_def
    by (auto simp: note_ok ok ok1 restore_replay_def split: option.splits phase.splits if_splits prod.splits
        intro: bypass_keeps [OF ok good(1)] route_keeps [OF ok good(1)] route_keeps [OF ok1 good(1)])
qed

section \<open>The steps\<close>

inductive router_step :: "router \<Rightarrow> router \<Rightarrow> bool" where
  slot_call: "\<lbrakk>de_tid e \<noteq> 0; unat entry_rsp + 9 < 2 ^ 64; dispatcher_target e return_address service entry_rsp (ro_ds r) = (w, target)\<rbrakk> \<Longrightarrow>
     router_step r (r\<lparr>ro_ds := w\<rparr>)"
| trapped: "\<lbrakk>\<And>g x. context = Some g \<Longrightarrow> fpregs = Some x \<Longrightarrow> trap_sane e g x; redirect e info context fpregs r = (r', g', x', out)\<rbrakk> \<Longrightarrow>
     router_step r r'"
| control: "handle_cpuid runtime_host leaf rcx rdx h (ro_reflex r) = (h', s, a) \<Longrightarrow> router_step r (r\<lparr>ro_reflex := s\<rparr>)"
| installed: "install_bridge ie address k (ds_bridge (ro_ds r)) = (k', b, ok) \<Longrightarrow> router_step r (r\<lparr>ro_ds := (ro_ds r)\<lparr>ds_bridge := b\<rparr>\<rparr>)"
| registered: "router_step r (r\<lparr>ro_ds := (ro_ds r)\<lparr>ds_bridge := register_reflex_image m handler (ds_bridge (ro_ds r))\<rparr>\<rparr>)"
| written: "router_step r (r\<lparr>ro_ds := (ro_ds r)\<lparr>ds_mem := m\<rparr>\<rparr>)"

definition router_fresh :: "router \<Rightarrow> bool" where
  "router_fresh r \<longleftrightarrow> br_stubs (ds_bridge (ro_ds r)) = stubs_new \<and> ro_markers r = markers_new \<and> ro_reflex r = reflex_new"

lemma install_keeps: "install_bridge ie address k b = (k', b', ok) \<Longrightarrow> br_stubs b' = br_stubs b"
  by (auto simp: install_bridge_def swap_slot_def log_install_failure_def blog_def Let_def split: if_splits prod.splits option.splits)

lemma register_keeps: "br_stubs (register_reflex_image m handler b) = br_stubs b"
  by (simp add: register_reflex_image_def split: option.splits prod.splits)

lemma control_keeps: "reflex_inv s \<Longrightarrow> handle_cpuid runtime_host leaf rcx rdx h s = (h', s', a) \<Longrightarrow> reflex_inv s'"
  using rh.control_refines by blast

lemma step_keeps: "router_step r r' \<Longrightarrow> router_ok r \<Longrightarrow> router_ok r'"
proof (induction rule: router_step.induct)
  case (slot_call e entry_rsp return_address service r w target)
  with dispatcher_keeps [of "ro_ds r"] show ?case by (auto simp: router_ok_def ro_markers_def)
next
  case (trapped "context" fpregs e info r r' g' x' out)
  then show ?case by (auto simp: redirect_def intro: trap_keeps split: option.splits if_splits prod.splits)
next
  case (control leaf rcx rdx h r h' s a)
  with control_keeps [of "ro_reflex r"] show ?case by (simp add: router_ok_def ro_markers_def)
next
  case (installed ie address k r k' b ok)
  with install_keeps [OF installed(1)] show ?case by (simp add: router_ok_def ro_markers_def)
qed (simp_all add: router_ok_def ro_markers_def register_keeps)

lemma reached_ok:
  assumes "router_step\<^sup>*\<^sup>* r r'" and "router_fresh r"
  shows "router_ok r'"
proof -
  have "router_ok r" using assms(2) stubs_inv_new(1) markers_inv_new(1) reflex_inv_new(1) by (simp add: router_fresh_def router_ok_def)
  with assms(1) show ?thesis by (induction rule: rtranclp_induct) (auto intro: step_keeps)
qed

text \<open>
  C23: the state is well formed at all times. From the state of a fresh process, whatever calls
  come through the slot, whatever traps arrive, whatever the client asks for and whatever the program
  writes to its memory, in any order, the table of stubs, the table of markers and the registration
  keep the invariants that the theorems about a single call rely on.
\<close>

theorem router_well_formed:
  assumes "router_step\<^sup>*\<^sup>* r r'" and "router_fresh r"
  shows "stubs_inv (br_stubs (ds_bridge (ro_ds r'))) \<and> markers_inv (ro_markers r') \<and> reflex_inv (ro_reflex r')"
  using reached_ok [OF assms] by (simp add: router_ok_def)

definition fresh_router :: router where
  "fresh_router = (sample_router (stub_state\<lparr>ds_bridge := bridge_new 0\<rparr>))\<lparr>ro_reflex := reflex_new\<rparr>"

lemma fresh_router_fresh: "router_fresh fresh_router"
  by (simp add: router_fresh_def fresh_router_def sample_router_def bridge_new_def ro_markers_def stub_state_def)

theorem router_well_formed_witness:
  "\<exists>r1 r2. router_step fresh_router r1 \<and> router_step r1 r2 \<and> reflex_inv (ro_reflex r2) \<and> markers_inv (ro_markers r2)"
proof -
  obtain h' s a where c: "handle_cpuid runtime_host ARM_TARGET_CR3 0 0 rt_start (ro_reflex fresh_router) = (h', s, a)" by (metis prod_cases3)
  let ?r = "fresh_router\<lparr>ro_reflex := s\<rparr>"
  have one: "router_step fresh_router ?r" by (rule control [OF c])
  obtain w target where d: "dispatcher_target stub_env 0x2001f 0x246 0x30000 (ro_ds ?r) = (w, target)" by fastforce
  have two: "router_step ?r (?r\<lparr>ro_ds := w\<rparr>)" by (rule slot_call [OF _ _ d]) (simp_all add: stub_env_def)
  have "router_step\<^sup>*\<^sup>* fresh_router (?r\<lparr>ro_ds := w\<rparr>)" using one two by (meson r_into_rtranclp rtranclp.rtrancl_into_rtrancl)
  from router_well_formed [OF this fresh_router_fresh] one two show ?thesis by blast
qed

end
