(* ===== verification/Libc_Env.thy ===== *)
theory Libc_Env
  imports Prelude
begin

text \<open>
  The C environment the start-up code works on: the variables, the outcomes of the coming
  allocations, \<^verbatim>\<open>errno\<close>, and the interposer state of \<^verbatim>\<open>runtime/src/gamescope.rs\<close>, with glibc's
  \<^verbatim>\<open>getenv\<close> and \<^verbatim>\<open>setenv\<close>, C strings, and raw writes into an allocated block in which a
  write past the end of the block is \<open>None\<close>.
\<close>

section \<open>C strings and allocated blocks\<close>

text \<open>The bytes of a C string: up to the terminator.\<close>

definition c_string :: "bytes \<Rightarrow> bytes" where
  "c_string block = takeWhile (\<lambda>b. b \<noteq> 0) block"

definition is_c_string :: "bytes \<Rightarrow> bool" where
  "is_c_string s \<longleftrightarrow> 0 \<notin> set s"

definition with_nul :: "bytes \<Rightarrow> bytes" where
  "with_nul s = s @ [0]"

text \<open>\<open>ptr::copy_nonoverlapping(src, block.add(at), src.len())\<close>.\<close>

definition copy_to :: "bytes \<Rightarrow> nat \<Rightarrow> bytes \<Rightarrow> bytes option" where
  "copy_to src at block =
     (if at + length src \<le> length block then Some (take at block @ src @ drop (at + length src) block) else None)"

text \<open>The decimal digits \<^verbatim>\<open>Display\<close> prints for an unsigned number.\<close>

fun decimal :: "nat \<Rightarrow> bytes" where
  "decimal n = (if n < 10 then [of_nat (48 + n)] else decimal (n div 10) @ [of_nat (48 + n mod 10)])"

declare decimal.simps [simp del]

lemma c_string_with_nul: "is_c_string s \<Longrightarrow> c_string (with_nul s @ rest) = s"
  unfolding c_string_def with_nul_def is_c_string_def by (simp add: takeWhile_append)

lemma is_c_string_simps [simp]:
  "is_c_string []" "is_c_string (b # s) \<longleftrightarrow> b \<noteq> 0 \<and> is_c_string s"
  "is_c_string (s @ t) \<longleftrightarrow> is_c_string s \<and> is_c_string t"
  by (auto simp: is_c_string_def)

lemma is_c_string_c_string [simp]: "is_c_string (c_string b)"
  by (auto simp: is_c_string_def c_string_def dest: set_takeWhileD)

section \<open>The environment\<close>

text \<open>\<open>Overrun\<close> is a write past the end of a block, \<open>Unspecified\<close> a call outside the contract.\<close>

datatype libc_result = Success | Failure | Unspecified | Overrun

text \<open>
  \<open>ew_mem\<close> lists the outcomes of the coming allocations, which succeed once it is exhausted;
  \<open>ew_fill\<close> is what a fresh block holds; \<open>ew_dlsym\<close> says which symbols later objects define.
\<close>

record env_world =
  ew_vars :: "bytes \<Rightarrow> bytes option"
  ew_mem :: "bool list"
  ew_fill :: u8
  ew_errno :: nat
  ew_dlsym :: "bytes \<Rightarrow> bool"
  gs_enabled :: bool
  gs_self_path :: bytes
  gs_real_setenv :: bool
  gs_real_unsetenv :: bool

definition ENOMEM :: nat where "ENOMEM = 12"
definition EINVAL :: nat where "EINVAL = 22"
definition ENOSYS :: nat where "ENOSYS = 38"

definition getenv :: "env_world \<Rightarrow> bytes \<Rightarrow> bytes option" where
  "getenv w name = ew_vars w name"

definition set_errno :: "nat \<Rightarrow> env_world \<Rightarrow> env_world" where
  "set_errno e w = w\<lparr>ew_errno := e\<rparr>"

definition allocate :: "env_world \<Rightarrow> bool \<times> env_world" where
  "allocate w = (case ew_mem w of [] \<Rightarrow> (True, w)
     | ok # rest \<Rightarrow> (ok, (if ok then id else set_errno ENOMEM) (w\<lparr>ew_mem := rest\<rparr>)))"

definition malloc :: "nat \<Rightarrow> env_world \<Rightarrow> bytes option \<times> env_world" where
  "malloc n w = (let (ok, w) = allocate w in (if ok then Some (replicate n (ew_fill w)) else None, w))"

text \<open>
  glibc's \<^verbatim>\<open>setenv\<close>: a name that is missing, empty or holds an equals sign is refused, an
  existing variable is kept without \<open>overwrite\<close>, the new value is copied into fresh memory.
  Without a value the call is unspecified.
\<close>

definition valid_name :: "bytes \<Rightarrow> bool" where
  "valid_name name \<longleftrightarrow> name \<noteq> [] \<and> 61 \<notin> set name"

definition libc_setenv :: "bytes option \<Rightarrow> bytes option \<Rightarrow> bool \<Rightarrow> env_world \<Rightarrow> env_world \<times> libc_result" where
  "libc_setenv name value overwrite w = (case name of None \<Rightarrow> (set_errno EINVAL w, Failure)
     | Some n \<Rightarrow> if \<not> valid_name n then (set_errno EINVAL w, Failure)
       else (case value of None \<Rightarrow> (w, Unspecified)
         | Some v \<Rightarrow> if ew_vars w n \<noteq> None \<and> \<not> overwrite then (w, Success)
           else (let (ok, w) = allocate w in
             if ok then (w\<lparr>ew_vars := (ew_vars w)(n \<mapsto> v)\<rparr>, Success) else (w, Failure))))"

definition libc_unsetenv :: "bytes option \<Rightarrow> env_world \<Rightarrow> env_world \<times> libc_result" where
  "libc_unsetenv name w = (case name of None \<Rightarrow> (set_errno EINVAL w, Failure)
     | Some n \<Rightarrow> if \<not> valid_name n then (set_errno EINVAL w, Failure)
       else (w\<lparr>ew_vars := (ew_vars w)(n := None)\<rparr>, Success))"

lemma allocate_keeps [simp]:
  "allocate w = (ok, w') \<Longrightarrow> ew_vars w' = ew_vars w \<and> gs_enabled w' = gs_enabled w \<and> gs_self_path w' = gs_self_path w \<and>
     gs_real_setenv w' = gs_real_setenv w \<and> gs_real_unsetenv w' = gs_real_unsetenv w \<and> ew_dlsym w' = ew_dlsym w"
  by (auto simp: allocate_def set_errno_def split: list.splits if_splits)

lemma allocate_unlimited [simp]: "ew_mem w = [] \<Longrightarrow> allocate w = (True, w)"
  by (simp add: allocate_def)

section \<open>An environment its users can rely on\<close>

text \<open>
  What the start-up code relies on when it sets a variable out of \<open>names\<close>: other variables
  and the configuration are kept, and the variable afterwards has the new value or, when it
  was kept or memory ran out, the old one.
\<close>

locale env_store =
  fixes set_var :: "bytes \<Rightarrow> bytes \<Rightarrow> bool \<Rightarrow> env_world \<Rightarrow> env_world"
    and names :: "bytes set"
  assumes set_var_other: "n \<in> names \<Longrightarrow> m \<noteq> n \<Longrightarrow> ew_vars (set_var n v ow w) m = ew_vars w m"
    and set_var_same: "n \<in> names \<Longrightarrow> ew_vars (set_var n v ow w) n \<in> {Some v, ew_vars w n}"
    and set_var_kept: "n \<in> names \<Longrightarrow> ew_vars w n \<noteq> None \<Longrightarrow> ew_vars (set_var n v False w) n = ew_vars w n"
    and set_var_done: "n \<in> names \<Longrightarrow> ew_mem w = [] \<Longrightarrow> gs_real_setenv w \<Longrightarrow> ow \<or> ew_vars w n = None \<Longrightarrow>
      ew_vars (set_var n v ow w) n = Some v"
    and set_var_resources: "n \<in> names \<Longrightarrow> ew_mem w = [] \<Longrightarrow> gs_real_setenv w \<Longrightarrow>
      ew_mem (set_var n v ow w) = [] \<and> gs_real_setenv (set_var n v ow w)"
begin

lemma getenv_set_other: "n \<in> names \<Longrightarrow> m \<noteq> n \<Longrightarrow> getenv (set_var n v ow w) m = getenv w m"
  by (simp add: getenv_def set_var_other)

lemma getenv_set_kept: "n \<in> names \<Longrightarrow> getenv w n \<noteq> None \<Longrightarrow> getenv (set_var n v False w) n = getenv w n"
  by (simp add: getenv_def set_var_kept)

lemma getenv_set_done:
  "n \<in> names \<Longrightarrow> ew_mem w = [] \<Longrightarrow> gs_real_setenv w \<Longrightarrow> ow \<or> getenv w n = None \<Longrightarrow> getenv (set_var n v ow w) n = Some v"
  by (simp add: getenv_def set_var_done)

end

lemma libc_setenv_vars:
  "libc_setenv (Some n) (Some v) ow w = (w', r) \<Longrightarrow> ew_vars w' = ew_vars w \<or> ew_vars w' = (ew_vars w)(n \<mapsto> v) \<and> (ow \<or> ew_vars w n = None)"
  by (auto simp: libc_setenv_def set_errno_def split: if_splits prod.splits)

lemma libc_setenv_keeps:
  "libc_setenv nm val ow w = (w', r) \<Longrightarrow> gs_enabled w' = gs_enabled w \<and> gs_self_path w' = gs_self_path w \<and>
     gs_real_setenv w' = gs_real_setenv w \<and> gs_real_unsetenv w' = gs_real_unsetenv w \<and> ew_dlsym w' = ew_dlsym w"
  by (auto simp: libc_setenv_def set_errno_def split: if_splits prod.splits option.splits)

lemma libc_setenv_unlimited:
  "ew_mem w = [] \<Longrightarrow> valid_name n \<Longrightarrow> ow \<or> ew_vars w n = None \<Longrightarrow>
     libc_setenv (Some n) (Some v) ow w = (w\<lparr>ew_vars := (ew_vars w)(n \<mapsto> v)\<rparr>, Success)"
  by (auto simp: libc_setenv_def)

end
