(* ===== verification/Gamescope.thy ===== *)
theory Gamescope
  imports Libc_Env
begin

text \<open>
  Gamescope support: the session detection of \<^verbatim>\<open>protocol/gamescope.rs\<close> and, from
  \<^verbatim>\<open>runtime/src/gamescope.rs\<close>, the walk over the process ancestry in \<^verbatim>\<open>/proc\<close>, the constructor
  \<^verbatim>\<open>linuwux_setup_gamescope\<close> and the interposed \<^verbatim>\<open>setenv\<close> and \<^verbatim>\<open>unsetenv\<close> that keep the
  library in \<^verbatim>\<open>LD_PRELOAD\<close>. The process table, \<^verbatim>\<open>dladdr\<close> and \<^verbatim>\<open>realpath\<close> are parameters.
\<close>

section \<open>Session detection\<close>

definition ANCESTRY_LIMIT :: nat where "ANCESTRY_LIMIT = 64"

definition GAMESCOPE :: bytes where "GAMESCOPE = ascii ''gamescope''"

definition is_gamescope_path :: "bytes \<Rightarrow> bool" where
  "is_gamescope_path path \<longleftrightarrow> last (split_on (\<lambda>b. b = 47) path) = GAMESCOPE"

definition desktop_separator :: "u8 \<Rightarrow> bool" where
  "desktop_separator b \<longleftrightarrow> b = 58 \<or> is_ascii_whitespace b"

text \<open>\<open>while i < list.len() && p(list[i]) { i += 1 }\<close>\<close>

function scan_while :: "('a \<Rightarrow> bool) \<Rightarrow> 'a list \<Rightarrow> nat \<Rightarrow> nat" where
  "scan_while P list i = (if i < length list \<and> P (list ! i) then scan_while P list (i + 1) else i)"
  by auto
termination by (relation "measure (\<lambda>(P, list, i). length list - i)") auto

declare scan_while.simps [simp del]

lemma scan_while_ge: "i \<le> scan_while P list i"
proof (induction P list i rule: scan_while.induct)
  case (1 P list i)
  then show ?case by (subst scan_while.simps) auto
qed

lemma scan_while_progress: "i < length list \<Longrightarrow> P (list ! i) \<Longrightarrow> i < scan_while P list i"
  using scan_while_ge [of "i + 1" P list] by (subst scan_while.simps) simp

function desktop_loop :: "bytes \<Rightarrow> nat \<Rightarrow> bool" where
  "desktop_loop list start = (if start < length list then
     (let start = scan_while desktop_separator list start;
          token_end = scan_while (\<lambda>b. \<not> desktop_separator b) list start in
      if take (token_end - start) (drop start list) = GAMESCOPE then True else desktop_loop list token_end)
     else False)"
  by auto
termination
proof (relation "measure (\<lambda>(list, i). length list - i)", simp, clarsimp)
  fix list :: bytes and i
  let ?s = "scan_while desktop_separator list i" and ?e = "\<lambda>s. scan_while (\<lambda>b. \<not> desktop_separator b) list s"
  assume i: "i < length list"
  have "i < ?e ?s"
  proof (cases "desktop_separator (list ! i)")
    case True
    from scan_while_progress [OF i, of desktop_separator, OF True] scan_while_ge [of ?s "\<lambda>b. \<not> desktop_separator b" list]
    show ?thesis by linarith
  next
    case False
    then have "?s = i" by (simp add: scan_while.simps)
    with scan_while_progress [OF i, of "\<lambda>b. \<not> desktop_separator b"] False show ?thesis by simp
  qed
  with i show "length list - ?e ?s < length list - i" by simp
qed

declare desktop_loop.simps [simp del]

definition desktop_list_has_gamescope :: "bytes \<Rightarrow> bool" where
  "desktop_list_has_gamescope list = desktop_loop list 0"

definition session_has_gamescope :: "bytes \<Rightarrow> bytes \<Rightarrow> bool" where
  "session_has_gamescope current_desktop session_desktop \<longleftrightarrow>
     desktop_list_has_gamescope current_desktop \<or> desktop_list_has_gamescope session_desktop"

section \<open>The preload list\<close>

definition preload_has_path :: "bytes \<Rightarrow> bytes \<Rightarrow> (u8 \<Rightarrow> bool) \<Rightarrow> bool" where
  "preload_has_path list path is_space \<longleftrightarrow>
     path \<noteq> [] \<and> list_ex (\<lambda>token. token = path) (split_on (\<lambda>b. b = 58 \<or> is_space b) list)"

definition USIZE_MAX :: nat where "USIZE_MAX = 2 ^ 64 - 1"

definition preserved_length :: "nat \<Rightarrow> nat \<Rightarrow> nat option" where
  "preserved_length value_length path_length =
     (if path_length > USIZE_MAX \<or> 2 > USIZE_MAX - path_length then None
      else if value_length > USIZE_MAX - path_length - 2 then None
      else Some (value_length + (if value_length \<noteq> 0 then 1 else 0) + path_length + 1))"

section \<open>The parent of a process\<close>

text \<open>\<open>b' ' | b'\t'..=b'\r'\<close>, also C's \<^verbatim>\<open>isspace\<close>.\<close>

definition c_space :: "u8 \<Rightarrow> bool" where
  "c_space b \<longleftrightarrow> b = 32 \<or> 9 \<le> b \<and> b \<le> 13"

definition strip_prefix :: "'a list \<Rightarrow> 'a list \<Rightarrow> 'a list option" where
  "strip_prefix pre xs = (if take (length pre) xs = pre then Some (drop (length pre) xs) else None)"

definition checked_i32 :: "int \<Rightarrow> int option" where
  "checked_i32 n = (if - (2 ^ 31) \<le> n \<and> n < 2 ^ 31 then Some n else None)"

fun digits_i32 :: "int \<Rightarrow> bytes \<Rightarrow> int option" where
  "digits_i32 result [] = Some result"
| "digits_i32 result (b # bs) = Option.bind (checked_i32 (result * 10)) (\<lambda>r.
     Option.bind (checked_i32 (r + int (unat (b - 48)))) (\<lambda>r. digits_i32 r bs))"

definition ppid_value :: "bytes \<Rightarrow> int option" where
  "ppid_value line = Option.bind (strip_prefix (ascii ''PPid:'') line) (\<lambda>value.
     let value = dropWhile c_space value;
         negative = (value \<noteq> [] \<and> hd value = 45);
         value = (if negative \<or> value \<noteq> [] \<and> hd value = 43 then tl value else value);
         digits = takeWhile is_ascii_digit value in
     if digits = [] then None
     else Option.bind (digits_i32 0 digits) (\<lambda>result. if negative \<and> result \<noteq> 0 then None else Some result))"

text \<open>A \<^verbatim>\<open>PPid:\<close> line with digits that do not give a process id ends the search.\<close>

definition ppid_malformed :: "bytes \<Rightarrow> bool" where
  "ppid_malformed line = (case strip_prefix (ascii ''PPid:'') line of None \<Rightarrow> False
     | Some tail \<Rightarrow>
         let tail = dropWhile c_space tail;
             digits = (if tail \<noteq> [] \<and> hd tail \<in> {45, 43} then tl tail else tail) in
         digits \<noteq> [] \<and> is_ascii_digit (hd digits))"

text \<open>\<^verbatim>\<open>fgets\<close> with a buffer of \<open>n + 1\<close> bytes: through the next newline, at most \<open>n\<close> bytes.\<close>

fun fgets :: "nat \<Rightarrow> bytes \<Rightarrow> bytes \<times> bytes" where
  "fgets 0 content = ([], content)"
| "fgets (Suc n) [] = ([], [])"
| "fgets (Suc n) (b # content) = (if b = 10 then ([b], content) else let (line, rest) = fgets n content in (b # line, rest))"

lemma fgets_rest: "fgets n content = (line, rest) \<Longrightarrow> content = line @ rest"
  by (induction n content arbitrary: line rest rule: fgets.induct) (auto split: if_splits prod.splits)

lemma fgets_nonempty: "fst (fgets (Suc n) (b # content)) \<noteq> []"
  by (simp split: prod.splits)

function parent_loop :: "bytes \<Rightarrow> int" where
  "parent_loop content = (if content = [] then - 1 else
     (let (line, rest) = fgets 127 content; text = c_string line in
      case ppid_value text of Some parent \<Rightarrow> parent
      | None \<Rightarrow> if ppid_malformed text then - 1 else parent_loop rest))"
  by auto
termination
proof (relation "measure length", simp)
  fix content :: bytes and p line rest
  assume "content \<noteq> []" and p: "p = fgets 127 content" "(line, rest) = p"
  then obtain b bs where f: "content = b # bs" by (cases content) auto
  have "line \<noteq> []" using p fgets_nonempty [of 126 b bs] unfolding f by (metis fst_conv Suc_numeral add_One numeral_plus_one semiring_norm(2,3,5))
  moreover have "content = line @ rest" using p by (metis fgets_rest)
  ultimately show "(rest, content) \<in> measure length" by simp
qed

declare parent_loop.simps [simp del]

section \<open>The process ancestry\<close>

record proc_env =
  pe_getpid :: int
  pe_readlink :: "bytes \<Rightarrow> bytes option"
  pe_open :: "bytes \<Rightarrow> bytes option"
  pe_dladdr :: "bytes option option"
  pe_realpath :: "bytes \<Rightarrow> bytes option"

definition PATH_MAX :: nat where "PATH_MAX = 4096"

definition display_i32 :: "int \<Rightarrow> bytes list" where
  "display_i32 n = (if n < 0 then [ascii ''-''] else []) @ [decimal (nat \<bar>n\<bar>)]"

text \<open>The \<^verbatim>\<open>Writer\<close>: a piece that does not fit ends the formatting.\<close>

fun write_pieces :: "nat \<Rightarrow> bytes list \<Rightarrow> bytes" where
  "write_pieces room [] = []"
| "write_pieces room (p # ps) = (if length p > room then [] else p @ write_pieces (room - length p) ps)"

definition proc_path :: "int \<Rightarrow> bytes \<Rightarrow> bytes" where
  "proc_path pid suffix = (let text = write_pieces 63 ([ascii ''/proc/''] @ display_i32 pid @ [ascii ''/'', suffix]) in
     text @ replicate (64 - length text) 0)"

definition process_is_gamescope :: "proc_env \<Rightarrow> int \<Rightarrow> bool" where
  "process_is_gamescope e pid = (case pe_readlink e (c_string (proc_path pid (ascii ''exe''))) of None \<Rightarrow> False
     | Some target \<Rightarrow> (let bytes = take (PATH_MAX - 1) target in
         if bytes = [] then False else is_gamescope_path (hd (split_on (\<lambda>b. b = 0) bytes))))"

definition parent_process_id :: "proc_env \<Rightarrow> int \<Rightarrow> int" where
  "parent_process_id e pid = (case pe_open e (c_string (proc_path pid (ascii ''status''))) of None \<Rightarrow> - 1
     | Some content \<Rightarrow> parent_loop content)"

fun ancestor_loop :: "proc_env \<Rightarrow> nat \<Rightarrow> int \<Rightarrow> bool" where
  "ancestor_loop e 0 pid = False"
| "ancestor_loop e (Suc n) pid =
     (if pid \<le> 0 then False
      else if process_is_gamescope e pid then True
      else if pid = 1 then False
      else (let parent = parent_process_id e pid in
        if parent \<le> 0 \<or> parent = pid then False else ancestor_loop e n parent))"

definition has_gamescope_ancestor :: "proc_env \<Rightarrow> bool" where
  "has_gamescope_ancestor e = ancestor_loop e ANCESTRY_LIMIT (pe_getpid e)"

definition is_gamescope_session :: "env_world \<Rightarrow> bool" where
  "is_gamescope_session w = session_has_gamescope
     (case getenv w (ascii ''XDG_CURRENT_DESKTOP'') of None \<Rightarrow> [] | Some v \<Rightarrow> v)
     (case getenv w (ascii ''XDG_SESSION_DESKTOP'') of None \<Rightarrow> [] | Some v \<Rightarrow> v)"

definition gamescope_detected :: "proc_env \<Rightarrow> env_world \<Rightarrow> bool" where
  "gamescope_detected e w \<longleftrightarrow>
     process_is_gamescope e (pe_getpid e) \<or> is_gamescope_session w \<or> has_gamescope_ancestor e"

section \<open>The interposer\<close>

definition resolve_real_setenv :: "env_world \<Rightarrow> bool \<times> env_world" where
  "resolve_real_setenv w =
     (if gs_real_setenv w then (True, w)
      else if \<not> ew_dlsym w (ascii ''setenv'') then (False, set_errno ENOSYS w)
      else (True, w\<lparr>gs_real_setenv := True\<rparr>))"

definition resolve_real_unsetenv :: "env_world \<Rightarrow> bool \<times> env_world" where
  "resolve_real_unsetenv w =
     (if gs_real_unsetenv w then (True, w)
      else if \<not> ew_dlsym w (ascii ''unsetenv'') then (False, set_errno ENOSYS w)
      else (True, w\<lparr>gs_real_unsetenv := True\<rparr>))"

definition resolve_self_path :: "proc_env \<Rightarrow> env_world \<Rightarrow> bool \<times> env_world" where
  "resolve_self_path e w = (case pe_dladdr e of None \<Rightarrow> (False, w)
     | Some None \<Rightarrow> (False, w)
     | Some (Some filename) \<Rightarrow>
         let success = pe_realpath e filename \<noteq> None;
             source = (case pe_realpath e filename of Some r \<Rightarrow> r | None \<Rightarrow> filename) in
         if \<not> success \<and> take 1 source \<noteq> ascii ''/'' \<or> length source \<ge> PATH_MAX then (False, w)
         else (True, w\<lparr>gs_self_path := source\<rparr>))"

definition linuwux_setup_gamescope :: "proc_env \<Rightarrow> env_world \<Rightarrow> env_world" where
  "linuwux_setup_gamescope e w =
     (if \<not> gamescope_detected e w then w
      else let (found, w) = resolve_real_setenv w in if \<not> found then w
      else let (found, w) = resolve_real_unsetenv w in if \<not> found then w
      else let (found, w) = resolve_self_path e w in if found then w\<lparr>gs_enabled := True\<rparr> else w)"

definition LD_PRELOAD :: bytes where "LD_PRELOAD = ascii ''LD_PRELOAD''"

definition fill_preserved :: "bytes \<Rightarrow> bytes \<Rightarrow> bytes \<Rightarrow> bytes option" where
  "fill_preserved destination value path = (let length = length value in
     Option.bind (if length \<noteq> 0
         then Option.bind (copy_to value 0 destination) (copy_to (ascii '':'') length)
         else Some destination)
       (copy_to (with_nul path) (length + (if length \<noteq> 0 then 1 else 0))))"

definition setenv :: "bytes option \<Rightarrow> bytes option \<Rightarrow> bool \<Rightarrow> env_world \<Rightarrow> env_world \<times> libc_result" where
  "setenv name value overwrite w = (let (found, w) = resolve_real_setenv w in
     if \<not> found then (w, Failure)
     else if \<not> (gs_enabled w \<and> name = Some LD_PRELOAD) then libc_setenv name value overwrite w
     else (case value of None \<Rightarrow> libc_setenv name value overwrite w
       | Some contents \<Rightarrow>
         let path = gs_self_path w in
         if preload_has_path contents path c_space \<or> \<not> overwrite \<and> getenv w LD_PRELOAD \<noteq> None
         then libc_setenv name value overwrite w
         else (case preserved_length (length contents) (length path) of
             None \<Rightarrow> (set_errno ENOMEM w, Failure)
           | Some n \<Rightarrow> (case malloc n w of
               (None, w) \<Rightarrow> (w, Failure)
             | (Some block, w) \<Rightarrow> (case fill_preserved block contents path of
                 None \<Rightarrow> (w, Overrun)
               | Some preserved \<Rightarrow> libc_setenv name (Some (c_string preserved)) overwrite w)))))"

definition unsetenv :: "bytes option \<Rightarrow> env_world \<Rightarrow> env_world \<times> libc_result" where
  "unsetenv name w = (let (found, w) = resolve_real_unsetenv w in
     if \<not> found then (w, Failure)
     else if \<not> (gs_enabled w \<and> name = Some LD_PRELOAD) then libc_unsetenv name w
     else let (found, w) = resolve_real_setenv w in
       if \<not> found then (w, Failure)
       else libc_setenv name (Some (gs_self_path w)) True w)"

section \<open>The desktop list as tokens\<close>

lemma scan_while_append:
  "i = length pre \<Longrightarrow> scan_while P (pre @ xs) i = length pre + length (takeWhile P xs)"
proof (induction xs arbitrary: pre i)
  case Nil
  then show ?case by (simp add: scan_while.simps)
next
  case (Cons x xs)
  from Cons.IH [of "length (pre @ [x])" "pre @ [x]"] Cons.prems show ?case by (subst scan_while.simps) simp
qed

lemma split_on_takeWhile:
  "dropWhile (\<lambda>x. \<not> P x) xs = y # ys \<Longrightarrow> split_on P xs = takeWhile (\<lambda>x. \<not> P x) xs # split_on P ys"
proof (induction xs)
  case (Cons x xs)
  then show ?case by (cases "P x") auto
qed simp

lemma split_on_skip: "t \<noteq> [] \<Longrightarrow> t \<in> set (split_on P (dropWhile P xs)) \<longleftrightarrow> t \<in> set (split_on P xs)"
  by (induction xs) (auto split: list.splits)

lemma token_step:
  assumes "t \<noteq> []" and "xs = dropWhile P zs"
  shows "t \<in> set (split_on P zs) \<longleftrightarrow> takeWhile (\<lambda>x. \<not> P x) xs = t \<or> t \<in> set (split_on P (dropWhile (\<lambda>x. \<not> P x) xs))"
proof (cases "dropWhile (\<lambda>x. \<not> P x) xs")
  case Nil
  then have no: "\<forall>x \<in> set xs. \<not> P x" by (simp add: dropWhile_eq_Nil_conv)
  then have "takeWhile (\<lambda>x. \<not> P x) xs = xs" by (simp add: takeWhile_eq_all_conv)
  moreover have "t \<in> set (split_on P zs) \<longleftrightarrow> t \<in> set (split_on P xs)"
    unfolding assms(2) by (rule split_on_skip [OF assms(1), symmetric])
  ultimately show ?thesis using assms(1) by (auto simp only: Nil split_on_no_sep [OF no] split_on.simps list.set)
next
  case (Cons y ys)
  have "P y" using Cons hd_dropWhile [of "\<lambda>x. \<not> P x" xs] by simp
  then show ?thesis
    using split_on_takeWhile [OF Cons] Cons assms split_on_skip [OF assms(1), of P zs] by auto
qed

lemma desktop_loop_tokens:
  "i = length pre \<Longrightarrow> list = pre @ xs \<Longrightarrow> desktop_loop list i \<longleftrightarrow> GAMESCOPE \<in> set (split_on desktop_separator xs)"
proof (induction list i arbitrary: pre xs rule: desktop_loop.induct)
  case (1 list i)
  have ne: "GAMESCOPE \<noteq> []" by (simp add: GAMESCOPE_def)
  show ?case
  proof (cases "xs = []")
    case True
    with 1(2,3) ne show ?thesis by (simp add: desktop_loop.simps)
  next
    case False
    define ys where "ys = dropWhile desktop_separator xs"
    define tok where "tok = takeWhile (\<lambda>b. \<not> desktop_separator b) ys"
    define seps where "seps = takeWhile desktop_separator xs"
    have list: "list = (pre @ seps) @ ys" "ys = tok @ dropWhile (\<lambda>b. \<not> desktop_separator b) ys"
      using 1(3) by (simp_all add: ys_def seps_def tok_def)
    have s: "scan_while desktop_separator list i = length (pre @ seps)"
      using scan_while_append [of i pre desktop_separator xs] 1(2,3) by (simp add: seps_def)
    have e: "scan_while (\<lambda>b. \<not> desktop_separator b) list (length (pre @ seps)) = length (pre @ seps @ tok)"
      unfolding list(1) by (subst scan_while_append) (simp_all add: tok_def)
    have t: "take (length (pre @ seps @ tok) - length (pre @ seps)) (drop (length (pre @ seps)) list) = tok"
      unfolding list(1) using list(2) by (simp add: tok_def takeWhile_eq_take [symmetric])
    have il: "i < length list" using False 1(2,3) by simp
    have rest: "tok \<noteq> GAMESCOPE \<Longrightarrow> desktop_loop list (length (pre @ seps @ tok)) \<longleftrightarrow>
        GAMESCOPE \<in> set (split_on desktop_separator (dropWhile (\<lambda>b. \<not> desktop_separator b) ys))"
      using 1(1) [OF il refl refl, unfolded s e, of "pre @ seps @ tok" "dropWhile (\<lambda>b. \<not> desktop_separator b) ys"] t list by simp
    have "desktop_loop list i \<longleftrightarrow> tok = GAMESCOPE \<or> desktop_loop list (length (pre @ seps @ tok))"
      using il t by (subst desktop_loop.simps) (auto simp only: Let_def s e if_True simp_thms split: if_splits)
    with rest token_step [OF ne ys_def] show ?thesis unfolding tok_def by blast
  qed
qed

section \<open>Parsing the parent\<close>

lemma is_digit_decimal: "n < 10 \<Longrightarrow> is_ascii_digit (of_nat (48 + n)) \<and> unat (of_nat (48 + n) - 48 :: u8) = n"
  by (auto simp: is_ascii_digit_def word_le_nat_alt unat_word_ariths unat_of_nat take_bit_nat_eq_self)

lemma decimal_digits: "\<forall>b \<in> set (decimal n). is_ascii_digit b"
proof (induction n rule: decimal.induct)
  case (1 n)
  then show ?case using is_digit_decimal [of "n mod 10"] is_digit_decimal [of n] by (subst decimal.simps) auto
qed

lemma decimal_nonempty [simp]: "decimal n \<noteq> []"
  by (subst decimal.simps) simp

lemma length_decimal: "n < 10 ^ Suc k \<Longrightarrow> length (decimal n) \<le> Suc k"
proof (induction k arbitrary: n)
  case 0
  then show ?case by (subst decimal.simps) simp
next
  case (Suc k)
  then have "n div 10 < 10 ^ Suc k" by (simp add: less_mult_imp_div_less mult.commute)
  from Suc.IH [OF this] show ?case by (subst decimal.simps) simp
qed

lemma digits_i32_append: "digits_i32 r (xs @ ys) = Option.bind (digits_i32 r xs) (\<lambda>r. digits_i32 r ys)"
  by (induction xs arbitrary: r) (auto split: Option.bind_splits)

lemma digits_i32_decimal: "n < 2 ^ 31 \<Longrightarrow> digits_i32 0 (decimal n) = Some (int n)"
proof (induction n rule: decimal.induct)
  case (1 n)
  show ?case
  proof (cases "n < 10")
    case True
    then show ?thesis using is_digit_decimal [of n] by (subst decimal.simps) (simp add: checked_i32_def)
  next
    case False
    define q r where qr: "q = n div 10" "r = n mod 10"
    then have n: "n = q * 10 + r" "r < 10" by simp_all
    have "digits_i32 0 (decimal q) = Some (int q)" using 1 False by (simp add: qr)
    moreover have "digits_i32 (int q) [of_nat (48 + r)] = Some (int n)"
      using is_digit_decimal [OF n(2)] n 1(2) by (simp add: checked_i32_def)
    ultimately show ?thesis using False by (subst decimal.simps) (simp add: qr digits_i32_append del: digits_i32.simps)
  qed
qed

lemma digit_not_space: "is_ascii_digit b \<Longrightarrow> \<not> c_space b \<and> b \<noteq> 45 \<and> b \<noteq> 43 \<and> b \<noteq> 0 \<and> b \<noteq> 10"
  by (auto simp: is_ascii_digit_def c_space_def word_le_nat_alt)

lemma ppid_value_decimal:
  assumes "n < 2 ^ 31" and "\<forall>b \<in> set sp. c_space b" and "tail = [] \<or> \<not> is_ascii_digit (hd tail)"
  shows "ppid_value (ascii ''PPid:'' @ sp @ decimal n @ tail) = Some (int n)"
proof -
  have d: "\<forall>b \<in> set (decimal n). is_ascii_digit b" by (rule decimal_digits)
  obtain b bs where b: "decimal n = b # bs" by (cases "decimal n") auto
  with d digit_not_space have nb: "\<not> c_space b" "b \<noteq> 45" "b \<noteq> 43" by auto
  have "dropWhile c_space (sp @ decimal n @ tail) = decimal n @ tail"
    using assms(2) nb(1) b by (subst dropWhile_append2) auto
  moreover have "takeWhile is_ascii_digit (decimal n @ tail) = decimal n"
    using d assms(3) by (cases tail) (auto simp: takeWhile_append takeWhile_eq_all_conv)
  ultimately show ?thesis
    using digits_i32_decimal [OF assms(1)] nb b by (simp add: ppid_value_def strip_prefix_def Let_def)
qed

lemma fgets_line: "10 \<notin> set line \<Longrightarrow> length line < n \<Longrightarrow> fgets n (line @ 10 # rest) = (line @ [10], rest)"
proof (induction line arbitrary: n)
  case Nil
  then show ?case by (cases n) auto
next
  case (Cons b line)
  then show ?case by (cases n) (auto split: prod.splits)
qed

lemma parent_loop_skip:
  assumes "is_c_string line" and "10 \<notin> set line" and "length line < 127" and "take 5 line \<noteq> ascii ''PPid:''"
  shows "parent_loop (line @ 10 # rest) = parent_loop rest"
proof -
  have "take 5 (line @ [10]) \<noteq> ascii ''PPid:''"
  proof
    assume t: "take 5 (line @ [10]) = ascii ''PPid:''"
    have "length (take 5 (line @ [10])) = 5" unfolding t by simp
    then consider "length line \<ge> 5" | "length line = 4" by fastforce
    then show False
    proof cases
      case 1 with t assms(4) show ?thesis by simp
    next
      case 2
      with t have "(10 :: u8) \<in> set (ascii ''PPid:'')" by (metis in_set_conv_decomp take_all length_append_singleton eval_nat_numeral(3) order_refl)
      then show ?thesis by simp
    qed
  qed
  then have "strip_prefix (ascii ''PPid:'') (line @ [10]) = None" by (simp add: strip_prefix_def eval_nat_numeral)
  moreover have "c_string (line @ [10]) = line @ [10]"
    using assms(1) by (auto simp: c_string_def is_c_string_def takeWhile_eq_all_conv)
  ultimately show ?thesis using fgets_line [OF assms(2,3), of rest]
    by (subst parent_loop.simps) (simp add: ppid_value_def ppid_malformed_def)
qed

section \<open>The entry in the preload list\<close>

definition preload_separator :: "u8 \<Rightarrow> bool" where
  "preload_separator b \<longleftrightarrow> b = 58 \<or> c_space b"

definition preload_entries :: "bytes \<Rightarrow> bytes set" where
  "preload_entries value = set (split_on preload_separator value) - {[]}"

lemma preload_has_path_iff: "preload_has_path value path c_space \<longleftrightarrow> path \<in> preload_entries value"
  by (auto simp: preload_has_path_def preload_entries_def preload_separator_def [abs_def] list_ex_iff)

lemma fill_preserved_exact:
  assumes "preserved_length (length value) (length path) = Some n" and "length block = n"
    and "is_c_string value" and "is_c_string path"
  obtains out where "fill_preserved block value path = Some out"
    and "c_string out = (if value = [] then path else value @ 58 # path)"
proof -
  have n: "n = length value + (if length value \<noteq> 0 then 1 else 0) + length path + 1"
    using assms(1) by (auto simp: preserved_length_def split: if_splits)
  let ?text = "if value = [] then path else value @ 58 # path"
  have "fill_preserved block value path = Some (with_nul ?text)"
    using assms(2) n by (auto simp: fill_preserved_def copy_to_def with_nul_def Let_def)
  moreover have "c_string (with_nul ?text) = ?text"
    using c_string_with_nul [of ?text "[]"] assms(3,4) by simp
  ultimately show ?thesis using that by blast
qed

lemma preserved_entries:
  assumes "path \<noteq> []" and "\<forall>b \<in> set path. \<not> preload_separator b"
  shows "preload_entries (if value = [] then path else value @ 58 # path) = insert path (preload_entries value)"
proof -
  have "preload_separator 58" by (simp add: preload_separator_def)
  with assms(1) split_on_no_sep [OF assms(2)] show ?thesis by (auto simp: preload_entries_def split_on_append_sep)
qed

lemma resolve_setenv_keeps:
  "resolve_real_setenv w = (b, w') \<Longrightarrow> ew_vars w' = ew_vars w \<and> gs_enabled w' = gs_enabled w \<and> gs_self_path w' = gs_self_path w \<and>
     ew_mem w' = ew_mem w \<and> ew_dlsym w' = ew_dlsym w"
  by (auto simp: resolve_real_setenv_def set_errno_def split: if_splits)

lemma resolve_unsetenv_keeps:
  "resolve_real_unsetenv w = (b, w') \<Longrightarrow> ew_vars w' = ew_vars w \<and> gs_enabled w' = gs_enabled w \<and> gs_self_path w' = gs_self_path w \<and>
     ew_mem w' = ew_mem w \<and> ew_dlsym w' = ew_dlsym w"
  by (auto simp: resolve_real_unsetenv_def set_errno_def split: if_splits)

lemma libc_setenv_preload:
  assumes "libc_setenv (Some n) (Some v) ow w = (w', r)"
  obtains "ew_vars w' n = ew_vars w n" and "r \<noteq> Success \<or> ew_vars w n \<noteq> None \<and> \<not> ow"
  | "ew_vars w' n = Some v" and "r = Success"
  using assms by (auto simp: libc_setenv_def set_errno_def split: if_splits prod.splits)

lemma libc_setenv_result: "libc_setenv nm (Some v) ow w = (w', r) \<Longrightarrow> r \<noteq> Overrun \<and> r \<noteq> Unspecified"
  by (auto simp: libc_setenv_def split: if_splits prod.splits option.splits)

lemma libc_setenv_list:
  assumes l: "libc_setenv (Some LD_PRELOAD) (Some v') ow w1 = (w', r)" and "ew_vars w1 = ew_vars w"
    and e: "preload_entries v' = insert path (preload_entries v) \<or> ew_vars w LD_PRELOAD \<noteq> None \<and> \<not> ow"
  shows "r \<noteq> Overrun \<and> r \<noteq> Unspecified \<and>
    (ew_vars w' LD_PRELOAD = ew_vars w LD_PRELOAD \<and> (r = Success \<longrightarrow> ew_vars w LD_PRELOAD \<noteq> None \<and> \<not> ow) \<or>
     (\<exists>new. ew_vars w' LD_PRELOAD = Some new \<and> preload_entries new = insert path (preload_entries v) \<and> r = Success \<and>
        (ow \<or> ew_vars w LD_PRELOAD = None)))"
proof (cases "ew_vars w LD_PRELOAD \<noteq> None \<and> \<not> ow")
  case True
  with l assms(2) show ?thesis by (auto simp: libc_setenv_def set_errno_def split: if_splits)
next
  case False
  with e have "preload_entries v' = insert path (preload_entries v)" by blast
  with l False assms(2) libc_setenv_result [OF l] show ?thesis by (cases rule: libc_setenv_preload [OF l]) auto
qed

text \<open>What one interposed call does to the list.\<close>

lemma setenv_preload_cases:
  assumes "setenv (Some LD_PRELOAD) (Some v) ow w = (w', r)" and "gs_enabled w" and "is_c_string v"
    and "is_c_string (gs_self_path w)" and "gs_self_path w \<noteq> []" and "\<forall>b \<in> set (gs_self_path w). \<not> preload_separator b"
  shows "r \<noteq> Overrun \<and> r \<noteq> Unspecified \<and>
    (ew_vars w' LD_PRELOAD = ew_vars w LD_PRELOAD \<and> (r = Success \<longrightarrow> ew_vars w LD_PRELOAD \<noteq> None \<and> \<not> ow) \<or>
     (\<exists>new. ew_vars w' LD_PRELOAD = Some new \<and> preload_entries new = insert (gs_self_path w) (preload_entries v) \<and> r = Success \<and>
        (ow \<or> ew_vars w LD_PRELOAD = None)))"
proof -
  obtain found w1 where r1: "resolve_real_setenv w = (found, w1)" by fastforce
  note k1 = resolve_setenv_keeps [OF r1]
  let ?path = "gs_self_path w"
  show ?thesis
  proof (cases "found \<and> \<not> (preload_has_path v ?path c_space \<or> \<not> ow \<and> getenv w1 LD_PRELOAD \<noteq> None)")
    case False
    show ?thesis
    proof (cases found)
      case True
      with False assms(1,2) r1 k1 have l: "libc_setenv (Some LD_PRELOAD) (Some v) ow w1 = (w', r)" by (simp add: setenv_def split: if_splits)
      have "preload_entries v = insert ?path (preload_entries v) \<or> ew_vars w LD_PRELOAD \<noteq> None \<and> \<not> ow"
        using False True k1 by (auto simp: getenv_def preload_has_path_iff)
      with libc_setenv_list [OF l] k1 show ?thesis by blast
    qed (use assms(1) r1 k1 in \<open>simp add: setenv_def\<close>)
  next
    case True
    note go = True
    show ?thesis
    proof (cases "preserved_length (length v) (length ?path)")
      case None
      with go assms(1,2) r1 k1 show ?thesis by (auto simp: setenv_def set_errno_def Let_def)
    next
      case (Some n)
      obtain m w2 where m: "malloc n w1 = (m, w2)" by fastforce
      then obtain ok where "allocate w1 = (ok, w2)" by (auto simp: malloc_def split: prod.splits)
      then have k2: "ew_vars w2 = ew_vars w1" by simp
      show ?thesis
      proof (cases m)
        case None
        with go Some m k1 k2 assms(1,2) r1 show ?thesis by (auto simp: setenv_def Let_def)
      next
        case (Some block)
        with m have "length block = n" by (auto simp: malloc_def split: prod.splits if_splits)
        from fill_preserved_exact [OF \<open>preserved_length _ _ = Some n\<close> this assms(3,4)] obtain out where
          out: "fill_preserved block v ?path = Some out" "c_string out = (if v = [] then ?path else v @ 58 # ?path)" .
        with go Some m k1 \<open>preserved_length _ _ = Some n\<close> assms(1,2) r1
        have l: "libc_setenv (Some LD_PRELOAD) (Some (c_string out)) ow w2 = (w', r)" by (auto simp: setenv_def Let_def)
        have "preload_entries (c_string out) = insert ?path (preload_entries v)"
          using preserved_entries [OF assms(5,6), of v] by (simp only: out(2))
        with libc_setenv_list [OF l, of w ?path v] k1 k2 show ?thesis by simp
      qed
    qed
  qed
qed

section \<open>The interposed calls in sequence\<close>

datatype env_call = Setenv "bytes option" "bytes option" bool | Unsetenv "bytes option"

fun env_call_of :: "env_call \<Rightarrow> env_world \<Rightarrow> env_world \<times> libc_result" where
  "env_call_of (Setenv name value overwrite) w = setenv name value overwrite w"
| "env_call_of (Unsetenv name) w = unsetenv name w"

fun env_calls :: "env_call list \<Rightarrow> env_world \<Rightarrow> env_world" where
  "env_calls [] w = w"
| "env_calls (c # cs) w = env_calls cs (fst (env_call_of c w))"

fun c_strings :: "env_call \<Rightarrow> bool" where
  "c_strings (Setenv name value ow) \<longleftrightarrow> pred_option is_c_string value"
| "c_strings (Unsetenv name) \<longleftrightarrow> True"

text \<open>The library is in the list, and the interposer knows its path.\<close>

definition preload_inv :: "env_world \<Rightarrow> bool" where
  "preload_inv w \<longleftrightarrow> gs_enabled w \<and> is_c_string (gs_self_path w) \<and> gs_self_path w \<noteq> [] \<and>
     (\<forall>b \<in> set (gs_self_path w). \<not> preload_separator b) \<and>
     (\<exists>v. ew_vars w LD_PRELOAD = Some v \<and> gs_self_path w \<in> preload_entries v)"

lemma setenv_cases:
  assumes "setenv nm val ow w = (w', r)" and "resolve_real_setenv w = (found, w1)"
  obtains "w' = w1" | "w' = set_errno ENOMEM w1" | "libc_setenv nm val ow w1 = (w', r)"
    | n b w2 where "val \<noteq> None" and "malloc n w1 = (b, w2)" and "w' = w2"
    | n b w2 v where "val \<noteq> None" and "malloc n w1 = (b, w2)" and "libc_setenv nm (Some v) ow w2 = (w', r)"
proof (cases "found \<and> gs_enabled w1 \<and> nm = Some LD_PRELOAD \<and> val \<noteq> None")
  case False
  with assms that(1,3) show ?thesis by (auto simp: setenv_def split: if_splits)
next
  case True
  then obtain v where v: "val = Some v" "nm = Some LD_PRELOAD" by auto
  consider "preload_has_path v (gs_self_path w1) c_space \<or> \<not> ow \<and> getenv w1 LD_PRELOAD \<noteq> None"
    | "\<not> (preload_has_path v (gs_self_path w1) c_space \<or> \<not> ow \<and> getenv w1 LD_PRELOAD \<noteq> None)" by blast
  then show ?thesis
  proof cases
    case 1
    with assms True v that(3) show ?thesis by (auto simp: setenv_def)
  next
    case 2
    show ?thesis
    proof (cases "preserved_length (length v) (length (gs_self_path w1))")
      case None
      with 2 assms True v that(2) show ?thesis by (auto simp: setenv_def)
    next
      case (Some n)
      obtain m w2 where m: "malloc n w1 = (m, w2)" by fastforce
      with 2 Some assms True v have "(case m of None \<Rightarrow> (w2, Failure) | Some block \<Rightarrow> (case fill_preserved block v (gs_self_path w1) of
          None \<Rightarrow> (w2, Overrun) | Some out \<Rightarrow> libc_setenv nm (Some (c_string out)) ow w2)) = (w', r)"
        by (auto simp: setenv_def split: option.splits)
      with that(4,5) m v show ?thesis by (auto split: option.splits)
    qed
  qed
qed

lemma malloc_keeps:
  "malloc n w = (b, w') \<Longrightarrow> ew_vars w' = ew_vars w \<and> gs_enabled w' = gs_enabled w \<and> gs_self_path w' = gs_self_path w \<and> ew_dlsym w' = ew_dlsym w"
  by (auto simp: malloc_def split: prod.splits)

lemma setenv_keeps:
  assumes "setenv nm val ow w = (w', r)"
  shows "gs_enabled w' = gs_enabled w \<and> gs_self_path w' = gs_self_path w \<and> ew_dlsym w' = ew_dlsym w"
proof -
  obtain found w1 where r1: "resolve_real_setenv w = (found, w1)" by fastforce
  from assms r1 show ?thesis
    using resolve_setenv_keeps [OF r1] by (cases rule: setenv_cases) (auto simp: set_errno_def dest!: malloc_keeps libc_setenv_keeps)
qed

lemma setenv_other_name:
  assumes "setenv (Some n) val ow w = (w', r)" and "n \<noteq> LD_PRELOAD \<or> \<not> gs_enabled w"
  shows "\<exists>found w1. resolve_real_setenv w = (found, w1) \<and>
    (if found then libc_setenv (Some n) val ow w1 = (w', r) else w' = w1 \<and> r = Failure)"
proof -
  obtain found w1 where r1: "resolve_real_setenv w = (found, w1)" by fastforce
  with assms resolve_setenv_keeps [OF r1] show ?thesis by (auto simp: setenv_def split: if_splits)
qed

lemma libc_setenv_other:
  "libc_setenv nm val ow w = (w', r) \<Longrightarrow> m \<noteq> the nm \<or> nm = None \<or> val = None \<Longrightarrow> ew_vars w' m = ew_vars w m"
  by (auto simp: libc_setenv_def set_errno_def split: if_splits option.splits prod.splits)

lemma setenv_other:
  assumes "setenv nm val ow w = (w', r)" and "m \<noteq> the nm \<or> nm = None \<or> val = None"
  shows "ew_vars w' m = ew_vars w m"
proof -
  obtain found w1 where r1: "resolve_real_setenv w = (found, w1)" by fastforce
  from assms(1) r1 show ?thesis
  proof (cases rule: setenv_cases)
    case 3
    from libc_setenv_other [OF 3 assms(2)] resolve_setenv_keeps [OF r1] show ?thesis by simp
  next
    case (5 n b w2 v)
    with assms(2) have "m \<noteq> the nm \<or> nm = None \<or> Some v = None" by blast
    from libc_setenv_other [OF 5(3) this] malloc_keeps [OF 5(2)] resolve_setenv_keeps [OF r1] show ?thesis by simp
  qed (use resolve_setenv_keeps [OF r1] in \<open>auto simp: set_errno_def dest!: malloc_keeps\<close>)
qed

lemma setenv_preload_inv:
  assumes "setenv nm val ow w = (w', r)" and "preload_inv w" and "pred_option is_c_string val"
  shows "preload_inv w'"
proof (cases "nm = Some LD_PRELOAD \<and> val \<noteq> None")
  case True
  then obtain v where v: "nm = Some LD_PRELOAD" "val = Some v" by auto
  from setenv_preload_cases [of v ow w w' r] assms v have "ew_vars w' LD_PRELOAD = ew_vars w LD_PRELOAD \<or>
      (\<exists>new. ew_vars w' LD_PRELOAD = Some new \<and> gs_self_path w \<in> preload_entries new)"
    unfolding preload_inv_def by fastforce
  with assms(2) setenv_keeps [OF assms(1)] show ?thesis unfolding preload_inv_def by auto
next
  case False
  with setenv_other [OF assms(1), of LD_PRELOAD] have "ew_vars w' LD_PRELOAD = ew_vars w LD_PRELOAD" by (cases nm) auto
  with assms(2) setenv_keeps [OF assms(1)] show ?thesis unfolding preload_inv_def by simp
qed

lemma unsetenv_preload_inv:
  assumes "unsetenv nm w = (w', r)" and "preload_inv w"
  shows "preload_inv w'"
proof -
  obtain f1 w1 f2 w2 where r: "resolve_real_unsetenv w = (f1, w1)" "resolve_real_setenv w1 = (f2, w2)" by fastforce
  note k = resolve_unsetenv_keeps [OF r(1)] resolve_setenv_keeps [OF r(2)]
  have i: "preload_inv w1" "preload_inv w2" using assms(2) k unfolding preload_inv_def by simp_all
  have self: "gs_self_path w2 \<in> preload_entries (gs_self_path w2)"
    using i(2) split_on_no_sep [of "gs_self_path w2" preload_separator] unfolding preload_inv_def preload_entries_def by simp
  from assms(1) r i consider "w' = w1" | "w' = w2" | "nm \<noteq> Some LD_PRELOAD" "libc_unsetenv nm w1 = (w', r)"
    | "libc_setenv (Some LD_PRELOAD) (Some (gs_self_path w2)) True w2 = (w', r)"
    unfolding unsetenv_def preload_inv_def by (auto split: if_splits)
  then show ?thesis
  proof cases
    case 3
    with i(1) show ?thesis by (auto simp: libc_unsetenv_def set_errno_def preload_inv_def split: option.splits if_splits)
  next
    case 4
    from libc_setenv_vars [OF 4] libc_setenv_keeps [OF 4] i(2) self show ?thesis unfolding preload_inv_def by auto
  qed (use i in auto)
qed

lemma env_call_inv: "preload_inv w \<Longrightarrow> c_strings c \<Longrightarrow> preload_inv (fst (env_call_of c w))"
proof (cases c)
  case (Setenv nm val ow)
  assume "preload_inv w" and "c_strings c"
  then show ?thesis using setenv_preload_inv [of nm val ow w] Setenv by (cases "setenv nm val ow w") simp
next
  case (Unsetenv nm)
  assume "preload_inv w"
  then show ?thesis using unsetenv_preload_inv [of nm w] Unsetenv by (cases "unsetenv nm w") simp
qed

section \<open>The interposed environment for the other start-up code\<close>

definition setenv_var :: "bytes \<Rightarrow> bytes \<Rightarrow> bool \<Rightarrow> env_world \<Rightarrow> env_world" where
  "setenv_var name value overwrite w = fst (setenv (Some name) (Some value) overwrite w)"

definition plain_names :: "bytes set" where
  "plain_names = {n. valid_name n \<and> n \<noteq> LD_PRELOAD}"

lemma setenv_var_plain:
  assumes "n \<in> plain_names"
  shows "\<exists>w1. ew_vars w1 = ew_vars w \<and> ew_mem w1 = ew_mem w \<and> (gs_real_setenv w \<longrightarrow> w1 = w) \<and>
    (setenv_var n v ow w = w1 \<and> \<not> gs_real_setenv w \<or> setenv_var n v ow w = fst (libc_setenv (Some n) (Some v) ow w1))"
proof -
  obtain w' r where r: "setenv (Some n) (Some v) ow w = (w', r)" by fastforce
  from setenv_other_name [OF this] assms obtain found w1 where
    f: "resolve_real_setenv w = (found, w1)" "if found then libc_setenv (Some n) (Some v) ow w1 = (w', r) else w' = w1 \<and> r = Failure"
    by (auto simp: plain_names_def)
  then have "gs_real_setenv w \<longrightarrow> w1 = w \<and> found" by (auto simp: resolve_real_setenv_def split: if_splits)
  with f r resolve_setenv_keeps [OF f(1)] show ?thesis by (intro exI [of _ w1]) (auto simp: setenv_var_def split: if_splits)
qed

interpretation gs: env_store setenv_var plain_names
proof
  fix n m v ow and w :: env_world
  assume n: "n \<in> plain_names"
  from setenv_var_plain [OF n, of w v ow] obtain w1 where w1: "ew_vars w1 = ew_vars w"
      "setenv_var n v ow w = w1 \<or> setenv_var n v ow w = fst (libc_setenv (Some n) (Some v) ow w1)" by blast
  obtain w2 r where l: "libc_setenv (Some n) (Some v) ow w1 = (w2, r)" by fastforce
  show "ew_vars (setenv_var n v ow w) n \<in> {Some v, ew_vars w n}" using w1 libc_setenv_vars [OF l] l by auto
  assume "m \<noteq> n"
  then show "ew_vars (setenv_var n v ow w) m = ew_vars w m" using w1 libc_setenv_vars [OF l] l by auto
next
  fix n v and w :: env_world
  assume n: "n \<in> plain_names" and s: "ew_vars w n \<noteq> None"
  from setenv_var_plain [OF n, of w v False] obtain w1 where w1: "ew_vars w1 = ew_vars w"
      "setenv_var n v False w = w1 \<or> setenv_var n v False w = fst (libc_setenv (Some n) (Some v) False w1)" by blast
  obtain w2 r where l: "libc_setenv (Some n) (Some v) False w1 = (w2, r)" by fastforce
  show "ew_vars (setenv_var n v False w) n = ew_vars w n" using w1 s libc_setenv_vars [OF l] l by auto
next
  fix n v ow and w :: env_world
  assume n: "n \<in> plain_names" and m: "ew_mem w = []" "gs_real_setenv w" "ow \<or> ew_vars w n = None"
  then have "setenv_var n v ow w = fst (libc_setenv (Some n) (Some v) ow w)" using setenv_var_plain [OF n, of w v ow] by auto
  with libc_setenv_unlimited [OF m(1) _ m(3), of v] n m
  show "ew_vars (setenv_var n v ow w) n = Some v"
    by (simp add: plain_names_def)
next
  fix n v ow and w :: env_world
  assume n: "n \<in> plain_names" and m: "ew_mem w = []" "gs_real_setenv w"
  then have "setenv_var n v ow w = fst (libc_setenv (Some n) (Some v) ow w)" using setenv_var_plain [OF n, of w v ow] by auto
  then show "ew_mem (setenv_var n v ow w) = [] \<and> gs_real_setenv (setenv_var n v ow w)"
    using m by (auto simp: libc_setenv_def set_errno_def)
qed

section \<open>Properties\<close>

text \<open>
  C32: the library stays preloaded. Once the interposer is enabled and \<^verbatim>\<open>LD_PRELOAD\<close> lists the
  library, no sequence of \<^verbatim>\<open>setenv\<close> and \<^verbatim>\<open>unsetenv\<close> calls on any names and values, with
  allocations failing at will, takes it out of the list or the list out of the environment.
\<close>

theorem preload_survives_calls:
  assumes "preload_inv w" and "\<forall>c \<in> set calls. c_strings c"
  shows "preload_inv (env_calls calls w)"
  using assms by (induction calls arbitrary: w) (auto simp: env_call_inv)

definition sample_world :: env_world where
  "sample_world = \<lparr>ew_vars = [LD_PRELOAD \<mapsto> ascii ''/l.so''], ew_mem = [], ew_fill = 7, ew_errno = 0, ew_dlsym = (\<lambda>_. True),
     gs_enabled = True, gs_self_path = ascii ''/l.so'', gs_real_setenv = True, gs_real_unsetenv = True\<rparr>"

lemma sample_world_inv: "preload_inv sample_world"
  by (simp add: preload_inv_def sample_world_def preload_entries_def preload_separator_def c_space_def word_le_nat_alt)

theorem preload_survives_calls_witness:
  "preload_inv (env_calls [Setenv (Some LD_PRELOAD) (Some (ascii ''/a.so'')) True, Unsetenv (Some LD_PRELOAD)] sample_world)"
  by (rule preload_survives_calls [OF sample_world_inv]) simp

text \<open>
  What an interposed \<^verbatim>\<open>setenv(LD_PRELOAD, value)\<close> leaves. It never writes past its block; a
  call that fails, and one that may not overwrite, changes nothing; any other call leaves
  exactly the entries of the requested value and the library itself.
\<close>

lemma preload_set_exactly:
  assumes "setenv (Some LD_PRELOAD) (Some v) ow w = (w', r)" and "gs_enabled w" and "is_c_string v"
    and "is_c_string (gs_self_path w)" and "gs_self_path w \<noteq> []" and "\<forall>b \<in> set (gs_self_path w). \<not> preload_separator b"
  shows "r \<in> {Success, Failure} \<and>
    (if r = Success \<and> (ow \<or> ew_vars w LD_PRELOAD = None)
     then (\<exists>new. ew_vars w' LD_PRELOAD = Some new \<and> preload_entries new = insert (gs_self_path w) (preload_entries v))
     else ew_vars w' LD_PRELOAD = ew_vars w LD_PRELOAD) \<and>
    (\<forall>n. n = LD_PRELOAD \<or> ew_vars w' n = ew_vars w n)"
proof -
  have "n = LD_PRELOAD \<or> ew_vars w' n = ew_vars w n" for n using setenv_other [OF assms(1), of n] by auto
  with setenv_preload_cases [OF assms] show ?thesis by (cases r) auto
qed

text \<open>
  A desktop list names Gamescope exactly when \<^verbatim>\<open>gamescope\<close> is one of its tokens, for any
  mixture of colons and blanks between them; the scan ends on every list.
\<close>

lemma desktop_list_tokens:
  "desktop_list_has_gamescope list \<longleftrightarrow> GAMESCOPE \<in> set (split_on desktop_separator list)"
  unfolding desktop_list_has_gamescope_def by (rule desktop_loop_tokens) simp_all

text \<open>The \<open>k\<close>-th ancestor the walk may look at.\<close>

fun nth_ancestor :: "proc_env \<Rightarrow> nat \<Rightarrow> int \<Rightarrow> int option" where
  "nth_ancestor e 0 pid = (if pid \<le> 0 then None else Some pid)"
| "nth_ancestor e (Suc k) pid =
     (if pid \<le> 1 \<or> parent_process_id e pid = pid then None else nth_ancestor e k (parent_process_id e pid))"

lemma nth_ancestor_positive: "nth_ancestor e k pid = Some p \<Longrightarrow> 0 < pid \<and> 0 < p"
  by (induction k arbitrary: pid) (auto split: if_splits)

lemma ancestor_loop_iff:
  "ancestor_loop e n pid \<longleftrightarrow> (\<exists>k < n. \<exists>p. nth_ancestor e k pid = Some p \<and> process_is_gamescope e p)"
proof (induction n arbitrary: pid)
  case (Suc n)
  have pos: "\<not> (\<exists>p. nth_ancestor e k q = Some p)" if "q \<le> 0" for k q
    using that nth_ancestor_positive [of e k q] by fastforce
  show ?case
  proof (cases "pid \<le> 0 \<or> process_is_gamescope e pid \<or> pid = 1")
    case True
    then show ?thesis by (auto simp: Ex_less_Suc2 pos)
  next
    case False
    then show ?thesis using pos [of "parent_process_id e pid"] by (auto simp: Suc.IH Ex_less_Suc2 Let_def)
  qed
qed simp

lemma proc_path_text:
  assumes "0 \<le> pid" and "pid < 2 ^ 31" and "is_c_string suffix" and "length suffix \<le> 6"
  shows "c_string (proc_path pid suffix) = ascii ''/proc/'' @ decimal (nat pid) @ ascii ''/'' @ suffix"
proof -
  have l: "length (decimal (nat pid)) \<le> 10" using assms(1,2) length_decimal [of "nat pid" 9] by simp
  have "is_c_string (decimal (nat pid))" using decimal_digits [of "nat pid"] by (auto simp: is_c_string_def is_ascii_digit_def)
  with assms l have "c_string (with_nul (ascii ''/proc/'' @ decimal (nat pid) @ ascii ''/'' @ suffix) @ rest) =
      ascii ''/proc/'' @ decimal (nat pid) @ ascii ''/'' @ suffix" for rest
    by (intro c_string_with_nul) simp
  moreover have "replicate (64 - length (ascii ''/proc/'' @ decimal (nat pid) @ ascii ''/'' @ suffix)) (0 :: u8) =
      0 # replicate (63 - length (ascii ''/proc/'' @ decimal (nat pid) @ ascii ''/'' @ suffix)) 0"
    using l assms(4) by (subst Suc_diff_le [symmetric, THEN arg_cong [of _ _ "\<lambda>n. replicate n 0"], simplified]) auto
  moreover have "write_pieces 63 ([ascii ''/proc/''] @ display_i32 pid @ [ascii ''/'', suffix]) = ascii ''/proc/'' @ decimal (nat pid) @ ascii ''/'' @ suffix"
    using assms l by (auto simp: display_i32_def)
  ultimately show ?thesis by (simp add: proc_path_def with_nul_def Let_def)
qed

text \<open>
  The parent process id is the one of the status file. When \<^verbatim>\<open>/proc/<pid>/status\<close> has the
  line \<^verbatim>\<open>PPid:\<close> with a decimal 31-bit number after lines that fit the buffer and are not such
  a line, the parent read back is that number.
\<close>

lemma parent_from_status:
  assumes "0 \<le> pid" and "pid < 2 ^ 31" and "n < 2 ^ 31"
    and "\<forall>line \<in> set lines. is_c_string line \<and> 10 \<notin> set line \<and> length line < 127 \<and> take 5 line \<noteq> ascii ''PPid:''"
    and "pe_open e (ascii ''/proc/'' @ decimal (nat pid) @ ascii ''/status'') =
      Some (concat (map (\<lambda>line. line @ [10]) lines) @ ascii ''PPid:'' @ 9 # decimal n @ 10 # rest)"
  shows "parent_process_id e pid = int n"
proof -
  let ?file = "concat (map (\<lambda>line. line @ [10]) lines) @ ascii ''PPid:'' @ 9 # decimal n @ 10 # rest"
  let ?line = "ascii ''PPid:'' @ 9 # decimal n"
  have d: "10 \<notin> set (decimal n)" "is_c_string (decimal n)" using decimal_digits [of n] by (auto simp: is_c_string_def is_ascii_digit_def word_le_nat_alt)
  have len: "length (decimal n) \<le> 10" using length_decimal [of n 9] assms(3) by simp
  have "parent_loop (?line @ 10 # rest) = int n"
  proof -
    have f: "fgets 127 (?line @ 10 # rest) = (?line @ [10], rest)" by (rule fgets_line) (use d len in auto)
    have "c_string (?line @ [10]) = ?line @ [10]" using d(2) by (auto simp: c_string_def is_c_string_def takeWhile_eq_all_conv)
    moreover have "ppid_value (?line @ [10]) = Some (int n)"
      using ppid_value_decimal [OF assms(3), of "[9]" "[10]"] by (simp add: c_space_def is_ascii_digit_def word_le_nat_alt)
    ultimately show ?thesis using f by (subst parent_loop.simps) simp
  qed
  moreover have "parent_loop (concat (map (\<lambda>line. line @ [10]) lines) @ more) = parent_loop more" for more
    using assms(4) by (induction lines) (auto simp: parent_loop_skip)
  ultimately have "parent_loop ?file = int n" by simp
  with assms(5) proc_path_text [OF assms(1,2), of "ascii ''status''"] show ?thesis by (simp add: parent_process_id_def)
qed

end
