(* ===== verification/Registry.thy ===== *)
theory Registry
  imports Gamescope
begin

text \<open>
  The \<^verbatim>\<open>HwProfileGuid\<close> writer of \<^verbatim>\<open>runtime/src/registry.rs\<close>: the check that \<^verbatim>\<open>system.reg\<close> is
  a Wine registry, the byte-wise search for the key through a 64-byte window, and
  \<^verbatim>\<open>init_registry\<close>, which appends the section once. Files, locks and the outcomes of the
  stdio calls are explicit.
\<close>

section \<open>Constants\<close>

definition REGISTRY_NAME :: bytes where "REGISTRY_NAME = ascii ''/system.reg''"
definition DONE_ENV :: bytes where "DONE_ENV = ascii ''LINUWUX_HWPROFILE''"
definition WINE_REGISTRY_MAGIC :: bytes where "WINE_REGISTRY_MAGIC = ascii ''WINE REGISTRY''"

text \<open>A registry file writes a backslash twice; 92 is a backslash and 34 a quote.\<close>

definition PROFILE_MARKER :: bytes where
  "PROFILE_MARKER = ascii ''Hardware Profiles'' @ [92, 92] @ ascii ''0001''"

definition GUID_MARKER :: bytes where "GUID_MARKER = ascii ''HwProfileGuid''"

definition REGISTRY_SECTION :: bytes where
  "REGISTRY_SECTION = [10] @ ascii ''[System'' @ [92, 92] @ ascii ''CurrentControlSet'' @ [92, 92] @ ascii ''Control'' @ [92, 92] @
     ascii ''IDConfigDB'' @ [92, 92] @ ascii ''Hardware Profiles'' @ [92, 92] @ ascii ''0001]'' @ [10] @
     [34] @ ascii ''HwProfileGuid'' @ [34] @ ascii ''='' @ [34] @ ascii ''{12345678-1234-1234-1234-123456789012}'' @ [34, 10]"

section \<open>Searching the file\<close>

definition registry_file_is_valid :: "bytes \<Rightarrow> bool" where
  "registry_file_is_valid content = (let header = take 64 content in
     length header \<ge> length WINE_REGISTRY_MAGIC \<and> take (length WINE_REGISTRY_MAGIC) header = WINE_REGISTRY_MAGIC)"

text \<open>The filled part of the window, and whether the profile marker has been seen.\<close>

type_synonym scan_state = "bytes \<times> bool"

definition WINDOW :: nat where "WINDOW = 64"

definition scan_byte :: "scan_state \<Rightarrow> u8 \<Rightarrow> scan_state \<times> bool" where
  "scan_byte s byte = (case s of (filled, in_profile) \<Rightarrow>
     let filled = (if length filled = WINDOW then tl filled else filled) @ [byte] in
     if \<not> in_profile then
       (if contains filled PROFILE_MARKER then (([], True), False) else ((filled, False), False))
     else ((filled, True), contains filled GUID_MARKER))"

fun scan_block :: "scan_state \<Rightarrow> bytes \<Rightarrow> scan_state \<times> bool" where
  "scan_block s [] = (s, False)"
| "scan_block s (b # bs) = (let (s, found) = scan_byte s b in if found then (s, True) else scan_block s bs)"

text \<open>The loop over \<^verbatim>\<open>fread\<close> blocks of 4096 bytes.\<close>

function scan_blocks :: "scan_state \<Rightarrow> bytes \<Rightarrow> bool" where
  "scan_blocks s content = (if content = [] then False
     else let (s, found) = scan_block s (take 4096 content) in if found then True else scan_blocks s (drop 4096 content))"
  by auto
termination by (relation "measure (\<lambda>(s, content). length content)") auto

declare scan_blocks.simps [simp del]

definition registry_already_present :: "bytes \<Rightarrow> bool" where
  "registry_already_present content = scan_blocks ([], False) content"

section \<open>Writing the section\<close>

text \<open>
  What the system calls answer: which paths exist and can be opened, whether the lock and the
  seek succeed, how much of the file can be read, how many bytes \<^verbatim>\<open>fwrite\<close> accepts, and how
  many of them the later flush brings into the file.
\<close>

record reg_env =
  re_access :: "bytes \<Rightarrow> bool"
  re_fopen :: "bytes \<Rightarrow> bool"
  re_flock :: bool
  re_fread :: nat
  re_fseek :: bool
  re_fwrite :: nat
  re_fflush :: nat

record reg_world =
  rw_file :: bytes
  rw_locked :: bool
  rw_handles :: nat

definition close_file :: "reg_world \<Rightarrow> reg_world" where
  "close_file r = r\<lparr>rw_handles := rw_handles r - 1\<rparr>"

definition unlock_and_close :: "reg_world \<Rightarrow> reg_world" where
  "unlock_and_close r = close_file (r\<lparr>rw_locked := False\<rparr>)"

definition mark_done :: "env_world \<Rightarrow> env_world" where
  "mark_done w = setenv_var DONE_ENV (ascii ''1'') True w"

text \<open>With the file open and locked: check it, look for the key, append the section.\<close>

definition append_section :: "reg_env \<Rightarrow> env_world \<Rightarrow> reg_world \<Rightarrow> env_world \<times> reg_world" where
  "append_section e w r =
     (if \<not> re_fseek e then (w, unlock_and_close r)
      else let written = min (re_fwrite e) (length REGISTRY_SECTION);
               flushed = min (re_fflush e) written;
               r = unlock_and_close (r\<lparr>rw_file := rw_file r @ take flushed REGISTRY_SECTION\<rparr>) in
        (if written = length REGISTRY_SECTION then mark_done w else w, r))"

definition update_registry :: "reg_env \<Rightarrow> env_world \<Rightarrow> reg_world \<Rightarrow> env_world \<times> reg_world" where
  "update_registry e w r = (let content = take (re_fread e) (rw_file r) in
     if \<not> registry_file_is_valid content then (w, unlock_and_close r)
     else if registry_already_present content then (mark_done w, unlock_and_close r)
     else append_section e w r)"

definition init_registry :: "reg_env \<Rightarrow> env_world \<Rightarrow> reg_world \<Rightarrow> env_world \<times> reg_world" where
  "init_registry e w r =
     (if getenv w DONE_ENV \<noteq> None then (w, r)
      else (case getenv w (ascii ''WINEPREFIX'') of None \<Rightarrow> (w, r)
      | Some prefix \<Rightarrow>
        if length prefix + length (with_nul REGISTRY_NAME) > PATH_MAX then (w, r)
        else let path = prefix @ REGISTRY_NAME in
        if \<not> re_access e path then (w, r)
        else if \<not> re_fopen e path then (w, r)
        else let r = r\<lparr>rw_handles := rw_handles r + 1\<rparr> in
        if \<not> re_flock e then (w, close_file r)
        else update_registry e w (r\<lparr>rw_locked := True\<rparr>)))"

section \<open>The window sees what the file holds\<close>

definition window_of :: "bytes \<Rightarrow> bytes" where
  "window_of p = drop (length p - WINDOW) p"

lemma window_step:
  "(if length (window_of p) = WINDOW then tl (window_of p) else window_of p) @ [x] = window_of (p @ [x])"
proof (cases "length p < WINDOW")
  case True
  then show ?thesis by (simp add: window_of_def)
next
  case False
  then have "length (p @ [x]) - WINDOW = Suc (length p - WINDOW)" by simp
  with False show ?thesis by (auto simp: window_of_def tl_drop drop_Suc WINDOW_def)
qed

lemma new_match_at_end:
  assumes "\<not> contains p needle" and "contains (p @ [x]) needle"
  obtains a where "p @ [x] = a @ needle"
proof -
  from assms(2) obtain a c where e: "p @ [x] = a @ needle @ c" by (auto simp: contains_iff)
  show ?thesis
  proof (cases c rule: rev_cases)
    case Nil
    with e that show ?thesis by simp
  next
    case (snoc c' y)
    with e have "p = a @ needle @ c'" by simp
    with assms(1) show ?thesis by (auto simp: contains_iff)
  qed
qed

lemma contains_window:
  assumes "\<not> contains p needle" and "length needle \<le> WINDOW"
  shows "contains (window_of (p @ [x])) needle \<longleftrightarrow> contains (p @ [x]) needle"
proof
  assume "contains (window_of (p @ [x])) needle"
  then show "contains (p @ [x]) needle"
    by (metis append_take_drop_id contains_append_left window_of_def)
next
  assume "contains (p @ [x]) needle"
  with assms(1) obtain a where a: "p @ [x] = a @ needle" by (rule new_match_at_end)
  then have "window_of (p @ [x]) = drop (length (p @ [x]) - WINDOW) a @ needle"
    using assms(2) by (simp add: window_of_def)
  then show "contains (window_of (p @ [x])) needle" unfolding contains_iff by (metis append_Nil2)
qed

lemma markers_fit: "length PROFILE_MARKER \<le> WINDOW" "length GUID_MARKER \<le> WINDOW" "PROFILE_MARKER \<noteq> []" "GUID_MARKER \<noteq> []"
  by (simp_all add: PROFILE_MARKER_def GUID_MARKER_def WINDOW_def)

lemma scan_for_guid:
  "\<not> contains p GUID_MARKER \<Longrightarrow> snd (scan_block (window_of p, True) xs) \<longleftrightarrow> contains (p @ xs) GUID_MARKER"
proof (induction xs arbitrary: p)
  case (Cons x xs)
  have step: "scan_byte (window_of p, True) x = ((window_of (p @ [x]), True), contains (p @ [x]) GUID_MARKER)"
    using contains_window [OF Cons.prems markers_fit(2), of x] window_step [of p x] by (simp add: scan_byte_def Let_def)
  show ?case
  proof (cases "contains (p @ [x]) GUID_MARKER")
    case True
    with step contains_append_right [OF True, of xs] show ?thesis by simp
  next
    case False
    from Cons.IH [OF this] step False show ?thesis by simp
  qed
qed simp

lemma after_first_match:
  assumes "\<not> contains p needle" and "contains (p @ [x]) needle" and "needle \<noteq> []"
  shows "(\<exists>a b. p @ x # xs = a @ needle @ b \<and> contains b key) \<longleftrightarrow> contains xs key"
proof
  from assms(1,2) obtain a where a: "p @ [x] = a @ needle" by (rule new_match_at_end)
  assume "contains xs key"
  moreover have "p @ x # xs = a @ needle @ xs" using a by (metis append.assoc append_Cons append_Nil)
  ultimately show "\<exists>a b. p @ x # xs = a @ needle @ b \<and> contains b key" by blast
next
  assume "\<exists>a b. p @ x # xs = a @ needle @ b \<and> contains b key"
  then obtain a b where ab: "(p @ [x]) @ xs = (a @ needle) @ b" "contains b key" by auto
  have "length p < length (a @ needle)"
  proof (rule ccontr)
    assume "\<not> length p < length (a @ needle)"
    then have "length (a @ needle) \<le> length p" by simp
    moreover have "take (length p) ((p @ [x]) @ xs) = p" by simp
    ultimately have "p = (a @ needle) @ take (length p - length (a @ needle)) b" unfolding ab(1) by simp
    then show False using assms(1) by (metis append.assoc contains_iff)
  qed
  then have "length (p @ [x]) \<le> length (a @ needle)" by simp
  with ab(1) obtain c where "xs = c @ b" by (metis append_eq_append_conv_if append_take_drop_id)
  with ab(2) show "contains xs key" by (simp add: contains_append_left)
qed

lemma scan_for_profile:
  "\<not> contains p PROFILE_MARKER \<Longrightarrow> snd (scan_block (window_of p, False) xs) \<longleftrightarrow>
     (\<exists>a b. p @ xs = a @ PROFILE_MARKER @ b \<and> contains b GUID_MARKER)"
proof (induction xs arbitrary: p)
  case Nil
  then show ?case by (auto simp: contains_iff)
next
  case (Cons x xs)
  have step: "scan_byte (window_of p, False) x =
      (if contains (p @ [x]) PROFILE_MARKER then (([], True), False) else ((window_of (p @ [x]), False), False))"
    using contains_window [OF Cons.prems markers_fit(1), of x] window_step [of p x] by (simp add: scan_byte_def Let_def)
  show ?case
  proof (cases "contains (p @ [x]) PROFILE_MARKER")
    case True
    with step have "snd (scan_block (window_of p, False) (x # xs)) = contains xs GUID_MARKER"
      using scan_for_guid [of "[]" xs] markers_fit(4) by (simp add: window_of_def)
    with after_first_match [OF Cons.prems True markers_fit(3)] show ?thesis by simp
  next
    case False
    from Cons.IH [OF this] step False show ?thesis by simp
  qed
qed

lemma scan_block_append:
  "scan_block s (xs @ ys) = (let (s', found) = scan_block s xs in if found then (s', True) else scan_block s' ys)"
  by (induction xs arbitrary: s) (auto split: prod.splits)

lemma scan_blocks_eq: "scan_blocks s content = snd (scan_block s content)"
proof (induction s content rule: scan_blocks.induct)
  case (1 s content)
  show ?case
  proof (cases "content = []")
    case False
    obtain s' found where sf: "scan_block s (take 4096 content) = (s', found)" by fastforce
    have "snd (scan_block s content) = (found \<or> snd (scan_block s' (drop 4096 content)))"
      using scan_block_append [of s "take 4096 content" "drop 4096 content"] sf by simp
    moreover have "\<not> found \<Longrightarrow> scan_blocks s' (drop 4096 content) = snd (scan_block s' (drop 4096 content))"
      using 1 [OF False sf [symmetric]] by simp
    ultimately show ?thesis using False sf by (subst scan_blocks.simps) auto
  qed (simp add: scan_blocks.simps)
qed

lemma already_present_iff:
  "registry_already_present content \<longleftrightarrow> (\<exists>a b. content = a @ PROFILE_MARKER @ b \<and> contains b GUID_MARKER)"
  using scan_for_profile [of "[]" content] markers_fit(3) unfolding registry_already_present_def scan_blocks_eq
  by (simp add: window_of_def)

section \<open>One run\<close>

lemma done_env_plain: "DONE_ENV \<in> plain_names"
  by (simp add: DONE_ENV_def plain_names_def valid_name_def LD_PRELOAD_def)

lemma mark_done_other: "n \<noteq> DONE_ENV \<Longrightarrow> getenv (mark_done w) n = getenv w n"
  unfolding mark_done_def by (rule gs.getenv_set_other [OF done_env_plain])

text \<open>The ways a run can end; the file and the environment change in the last two only.\<close>

lemma init_registry_cases:
  assumes "init_registry e w r = (w', r')" and "\<not> rw_locked r"
  obtains (nothing) "w' = w" and "r' = r"
  | (present) "getenv w DONE_ENV = None" and "w' = mark_done w" and "r' = r" and "registry_file_is_valid (take (re_fread e) (rw_file r))"
      and "registry_already_present (take (re_fread e) (rw_file r))"
  | (written) written where "getenv w DONE_ENV = None" and "written = min (re_fwrite e) (length REGISTRY_SECTION)"
      and "w' = (if written = length REGISTRY_SECTION then mark_done w else w)"
      and "r' = r\<lparr>rw_file := rw_file r @ take (min (re_fflush e) written) REGISTRY_SECTION\<rparr>"
      and "registry_file_is_valid (take (re_fread e) (rw_file r))" and "\<not> registry_already_present (take (re_fread e) (rw_file r))"
proof -
  let ?content = "take (re_fread e) (rw_file r)" and ?written = "min (re_fwrite e) (length REGISTRY_SECTION)"
  let ?locked = "r\<lparr>rw_handles := rw_handles r + 1, rw_locked := True\<rparr>"
  have closed: "close_file (r\<lparr>rw_handles := rw_handles r + 1\<rparr>) = r" "unlock_and_close ?locked = r"
    "unlock_and_close (?locked\<lparr>rw_file := f\<rparr>) = r\<lparr>rw_file := f\<rparr>" "rw_file ?locked = rw_file r" for f
    using assms(2) by (simp_all add: close_file_def unlock_and_close_def)
  have "init_registry e w r = (w, r) \<or> getenv w DONE_ENV = None \<and> init_registry e w r = update_registry e w ?locked"
    unfolding init_registry_def Let_def closed by (cases "getenv w (ascii ''WINEPREFIX'')") simp_all
  with assms(1) consider "w' = w" "r' = r" | "getenv w DONE_ENV = None" "update_registry e w ?locked = (w', r')" by auto
  then show ?thesis
  proof cases
    case 2
    from 2(2) consider "w' = w" "r' = r" | "registry_file_is_valid ?content" "registry_already_present ?content" "w' = mark_done w" "r' = r"
      | "registry_file_is_valid ?content" "\<not> registry_already_present ?content" "append_section e w ?locked = (w', r')"
      unfolding update_registry_def Let_def closed by (auto split: if_splits)
    then show ?thesis
    proof cases
      case 3
      from 3(3) consider "w' = w" "r' = r" | "w' = (if ?written = length REGISTRY_SECTION then mark_done w else w)"
        "r' = r\<lparr>rw_file := rw_file r @ take (min (re_fflush e) ?written) REGISTRY_SECTION\<rparr>"
        unfolding append_section_def Let_def closed by (cases "re_fseek e") simp_all
      then show ?thesis
        using that(1) that(3) [OF 2(1) refl _ _ 3(1,2)] by cases blast+
    qed (use that(1,2) 2(1) in blast)+
  qed (use that(1) in blast)
qed

lemma section_present: "registry_already_present (content @ REGISTRY_SECTION)"
proof -
  have "REGISTRY_SECTION = take 50 REGISTRY_SECTION @ PROFILE_MARKER @ drop 73 REGISTRY_SECTION"
    by (simp add: REGISTRY_SECTION_def PROFILE_MARKER_def)
  moreover have "contains (drop 73 REGISTRY_SECTION) GUID_MARKER"
    by (simp add: REGISTRY_SECTION_def GUID_MARKER_def)
  ultimately show ?thesis unfolding already_present_iff by (metis append.assoc)
qed

section \<open>Properties\<close>

text \<open>
  The search through the 64-byte window, block by block, finds the key exactly when the
  file holds the profile marker and, anywhere after it, the name of the value; a marker that
  straddles two blocks is not missed.
\<close>

lemma registry_search_exact:
  "registry_already_present content \<longleftrightarrow> (\<exists>a b c. content = a @ PROFILE_MARKER @ b @ GUID_MARKER @ c)"
  unfolding already_present_iff contains_iff by auto

text \<open>
  C37: a run changes \<^verbatim>\<open>system.reg\<close> only by appending a prefix of its section to a readable
  registry that does not have the key; whatever the calls answer it leaves no lock and no open
  handle behind, and no variable but \<^verbatim>\<open>LINUWUX_HWPROFILE\<close> changes.
\<close>

theorem registry_append_only:
  assumes "init_registry e w r = (w', r')" and "\<not> rw_locked r"
  shows "\<not> rw_locked r' \<and> rw_handles r' = rw_handles r \<and> (\<forall>n. n = DONE_ENV \<or> getenv w' n = getenv w n) \<and>
    (rw_file r' = rw_file r \<or>
     registry_file_is_valid (take (re_fread e) (rw_file r)) \<and> \<not> registry_already_present (take (re_fread e) (rw_file r)) \<and>
     (\<exists>n. rw_file r' = rw_file r @ take n REGISTRY_SECTION))"
proof -
  have m: "n = DONE_ENV \<or> getenv (mark_done w) n = getenv w n" for n using mark_done_other by blast
  from assms show ?thesis using assms(2) m by (cases rule: init_registry_cases) auto
qed

text \<open>
  C34: the key is written once. When a run whose reads and writes reach the file has marked
  the prefix as done, the file holds the key, and every later run, of any process whose reads
  reach the end of the file, leaves it as it is.
\<close>

theorem hwprofile_written_once:
  assumes "init_registry e w r = (w1, r1)" and "\<not> rw_locked r" and "getenv w DONE_ENV = None" and "getenv w1 DONE_ENV \<noteq> None"
    and "length (rw_file r) \<le> re_fread e" and "length REGISTRY_SECTION \<le> re_fflush e"
    and "init_registry e2 w2 r1 = (w3, r2)" and "length (rw_file r1) \<le> re_fread e2"
  shows "registry_already_present (rw_file r1) \<and> rw_file r2 = rw_file r1"
proof -
  have "registry_already_present (rw_file r1)" using assms(1,2)
  proof (cases rule: init_registry_cases)
    case nothing
    with assms(3,4) show ?thesis by simp
  next
    case present
    with assms(5) show ?thesis by simp
  next
    case (written n)
    have n: "n = length REGISTRY_SECTION"
    proof (rule ccontr)
      assume "n \<noteq> length REGISTRY_SECTION"
      with written(3) have "w1 = w" by simp
      with assms(3,4) show False by simp
    qed
    have "rw_file r1 = rw_file r @ REGISTRY_SECTION" unfolding written(4) n using assms(6) by simp
    then show ?thesis by (simp only: section_present)
  qed
  moreover have "\<not> rw_locked r1" using assms(1,2) by (cases rule: init_registry_cases) (use assms(2) in auto)
  with assms(7) have "rw_file r2 = rw_file r1" if "registry_already_present (rw_file r1)"
    by (cases rule: init_registry_cases) (use assms(8) that in auto)
  ultimately show ?thesis by blast
qed

definition sample_reg_env :: reg_env where
  "sample_reg_env = \<lparr>re_access = (\<lambda>_. True), re_fopen = (\<lambda>_. True), re_flock = True, re_fread = 1000, re_fseek = True,
     re_fwrite = 200, re_fflush = 200\<rparr>"

definition sample_prefix_world :: env_world where
  "sample_prefix_world = sample_world\<lparr>ew_vars := [ascii ''WINEPREFIX'' \<mapsto> ascii ''/p'']\<rparr>"

definition sample_reg :: reg_world where
  "sample_reg = \<lparr>rw_file = ascii ''WINE REGISTRY Version 2'', rw_locked = False, rw_handles = 0\<rparr>"

lemma length_REGISTRY_SECTION: "length REGISTRY_SECTION = 132"
  by (simp add: REGISTRY_SECTION_def)

lemma sample_not_present: "\<not> registry_already_present (rw_file sample_reg)"
proof
  assume "registry_already_present (rw_file sample_reg)"
  then obtain a b where "rw_file sample_reg = a @ PROFILE_MARKER @ b" unfolding already_present_iff by blast
  then have "contains (rw_file sample_reg) PROFILE_MARKER" unfolding contains_iff by blast
  then show False by (simp add: sample_reg_def PROFILE_MARKER_def)
qed

lemma sample_registry_run:
  "init_registry sample_reg_env sample_prefix_world sample_reg =
     (mark_done sample_prefix_world, sample_reg\<lparr>rw_file := rw_file sample_reg @ REGISTRY_SECTION\<rparr>)"
proof -
  have v: "registry_file_is_valid (rw_file sample_reg)" by (simp add: registry_file_is_valid_def sample_reg_def WINE_REGISTRY_MAGIC_def)
  have s: "take (re_fread sample_reg_env) (rw_file sample_reg) = rw_file sample_reg" "length (rw_file sample_reg) = 23"
    by (simp_all add: sample_reg_env_def sample_reg_def)
  have g: "getenv sample_prefix_world DONE_ENV = None" "getenv sample_prefix_world (ascii ''WINEPREFIX'') = Some (ascii ''/p'')"
    by (simp_all add: getenv_def sample_prefix_world_def DONE_ENV_def)
  show ?thesis using v s(1) g sample_not_present length_REGISTRY_SECTION
    by (simp del: ascii_Cons add: init_registry_def sample_reg_env_def REGISTRY_NAME_def with_nul_def PATH_MAX_def update_registry_def append_section_def unlock_and_close_def close_file_def Let_def)
      (simp add: sample_reg_def)
qed

lemma mark_done_unlimited: "ew_mem w = [] \<Longrightarrow> gs_real_setenv w \<Longrightarrow> getenv (mark_done w) DONE_ENV = Some (ascii ''1'')"
  unfolding mark_done_def by (rule gs.getenv_set_done [OF done_env_plain]) simp_all

theorem registry_append_only_witness:
  "\<not> rw_locked (snd (init_registry sample_reg_env sample_prefix_world sample_reg)) \<and>
     getenv (fst (init_registry sample_reg_env sample_prefix_world sample_reg)) (ascii ''WINEPREFIX'') = Some (ascii ''/p'')"
proof -
  have "\<not> rw_locked sample_reg" "ascii ''WINEPREFIX'' \<noteq> DONE_ENV" "getenv sample_prefix_world (ascii ''WINEPREFIX'') = Some (ascii ''/p'')"
    by (simp_all add: sample_reg_def DONE_ENV_def sample_prefix_world_def getenv_def)
  with registry_append_only [OF sample_registry_run] show ?thesis unfolding sample_registry_run fst_conv snd_conv by metis
qed

theorem hwprofile_written_once_witness:
  "rw_file (snd (init_registry sample_reg_env sample_prefix_world (snd (init_registry sample_reg_env sample_prefix_world sample_reg)))) =
     rw_file sample_reg @ REGISTRY_SECTION"
proof -
  obtain w3 r2 where r2: "init_registry sample_reg_env sample_prefix_world (sample_reg\<lparr>rw_file := rw_file sample_reg @ REGISTRY_SECTION\<rparr>) = (w3, r2)"
    by fastforce
  have "ew_mem sample_prefix_world = [] \<and> gs_real_setenv sample_prefix_world \<and> getenv sample_prefix_world DONE_ENV = None"
    by (simp add: sample_prefix_world_def sample_world_def getenv_def DONE_ENV_def)
  with hwprofile_written_once [OF sample_registry_run _ _ _ _ _ r2] mark_done_unlimited [of sample_prefix_world] length_REGISTRY_SECTION
  show ?thesis using r2 sample_registry_run by (simp add: sample_reg_def sample_reg_env_def)
qed

text \<open>The result of the flush is ignored: the prefix counts as done although nothing reached the file.\<close>

lemma done_though_flush_failed:
  "\<exists>w'. init_registry (sample_reg_env\<lparr>re_fflush := 0\<rparr>) sample_prefix_world sample_reg = (w', sample_reg) \<and>
     getenv w' DONE_ENV = Some (ascii ''1'')"
proof -
  have v: "registry_file_is_valid (rw_file sample_reg)" by (simp add: registry_file_is_valid_def sample_reg_def WINE_REGISTRY_MAGIC_def)
  have s: "take 1000 (rw_file sample_reg) = rw_file sample_reg" by (simp add: sample_reg_def)
  have g: "getenv sample_prefix_world DONE_ENV = None" "getenv sample_prefix_world (ascii ''WINEPREFIX'') = Some (ascii ''/p'')"
    by (simp_all add: getenv_def sample_prefix_world_def DONE_ENV_def)
  have "init_registry (sample_reg_env\<lparr>re_fflush := 0\<rparr>) sample_prefix_world sample_reg = (mark_done sample_prefix_world, sample_reg)"
    using v s g sample_not_present length_REGISTRY_SECTION
    by (simp del: ascii_Cons add: init_registry_def sample_reg_env_def REGISTRY_NAME_def with_nul_def PATH_MAX_def update_registry_def append_section_def unlock_and_close_def close_file_def Let_def)
      (simp add: sample_reg_def)
  with mark_done_unlimited [of sample_prefix_world] show ?thesis by (simp add: sample_prefix_world_def sample_world_def)
qed

end
