(* ===== verification/Environment.thy ===== *)
theory Environment
  imports Registry "HOL-Library.Sublist"
begin

text \<open>
  The first constructor, \<^verbatim>\<open>linuwux_setup_environment\<close> of \<^verbatim>\<open>runtime/src/environment.rs\<close>: which
  process is the game, the process marker, and the native DLL overrides, with the string
  logic of \<^verbatim>\<open>protocol/environment.rs\<close>. It runs after the Gamescope constructor, so its
  \<^verbatim>\<open>setenv\<close> calls go through the interposer, on which it relies through the locale \<open>env_store\<close>.
\<close>

section \<open>The override list\<close>

definition OVERRIDES :: "bytes list" where
  "OVERRIDES = map ascii [''winmm'', ''version'', ''reflex'', ''reflex64'', ''DenuvOwO'', ''artifact'', ''d3d9'', ''d3d10'',
     ''d3d11'', ''d3d12'', ''dinput8'', ''dsound'', ''dxgi'', ''hid'', ''wininet'', ''winhttp'']"

definition entry_name :: "bytes \<Rightarrow> bytes" where
  "entry_name entry = hd (split_on (\<lambda>b. b = 61) entry)"

definition already_present :: "bytes \<Rightarrow> bytes \<Rightarrow> bool" where
  "already_present existing dll \<longleftrightarrow> dll = [] \<or> list_ex (\<lambda>entry. entry_name entry = dll) (split_on (\<lambda>b. b = 59) existing)"

definition checked_usize :: "nat \<Rightarrow> nat option" where
  "checked_usize n = (if n \<le> USIZE_MAX then Some n else None)"

definition override_capacity :: "nat option \<Rightarrow> nat \<Rightarrow> nat option" where
  "override_capacity existing dll_length = Option.bind
     (case existing of Some n \<Rightarrow> checked_usize (n + 1) | None \<Rightarrow> Some 0) (\<lambda>prefix.
     Option.bind (checked_usize (prefix + dll_length)) (\<lambda>n. checked_usize (n + 5)))"

definition WINEDLLOVERRIDES :: bytes where "WINEDLLOVERRIDES = ascii ''WINEDLLOVERRIDES''"

definition fill_override :: "bytes \<Rightarrow> bytes option \<Rightarrow> bytes \<Rightarrow> bytes option" where
  "fill_override output existing dll = (let prefix = (case existing of None \<Rightarrow> [] | Some v \<Rightarrow> v) in
     Option.bind (if prefix \<noteq> []
         then Option.bind (copy_to prefix 0 output) (\<lambda>output.
           Option.bind (copy_to (ascii '';'') (length prefix) output) (\<lambda>output. Some (output, length prefix + 1)))
         else Some (output, 0)) (\<lambda>(output, position).
     Option.bind (copy_to dll position output) (copy_to (with_nul (ascii ''=n,b'')) (position + length dll))))"

text \<open>\<open>None\<close> is a write past the end of the allocated block.\<close>

definition add_override :: "bytes \<Rightarrow> env_world \<Rightarrow> env_world option" where
  "add_override dll w = (let existing = getenv w WINEDLLOVERRIDES in
     if existing \<noteq> None \<and> already_present (the existing) dll then Some w
     else (case override_capacity (map_option length existing) (length dll) of
         None \<Rightarrow> Some (set_errno ENOMEM w)
       | Some capacity \<Rightarrow> (case malloc capacity w of
           (None, w) \<Rightarrow> Some w
         | (Some output, w) \<Rightarrow> map_option (\<lambda>output. setenv_var WINEDLLOVERRIDES (c_string output) True w)
             (fill_override output existing dll))))"

fun add_overrides :: "bytes list \<Rightarrow> env_world \<Rightarrow> env_world option" where
  "add_overrides [] w = Some w"
| "add_overrides (dll # dlls) w = Option.bind (add_override dll w) (add_overrides dlls)"

section \<open>The game process\<close>

definition equal_name :: "bytes \<Rightarrow> bytes \<Rightarrow> bool" where
  "equal_name actual expected \<longleftrightarrow>
     length actual = length expected \<and> list_all (\<lambda>(l, r). eq_ignore_ascii_case l r) (zip actual expected)"

definition is_exe :: "bytes \<Rightarrow> bool" where
  "is_exe b \<longleftrightarrow> length b \<ge> 4 \<and> equal_name (drop (length b - 4) b) (ascii ''.exe'')"

definition HELPERS :: "bytes list" where
  "HELPERS = map ascii [''steam.exe'', ''steamwebhelper.exe'', ''crashhandler.exe'', ''winecfg.exe'', ''start.exe'',
     ''rundll32.exe'', ''dllhost.exe'', ''conhost.exe'', ''explorer.exe'', ''xalia.exe'']"

definition is_helper_basename :: "bytes \<Rightarrow> bool" where
  "is_helper_basename executable =
     (let basename = last (split_on (\<lambda>b. b = 47 \<or> b = 92) executable) in list_ex (equal_name basename) HELPERS)"

definition is_system32_helper :: "bytes \<Rightarrow> bool" where
  "is_system32_helper executable =
     (if length executable \<ge> 512 then False
      else let path = map (\<lambda>b. if b = 92 then 47 else to_ascii_lowercase b) executable in
        contains path (ascii ''/windows/system32/'') \<or> contains path (ascii ''/windows/syswow64/''))"

definition argv0_is_unix_loader :: "bytes \<Rightarrow> bool" where
  "argv0_is_unix_loader b \<longleftrightarrow> contains b (ascii ''wine-preloader'') \<or> contains b (ascii ''wine64-preloader'') \<or>
     contains b (ascii ''wineserver'') \<or> contains b (ascii ''pressure-vessel'')"

definition is_helper :: "bytes \<Rightarrow> bool" where
  "is_helper b \<longleftrightarrow> is_system32_helper b \<or> is_helper_basename b"

definition on_drive :: "bytes \<Rightarrow> bool" where
  "on_drive b \<longleftrightarrow> length b \<ge> 2 \<and> b ! 1 = 58"

text \<open>Under a Unix loader: the last Windows-drive executable, and none when one is a helper.\<close>

fun loader_arguments :: "bytes option list \<Rightarrow> bytes option \<Rightarrow> bytes option" where
  "loader_arguments [] windows_game = windows_game"
| "loader_arguments (candidate # rest) windows_game = (case candidate of None \<Rightarrow> loader_arguments rest windows_game
     | Some b \<Rightarrow>
         if \<not> is_exe b then loader_arguments rest windows_game
         else if \<not> on_drive b then loader_arguments rest windows_game
         else if is_helper b then None
         else loader_arguments rest (Some b))"

fun plain_arguments :: "bytes option list \<Rightarrow> bytes option \<Rightarrow> bytes option \<Rightarrow> bool \<Rightarrow> bytes option" where
  "plain_arguments [] windows_game unix_game windows_helper =
     (case windows_game of Some g \<Rightarrow> Some g | None \<Rightarrow> if windows_helper then None else unix_game)"
| "plain_arguments (candidate # rest) windows_game unix_game windows_helper =
     (case candidate of None \<Rightarrow> plain_arguments rest windows_game unix_game windows_helper
      | Some b \<Rightarrow>
          if \<not> is_exe b then plain_arguments rest windows_game unix_game windows_helper
          else if is_helper b then plain_arguments rest windows_game unix_game True
          else if on_drive b then plain_arguments rest (Some b) unix_game windows_helper
          else if take 1 b = ascii ''/'' then plain_arguments rest windows_game (Some b) windows_helper
          else plain_arguments rest windows_game unix_game windows_helper)"

text \<open>The argument vector with its null pointers; an absent or empty one is \<open>[]\<close>.\<close>

definition game_executable_argument :: "bytes option list \<Rightarrow> bytes option" where
  "game_executable_argument argv =
     (if argv = [] then None
      else if hd argv \<noteq> None \<and> argv0_is_unix_loader (the (hd argv)) then loader_arguments (tl argv) None
      else plain_arguments argv None None False)"

section \<open>The constructor\<close>

definition LINUWUX :: bytes where "LINUWUX = ascii ''LinUwUx''"
definition PROTON_DISABLE_LSTEAMCLIENT :: bytes where "PROTON_DISABLE_LSTEAMCLIENT = ascii ''PROTON_DISABLE_LSTEAMCLIENT''"

definition mark_process_tree :: "env_world \<Rightarrow> env_world" where
  "mark_process_tree w =
     (if getenv w LINUWUX = None then
        let w = setenv_var LINUWUX (ascii ''1'') False w; value = getenv w PROTON_DISABLE_LSTEAMCLIENT in
        if value = None \<or> value = Some [] then setenv_var PROTON_DISABLE_LSTEAMCLIENT (ascii ''1'') False w else w
      else w)"

text \<open>The new value of \<^verbatim>\<open>GAME_PROCESS\<close>, the environment (\<open>None\<close> after an overrun) and the file.\<close>

definition linuwux_setup_environment ::
    "reg_env \<Rightarrow> bytes option list \<Rightarrow> env_world \<Rightarrow> reg_world \<Rightarrow> bool \<times> env_world option \<times> reg_world" where
  "linuwux_setup_environment e argv w r = (let (w, r) = init_registry e w r;
       game_process = (game_executable_argument argv \<noteq> None);
       w = mark_process_tree w in
     (game_process, if game_process then add_overrides OVERRIDES w else Some w, r))"

section \<open>Classification of the process\<close>

definition windows_game :: "bytes option \<Rightarrow> bool" where
  "windows_game c \<longleftrightarrow> (\<exists>b. c = Some b \<and> is_exe b \<and> on_drive b \<and> \<not> is_helper b)"

definition unix_game :: "bytes option \<Rightarrow> bool" where
  "unix_game c \<longleftrightarrow> (\<exists>b. c = Some b \<and> is_exe b \<and> take 1 b = ascii ''/'' \<and> \<not> on_drive b \<and> \<not> is_helper b)"

definition helper_argument :: "bytes option \<Rightarrow> bool" where
  "helper_argument c \<longleftrightarrow> (\<exists>b. c = Some b \<and> is_exe b \<and> is_helper b)"

definition drive_helper :: "bytes option \<Rightarrow> bool" where
  "drive_helper c \<longleftrightarrow> (\<exists>b. c = Some b \<and> is_exe b \<and> on_drive b \<and> is_helper b)"

lemma argument_kinds:
  "\<not> windows_game None" "\<not> unix_game None" "\<not> helper_argument None" "\<not> drive_helper None"
  "windows_game (Some b) \<longleftrightarrow> is_exe b \<and> on_drive b \<and> \<not> is_helper b"
  "unix_game (Some b) \<longleftrightarrow> is_exe b \<and> take 1 b = ascii ''/'' \<and> \<not> on_drive b \<and> \<not> is_helper b"
  "helper_argument (Some b) \<longleftrightarrow> is_exe b \<and> is_helper b" "drive_helper (Some b) \<longleftrightarrow> is_exe b \<and> on_drive b \<and> is_helper b"
  by (simp_all add: windows_game_def unix_game_def helper_argument_def drive_helper_def)

lemma find_rev_Cons: "List.find P (rev (x # xs)) = (case List.find P (rev xs) of None \<Rightarrow> if P x then Some x else None | Some y \<Rightarrow> Some y)"
proof -
  have "List.find P (ys @ zs) = (case List.find P ys of None \<Rightarrow> List.find P zs | Some y \<Rightarrow> Some y)" for ys zs
    by (induction ys) auto
  then show ?thesis by (simp split: option.split)
qed

text \<open>The last candidate of a kind, or the one found before.\<close>

definition last_of :: "(bytes option \<Rightarrow> bool) \<Rightarrow> bytes option list \<Rightarrow> bytes option \<Rightarrow> bytes option" where
  "last_of P args before = (case List.find P (rev args) of None \<Rightarrow> before | Some c \<Rightarrow> c)"

lemma last_of_simps:
  "last_of P [] before = before" "last_of P (c # cs) before = last_of P cs (if P c then c else before)"
  unfolding last_of_def find_rev_Cons by (auto split: option.splits)

lemma last_of_cases:
  assumes "\<not> P None"
  obtains "last_of P args None = None" and "\<And>c. c \<in> set args \<Longrightarrow> \<not> P c"
  | g where "last_of P args None = Some g" and "Some g \<in> set args" and "P (Some g)"
proof (cases "List.find P (rev args)")
  case None
  then have "last_of P args None = None" "\<And>c. c \<in> set args \<Longrightarrow> \<not> P c" by (simp_all add: last_of_def) (simp add: find_None_iff)
  with that(1) show ?thesis by blast
next
  case (Some c)
  from find_SomeD [OF this] have c: "P c" "c \<in> set args" by auto
  with assms obtain g where "c = Some g" by (cases c) auto
  with c Some that(2) show ?thesis by (simp add: last_of_def)
qed

lemma loader_arguments_eq:
  "loader_arguments args g = (if list_ex drive_helper args then None else last_of windows_game args g)"
proof (induction args arbitrary: g)
  case (Cons c args)
  then show ?case by (cases c) (auto simp: last_of_simps argument_kinds)
qed (simp add: last_of_simps)

lemma plain_arguments_eq:
  "plain_arguments args g u h = (case last_of windows_game args g of Some b \<Rightarrow> Some b
     | None \<Rightarrow> if h \<or> list_ex helper_argument args then None else last_of unix_game args u)"
proof (induction args arbitrary: g u h)
  case (Cons c args)
  show ?case
  proof (cases c)
    case (Some b)
    then show ?thesis using Cons.IH
      by (cases "is_exe b"; cases "is_helper b"; cases "on_drive b"; cases "take 1 b = ascii ''/''")
        (simp_all del: ascii_Cons take_Suc_Cons One_nat_def add: last_of_simps argument_kinds split: option.split)
  qed (use Cons.IH in \<open>simp add: last_of_simps argument_kinds split: option.split\<close>)
qed (simp add: last_of_simps split: option.splits)

section \<open>The overrides as entries\<close>

definition override_entries :: "bytes option \<Rightarrow> bytes list" where
  "override_entries value = (case value of None \<Rightarrow> [] | Some v \<Rightarrow> if v = [] then [] else split_on (\<lambda>b. b = 59) v)"

definition override_entry :: "bytes \<Rightarrow> bytes" where
  "override_entry dll = dll @ ascii ''=n,b''"

text \<open>Names a value can hold: no separator and not empty.\<close>

definition dll_name :: "bytes \<Rightarrow> bool" where
  "dll_name d \<longleftrightarrow> d \<noteq> [] \<and> 59 \<notin> set d \<and> 61 \<notin> set d \<and> is_c_string d"

definition overridden :: "bytes option \<Rightarrow> bytes set" where
  "overridden value = entry_name ` set (override_entries value)"

lemma entry_name_override: "dll_name d \<Longrightarrow> entry_name (override_entry d) = d"
  by (auto simp: entry_name_def override_entry_def hd_split_on dll_name_def takeWhile_append)

lemma already_present_iff_overridden:
  assumes "dll_name d"
  shows "val \<noteq> None \<and> already_present (the val) d \<longleftrightarrow> d \<in> overridden val"
proof (cases val)
  case (Some v)
  with assms show ?thesis
    by (cases "v = []") (auto simp: already_present_def overridden_def override_entries_def list_ex_iff dll_name_def entry_name_def)
qed (simp add: overridden_def override_entries_def)

lemma override_entries_extended:
  assumes "dll_name d"
  shows "override_entries (Some ((case val of None \<Rightarrow> [] | Some v \<Rightarrow> if v = [] then [] else v @ [59]) @ override_entry d)) =
    override_entries val @ [override_entry d]"
proof -
  have n: "split_on (\<lambda>b. b = 59) (override_entry d) = [override_entry d]" "override_entry d \<noteq> []"
    using assms by (auto simp: override_entry_def dll_name_def intro!: split_on_absent)
  then show ?thesis
    by (cases val) (simp_all add: override_entries_def split_on_append_sep [of "\<lambda>b. b = 59" 59])
qed

lemma fill_override_exact:
  assumes "override_capacity (map_option length existing) (length dll) = Some n" and "length block = n"
    and "pred_option is_c_string existing" and "is_c_string dll"
  obtains out where "fill_override block existing dll = Some out"
    and "c_string out = (case existing of None \<Rightarrow> [] | Some v \<Rightarrow> if v = [] then [] else v @ [59]) @ override_entry dll"
proof -
  let ?prefix = "case existing of None \<Rightarrow> [] | Some v \<Rightarrow> v"
  let ?text = "(if ?prefix = [] then [] else ?prefix @ [59]) @ override_entry dll"
  have n: "n = (case existing of None \<Rightarrow> 0 | Some v \<Rightarrow> length v + 1) + length dll + 5"
    using assms(1) by (cases existing) (auto simp: override_capacity_def checked_usize_def split: if_splits)
  have fill: "fill_override block existing dll = Some (with_nul ?text @ drop (length (with_nul ?text)) block)"
    using n assms(2) by (cases existing) (auto simp: fill_override_def copy_to_def with_nul_def override_entry_def Let_def eval_nat_numeral)
  have body: "c_string (with_nul ?text @ drop (length (with_nul ?text)) block) = ?text"
    by (rule c_string_with_nul) (use assms(3,4) in \<open>cases existing; simp add: override_entry_def\<close>)
  have "?text = (case existing of None \<Rightarrow> [] | Some v \<Rightarrow> if v = [] then [] else v @ [59]) @ override_entry dll"
    by (cases existing) auto
  with that [OF fill] body show ?thesis by simp
qed

lemma overrides_plain: "WINEDLLOVERRIDES \<in> plain_names"
  by (simp add: WINEDLLOVERRIDES_def plain_names_def valid_name_def LD_PRELOAD_def)

lemma add_override_new:
  "\<not> (getenv w WINEDLLOVERRIDES \<noteq> None \<and> already_present (the (getenv w WINEDLLOVERRIDES)) d) \<Longrightarrow>
     add_override d w = (case override_capacity (map_option length (getenv w WINEDLLOVERRIDES)) (length d) of
         None \<Rightarrow> Some (set_errno ENOMEM w)
       | Some capacity \<Rightarrow> (case malloc capacity w of (None, w) \<Rightarrow> Some w
         | (Some output, w') \<Rightarrow> map_option (\<lambda>output. setenv_var WINEDLLOVERRIDES (c_string output) True w')
             (fill_override output (getenv w WINEDLLOVERRIDES) d)))"
  unfolding add_override_def Let_def by (simp only: if_False simp_thms)

text \<open>What one call adds; with memory to spare it adds the entry exactly when it is missing.\<close>

lemma add_override_step:
  assumes d: "dll_name d" and c: "pred_option is_c_string (getenv w WINEDLLOVERRIDES)"
  shows "\<exists>w'. add_override d w = Some w' \<and> pred_option is_c_string (getenv w' WINEDLLOVERRIDES) \<and>
    (\<forall>n. n = WINEDLLOVERRIDES \<or> getenv w' n = getenv w n) \<and>
    (override_entries (getenv w' WINEDLLOVERRIDES) = override_entries (getenv w WINEDLLOVERRIDES) \<or>
     d \<notin> overridden (getenv w WINEDLLOVERRIDES) \<and>
     override_entries (getenv w' WINEDLLOVERRIDES) = override_entries (getenv w WINEDLLOVERRIDES) @ [override_entry d])"
proof -
  let ?old = "getenv w WINEDLLOVERRIDES"
  show ?thesis
  proof (cases "d \<in> overridden ?old")
    case True
    with already_present_iff_overridden [OF d, of ?old] have "add_override d w = Some w" by (simp add: add_override_def)
    with c show ?thesis by simp
  next
    case False
    with already_present_iff_overridden [OF d, of ?old] have new: "\<not> (?old \<noteq> None \<and> already_present (the ?old) d)" by blast
    show ?thesis
    proof (cases "override_capacity (map_option length ?old) (length d)")
      case None
      with add_override_new [OF new] have "add_override d w = Some (set_errno ENOMEM w)" by simp
      with c show ?thesis by (simp add: set_errno_def getenv_def)
    next
      case (Some n)
      obtain m w1 where m: "malloc n w = (m, w1)" by fastforce
      have k: "getenv w1 = getenv w" using malloc_keeps [OF m] by (simp add: getenv_def fun_eq_iff)
      show ?thesis
      proof (cases m)
        case None
        with add_override_new [OF new] Some m have "add_override d w = Some w1" by simp
        with k c show ?thesis by simp
      next
        case (Some block)
        with m have "length block = n" by (auto simp: malloc_def split: prod.splits if_splits)
        with fill_override_exact [OF \<open>_ = Some n\<close> this c] d obtain out where
          out: "fill_override block ?old d = Some out" "c_string out = (case ?old of None \<Rightarrow> [] | Some v \<Rightarrow> if v = [] then [] else v @ [59]) @ override_entry d"
          by (auto simp: dll_name_def)
        let ?w = "setenv_var WINEDLLOVERRIDES (c_string out) True w1"
        have "add_override d w = Some ?w" using add_override_new [OF new] \<open>_ = Some n\<close> m Some out(1) by simp
        moreover have "n = WINEDLLOVERRIDES \<or> getenv ?w n = getenv w n" for n
          using gs.set_var_other [OF overrides_plain, of n "c_string out" True w1] k by (cases "n = WINEDLLOVERRIDES") (simp_all add: getenv_def fun_eq_iff)
        moreover have "getenv ?w WINEDLLOVERRIDES \<in> {Some (c_string out), ?old}"
          using gs.set_var_same [OF overrides_plain, of "c_string out" True w1] k by (simp add: getenv_def fun_eq_iff)
        ultimately show ?thesis
          using override_entries_extended [OF d, of ?old, folded out(2)] False c by auto
      qed
    qed
  qed
qed

lemma add_override_unlimited:
  assumes d: "dll_name d" and c: "pred_option is_c_string (getenv w WINEDLLOVERRIDES)" and m: "ew_mem w = []" "gs_real_setenv w"
    and l: "(case getenv w WINEDLLOVERRIDES of None \<Rightarrow> 0 | Some v \<Rightarrow> length v) + length d + 6 \<le> USIZE_MAX"
    and a: "add_override d w = Some w'"
  shows "ew_mem w' = [] \<and> gs_real_setenv w' \<and> d \<in> overridden (getenv w' WINEDLLOVERRIDES) \<and>
    (case getenv w' WINEDLLOVERRIDES of None \<Rightarrow> 0 | Some v \<Rightarrow> length v) \<le>
    (case getenv w WINEDLLOVERRIDES of None \<Rightarrow> 0 | Some v \<Rightarrow> length v) + length d + 5"
proof (cases "d \<in> overridden (getenv w WINEDLLOVERRIDES)")
  case True
  with already_present_iff_overridden [OF d, of "getenv w WINEDLLOVERRIDES"] a have "w' = w" by (simp add: add_override_def)
  with True m show ?thesis by simp
next
  case False
  let ?old = "getenv w WINEDLLOVERRIDES"
  from False already_present_iff_overridden [OF d, of ?old] have new: "\<not> (?old \<noteq> None \<and> already_present (the ?old) d)" by blast
  obtain n where n: "override_capacity (map_option length ?old) (length d) = Some n"
    using l by (cases ?old) (auto simp: override_capacity_def checked_usize_def)
  have al: "malloc n w = (Some (replicate n (ew_fill w)), w)" using m(1) by (simp add: malloc_def)
  from fill_override_exact [OF n length_replicate c, of "ew_fill w"] d obtain out where
    out: "fill_override (replicate n (ew_fill w)) ?old d = Some out"
      "c_string out = (case ?old of None \<Rightarrow> [] | Some v \<Rightarrow> if v = [] then [] else v @ [59]) @ override_entry d"
    by (auto simp: dll_name_def)
  with add_override_new [OF new] n al a have w': "w' = setenv_var WINEDLLOVERRIDES (c_string out) True w" by simp
  have v: "getenv w' WINEDLLOVERRIDES = Some (c_string out)"
    unfolding w' by (rule gs.getenv_set_done [OF overrides_plain m]) simp
  have "override_entries (getenv w' WINEDLLOVERRIDES) = override_entries ?old @ [override_entry d]"
    unfolding v out(2) by (rule override_entries_extended [OF d])
  then have "d \<in> overridden (getenv w' WINEDLLOVERRIDES)"
    using entry_name_override [OF d] by (simp add: overridden_def)
  moreover have "length (c_string out) \<le> (case ?old of None \<Rightarrow> 0 | Some v \<Rightarrow> length v) + length d + 5"
    unfolding out(2) by (cases ?old) (auto simp: override_entry_def)
  ultimately show ?thesis using gs.set_var_resources [OF overrides_plain m, of "c_string out" True] v unfolding w' by simp
qed

lemma overridden_append: "override_entries v' = override_entries v @ es \<Longrightarrow> overridden v' = overridden v \<union> entry_name ` set es"
  by (auto simp: overridden_def)

text \<open>All of them, in order; the ones missing before are added once each.\<close>

lemma add_overrides_run:
  assumes "\<forall>d \<in> set ds. dll_name d" and "distinct ds" and "pred_option is_c_string (getenv w WINEDLLOVERRIDES)"
  shows "\<exists>w' added. add_overrides ds w = Some w' \<and> (\<forall>n. n = WINEDLLOVERRIDES \<or> getenv w' n = getenv w n) \<and>
    subseq added (filter (\<lambda>d. d \<notin> overridden (getenv w WINEDLLOVERRIDES)) ds) \<and>
    override_entries (getenv w' WINEDLLOVERRIDES) = override_entries (getenv w WINEDLLOVERRIDES) @ map override_entry added \<and>
    (ew_mem w = [] \<and> gs_real_setenv w \<and>
      (case getenv w WINEDLLOVERRIDES of None \<Rightarrow> 0 | Some v \<Rightarrow> length v) + sum_list (map (\<lambda>d. length d + 6) ds) \<le> USIZE_MAX \<longrightarrow>
      added = filter (\<lambda>d. d \<notin> overridden (getenv w WINEDLLOVERRIDES)) ds)"
  using assms
proof (induction ds arbitrary: w)
  case (Cons d ds)
  let ?old = "getenv w WINEDLLOVERRIDES" and ?len = "\<lambda>w. case getenv w WINEDLLOVERRIDES of None \<Rightarrow> 0 | Some v \<Rightarrow> length v"
  have d: "dll_name d" using Cons.prems(1) by simp
  from add_override_step [OF d Cons.prems(3)] obtain w1 where s: "add_override d w = Some w1"
    "pred_option is_c_string (getenv w1 WINEDLLOVERRIDES)" "\<forall>n. n = WINEDLLOVERRIDES \<or> getenv w1 n = getenv w n"
    and e: "override_entries (getenv w1 WINEDLLOVERRIDES) = override_entries ?old \<or> d \<notin> overridden ?old \<and>
      override_entries (getenv w1 WINEDLLOVERRIDES) = override_entries ?old @ [override_entry d]" by blast
  let ?new = "getenv w1 WINEDLLOVERRIDES"
  from Cons.IH [OF _ _ s(2)] Cons.prems obtain w' added where i: "add_overrides ds w1 = Some w'"
    "\<forall>n. n = WINEDLLOVERRIDES \<or> getenv w' n = getenv w1 n" "subseq added (filter (\<lambda>d. d \<notin> overridden ?new) ds)"
    "override_entries (getenv w' WINEDLLOVERRIDES) = override_entries ?new @ map override_entry added"
    "ew_mem w1 = [] \<and> gs_real_setenv w1 \<and> ?len w1 + sum_list (map (\<lambda>d. length d + 6) ds) \<le> USIZE_MAX \<longrightarrow>
      added = filter (\<lambda>d. d \<notin> overridden ?new) ds" by auto
  have run: "add_overrides (d # ds) w = Some w'" using s(1) i(1) by simp
  have keep: "\<forall>n. n = WINEDLLOVERRIDES \<or> getenv w' n = getenv w n" using s(3) i(2) by metis
  have full: "ew_mem w1 = [] \<and> gs_real_setenv w1 \<and> ?len w1 + sum_list (map (\<lambda>d. length d + 6) ds) \<le> USIZE_MAX \<and> d \<in> overridden ?new"
    if "ew_mem w = [] \<and> gs_real_setenv w \<and> ?len w + sum_list (map (\<lambda>d. length d + 6) (d # ds)) \<le> USIZE_MAX"
    using add_override_unlimited [OF d Cons.prems(3) _ _ _ s(1)] that by auto
  from e show ?case
  proof
    assume same: "override_entries ?new = override_entries ?old"
    then have o: "overridden ?new = overridden ?old" by (simp add: overridden_def)
    show ?thesis using run keep i(3,4,5) full same
      by (intro exI [of _ w'] exI [of _ added]) (auto simp: o intro: subseq_Cons')
  next
    assume new: "d \<notin> overridden ?old \<and> override_entries ?new = override_entries ?old @ [override_entry d]"
    then have o: "overridden ?new = insert d (overridden ?old)"
      using overridden_append [of ?new ?old "[override_entry d]"] entry_name_override [OF d] by auto
    then have "filter (\<lambda>x. x \<notin> overridden ?new) ds = filter (\<lambda>x. x \<notin> overridden ?old) ds"
      using Cons.prems(2) by (intro filter_cong) auto
    with run keep i new full show ?thesis by (intro exI [of _ w'] exI [of _ "d # added"]) auto
  qed
qed simp

lemma overrides_ok: "\<forall>d \<in> set OVERRIDES. dll_name d" "distinct OVERRIDES" "sum_list (map (\<lambda>d. length d + 6) OVERRIDES) = 191"
  by (simp_all add: OVERRIDES_def dll_name_def)

section \<open>The constructor as a whole\<close>

lemma marker_plain: "LINUWUX \<in> plain_names" "PROTON_DISABLE_LSTEAMCLIENT \<in> plain_names"
  by (simp_all add: LINUWUX_def PROTON_DISABLE_LSTEAMCLIENT_def plain_names_def valid_name_def LD_PRELOAD_def)

lemma mark_process_tree_other:
  "n \<notin> {LINUWUX, PROTON_DISABLE_LSTEAMCLIENT} \<Longrightarrow> getenv (mark_process_tree w) n = getenv w n"
  by (simp add: mark_process_tree_def Let_def gs.getenv_set_other marker_plain)

lemma mark_process_tree_resources:
  "ew_mem w = [] \<Longrightarrow> gs_real_setenv w \<Longrightarrow> ew_mem (mark_process_tree w) = [] \<and> gs_real_setenv (mark_process_tree w)"
  by (simp add: mark_process_tree_def Let_def gs.set_var_resources marker_plain)

lemma init_registry_env:
  "init_registry e w r = (w', r') \<Longrightarrow> w' = w \<or> w' = mark_done w"
proof -
  have "fst (update_registry e w x) = w \<or> fst (update_registry e w x) = mark_done w" for x
    by (simp add: update_registry_def append_section_def Let_def)
  then show "init_registry e w r = (w', r') \<Longrightarrow> w' = w \<or> w' = mark_done w"
    unfolding init_registry_def Let_def
    by (auto simp del: ascii_Cons split: option.splits if_splits) (metis fst_conv)
qed

text \<open>An empty setting of the user counts as set for \<^verbatim>\<open>setenv\<close> without overwriting, and stays empty.\<close>

lemma empty_lsteamclient_stays_empty:
  assumes "getenv w PROTON_DISABLE_LSTEAMCLIENT = Some []"
  shows "getenv (mark_process_tree w) PROTON_DISABLE_LSTEAMCLIENT = Some []"
proof -
  let ?w = "setenv_var LINUWUX (ascii ''1'') False w"
  have "PROTON_DISABLE_LSTEAMCLIENT \<noteq> LINUWUX" by (simp add: PROTON_DISABLE_LSTEAMCLIENT_def LINUWUX_def)
  then have "getenv ?w PROTON_DISABLE_LSTEAMCLIENT = Some []" using assms by (simp add: gs.getenv_set_other marker_plain)
  with gs.getenv_set_kept [OF marker_plain(2), of ?w] assms show ?thesis by (simp add: mark_process_tree_def Let_def)
qed

section \<open>Properties\<close>

text \<open>
  Which process is the game. Under a Unix loader it is one with a Windows-drive
  executable among its later arguments and no helper among those; otherwise one with a
  Windows-drive executable that is no helper, or an absolute Unix path to one when no
  argument is a helper. The argument found is such an executable.
\<close>

lemma game_process_exactly:
  "(game_executable_argument argv \<noteq> None \<longleftrightarrow>
     (if argv \<noteq> [] \<and> hd argv \<noteq> None \<and> argv0_is_unix_loader (the (hd argv))
      then (\<exists>c \<in> set (tl argv). windows_game c) \<and> \<not> (\<exists>c \<in> set (tl argv). drive_helper c)
      else (\<exists>c \<in> set argv. windows_game c) \<or> (\<exists>c \<in> set argv. unix_game c) \<and> \<not> (\<exists>c \<in> set argv. helper_argument c))) \<and>
   pred_option (\<lambda>g. Some g \<in> set argv \<and> is_exe g \<and> \<not> is_helper g) (game_executable_argument argv)"
proof (cases "argv \<noteq> [] \<and> hd argv \<noteq> None \<and> argv0_is_unix_loader (the (hd argv))")
  case True
  then have eq: "game_executable_argument argv = (if list_ex drive_helper (tl argv) then None else last_of windows_game (tl argv) None)"
    by (simp add: game_executable_argument_def loader_arguments_eq)
  have sub: "c \<in> set (tl argv) \<Longrightarrow> c \<in> set argv" for c using True by (simp add: list.set_sel(2))
  show ?thesis
  proof (cases rule: last_of_cases [of windows_game "tl argv", OF argument_kinds(1)])
    case 1
    with True eq show ?thesis by (auto simp: list_ex_iff)
  next
    case (2 g)
    then have "\<exists>c \<in> set (tl argv). windows_game c" "is_exe g" "\<not> is_helper g" by blast (use 2(3) in \<open>simp_all add: argument_kinds\<close>)
    with 2 True eq sub show ?thesis by (auto simp: list_ex_iff)
  qed
next
  case False
  then have eq: "game_executable_argument argv = (case last_of windows_game argv None of Some b \<Rightarrow> Some b
      | None \<Rightarrow> if list_ex helper_argument argv then None else last_of unix_game argv None)"
    by (auto simp: game_executable_argument_def plain_arguments_eq last_of_simps)
  show ?thesis
  proof (cases rule: last_of_cases [of windows_game argv, OF argument_kinds(1)])
    case none: 1
    show ?thesis
    proof (cases rule: last_of_cases [of unix_game argv, OF argument_kinds(2)])
      case 1
      with False eq none show ?thesis by (auto simp: list_ex_iff)
    next
      case (2 g)
      then have "\<exists>c \<in> set argv. unix_game c" "is_exe g" "\<not> is_helper g" by blast (use 2(3) in \<open>simp_all add: argument_kinds\<close>)
      with 2 False eq none show ?thesis by (auto simp: list_ex_iff)
    qed
  next
    case (2 g)
    then have "\<exists>c \<in> set argv. windows_game c" "is_exe g" "\<not> is_helper g" by blast (use 2(3) in \<open>simp_all add: argument_kinds\<close>)
    with 2 False eq show ?thesis by auto
  qed
qed

lemma setup_environment_run:
  assumes "linuwux_setup_environment e argv w r = (game, result, r')" and "pred_option is_c_string (getenv w WINEDLLOVERRIDES)"
  shows "\<exists>w' added. result = Some w' \<and> game = (game_executable_argument argv \<noteq> None) \<and>
    (\<forall>n. n \<in> {WINEDLLOVERRIDES, DONE_ENV, LINUWUX, PROTON_DISABLE_LSTEAMCLIENT} \<or> getenv w' n = getenv w n) \<and>
    override_entries (getenv w' WINEDLLOVERRIDES) = override_entries (getenv w WINEDLLOVERRIDES) @ map override_entry added \<and>
    (if game then subseq added (filter (\<lambda>d. d \<notin> overridden (getenv w WINEDLLOVERRIDES)) OVERRIDES) else added = []) \<and>
    (game \<and> ew_mem w = [] \<and> gs_real_setenv w \<and> (case getenv w WINEDLLOVERRIDES of None \<Rightarrow> 0 | Some v \<Rightarrow> length v) \<le> 2 ^ 63 \<longrightarrow>
      added = filter (\<lambda>d. d \<notin> overridden (getenv w WINEDLLOVERRIDES)) OVERRIDES)"
proof -
  obtain w1 r1 where i: "init_registry e w r = (w1, r1)" by fastforce
  let ?w = "mark_process_tree w1"
  have v: "WINEDLLOVERRIDES \<notin> {DONE_ENV, LINUWUX, PROTON_DISABLE_LSTEAMCLIENT}"
    by (simp add: WINEDLLOVERRIDES_def DONE_ENV_def LINUWUX_def PROTON_DISABLE_LSTEAMCLIENT_def)
  have w1: "n \<noteq> DONE_ENV \<Longrightarrow> getenv w1 n = getenv w n" "ew_mem w = [] \<Longrightarrow> gs_real_setenv w \<Longrightarrow> ew_mem w1 = [] \<and> gs_real_setenv w1" for n
    using init_registry_env [OF i] mark_done_other [of n w] gs.set_var_resources [OF done_env_plain]
    by (auto simp: mark_done_def)
  have w: "n \<notin> {DONE_ENV, LINUWUX, PROTON_DISABLE_LSTEAMCLIENT} \<Longrightarrow> getenv ?w n = getenv w n" for n
    using w1(1) mark_process_tree_other [of n w1] by auto
  have r: "ew_mem w = [] \<Longrightarrow> gs_real_setenv w \<Longrightarrow> ew_mem ?w = [] \<and> gs_real_setenv ?w"
    using w1(2) mark_process_tree_resources by blast
  have g: "game = (game_executable_argument argv \<noteq> None)" "result = (if game then add_overrides OVERRIDES ?w else Some ?w)"
    using assms(1) i by (auto simp: linuwux_setup_environment_def Let_def)
  show ?thesis
  proof (cases game)
    case False
    with g w w [OF v] show ?thesis by (intro exI [of _ ?w] exI [of _ "[]"]) auto
  next
    case True
    from add_overrides_run [OF overrides_ok(1,2), of ?w] assms(2) w [OF v] obtain w' added where a: "add_overrides OVERRIDES ?w = Some w'"
      "\<forall>n. n = WINEDLLOVERRIDES \<or> getenv w' n = getenv ?w n" "subseq added (filter (\<lambda>d. d \<notin> overridden (getenv w WINEDLLOVERRIDES)) OVERRIDES)"
      "override_entries (getenv w' WINEDLLOVERRIDES) = override_entries (getenv w WINEDLLOVERRIDES) @ map override_entry added"
      "ew_mem ?w = [] \<and> gs_real_setenv ?w \<and> (case getenv w WINEDLLOVERRIDES of None \<Rightarrow> 0 | Some v \<Rightarrow> length v) + 191 \<le> USIZE_MAX \<longrightarrow>
        added = filter (\<lambda>d. d \<notin> overridden (getenv w WINEDLLOVERRIDES)) OVERRIDES" unfolding overrides_ok(3) by auto
    have "n \<in> {WINEDLLOVERRIDES, DONE_ENV, LINUWUX, PROTON_DISABLE_LSTEAMCLIENT} \<or> getenv w' n = getenv w n" for n
      using a(2) [rule_format, of n] w [of n] by (metis insert_iff)
    moreover have "added = filter (\<lambda>d. d \<notin> overridden (getenv w WINEDLLOVERRIDES)) OVERRIDES"
      if "ew_mem w = []" "gs_real_setenv w" "(case getenv w WINEDLLOVERRIDES of None \<Rightarrow> 0 | Some v \<Rightarrow> length v) \<le> 2 ^ 63"
      using a(5) r that by (simp add: USIZE_MAX_def)
    ultimately show ?thesis using True g a by (intro exI [of _ w'] exI [of _ added]) simp
  qed
qed


text \<open>A start from a Windows path, with one of the DLLs already overridden by the user.\<close>

definition sample_argv :: "bytes option list" where
  "sample_argv = [Some (ascii ''Z:/game/Game.EXE'')]"

definition sample_overrides :: env_world where
  "sample_overrides = sample_world\<lparr>ew_vars := [WINEDLLOVERRIDES \<mapsto> ascii ''dxgi=b'', DONE_ENV \<mapsto> ascii ''1'']\<rparr>"

lemma sample_is_game: "game_executable_argument sample_argv \<noteq> None"
  by (simp add: sample_argv_def game_executable_argument_def argv0_is_unix_loader_def is_exe_def equal_name_def is_helper_def
      is_system32_helper_def is_helper_basename_def HELPERS_def on_drive_def eq_ignore_ascii_case_def to_ascii_lowercase_def
      word_le_nat_alt)


end
