(* ===== verification/Debug_Log.thy ===== *)
theory Debug_Log
  imports Libc_Env
begin

text \<open>
  The debug log: the fixed-capacity line builder of \<^verbatim>\<open>protocol/debug.rs\<close> and the exported
  functions of \<^verbatim>\<open>runtime/src/debug.rs\<close>. A Rust array access out of range, which panics, is
  \<open>None\<close>; the bytes written to each descriptor are the trace \<open>dw_writes\<close>.
\<close>

section \<open>The line builder\<close>

definition CAPACITY :: nat where "CAPACITY = 512"

definition debug_value_enabled :: "bytes option \<Rightarrow> bool" where
  "debug_value_enabled val \<longleftrightarrow> (case val of None \<Rightarrow> False | Some v \<Rightarrow> v \<noteq> [] \<and> v \<noteq> ascii ''0'')"

record line =
  ln_bytes :: bytes
  ln_length :: nat

definition remaining :: "line \<Rightarrow> nat" where
  "remaining l = CAPACITY - 1 - ln_length l"

definition push :: "u8 \<Rightarrow> line \<Rightarrow> line option" where
  "push byte l = (if remaining l \<noteq> 0
     then map_option (\<lambda>bs. \<lparr>ln_bytes = bs, ln_length = ln_length l + 1\<rparr>) (arr_set (ln_bytes l) (ln_length l) byte)
     else Some l)"

definition line_append :: "bytes \<Rightarrow> line \<Rightarrow> line option" where
  "line_append text l = (let count = min (length text) (remaining l) in
     map_option (\<lambda>bs. \<lparr>ln_bytes = bs, ln_length = ln_length l + count\<rparr>) (copy_to (take count text) (ln_length l) (ln_bytes l)))"

definition DIGITS :: bytes where "DIGITS = ascii ''0123456789abcdef''"

text \<open>The loop fills \<open>digits\<close> from the back; \<open>start -= 1\<close> panics below zero.\<close>

fun number_loop :: "nat \<Rightarrow> nat \<Rightarrow> nat \<Rightarrow> bytes \<Rightarrow> (nat \<times> bytes) option" where
  "number_loop base val 0 digits = None"
| "number_loop base val (Suc start) digits =
     Option.bind (arr_get DIGITS (val mod base)) (\<lambda>d.
     Option.bind (arr_set digits start d) (\<lambda>digits.
       if val div base = 0 then Some (start, digits) else number_loop base (val div base) start digits))"

definition number :: "nat \<Rightarrow> bool \<Rightarrow> line \<Rightarrow> line option" where
  "number val hex l = Option.bind (number_loop (if hex then 16 else 10) val 20 (replicate 20 0))
     (\<lambda>(start, digits). line_append (drop start digits) l)"

definition line_new :: "nat \<Rightarrow> nat option \<Rightarrow> line option" where
  "line_new pid thread_id =
     Option.bind (line_append (ascii ''[linuwux] pid='') \<lparr>ln_bytes = replicate CAPACITY 0, ln_length = 0\<rparr>) (\<lambda>l.
     Option.bind (number pid False l) (\<lambda>l.
     Option.bind (case thread_id of None \<Rightarrow> Some l
       | Some tid \<Rightarrow> Option.bind (line_append (ascii '' linux_tid='') l) (number tid False)) (line_append (ascii '' ''))))"

definition finish :: "bool \<Rightarrow> line \<Rightarrow> bytes option" where
  "finish force_newline l =
     (if ln_length l < CAPACITY \<and> (force_newline \<or> ln_length l = 0 \<or> ln_bytes l ! (ln_length l - 1) \<noteq> 10)
      then map_option (take (ln_length l + 1)) (arr_set (ln_bytes l) (ln_length l) 10)
      else Some (take (ln_length l) (ln_bytes l)))"

section \<open>The exported functions\<close>

text \<open>
  \<open>dw_errno\<close> is the calling thread's \<^verbatim>\<open>errno\<close>; \<open>dw_write_errno\<close> what a failing \<^verbatim>\<open>write\<close> leaves
  there.
\<close>

record debug_world =
  dw_enabled :: bool
  dw_log_fd :: int
  dw_open_errno :: nat
  dw_stderr :: bool
  dw_errno :: nat
  dw_write_errno :: "nat option"
  dw_writes :: "(int \<times> bytes) list"

record debug_env =
  dv_pid :: nat
  dv_tid :: int
  dv_getenv :: "bytes \<Rightarrow> bytes option"
  dv_stderr_mode :: "u32 option"
  dv_open :: "bytes \<Rightarrow> int"
  dv_open_mode :: "u32 option"
  dv_fchmod :: bool
  dv_errno :: nat

definition S_IFMT :: u32 where "S_IFMT = 0xf000"
definition S_IFREG :: u32 where "S_IFREG = 0x8000"
definition S_IFCHR :: u32 where "S_IFCHR = 0x2000"

definition regular_file :: "u32 option \<Rightarrow> bool" where
  "regular_file mode \<longleftrightarrow> (case mode of None \<Rightarrow> False | Some m \<Rightarrow> m AND S_IFMT = S_IFREG)"

definition supported_stderr :: "debug_env \<Rightarrow> bool" where
  "supported_stderr e \<longleftrightarrow> (case dv_stderr_mode e of None \<Rightarrow> False | Some m \<Rightarrow> m AND S_IFMT \<in> {S_IFREG, S_IFCHR})"

text \<open>The descriptor and the errno it leaves; a file that is not regular gives \<^verbatim>\<open>EINVAL\<close>.\<close>

definition open_log :: "debug_env \<Rightarrow> bytes \<Rightarrow> int \<times> nat" where
  "open_log e path = (let fd = dv_open e path in
     if fd < 0 then (- 1, dv_errno e)
     else if \<not> regular_file (dv_open_mode e) then (- 1, EINVAL)
     else if \<not> dv_fchmod e then (- 1, dv_errno e)
     else (fd, dv_errno e))"

definition linuwux_setup_debug :: "debug_env \<Rightarrow> debug_world \<Rightarrow> debug_world" where
  "linuwux_setup_debug e w =
     (if \<not> debug_value_enabled (dv_getenv e (ascii ''LINUWUX_DEBUG'')) then w
      else let w = w\<lparr>dw_stderr := supported_stderr e\<rparr>;
               w = (case dv_getenv e (ascii ''LINUWUX_LOG'') of None \<Rightarrow> w
                 | Some path \<Rightarrow> if path = [] then w
                     else let (fd, err) = open_log e path; w = w\<lparr>dw_log_fd := fd\<rparr> in
                       if fd < 0 then w\<lparr>dw_open_errno := err\<rparr> else w) in
        w\<lparr>dw_enabled := True\<rparr>)"

definition new_line :: "debug_env \<Rightarrow> line option" where
  "new_line e = line_new (dv_pid e) (if dv_tid e > 0 then Some (nat (dv_tid e)) else None)"

fun append_text :: "bytes \<Rightarrow> line \<Rightarrow> line option" where
  "append_text [] l = Some l"
| "append_text (b # text) l = (if remaining l = 0 then Some l else Option.bind (push b l) (append_text text))"

definition write_fd :: "int \<Rightarrow> bytes \<Rightarrow> debug_world \<Rightarrow> debug_world" where
  "write_fd fd bs w = (case dw_write_errno w of
     None \<Rightarrow> w\<lparr>dw_writes := dw_writes w @ [(fd, bs)]\<rparr> | Some err \<Rightarrow> w\<lparr>dw_errno := err\<rparr>)"

definition emit :: "bytes \<Rightarrow> debug_world \<Rightarrow> debug_world" where
  "emit bs w =
     (if \<not> dw_enabled w \<or> bs = [] then w
      else let w = (if dw_log_fd w \<ge> 0 then write_fd (dw_log_fd w) bs w else w) in
        if dw_stderr w then write_fd 2 bs w else w)"

text \<open>\<open>Errno::save\<close> at the top, its \<open>Drop\<close> at every return.\<close>

definition with_errno_saved :: "(debug_world \<Rightarrow> debug_world option) \<Rightarrow> debug_world \<Rightarrow> debug_world option" where
  "with_errno_saved f w = map_option (\<lambda>w'. w'\<lparr>dw_errno := dw_errno w\<rparr>) (f w)"

definition debug_log :: "debug_env \<Rightarrow> bytes option \<Rightarrow> debug_world \<Rightarrow> debug_world option" where
  "debug_log e message = with_errno_saved (\<lambda>w. case message of None \<Rightarrow> Some w
     | Some text \<Rightarrow> if \<not> dw_enabled w then Some w
       else Option.bind (Option.bind (Option.bind (new_line e) (append_text text)) (finish False)) (\<lambda>bs. Some (emit bs w)))"

definition optional_text :: "bytes option \<Rightarrow> bytes" where
  "optional_text t = (case t of None \<Rightarrow> [] | Some s \<Rightarrow> s)"

definition debug_log_hex :: "debug_env \<Rightarrow> bytes option \<Rightarrow> u64 \<Rightarrow> debug_world \<Rightarrow> debug_world option" where
  "debug_log_hex e prefix val = with_errno_saved (\<lambda>w. if \<not> dw_enabled w then Some w
     else Option.bind (Option.bind (Option.bind (Option.bind (Option.bind (new_line e) (append_text (optional_text prefix)))
       (line_append (ascii ''0x''))) (number (unat val) True)) (finish True)) (\<lambda>bs. Some (emit bs w)))"

definition debug_log_dec :: "debug_env \<Rightarrow> bytes option \<Rightarrow> u64 \<Rightarrow> debug_world \<Rightarrow> debug_world option" where
  "debug_log_dec e prefix val = with_errno_saved (\<lambda>w. if \<not> dw_enabled w then Some w
     else Option.bind (Option.bind (Option.bind (Option.bind (new_line e) (append_text (optional_text prefix)))
       (number (unat val) False)) (finish True)) (\<lambda>bs. Some (emit bs w)))"

definition debug_runtime_activated :: "debug_env \<Rightarrow> debug_world \<Rightarrow> debug_world option" where
  "debug_runtime_activated e w = Option.bind (debug_log e (Some (ascii ''safe debug logging enabled'')) w) (\<lambda>w.
     if dw_log_fd w \<ge> 0 then debug_log e (Some (ascii ''dedicated debug log enabled'')) w
     else if dw_open_errno w \<noteq> 0
       then debug_log_dec e (Some (ascii ''dedicated debug log open errno='')) (of_nat (dw_open_errno w)) w
     else Some w)"

section \<open>Numbers\<close>

text \<open>The digits a value has in a base, most significant first.\<close>

function digits_of :: "nat \<Rightarrow> nat \<Rightarrow> nat list" where
  "digits_of base n = (if base < 2 \<or> n < base then [n] else digits_of base (n div base) @ [n mod base])"
  by auto
termination by (relation "measure snd") auto

declare digits_of.simps [simp del]

definition digit_chars :: "nat \<Rightarrow> nat \<Rightarrow> bytes" where
  "digit_chars base n = map ((!) DIGITS) (digits_of base n)"

fun from_digits :: "nat \<Rightarrow> nat list \<Rightarrow> nat \<Rightarrow> nat" where
  "from_digits base [] acc = acc"
| "from_digits base (d # ds) acc = from_digits base ds (acc * base + d)"

lemma from_digits_append: "from_digits base (ds @ es) acc = from_digits base es (from_digits base ds acc)"
  by (induction ds arbitrary: acc) auto

lemma from_digits_of: "from_digits base (digits_of base n) 0 = n"
proof (induction base n rule: digits_of.induct)
  case (1 base n)
  then show ?case by (subst digits_of.simps) (simp add: from_digits_append)
qed

lemma digits_of_less: "2 \<le> base \<Longrightarrow> d \<in> set (digits_of base n) \<Longrightarrow> d < base"
proof (induction base n rule: digits_of.induct)
  case (1 base n)
  from 1(3) show ?case using 1(1,2) by (subst (asm) digits_of.simps) (auto split: if_splits)
qed

lemma length_digits_of: "2 \<le> base \<Longrightarrow> n < base ^ Suc k \<Longrightarrow> length (digits_of base n) \<le> Suc k"
proof (induction k arbitrary: n)
  case 0
  then show ?case by (subst digits_of.simps) simp
next
  case (Suc k)
  then have "n div base < base ^ Suc k" by (simp add: less_mult_imp_div_less mult.commute)
  from Suc.IH [OF Suc.prems(1) this] show ?case by (subst digits_of.simps) simp
qed

lemma length_DIGITS: "length DIGITS = 16"
  by (simp add: DIGITS_def)

lemma number_loop_digits:
  assumes "2 \<le> base" and "base \<le> 16" and "length (digits_of base n) \<le> start" and "start \<le> length digits"
  shows "\<exists>s out. number_loop base n start digits = Some (s, out) \<and> drop s out = digit_chars base n @ drop start digits"
  using assms
proof (induction base n arbitrary: start digits rule: digits_of.induct)
  case (1 base n)
  have "digits_of base n \<noteq> []" by (subst digits_of.simps) simp
  with 1(4) obtain k where k: "start = Suc k" by (cases start) auto
  have "n mod base < base" using 1(2) by simp
  with 1(3) have m: "n mod base < 16" by linarith
  let ?d = "digits[k := DIGITS ! (n mod base)]"
  have step: "number_loop base n start digits = (if n div base = 0 then Some (k, ?d) else number_loop base (n div base) k ?d)"
    using k m 1(5) by (simp add: length_DIGITS)
  have "drop k ?d = ?d ! k # drop (Suc k) ?d" using k 1(5) by (intro Cons_nth_drop_Suc [symmetric]) simp
  with k 1(5) have dk: "drop k ?d = DIGITS ! (n mod base) # drop (Suc k) digits" by simp
  show ?case
  proof (cases "n < base")
    case True
    with step dk k show ?thesis by (simp add: digit_chars_def digits_of.simps [of base n])
  next
    case False
    then have ds: "digits_of base n = digits_of base (n div base) @ [n mod base]" using 1(2) by (subst digits_of.simps) simp
    then have "length (digits_of base (n div base)) \<le> k" using 1(4) k by simp
    with 1(1) [of k ?d] False 1(2,3,5) k obtain s out where
      o: "number_loop base (n div base) k ?d = Some (s, out)" "drop s out = digit_chars base (n div base) @ drop k ?d" by auto
    have "n div base \<noteq> 0" using False 1(2) by (simp add: div_eq_0_iff)
    with step o dk k ds show ?thesis by (simp add: digit_chars_def)
  qed
qed

section \<open>The text of a line\<close>

text \<open>A line holds a text: the first bytes of its array, which stays at its capacity.\<close>

definition holds_text :: "line \<Rightarrow> bytes \<Rightarrow> bool" where
  "holds_text l t \<longleftrightarrow> length (ln_bytes l) = CAPACITY \<and> ln_length l = length (take (CAPACITY - 1) t) \<and>
     take (ln_length l) (ln_bytes l) = take (CAPACITY - 1) t"

lemma holds_text_alt:
  "holds_text l t \<longleftrightarrow> length (ln_bytes l) = CAPACITY \<and> ln_length l = length (take (CAPACITY - 1) t) \<and>
     (\<exists>rest. ln_bytes l = take (CAPACITY - 1) t @ rest)"
  unfolding holds_text_def by (metis append_eq_conv_conj)

lemma append_holds:
  assumes "holds_text l t"
  shows "\<exists>l'. line_append s l = Some l' \<and> holds_text l' (t @ s)"
proof -
  define body where "body = take (CAPACITY - 1) t"
  define count where "count = min (length s) (remaining l)"
  from assms obtain rest where l: "length (ln_bytes l) = CAPACITY" "ln_length l = length body" "ln_bytes l = body @ rest"
    unfolding holds_text_alt body_def by blast
  have bl: "length body \<le> CAPACITY - 1" "CAPACITY \<noteq> 0" by (simp_all add: body_def CAPACITY_def)
  have fit: "length body + count \<le> CAPACITY" using bl by (simp add: count_def remaining_def l(2))
  have len: "length (take count s) = count" by (simp add: count_def)
  have c: "copy_to (take count s) (length body) (body @ rest) = Some ((body @ take count s) @ drop count rest)"
    using fit l(1,3) len by (simp add: copy_to_def)
  have "take (CAPACITY - 1) (t @ s) = body @ take count s"
    unfolding take_append body_def [symmetric] count_def remaining_def l(2) by (auto simp: body_def min_def)
  then show ?thesis using c l len fit
    by (simp add: line_append_def holds_text_alt Let_def count_def [symmetric])
qed

lemma number_holds:
  assumes "holds_text l t" and "n < 2 ^ 64"
  shows "\<exists>l'. number n hex l = Some l' \<and> holds_text l' (t @ digit_chars (if hex then 16 else 10) n)"
proof -
  let ?base = "if hex then 16 else 10 :: nat"
  have "length (digits_of ?base n) \<le> 20"
    using length_digits_of [of 16 n 15] length_digits_of [of 10 n 19] assms(2) by auto
  then obtain s out where o: "number_loop ?base n 20 (replicate 20 0) = Some (s, out)" "drop s out = digit_chars ?base n"
    using number_loop_digits [of ?base n 20 "replicate 20 0"] by (auto split: if_splits)
  with append_holds [OF assms(1), of "digit_chars ?base n"] show ?thesis by (simp add: number_def)
qed

lemma push_append: "remaining l \<noteq> 0 \<Longrightarrow> length (ln_bytes l) = CAPACITY \<Longrightarrow> push b l = line_append [b] l"
  by (auto simp: push_def line_append_def copy_to_def remaining_def Let_def upd_conv_take_nth_drop CAPACITY_def)

lemma append_text_holds: "holds_text l t \<Longrightarrow> \<exists>l'. append_text s l = Some l' \<and> holds_text l' (t @ s)"
proof (induction s arbitrary: l t)
  case (Cons b s)
  show ?case
  proof (cases "remaining l = 0")
    case True
    then have "CAPACITY - 1 \<le> length t" using Cons.prems by (auto simp: remaining_def holds_text_def)
    then have "take (CAPACITY - 1) (t @ b # s) = take (CAPACITY - 1) t" by simp
    then have "holds_text l (t @ b # s)" using Cons.prems unfolding holds_text_def by metis
    with True show ?thesis by simp
  next
    case False
    with append_holds [OF Cons.prems, of "[b]"] obtain l1 where "push b l = Some l1" "holds_text l1 (t @ [b])"
      using push_append [OF False, of b] Cons.prems by (auto simp: holds_text_def)
    with Cons.IH [of l1 "t @ [b]"] False show ?thesis by simp
  qed
qed simp

lemma finish_holds:
  assumes "holds_text l t"
  shows "finish force l = Some (let body = take (CAPACITY - 1) t in
    if force \<or> body = [] \<or> last body \<noteq> 10 then body @ [10] else body)"
proof -
  let ?body = "take (CAPACITY - 1) t"
  have l: "length (ln_bytes l) = CAPACITY" "ln_length l = length ?body" "take (length ?body) (ln_bytes l) = ?body"
    using assms by (auto simp: holds_text_def)
  have lt: "length ?body < CAPACITY" by (simp add: CAPACITY_def)
  have lst: "?body \<noteq> [] \<Longrightarrow> ln_bytes l ! (length ?body - 1) = last ?body"
    using l(3) by (metis last_conv_nth diff_less length_greater_0_conv less_numeral_extra(1) nth_take)
  have "take (length ?body + 1) ((ln_bytes l)[length ?body := 10]) = ?body @ [10]"
    using lt l(1,3) by (simp add: take_Suc_conv_app_nth)
  then show ?thesis
    using lt l lst by (cases "?body = []") (auto simp: finish_def Let_def)
qed

definition line_header :: "debug_env \<Rightarrow> bytes" where
  "line_header e = ascii ''[linuwux] pid='' @ digit_chars 10 (dv_pid e) @
     (if dv_tid e > 0 then ascii '' linux_tid='' @ digit_chars 10 (nat (dv_tid e)) else []) @ ascii '' ''"

lemma new_line_holds:
  assumes "dv_pid e < 2 ^ 31" and "dv_tid e < 2 ^ 31"
  shows "\<exists>l. new_line e = Some l \<and> holds_text l (line_header e)"
proof -
  have "holds_text \<lparr>ln_bytes = replicate CAPACITY 0, ln_length = 0\<rparr> []" by (simp add: holds_text_def)
  from append_holds [OF this, of "ascii ''[linuwux] pid=''"] obtain l1 where
    l1: "line_append (ascii ''[linuwux] pid='') \<lparr>ln_bytes = replicate CAPACITY 0, ln_length = 0\<rparr> = Some l1"
      "holds_text l1 (ascii ''[linuwux] pid='')" by auto
  from number_holds [OF l1(2), of "dv_pid e" False] assms(1) obtain l2 where
    l2: "number (dv_pid e) False l1 = Some l2" "holds_text l2 (ascii ''[linuwux] pid='' @ digit_chars 10 (dv_pid e))" by auto
  show ?thesis
  proof (cases "dv_tid e > 0")
    case False
    with append_holds [OF l2(2), of "ascii '' ''"] l1(1) l2(1) show ?thesis
      by (simp del: ascii_Cons add: new_line_def line_new_def line_header_def)
  next
    case True
    from append_holds [OF l2(2), of "ascii '' linux_tid=''"] obtain l3 where
      l3: "line_append (ascii '' linux_tid='') l2 = Some l3" "holds_text l3 ((ascii ''[linuwux] pid='' @ digit_chars 10 (dv_pid e)) @ ascii '' linux_tid='')"
      by blast
    have "nat (dv_tid e) < 2 ^ 64" using assms(2) by simp
    from number_holds [OF l3(2) this, of False] obtain l4 where
      l4: "number (nat (dv_tid e)) False l3 = Some l4"
        "holds_text l4 (((ascii ''[linuwux] pid='' @ digit_chars 10 (dv_pid e)) @ ascii '' linux_tid='') @ digit_chars 10 (nat (dv_tid e)))" by auto
    from append_holds [OF l4(2), of "ascii '' ''"] l1(1) l2(1) l3(1) l4(1) True show ?thesis
      by (simp del: ascii_Cons add: new_line_def line_new_def line_header_def)
  qed
qed

section \<open>Properties\<close>

text \<open>The bytes of a number in a base.\<close>

definition prints_number :: "nat \<Rightarrow> nat \<Rightarrow> bytes \<Rightarrow> bool" where
  "prints_number base n t \<longleftrightarrow> (\<exists>ds. t = map ((!) DIGITS) ds \<and> list_all (\<lambda>d. d < base) ds \<and> from_digits base ds 0 = n)"

lemma digit_chars_prints: "2 \<le> base \<Longrightarrow> prints_number base n (digit_chars base n)"
  unfolding prints_number_def digit_chars_def list_all_iff using digits_of_less [of base] from_digits_of [of base n] by blast

lemma number_line:
  assumes "holds_text l t" and "n < 2 ^ 64"
  shows "Option.bind (number n hex l) (finish True) = Some (take (CAPACITY - 1) (t @ digit_chars (if hex then 16 else 10) n) @ [10])"
  using number_holds [OF assms, of hex] finish_holds by fastforce

text \<open>
  A logged number. With logging on, \<^verbatim>\<open>debug_log_hex\<close> and \<^verbatim>\<open>debug_log_dec\<close> never index out
  of their buffers and hand one line to the descriptors: the header, the prefix and digits
  that read back as the value, cut to 511 bytes and ended by a newline; \<^verbatim>\<open>errno\<close> is as before
  even when the write fails.
\<close>

lemma number_logged:
  assumes "dw_enabled w" and "dv_pid e < 2 ^ 31" and "dv_tid e < 2 ^ 31"
  shows "\<exists>hex dec. prints_number 16 (unat val) hex \<and> prints_number 10 (unat val) dec \<and>
    debug_log_hex e prefix val w =
      Some ((emit (take (CAPACITY - 1) (line_header e @ optional_text prefix @ ascii ''0x'' @ hex) @ [10]) w)\<lparr>dw_errno := dw_errno w\<rparr>) \<and>
    debug_log_dec e prefix val w =
      Some ((emit (take (CAPACITY - 1) (line_header e @ optional_text prefix @ dec) @ [10]) w)\<lparr>dw_errno := dw_errno w\<rparr>)"
proof -
  have v: "unat val < 2 ^ 64" using unsigned_less [of val, where ?'a = nat] by simp
  from new_line_holds [OF assms(2,3)] obtain l0 where l0: "new_line e = Some l0" "holds_text l0 (line_header e)" by blast
  from append_text_holds [OF l0(2), of "optional_text prefix"] obtain l1 where
    l1: "append_text (optional_text prefix) l0 = Some l1" "holds_text l1 (line_header e @ optional_text prefix)" by blast
  from append_holds [OF l1(2), of "ascii ''0x''"] obtain l2 where
    l2: "line_append (ascii ''0x'') l1 = Some l2" "holds_text l2 ((line_header e @ optional_text prefix) @ ascii ''0x'')" by blast
  have "debug_log_hex e prefix val w =
      Some ((emit (take (CAPACITY - 1) (line_header e @ optional_text prefix @ ascii ''0x'' @ digit_chars 16 (unat val)) @ [10]) w)\<lparr>dw_errno := dw_errno w\<rparr>)"
    using number_line [OF l2(2) v, of True] l0(1) l1(1) l2(1) assms(1)
    by (simp del: ascii_Cons add: debug_log_hex_def with_errno_saved_def Option.bind_assoc)
  moreover have "debug_log_dec e prefix val w =
      Some ((emit (take (CAPACITY - 1) (line_header e @ optional_text prefix @ digit_chars 10 (unat val)) @ [10]) w)\<lparr>dw_errno := dw_errno w\<rparr>)"
    using number_line [OF l1(2) v, of False] l0(1) l1(1) assms(1)
    by (simp del: ascii_Cons add: debug_log_dec_def with_errno_saved_def Option.bind_assoc)
  ultimately show ?thesis using digit_chars_prints [of 16 "unat val"] digit_chars_prints [of 10 "unat val"] by auto
qed

definition sample_debug :: debug_world where
  "sample_debug = \<lparr>dw_enabled = True, dw_log_fd = 5, dw_open_errno = 0, dw_stderr = False, dw_errno = 11, dw_write_errno = None, dw_writes = []\<rparr>"

definition sample_debug_env :: debug_env where
  "sample_debug_env = \<lparr>dv_pid = 42, dv_tid = 0, dv_getenv = (\<lambda>_. None), dv_stderr_mode = None, dv_open = (\<lambda>_. 5),
     dv_open_mode = None, dv_fchmod = True, dv_errno = 0\<rparr>"

text \<open>A message is logged the same way, with a newline added unless it ends in one.\<close>

lemma logged_message:
  assumes "dw_enabled w" and "dv_pid e < 2 ^ 31" and "dv_tid e < 2 ^ 31"
  shows "debug_log e (Some t) w = Some ((emit (let body = take (CAPACITY - 1) (line_header e @ t) in
    if body = [] \<or> last body \<noteq> 10 then body @ [10] else body) w)\<lparr>dw_errno := dw_errno w\<rparr>)"
proof -
  from new_line_holds [OF assms(2,3)] obtain l0 where l0: "new_line e = Some l0" "holds_text l0 (line_header e)" by blast
  from append_text_holds [OF l0(2), of t] obtain l1 where l1: "append_text t l0 = Some l1" "holds_text l1 (line_header e @ t)" by blast
  with l0 finish_holds [OF l1(2), of False] assms(1) show ?thesis by (simp add: debug_log_def with_errno_saved_def)
qed

text \<open>Only a regular file whose mode could be restricted becomes the log.\<close>

lemma setup_debug_fd:
  "dw_log_fd w < 0 \<Longrightarrow> 0 \<le> dw_log_fd (linuwux_setup_debug e w) \<Longrightarrow>
     debug_value_enabled (dv_getenv e (ascii ''LINUWUX_DEBUG'')) \<and> regular_file (dv_open_mode e) \<and> dv_fchmod e"
  by (auto simp del: ascii_Cons simp add: linuwux_setup_debug_def open_log_def Let_def split: if_splits option.splits)

end
