(* ===== verification/Cpuid_Caller.thy ===== *)
theory Cpuid_Caller
  imports Maps Procmem
begin

text \<open>
  The caller classification of \<^verbatim>\<open>runtime/src/cpuid.rs\<close>: which image a trapped CPUID comes from, by
  the path of its mapping or by the export name of the PE image around it, and the cache of
  classified ranges. The cache is given twice: as the operations run alone, and (\<open>seq_step\<close>)
  as the atomic accesses of readers and writers of one entry interleaved.
\<close>

section \<open>Kinds\<close>

datatype caller_kind = Ordinary | Reflex64 | Artifact

fun kind_code :: "caller_kind \<Rightarrow> u32" where
  "kind_code Ordinary = 0"
| "kind_code Reflex64 = 1"
| "kind_code Artifact = 2"

definition kind_from_raw :: "u32 \<Rightarrow> caller_kind" where
  "kind_from_raw v = (if v = 1 then Reflex64 else if v = 2 then Artifact else Ordinary)"

lemma kind_from_code [simp]: "kind_from_raw (kind_code k) = k"
  by (cases k) (simp_all add: kind_from_raw_def)

section \<open>The cache of classified ranges\<close>

definition CALLER_CACHE_CAP :: nat where "CALLER_CACHE_CAP = 64"

record caller_slot =
  cs_sequence :: u32
  cs_start :: u64
  cs_end :: u64
  cs_kind :: u32

record caller_cache =
  cc_lock :: bool
  cc_next :: u32
  cc_slots :: "caller_slot list"

definition caller_cache_new :: caller_cache where
  "caller_cache_new = \<lparr>cc_lock = False, cc_next = 0,
     cc_slots = replicate CALLER_CACHE_CAP \<lparr>cs_sequence = 0, cs_start = 0, cs_end = 0, cs_kind = kind_code Ordinary\<rparr>\<rparr>"

definition slot_hit :: "u64 \<Rightarrow> caller_slot \<Rightarrow> bool" where
  "slot_hit address s \<longleftrightarrow> cs_sequence s AND 1 = 0 \<and> cs_start s \<le> address \<and> address < cs_end s"

definition caller_lookup :: "caller_cache \<Rightarrow> u64 \<Rightarrow> caller_kind option" where
  "caller_lookup c address = map_option (\<lambda>s. kind_from_raw (cs_kind s)) (List.find (slot_hit address) (cc_slots c))"

definition caller_insert :: "caller_cache \<Rightarrow> u64 \<Rightarrow> u64 \<Rightarrow> caller_kind \<Rightarrow> caller_cache" where
  "caller_insert c start stop kind =
     (if cc_lock c then c
      else let index = unat (cc_next c) mod CALLER_CACHE_CAP; s = cc_slots c ! index in
        c\<lparr>cc_next := of_nat (index + 1),
          cc_slots := (cc_slots c)[index := \<lparr>cs_sequence = cs_sequence s + 2, cs_start = start, cs_end = stop,
            cs_kind = kind_code kind\<rparr>]\<rparr>)"

section \<open>Images by name\<close>

definition is_identity_leaf :: "u32 \<Rightarrow> bool" where
  "is_identity_leaf leaf \<longleftrightarrow> leaf = 1 \<or> 0x40000000 \<le> leaf \<and> leaf \<le> 0x40000001 \<or> 0x80000002 \<le> leaf \<and> leaf \<le> 0x80000004"

definition little_endian_u16 :: "bytes \<Rightarrow> u16 option" where
  "little_endian_u16 bs = (if 2 \<le> length bs then Some (from_le (take 2 bs)) else None)"

definition little_endian_u32 :: "bytes \<Rightarrow> u32 option" where
  "little_endian_u32 bs = (if 4 \<le> length bs then Some (from_le (take 4 bs)) else None)"

definition pe_export_name :: "vmem \<Rightarrow> u64 \<Rightarrow> bytes \<Rightarrow> bool" where
  "pe_export_name m base expected \<longleftrightarrow> do {
     require (length expected < 32);
     dos \<leftarrow> read_memory m base 64;
     require (take 2 dos = ascii ''MZ'');
     header_offset \<leftarrow> little_endian_u32 (drop 0x3c dos);
     header_address \<leftarrow> checked_add base (ucast header_offset);
     header \<leftarrow> read_memory m header_address 160;
     require (take 4 header = ascii ''PE'' @ [0, 0] \<and> little_endian_u16 (drop 24 header) = Some 0x20b);
     export_rva \<leftarrow> little_endian_u32 (drop 136 header);
     export_address \<leftarrow> checked_add base (ucast export_rva);
     export \<leftarrow> read_memory m export_address 16;
     name_rva \<leftarrow> little_endian_u32 (drop 12 export);
     name_address \<leftarrow> checked_add base (ucast name_rva);
     name \<leftarrow> read_memory m name_address (length expected + 1);
     require (take (length expected) name = expected \<and> name ! length expected = 0) } = Some ()"

fun search_named :: "vmem \<Rightarrow> bytes \<Rightarrow> u64 \<Rightarrow> u64 list \<Rightarrow> bool" where
  "search_named m expected aligned [] = False"
| "search_named m expected aligned (offset # offsets) =
     (case checked_sub aligned offset of
        None \<Rightarrow> False
      | Some base \<Rightarrow> pe_export_name m base expected \<or> search_named m expected aligned offsets)"

definition named_offsets :: "u64 list" where
  "named_offsets = map (\<lambda>k. of_nat k * 0x10000) [0..<257]"

definition pe_image_named :: "vmem \<Rightarrow> u64 \<Rightarrow> bytes \<Rightarrow> bool" where
  "pe_image_named m address expected = search_named m expected (address AND NOT 0xffff) named_offsets"

section \<open>Mappings by path\<close>

definition path_kind :: "bytes \<Rightarrow> caller_kind" where
  "path_kind pathname =
     (let pathname = (case strip_suffix (ascii '' (deleted)'') pathname of Some p \<Rightarrow> p | None \<Rightarrow> pathname);
          filename = last (split_on (\<lambda>b. b = 47) pathname) in
      if filename = ascii ''reflex64.dll'' \<or> filename = ascii ''reflex64.dll.so'' then Reflex64
      else if filename = ascii ''artifact.dll'' \<or> filename = ascii ''artifact.dll.so'' then Artifact
      else Ordinary)"

definition caller_mapping :: "bytes \<Rightarrow> u64 \<Rightarrow> (u64 \<times> u64 \<times> caller_kind) option" where
  "caller_mapping line address = do {
     mapping \<leftarrow> parse_maps_line line;
     require (map_start mapping \<le> address \<and> address < map_end mapping);
     Some (map_start mapping, map_end mapping, path_kind (map_path mapping)) }"

definition artifact_line :: "bytes \<Rightarrow> bool" where
  "artifact_line line = (case parse_maps_line line of None \<Rightarrow> False | Some mapping \<Rightarrow> path_kind (map_path mapping) = Artifact)"

definition artifact_module_mapped :: "bytes list option \<Rightarrow> bool" where
  "artifact_module_mapped maps = snd (find_line (\<lambda>u line. (u, artifact_line line)) maps ())"

definition ARTIFACT_RESCAN_INTERVAL_MS :: u64 where "ARTIFACT_RESCAN_INTERVAL_MS = 1000"

record artifact_scan =
  as_generation :: u64
  as_milliseconds :: u64

definition artifact_scan_new :: artifact_scan where
  "artifact_scan_new = \<lparr>as_generation = - 1, as_milliseconds = 0\<rparr>"

text \<open>With the features that count file mappings; \<open>now\<close> is the coarse clock.\<close>

definition artifact_module_newly_mapped :: "u64 \<Rightarrow> u64 \<Rightarrow> bytes list option \<Rightarrow> artifact_scan \<Rightarrow> artifact_scan \<times> bool" where
  "artifact_module_newly_mapped generation now maps a =
     (if generation = as_generation a \<and> now - as_milliseconds a < ARTIFACT_RESCAN_INTERVAL_MS then (a, False)
      else let found = artifact_module_mapped maps in
        (if found then a else \<lparr>as_generation = generation, as_milliseconds = now\<rparr>, found))"

section \<open>Classification\<close>

definition find_caller_mapping :: "bytes list option \<Rightarrow> u64 \<Rightarrow> (u64 \<times> u64 \<times> caller_kind) option" where
  "find_caller_mapping maps address =
     fst (find_line (\<lambda>r line. let r' = caller_mapping line address in (r', r' \<noteq> None)) maps None)"

definition classify_caller :: "vmem \<Rightarrow> bytes list option \<Rightarrow> bool \<Rightarrow> u64 \<Rightarrow> caller_cache \<Rightarrow> caller_cache \<times> caller_kind option" where
  "classify_caller m maps established address c = (case caller_lookup c address of
       Some kind \<Rightarrow> (c, Some kind)
     | None \<Rightarrow> (case find_caller_mapping maps address of
           None \<Rightarrow> (c, None)
         | Some (start, stop, mapped_kind) \<Rightarrow>
             (let still_searching = (mapped_kind = Ordinary \<and> \<not> established);
                  kind = (if still_searching \<and> pe_image_named m address (ascii ''reflex64.dll'') then Reflex64
                          else if still_searching \<and> pe_image_named m address (ascii ''artifact.dll'') then Artifact
                          else mapped_kind) in
              (caller_insert c start stop kind, Some kind))))"

section \<open>The cache run alone\<close>

type_synonym classified = "u64 \<times> u64 \<times> caller_kind"

definition caller_inserts :: "classified list \<Rightarrow> caller_cache" where
  "caller_inserts es = foldl (\<lambda>c (s, e, k). caller_insert c s e k) caller_cache_new es"

definition covers :: "u64 \<Rightarrow> classified \<Rightarrow> bool" where
  "covers a x \<longleftrightarrow> fst x \<le> a \<and> a < fst (snd x)"

definition recent_ranges :: "classified list \<Rightarrow> classified list" where
  "recent_ranges es = drop (length es - CALLER_CACHE_CAP) es"

definition classified_view :: "caller_slot \<Rightarrow> classified" where
  "classified_view s = (cs_start s, cs_end s, kind_from_raw (cs_kind s))"

definition ring_at :: "classified list \<Rightarrow> nat \<Rightarrow> classified" where
  "ring_at es i = (if i < length es then es ! (i + 64 * ((length es - 1 - i) div 64)) else (0, 0, Ordinary))"

lemma ring_index:
  fixes n i :: nat
  assumes "i < n"
  shows "i + 64 * ((n - 1 - i) div 64) < n" and "n \<le> i + 64 * ((n - 1 - i) div 64) + 64"
proof -
  have "n - 1 - i = 64 * ((n - 1 - i) div 64) + (n - 1 - i) mod 64" "(n - 1 - i) mod 64 < 64" by simp_all
  with assms show "i + 64 * ((n - 1 - i) div 64) < n" and "n \<le> i + 64 * ((n - 1 - i) div 64) + 64" by linarith+
qed

lemma ring_index_kept:
  fixes n i :: nat
  assumes "i < 64" and "i \<noteq> n mod 64" and "i < n"
  shows "(n - i) div 64 = (n - 1 - i) div 64"
proof -
  define q r where "q = (n - 1 - i) div 64" and "r = (n - 1 - i) mod 64"
  have "n - 1 - i = 64 * q + r" "r < 64" by (simp_all add: q_def r_def)
  with assms(3) have n: "n = i + 64 * q + (r + 1)" "r + 1 \<le> 64" by linarith+
  have "r + 1 \<noteq> 64"
  proof
    assume "r + 1 = 64"
    with n have "n = i + 64 * (q + 1)" by simp
    then have "n mod 64 = i" using assms(1) by (metis mod_less mod_mult_self2)
    with assms(2) show False by simp
  qed
  with n have "(n - i) div 64 = q" by simp
  then show ?thesis by (simp add: q_def)
qed

lemma ring_index_of:
  fixes n j :: nat
  assumes "j < n" and "n \<le> j + 64"
  shows "j mod 64 + 64 * ((n - 1 - j mod 64) div 64) = j"
proof -
  have j: "j = j mod 64 + 64 * (j div 64)" by simp
  then have "n - 1 - j mod 64 = 64 * (j div 64) + (n - 1 - j)" using assms(1) by linarith
  with assms have "(n - 1 - j mod 64) div 64 = j div 64" by simp
  then show ?thesis by simp
qed

lemma ring_at_snoc:
  assumes "i < 64"
  shows "ring_at (es @ [x]) i = (if i = length es mod 64 then x else ring_at es i)"
proof -
  let ?n = "length es"
  consider "i = ?n mod 64" | "i \<noteq> ?n mod 64" "i < ?n" | "i \<noteq> ?n mod 64" "\<not> i < ?n" by blast
  then show ?thesis
  proof cases
    case 1
    then have "i + 64 * ((?n - i) div 64) = ?n" "i < Suc ?n" by (simp_all add: minus_mod_eq_mult_div less_Suc_eq_le)
    with 1 show ?thesis by (simp add: ring_at_def)
  next
    case 2
    with assms ring_index [of i ?n] ring_index_kept [of i ?n] show ?thesis by (simp add: ring_at_def nth_append)
  next
    case 3
    with assms have "\<not> i < Suc ?n" by (auto simp: less_Suc_eq)
    with 3 show ?thesis by (simp add: ring_at_def)
  qed
qed

lemma next_index: "unat (of_nat (n mod 64 + 1) :: u32) mod 64 = Suc n mod 64"
proof -
  have "unat (of_nat (n mod 64 + 1) :: u32) = n mod 64 + 1"
    by (simp only: unat_of_nat) (simp add: take_bit_nat_eq_self)
  then show ?thesis by (simp add: mod_Suc_eq)
qed

lemma caller_inserts_snoc: "caller_inserts (es @ [(s, e, k)]) = caller_insert (caller_inserts es) s e k"
  by (simp add: caller_inserts_def)

lemma caller_inserts_ring:
  "\<not> cc_lock (caller_inserts es) \<and> length (cc_slots (caller_inserts es)) = 64 \<and>
   unat (cc_next (caller_inserts es)) mod 64 = length es mod 64 \<and>
   (\<forall>i < 64. classified_view (cc_slots (caller_inserts es) ! i) = ring_at es i \<and>
             cs_sequence (cc_slots (caller_inserts es) ! i) AND 1 = 0)"
proof (induction es rule: rev_induct)
  case Nil
  show ?case
    by (simp add: caller_inserts_def caller_cache_new_def CALLER_CACHE_CAP_def classified_view_def ring_at_def kind_from_raw_def)
next
  case (snoc x es)
  obtain s e k where x: "x = (s, e, k)" by (cases x)
  let ?c = "caller_inserts es" and ?i = "length es mod 64"
  have c: "caller_inserts (es @ [x]) = ?c\<lparr>cc_next := of_nat (?i + 1),
      cc_slots := (cc_slots ?c)[?i := \<lparr>cs_sequence = cs_sequence (cc_slots ?c ! ?i) + 2, cs_start = s, cs_end = e, cs_kind = kind_code k\<rparr>]\<rparr>"
    using snoc.IH by (simp add: x caller_inserts_snoc caller_insert_def Let_def CALLER_CACHE_CAP_def)
  have even: "q + 2 AND 1 = 0" if "q AND 1 = 0" for q :: u32
    using that by (simp add: and_one_eq mod_2_eq_odd split: if_splits)
  show ?case
    unfolding c using snoc.IH next_index [of "length es"]
    by (auto simp: nth_list_update ring_at_snoc classified_view_def x even)
qed

lemma set_ring: "ring_at es ` {i. i < 64 \<and> i < length es} = set (recent_ranges es)"
proof (intro set_eqI iffI)
  fix x assume "x \<in> ring_at es ` {i. i < 64 \<and> i < length es}"
  then obtain i where i: "i < 64" "i < length es" "x = ring_at es i" by auto
  let ?j = "i + 64 * ((length es - 1 - i) div 64)"
  have j: "?j < length es" "length es - 64 \<le> ?j" using ring_index [OF i(2)] by simp_all
  then have "?j - (length es - 64) < length (recent_ranges es)"
    unfolding recent_ranges_def CALLER_CACHE_CAP_def length_drop by (rule diff_less_mono)
  moreover from j have "x = recent_ranges es ! (?j - (length es - 64))"
    using i by (auto simp: recent_ranges_def CALLER_CACHE_CAP_def ring_at_def nth_drop)
  ultimately show "x \<in> set (recent_ranges es)" by (metis nth_mem)
next
  fix x assume "x \<in> set (recent_ranges es)"
  then obtain d where d: "d < length (recent_ranges es)" "x = recent_ranges es ! d" by (auto simp: in_set_conv_nth)
  let ?j = "length es - 64 + d"
  have j: "?j < length es" "length es - 64 \<le> ?j" "x = es ! ?j"
    using d by (auto simp: recent_ranges_def CALLER_CACHE_CAP_def nth_drop)
  have "?j mod 64 + 64 * ((length es - 1 - ?j mod 64) div 64) = ?j" using j(1) by (intro ring_index_of) simp_all
  moreover have "?j mod 64 < length es" using j(1) by (metis le_less_trans mod_less_eq_dividend)
  ultimately have "es ! ?j = ring_at es (?j mod 64)" by (simp add: ring_at_def)
  with j(3) \<open>?j mod 64 < length es\<close> show "x \<in> ring_at es ` {i. i < 64 \<and> i < length es}" by auto
qed

text \<open>
  What the cache answers. After any number of inserts a lookup finds a range exactly when
  one of the last 64 inserted ranges contains the address, and the kind it answers is the one
  recorded with such a range.
\<close>

lemma caller_lookup_recent:
  "(caller_lookup (caller_inserts es) a = None \<longleftrightarrow> \<not> list_ex (covers a) (recent_ranges es)) \<and>
   (caller_lookup (caller_inserts es) a = Some k \<longrightarrow> (\<exists>s e. (s, e, k) \<in> set (recent_ranges es) \<and> s \<le> a \<and> a < e))"
proof -
  let ?slots = "cc_slots (caller_inserts es)"
  note ring = caller_inserts_ring [of es]
  have hit: "slot_hit a s \<longleftrightarrow> covers a (classified_view s)" if "s \<in> set ?slots" for s
    using that ring by (auto simp: slot_hit_def covers_def classified_view_def in_set_conv_nth)
  have outside: "\<not> covers a (0, 0, k')" for k' by (simp add: covers_def)
  have views: "classified_view ` set ?slots = ring_at es ` {..<64}"
    using ring by (force simp: set_conv_nth image_def)
  have hits: "classified_view ` set ?slots \<inter> Collect (covers a) = set (recent_ranges es) \<inter> Collect (covers a)"
    unfolding views set_ring [symmetric] using outside by (auto simp: ring_at_def split: if_splits)
  have "caller_lookup (caller_inserts es) a = None \<longleftrightarrow> (\<forall>s \<in> set ?slots. \<not> covers a (classified_view s))"
    using hit by (auto simp: caller_lookup_def find_None_iff)
  also have "\<dots> \<longleftrightarrow> classified_view ` set ?slots \<inter> Collect (covers a) = {}" by auto
  finally have none: "caller_lookup (caller_inserts es) a = None \<longleftrightarrow> \<not> list_ex (covers a) (recent_ranges es)"
    unfolding hits by (auto simp: list_ex_iff)
  have "\<exists>s e. (s, e, k) \<in> set (recent_ranges es) \<and> s \<le> a \<and> a < e" if "caller_lookup (caller_inserts es) a = Some k"
  proof -
    from that obtain s where s: "s \<in> set ?slots" "slot_hit a s" "kind_from_raw (cs_kind s) = k"
      by (auto simp: caller_lookup_def dest: find_SomeD)
    with hit hits have "classified_view s \<in> set (recent_ranges es)" by blast
    with s(2,3) show ?thesis by (auto simp: classified_view_def slot_hit_def)
  qed
  with none show ?thesis by blast
qed

section \<open>One entry under concurrent readers and writers\<close>

text \<open>
  The atomic accesses of \<^verbatim>\<open>insert\<close> and \<^verbatim>\<open>lookup\<close> to the lock and one entry, interleaved in any order
  by any number of threads (accesses are sequentially consistent; the fences and the
  acquire/release orders of the code rule out the reorderings that matter). \<open>q_count\<close> is the
  number of stores to the sequence so far and \<open>q_done\<close> the values inserted, the first in place
  from the start: both are for the proof only. A reader's program counter carries the count at
  its first load, and on acceptance the count at its last. An insert whose turn is another entry
  takes and releases the lock without touching this one (\<open>seq_other\<close>).
\<close>

type_synonym cache_entry = "u64 \<times> u64 \<times> u32"

datatype seq_pc =
    Idle
  | Locked cache_entry
  | Loaded cache_entry u32
  | StoreStart cache_entry u32
  | StoreEnd cache_entry u32
  | StoreKind cache_entry u32
  | Commit cache_entry u32
  | Unlock
  | ReadStart nat u32
  | ReadEnd nat u32 u64
  | ReadKind nat u32 u64 u64
  | Recheck nat u32 cache_entry
  | Accepted nat nat cache_entry

record seq_state =
  q_lock :: bool
  q_sequence :: u32
  q_start :: u64
  q_end :: u64
  q_kind :: u32
  q_pc :: "nat \<Rightarrow> seq_pc"
  q_count :: nat
  q_done :: "cache_entry list"

definition at_pc :: "nat \<Rightarrow> seq_pc \<Rightarrow> seq_state \<Rightarrow> seq_state" where
  "at_pc t p s = s\<lparr>q_pc := (q_pc s)(t := p)\<rparr>"

inductive seq_step :: "seq_state \<Rightarrow> seq_state \<Rightarrow> bool" where
  seq_lock: "q_pc s t = Idle \<Longrightarrow> \<not> q_lock s \<Longrightarrow> seq_step s (at_pc t (Locked v) (s\<lparr>q_lock := True\<rparr>))"
| seq_busy: "q_pc s t = Idle \<Longrightarrow> q_lock s \<Longrightarrow> seq_step s (at_pc t Idle s)"
| seq_load: "q_pc s t = Locked v \<Longrightarrow> seq_step s (at_pc t (Loaded v (q_sequence s)) s)"
| seq_other: "q_pc s t = Locked v \<Longrightarrow> seq_step s (at_pc t Unlock s)"
| seq_odd: "q_pc s t = Loaded v n \<Longrightarrow>
    seq_step s (at_pc t (StoreStart v n) (s\<lparr>q_sequence := n + 1, q_count := q_count s + 1\<rparr>))"
| seq_start: "q_pc s t = StoreStart v n \<Longrightarrow> seq_step s (at_pc t (StoreEnd v n) (s\<lparr>q_start := fst v\<rparr>))"
| seq_end: "q_pc s t = StoreEnd v n \<Longrightarrow> seq_step s (at_pc t (StoreKind v n) (s\<lparr>q_end := fst (snd v)\<rparr>))"
| seq_kind: "q_pc s t = StoreKind v n \<Longrightarrow> seq_step s (at_pc t (Commit v n) (s\<lparr>q_kind := snd (snd v)\<rparr>))"
| seq_even: "q_pc s t = Commit v n \<Longrightarrow>
    seq_step s (at_pc t Unlock (s\<lparr>q_sequence := n + 2, q_count := q_count s + 1, q_done := q_done s @ [v]\<rparr>))"
| seq_unlock: "q_pc s t = Unlock \<Longrightarrow> seq_step s (at_pc t Idle (s\<lparr>q_lock := False\<rparr>))"
| seq_before: "q_pc s t = Idle \<Longrightarrow> q_sequence s AND 1 = 0 \<Longrightarrow> seq_step s (at_pc t (ReadStart (q_count s) (q_sequence s)) s)"
| seq_skip: "q_pc s t = Idle \<Longrightarrow> q_sequence s AND 1 \<noteq> 0 \<Longrightarrow> seq_step s (at_pc t Idle s)"
| seq_read_start: "q_pc s t = ReadStart c n \<Longrightarrow> seq_step s (at_pc t (ReadEnd c n (q_start s)) s)"
| seq_read_end: "q_pc s t = ReadEnd c n a \<Longrightarrow> seq_step s (at_pc t (ReadKind c n a (q_end s)) s)"
| seq_read_kind: "q_pc s t = ReadKind c n a b \<Longrightarrow> seq_step s (at_pc t (Recheck c n (a, b, q_kind s)) s)"
| seq_accept: "q_pc s t = Recheck c n v \<Longrightarrow> q_sequence s = n \<Longrightarrow> seq_step s (at_pc t (Accepted c (q_count s) v) s)"
| seq_reject: "q_pc s t = Recheck c n v \<Longrightarrow> q_sequence s \<noteq> n \<Longrightarrow> seq_step s (at_pc t Idle s)"
| seq_return: "q_pc s t = Accepted c d v \<Longrightarrow> seq_step s (at_pc t Idle s)"

definition seq_initial :: "cache_entry \<Rightarrow> seq_state" where
  "seq_initial v = \<lparr>q_lock = False, q_sequence = 0, q_start = fst v, q_end = fst (snd v), q_kind = snd (snd v),
     q_pc = \<lambda>_. Idle, q_count = 0, q_done = [v]\<rparr>"

inductive seq_reachable :: "seq_state \<Rightarrow> bool" where
  seq_init: "seq_reachable (seq_initial v)"
| seq_next: "seq_reachable s \<Longrightarrow> seq_step s s' \<Longrightarrow> seq_reachable s'"

definition current_entry :: "seq_state \<Rightarrow> cache_entry" where
  "current_entry s = (q_start s, q_end s, q_kind s)"

text \<open>What holds at each program counter, for the writer and for the readers.\<close>

fun holds_lock :: "seq_pc \<Rightarrow> bool" where
  "holds_lock (Locked v) = True"
| "holds_lock (Loaded v n) = True"
| "holds_lock (StoreStart v n) = True"
| "holds_lock (StoreEnd v n) = True"
| "holds_lock (StoreKind v n) = True"
| "holds_lock (Commit v n) = True"
| "holds_lock Unlock = True"
| "holds_lock _ = False"

fun mid_write :: "seq_pc \<Rightarrow> bool" where
  "mid_write (StoreStart v n) = True"
| "mid_write (StoreEnd v n) = True"
| "mid_write (StoreKind v n) = True"
| "mid_write (Commit v n) = True"
| "mid_write _ = False"

fun writer_ok :: "seq_state \<Rightarrow> seq_pc \<Rightarrow> bool" where
  "writer_ok s (Loaded v n) = (n = of_nat (q_count s))"
| "writer_ok s (StoreStart v n) = (n + 1 = of_nat (q_count s))"
| "writer_ok s (StoreEnd v n) = (n + 1 = of_nat (q_count s) \<and> q_start s = fst v)"
| "writer_ok s (StoreKind v n) = (n + 1 = of_nat (q_count s) \<and> q_start s = fst v \<and> q_end s = fst (snd v))"
| "writer_ok s (Commit v n) = (n + 1 = of_nat (q_count s) \<and> current_entry s = v)"
| "writer_ok s _ = True"

fun reader_ok :: "seq_state \<Rightarrow> seq_pc \<Rightarrow> bool" where
  "reader_ok s (ReadStart c n) = (even c \<and> c \<le> q_count s \<and> n = of_nat c)"
| "reader_ok s (ReadEnd c n a) = (even c \<and> c \<le> q_count s \<and> n = of_nat c \<and> (c = q_count s \<longrightarrow> a = q_start s))"
| "reader_ok s (ReadKind c n a b) = (even c \<and> c \<le> q_count s \<and> n = of_nat c \<and> (c = q_count s \<longrightarrow> a = q_start s \<and> b = q_end s))"
| "reader_ok s (Recheck c n v) = (even c \<and> c \<le> q_count s \<and> n = of_nat c \<and> (c = q_count s \<longrightarrow> v = current_entry s))"
| "reader_ok s (Accepted c d v) = (c \<le> d \<and> of_nat c = (of_nat d :: u32) \<and> (c = d \<longrightarrow> v \<in> set (q_done s)))"
| "reader_ok s _ = True"

definition writing :: "seq_state \<Rightarrow> bool" where
  "writing s \<longleftrightarrow> (\<exists>t. mid_write (q_pc s t))"

definition seq_inv :: "seq_state \<Rightarrow> bool" where
  "seq_inv s \<longleftrightarrow> q_sequence s = of_nat (q_count s) \<and> q_done s \<noteq> [] \<and>
     (\<forall>t u. holds_lock (q_pc s t) \<and> holds_lock (q_pc s u) \<longrightarrow> t = u) \<and>
     (\<forall>t. holds_lock (q_pc s t) \<longrightarrow> q_lock s) \<and>
     (if writing s then odd (q_count s) else even (q_count s) \<and> current_entry s = last (q_done s)) \<and>
     (\<forall>t. writer_ok s (q_pc s t) \<and> reader_ok s (q_pc s t))"

lemma mid_write_holds: "mid_write p \<Longrightarrow> holds_lock p"
  by (cases p) auto

lemma writer_ok_idle: "\<not> holds_lock p \<Longrightarrow> writer_ok s p"
  by (cases p) auto

lemma at_pc_simps [simp]:
  "q_lock (at_pc t p s) = q_lock s" "q_sequence (at_pc t p s) = q_sequence s" "q_count (at_pc t p s) = q_count s"
  "q_done (at_pc t p s) = q_done s" "q_start (at_pc t p s) = q_start s" "q_end (at_pc t p s) = q_end s"
  "q_kind (at_pc t p s) = q_kind s" "q_pc (at_pc t p s) = (q_pc s)(t := p)" "current_entry (at_pc t p s) = current_entry s"
  by (simp_all add: at_pc_def current_entry_def)

lemma pc_ok_at_pc [simp]: "writer_ok (at_pc t p s) q = writer_ok s q" "reader_ok (at_pc t p s) q = reader_ok s q"
  by (cases q; simp)+

lemma reader_ok_mono:
  assumes "reader_ok s p" and "set (q_done s) \<subseteq> set (q_done s1)"
    and "q_count s < q_count s1 \<or> q_count s1 = q_count s \<and> (odd (q_count s1) \<or> current_entry s1 = current_entry s)"
  shows "reader_ok s1 p"
  using assms by (cases p) (auto simp: current_entry_def)

text \<open>A thread that is not inside an insert moves.\<close>

lemma seq_inv_reader:
  assumes "seq_inv s" and "\<not> holds_lock (q_pc s t)" and "\<not> holds_lock p" and "reader_ok s p"
  shows "seq_inv (at_pc t p s)"
proof -
  have w: "writing (at_pc t p s) \<longleftrightarrow> writing s"
    using assms(2,3) mid_write_holds unfolding writing_def at_pc_simps by (metis fun_upd_other fun_upd_same)
  have "(\<forall>v u. holds_lock (((q_pc s)(t := p)) v) \<and> holds_lock (((q_pc s)(t := p)) u) \<longrightarrow> v = u) \<and>
      (\<forall>u. holds_lock (((q_pc s)(t := p)) u) \<longrightarrow> q_lock s)"
    using assms(1-3) unfolding seq_inv_def fun_upd_apply by metis
  moreover have "writer_ok s (((q_pc s)(t := p)) u) \<and> reader_ok s (((q_pc s)(t := p)) u)" for u
    using assms writer_ok_idle by (cases "u = t") (auto simp: seq_inv_def)
  ultimately show ?thesis using assms(1) unfolding seq_inv_def at_pc_simps pc_ok_at_pc w by blast
qed

text \<open>The thread inside an insert, or the one that takes the free lock, moves.\<close>

lemma seq_inv_writer:
  assumes inv: "seq_inv s" and free: "\<And>u. u \<noteq> t \<Longrightarrow> \<not> holds_lock (q_pc s u)" and pc: "q_pc s1 = q_pc s"
    and "q_sequence s1 = of_nat (q_count s1)" and "q_done s1 \<noteq> []" and lock: "holds_lock p \<Longrightarrow> q_lock s1"
    and "if mid_write p then odd (q_count s1) else even (q_count s1) \<and> current_entry s1 = last (q_done s1)"
    and "writer_ok s1 p" and "reader_ok s1 p" and "set (q_done s) \<subseteq> set (q_done s1)"
    and "q_count s < q_count s1 \<or> q_count s1 = q_count s \<and> (odd (q_count s1) \<or> current_entry s1 = current_entry s)"
  shows "seq_inv (at_pc t p s1)"
proof -
  have w: "writing (at_pc t p s1) \<longleftrightarrow> mid_write p"
    using free mid_write_holds unfolding writing_def at_pc_simps pc by (metis fun_upd_other fun_upd_same)
  have "(\<forall>v u. holds_lock (((q_pc s)(t := p)) v) \<and> holds_lock (((q_pc s)(t := p)) u) \<longrightarrow> v = u) \<and>
      (\<forall>u. holds_lock (((q_pc s)(t := p)) u) \<longrightarrow> q_lock s1)"
    using free lock unfolding fun_upd_apply by metis
  moreover have "writer_ok s1 (((q_pc s)(t := p)) u)" for u
    using assms(8) free writer_ok_idle by (cases "u = t") auto
  moreover have "reader_ok s1 (((q_pc s)(t := p)) u)" for u
    using assms(9) inv reader_ok_mono [OF _ assms(10,11), of "q_pc s u"] by (cases "u = t") (auto simp: seq_inv_def)
  ultimately show ?thesis using assms(4,5,7) unfolding seq_inv_def at_pc_simps pc_ok_at_pc pc w by blast
qed

lemma even_sequence: "(of_nat n :: u32) AND 1 = 0 \<longleftrightarrow> even n"
  by (simp add: and_one_eq mod_2_eq_odd)

lemma seq_inv_facts:
  assumes "seq_inv s"
  shows "q_sequence s = of_nat (q_count s)" and "q_done s \<noteq> []" and "holds_lock (q_pc s t) \<Longrightarrow> q_lock s"
    and "holds_lock (q_pc s t) \<Longrightarrow> u \<noteq> t \<Longrightarrow> \<not> holds_lock (q_pc s u)"
    and "writing s \<Longrightarrow> odd (q_count s)" and "\<not> writing s \<Longrightarrow> even (q_count s) \<and> current_entry s = last (q_done s)"
    and "writer_ok s (q_pc s t)" and "reader_ok s (q_pc s t)"
  using assms unfolding seq_inv_def by metis+

lemma writing_iff:
  assumes "seq_inv s" and "holds_lock (q_pc s t)"
  shows "writing s \<longleftrightarrow> mid_write (q_pc s t)"
  using seq_inv_facts(4) [OF assms] mid_write_holds unfolding writing_def by metis

lemma seq_inv_holder:
  assumes "seq_inv s" and "q_pc s t = q" and "holds_lock q" and "q_pc s1 = q_pc s"
    and "q_sequence s1 = of_nat (q_count s1)" and "q_done s1 \<noteq> []" and "holds_lock p \<Longrightarrow> q_lock s \<Longrightarrow> q_lock s1"
    and "if mid_write p then odd (q_count s1) else even (q_count s1) \<and> current_entry s1 = last (q_done s1)"
    and "writer_ok s1 p" and "reader_ok s1 p" and "set (q_done s) \<subseteq> set (q_done s1)"
    and "q_count s < q_count s1 \<or> q_count s1 = q_count s \<and> (odd (q_count s1) \<or> current_entry s1 = current_entry s)"
  shows "seq_inv (at_pc t p s1)"
proof (rule seq_inv_writer [OF assms(1)])
  have h: "holds_lock (q_pc s t)" using assms(2,3) by simp
  show "\<And>u. u \<noteq> t \<Longrightarrow> \<not> holds_lock (q_pc s u)" by (rule seq_inv_facts(4) [OF assms(1) h])
  show "holds_lock p \<Longrightarrow> q_lock s1" using assms(7) seq_inv_facts(3) [OF assms(1) h] by blast
qed (use assms in simp_all)

lemma holder_parity:
  assumes "seq_inv s" and "q_pc s t = q" and "holds_lock q"
  shows "if mid_write q then odd (q_count s) else even (q_count s) \<and> current_entry s = last (q_done s)"
    and "q_sequence s = of_nat (q_count s)" and "q_done s \<noteq> []" and "writer_ok s q"
  using assms writing_iff [OF assms(1), of t] seq_inv_facts [OF assms(1)] by auto

lemma seq_inv_step: "seq_step s s' \<Longrightarrow> seq_inv s \<Longrightarrow> seq_inv s'"
proof (induction rule: seq_step.induct)
  case (seq_lock s t v)
  then have free: "\<not> holds_lock (q_pc s u)" for u using seq_inv_facts(3) by blast
  then have "\<not> writing s" using mid_write_holds by (auto simp: writing_def)
  with free seq_lock seq_inv_facts(1,2,6) [OF seq_lock(3)] show ?case
    by (intro seq_inv_writer [of s]) (auto simp: current_entry_def)
next
  case (seq_accept s t c n v)
  note i = seq_inv_facts [OF seq_accept(3)]
  have r: "reader_ok s (Recheck c n v)" using i(8) [of t] seq_accept(1) by simp
  then have "c = q_count s \<Longrightarrow> v \<in> set (q_done s)" using i(2,5,6) by (cases "writing s") auto
  with r i(1) seq_accept show ?case by (intro seq_inv_reader) auto
next
  case (seq_before s t)
  then show ?case using seq_inv_facts(1) [of s] by (intro seq_inv_reader) (auto simp: even_sequence)
next
  case (seq_read_start s t c n)
  then show ?case using seq_inv_facts(8) [of s t] by (intro seq_inv_reader) auto
next
  case (seq_read_end s t c n a)
  then show ?case using seq_inv_facts(8) [of s t] by (intro seq_inv_reader) auto
next
  case (seq_read_kind s t c n a b)
  then show ?case using seq_inv_facts(8) [of s t] by (intro seq_inv_reader) (auto simp: current_entry_def)
next
  case (seq_load s t v)
  then show ?case using holder_parity [of s t] by (intro seq_inv_holder [of s]) auto
next
  case (seq_other s t v)
  then show ?case using holder_parity [of s t] by (intro seq_inv_holder [of s]) auto
next
  case (seq_odd s t v n)
  then show ?case using holder_parity [of s t] by (intro seq_inv_holder [of s]) auto
next
  case (seq_start s t v n)
  then show ?case using holder_parity [of s t] by (intro seq_inv_holder [of s]) auto
next
  case (seq_end s t v n)
  then show ?case using holder_parity [of s t] by (intro seq_inv_holder [of s]) auto
next
  case (seq_kind s t v n)
  then show ?case using holder_parity [of s t] by (intro seq_inv_holder [of s]) (auto simp: current_entry_def)
next
  case (seq_even s t v n)
  then show ?case using holder_parity [of s t] by (intro seq_inv_holder [of s]) (auto simp: current_entry_def add.commute)
next
  case (seq_unlock s t)
  then show ?case using holder_parity [of s t] by (intro seq_inv_holder [of s]) (auto simp: current_entry_def)
qed (auto intro: seq_inv_reader)

lemma seq_inv_reachable: "seq_reachable s \<Longrightarrow> seq_inv s"
proof (induction rule: seq_reachable.induct)
  case (seq_init v)
  show ?case by (simp add: seq_inv_def seq_initial_def writing_def current_entry_def)
qed (rule seq_inv_step)

lemma of_nat_u32_eq:
  assumes "(of_nat c :: u32) = of_nat d" and "c \<le> d" and "d - c < 2 ^ 32"
  shows "c = d"
proof -
  have "(of_nat (d - c) :: u32) = 0" using assms(1,2) by (simp add: of_nat_diff)
  moreover have "unat (of_nat (d - c) :: u32) = d - c"
    using assms(3) by (simp only: unat_of_nat) (simp add: take_bit_nat_eq_self)
  ultimately show ?thesis using assms(2) by simp
qed

text \<open>
  C29: a lookup is never torn. However readers and inserts interleave, a reader that accepts an
  entry holds a start, an end and a kind that one insert wrote together (or that were there
  from the start), as long as fewer than 2^31 inserts of the entry complete during that one
  read, so that the 32-bit sequence cannot come round to the same value.
\<close>

theorem caller_lookup_not_torn:
  assumes "seq_reachable s" and "q_pc s t = Accepted c d v" and "d - c < 2 ^ 32"
  shows "v \<in> set (q_done s)"
  using seq_inv_facts(8) [OF seq_inv_reachable [OF assms(1)], of t] assms(2,3) of_nat_u32_eq by auto

text \<open>A run for the witness: thread 0 starts to read after thread 1's insert, and accepts.\<close>

definition sample_state :: "bool \<Rightarrow> u32 \<Rightarrow> cache_entry \<Rightarrow> seq_pc \<Rightarrow> seq_pc \<Rightarrow> nat \<Rightarrow> cache_entry list \<Rightarrow> seq_state" where
  "sample_state lock n v p0 p1 c done = \<lparr>q_lock = lock, q_sequence = n, q_start = fst v, q_end = fst (snd v),
     q_kind = snd (snd v), q_pc = (\<lambda>_. Idle)(0 := p0, 1 := p1), q_count = c, q_done = done\<rparr>"

lemma sample_pc [simp]:
  "q_pc (sample_state l n v p0 p1 c d) 0 = p0" "q_pc (sample_state l n v p0 p1 c d) 1 = p1"
  "at_pc 0 p (sample_state l n v p0 p1 c d) = sample_state l n v p p1 c d"
  "at_pc (Suc 0) p (sample_state l n v p0 p1 c d) = sample_state l n v p0 p c d"
  by (auto simp: sample_state_def at_pc_def fun_upd_twist)

lemma sample_read:
  "seq_reachable (sample_state True 2 (0x1000, 0x2000, 1) (Accepted 2 2 (0x1000, 0x2000, 1)) Unlock 2 [(0, 0, 0), (0x1000, 0x2000, 1)])"
proof -
  let ?v = "(0x1000, 0x2000, 1) :: cache_entry" and ?d = "[(0, 0, 0)] :: cache_entry list"
  have "seq_reachable (sample_state False 0 (0, 0, 0) Idle Idle 0 ?d)"
    using seq_init [of "(0, 0, 0)"] by (simp add: seq_initial_def sample_state_def fun_upd_idem)
  from seq_next [OF this seq_lock [of _ 1 ?v]] have "seq_reachable (sample_state True 0 (0, 0, 0) Idle (Locked ?v) 0 ?d)"
    by (simp add: sample_state_def at_pc_def)
  from seq_next [OF this seq_load [of _ 1 ?v]] have "seq_reachable (sample_state True 0 (0, 0, 0) Idle (Loaded ?v 0) 0 ?d)"
    by (simp add: sample_state_def at_pc_def)
  from seq_next [OF this seq_odd [of _ 1 ?v 0]] have "seq_reachable (sample_state True 1 (0, 0, 0) Idle (StoreStart ?v 0) 1 ?d)"
    by (simp add: sample_state_def at_pc_def)
  from seq_next [OF this seq_start [of _ 1 ?v 0]] have "seq_reachable (sample_state True 1 (0x1000, 0, 0) Idle (StoreEnd ?v 0) 1 ?d)"
    by (simp add: sample_state_def at_pc_def)
  from seq_next [OF this seq_end [of _ 1 ?v 0]] have "seq_reachable (sample_state True 1 (0x1000, 0x2000, 0) Idle (StoreKind ?v 0) 1 ?d)"
    by (simp add: sample_state_def at_pc_def)
  from seq_next [OF this seq_kind [of _ 1 ?v 0]] have "seq_reachable (sample_state True 1 ?v Idle (Commit ?v 0) 1 ?d)"
    by (simp add: sample_state_def at_pc_def)
  from seq_next [OF this seq_even [of _ 1 ?v 0]] have "seq_reachable (sample_state True 2 ?v Idle Unlock 2 (?d @ [?v]))"
    by (simp add: sample_state_def at_pc_def numeral_2_eq_2)
  from seq_next [OF this seq_before [of _ 0]] have "seq_reachable (sample_state True 2 ?v (ReadStart 2 2) Unlock 2 (?d @ [?v]))"
    by (simp add: sample_state_def at_pc_def fun_upd_twist)
  from seq_next [OF this seq_read_start [of _ 0 2 2]] have "seq_reachable (sample_state True 2 ?v (ReadEnd 2 2 0x1000) Unlock 2 (?d @ [?v]))"
    by (simp add: sample_state_def at_pc_def fun_upd_twist)
  from seq_next [OF this seq_read_end [of _ 0 2 2]] have "seq_reachable (sample_state True 2 ?v (ReadKind 2 2 0x1000 0x2000) Unlock 2 (?d @ [?v]))"
    by (simp add: sample_state_def at_pc_def fun_upd_twist)
  from seq_next [OF this seq_read_kind [of _ 0 2 2]] have "seq_reachable (sample_state True 2 ?v (Recheck 2 2 ?v) Unlock 2 (?d @ [?v]))"
    by (simp add: sample_state_def at_pc_def fun_upd_twist)
  from seq_next [OF this seq_accept [of _ 0 2 2 ?v]] show ?thesis
    by (simp add: sample_state_def at_pc_def fun_upd_twist)
qed

theorem caller_lookup_not_torn_witness:
  "\<exists>s. seq_reachable s \<and> q_pc s 0 = Accepted 2 2 (0x1000, 0x2000, 1) \<and> (0x1000, 0x2000, 1) \<in> set (q_done s)"
  using sample_read caller_lookup_not_torn [OF sample_read, of 0 2 2 "(0x1000, 0x2000, 1)"] by (intro exI conjI) auto

end
