(* ===== verification/Cpuid_Trap.thy ===== *)
theory Cpuid_Trap
  imports Cpuid_Caller Int2e Runtime_Host Kuser_Dispatch
begin

text \<open>
  The SIGSEGV handler of \<^verbatim>\<open>runtime/src/cpuid.rs\<close>: which faults are CPUID traps, which reply each gets
  (the caller's profile, Reflex's own leaves, or the native processor's, cached), and the
  start-up that sets the CPU identity. \<open>cpuid_env\<close> is what the system calls and the processor
  give during one fault; the process ending is the value \<open>None\<close> of a native reply. The
  debug traces are left out.
\<close>

section \<open>State\<close>

definition NATIVE_CACHE_CAP :: nat where "NATIVE_CACHE_CAP = 32"

record native_entry =
  ne_key :: u64
  ne_reply :: registers

record native_cache =
  nc_len :: u32
  nc_entries :: "native_entry list"

definition native_cache_new :: native_cache where
  "native_cache_new = \<lparr>nc_len = 0, nc_entries = replicate NATIVE_CACHE_CAP \<lparr>ne_key = 0, ne_reply = registers_default\<rparr>\<rparr>"

record cpuid_state =
  cp_rt :: rt
  cp_reflex :: reflex
  cp_bridge :: bridge
  cp_mem :: vmem
  cp_sites :: "u64 list"
  cp_targets :: "u64 list"
  cp_callers :: caller_cache
  cp_native :: native_cache
  cp_scan :: artifact_scan
  cp_reflex64_selected :: bool
  cp_artifact_selected :: bool
  cp_established :: bool
  cp_faulting :: bool

record cpuid_env =
  ce_int2e :: int2e_env
  ce_caller_maps :: "bytes list option"
  ce_artifact_maps :: "bytes list option"
  ce_generation :: u64
  ce_now :: u64
  ce_cpuid :: "u32 \<Rightarrow> u32 \<Rightarrow> registers"
  ce_pass_through_ok :: bool
  ce_rearm_ok :: bool

definition cplog :: "string \<Rightarrow> cpuid_state \<Rightarrow> cpuid_state" where
  "cplog m w = w\<lparr>cp_rt := rt_note m None (cp_rt w)\<rparr>"

definition with_identity :: "(u32 \<Rightarrow> u32) \<Rightarrow> cpuid_state \<Rightarrow> cpuid_state" where
  "with_identity f w = w\<lparr>cp_rt := (cp_rt w)\<lparr>rt_identity := f (rt_identity (cp_rt w))\<rparr>\<rparr>"

definition cp_identity :: "cpuid_state \<Rightarrow> cpu_identity" where
  "cp_identity w = active_load (rt_identity (cp_rt w))"

section \<open>Native replies\<close>

definition native_key :: "u32 \<Rightarrow> u32 \<Rightarrow> u64" where
  "native_key leaf subleaf = push_bit 32 (ucast leaf) OR ucast subleaf"

definition native_lookup :: "native_cache \<Rightarrow> u32 \<Rightarrow> u32 \<Rightarrow> registers option" where
  "native_lookup c leaf subleaf =
     map_option ne_reply (List.find (\<lambda>e. ne_key e = native_key leaf subleaf)
       (take (min (unat (nc_len c)) NATIVE_CACHE_CAP) (nc_entries c)))"

definition native_insert :: "native_cache \<Rightarrow> u32 \<Rightarrow> u32 \<Rightarrow> registers \<Rightarrow> native_cache" where
  "native_insert c leaf subleaf regs =
     (let len = unat (nc_len c) in
      if len < NATIVE_CACHE_CAP
      then \<lparr>nc_len = of_nat (len + 1), nc_entries = (nc_entries c)[len := \<lparr>ne_key = native_key leaf subleaf, ne_reply = regs\<rparr>]\<rparr>
      else c)"

definition leaf_varies_per_core :: "u32 \<Rightarrow> bool" where
  "leaf_varies_per_core leaf \<longleftrightarrow> leaf = 0xb \<or> leaf = 0x1f"

definition native_reply :: "cpuid_env \<Rightarrow> u32 \<Rightarrow> u32 \<Rightarrow> cpuid_state \<Rightarrow> cpuid_state \<times> registers option" where
  "native_reply e leaf subleaf w =
     (let cacheable = \<not> leaf_varies_per_core leaf in
      case (if cacheable then native_lookup (cp_native w) leaf subleaf else None) of
        Some cached \<Rightarrow> (w, Some cached)
      | None \<Rightarrow>
          if \<not> ce_pass_through_ok e
          then (cplog ''CPUID native pass-through enable failed; returning zeros'' w, Some registers_default)
          else (let w1 = w\<lparr>cp_faulting := False\<rparr>; result = ce_cpuid e leaf subleaf in
            if \<not> ce_rearm_ok e then (cplog ''CPUID faulting re-arm failed; terminating'' w1, None)
            else (let w2 = w1\<lparr>cp_faulting := True\<rparr> in
              (if cacheable then w2\<lparr>cp_native := native_insert (cp_native w2) leaf subleaf result\<rparr> else w2, Some result))))"

section \<open>Fixed replies\<close>

definition artifact_reply :: "vendor \<Rightarrow> u32 \<Rightarrow> registers option" where
  "artifact_reply v leaf = (case v of
       Intel \<Rightarrow> artifact_intel_reply leaf
     | Amd \<Rightarrow> artifact_amd_reply leaf
     | Vendor_Unknown \<Rightarrow> None)"

definition with_native_apic_id :: "registers \<Rightarrow> u32 \<Rightarrow> registers" where
  "with_native_apic_id r native_ebx = r\<lparr>reg_ebx := reg_ebx r OR (native_ebx AND 0xff000000)\<rparr>"

definition select_caller_presentation :: "cpuid_env \<Rightarrow> u32 \<Rightarrow> u64 \<Rightarrow> cpuid_state \<Rightarrow> cpuid_state \<times> caller_kind" where
  "select_caller_presentation e leaf rip w =
     (if \<not> is_identity_leaf leaf then (w, Ordinary)
      else let (c, found) = classify_caller (cp_mem w) (ce_caller_maps e) (cp_established w) rip (cp_callers w);
               w1 = w\<lparr>cp_callers := c\<rparr>;
               kind = (case found of Some k \<Rightarrow> k | None \<Rightarrow> Ordinary) in
        if kind = Reflex64 \<and> \<not> cp_reflex64_selected w1 \<and> id_presentation (cp_identity w1) \<noteq> Legacy
        then (cplog ''cpuid presentation selected: reflex64 caller''
                ((with_identity select_legacy_next w1)\<lparr>cp_reflex64_selected := True\<rparr>), kind)
        else (w1, kind))"

definition artifact_profile_name :: "vendor \<Rightarrow> string" where
  "artifact_profile_name v = (case v of
       Intel \<Rightarrow> ''cpuid profile selected: Intel artifact.dll''
     | Amd \<Rightarrow> ''cpuid profile selected: AMD artifact.dll''
     | Vendor_Unknown \<Rightarrow> ''cpuid profile selected: artifact.dll'')"

text \<open>The block run for the leaves of the artifact profile.\<close>

definition select_artifact_profile :: "cpuid_env \<Rightarrow> vendor \<Rightarrow> caller_kind \<Rightarrow> cpuid_state \<Rightarrow> cpuid_state" where
  "select_artifact_profile e vendor caller w =
     (let (a, present) = (if caller = Artifact \<or> cp_artifact_selected w then (cp_scan w, True)
            else artifact_module_newly_mapped (ce_generation e) (ce_now e) (ce_artifact_maps e) (cp_scan w));
          w1 = w\<lparr>cp_scan := a\<rparr> in
      if present \<and> \<not> cp_artifact_selected w1
      then cplog (artifact_profile_name vendor) (w1\<lparr>cp_artifact_selected := True\<rparr>) else w1)"

datatype fixed_outcome = NoFixedReply | FixedReply registers | ProcessExit

definition fixed_reply :: "cpuid_env \<Rightarrow> u32 \<Rightarrow> u64 option \<Rightarrow> cpuid_state \<Rightarrow> cpuid_state \<times> fixed_outcome" where
  "fixed_reply e leaf rip w =
     (let (w1, caller) = (case rip of Some a \<Rightarrow> select_caller_presentation e leaf a w | None \<Rightarrow> (w, Ordinary));
          vendor = id_vendor (cp_identity w1);
          artifact_leaf = artifact_reply vendor leaf;
          w2 = (if artifact_leaf \<noteq> None then select_artifact_profile e vendor caller w1 else w1);
          artifact_profile = (cp_artifact_selected w2 \<and> (vendor = Intel \<or> vendor = Amd));
          own = active_fixed_reply (rt_identity (cp_rt w2)) leaf in
      case (if artifact_profile \<and> artifact_leaf \<noteq> None then artifact_leaf else own) of
        None \<Rightarrow> (w2, NoFixedReply)
      | Some reply \<Rightarrow>
          if artifact_profile \<and> leaf = 1 then
            (case native_reply e 1 0 w2 of
               (w3, None) \<Rightarrow> (w3, ProcessExit)
             | (w3, Some native) \<Rightarrow> (w3, FixedReply (with_native_apic_id reply (reg_ebx native))))
          else if \<not> artifact_profile \<and> leaf = 1 \<and> reflex_resume_identity_unarmed (cp_reflex w2) \<noteq> 0
          then (w2, FixedReply (reply\<lparr>reg_ecx := reg_ecx reply OR push_bit 31 1\<rparr>))
          else (w2, FixedReply reply))"

section \<open>Start-up and the C entry points\<close>

definition configure_identity :: "vendor \<Rightarrow> bool \<Rightarrow> bool \<Rightarrow> cpuid_state \<Rightarrow> cpuid_state" where
  "configure_identity vendor avx legacy_forced w =
     (let w1 = with_identity (configure_host_next vendor avx) w in
      if legacy_forced then cplog ''cpuid presentation selected: legacy override'' (with_identity select_legacy_next w1) else w1)"

definition cpuid_disable_faulting :: "bool \<Rightarrow> cpuid_state \<Rightarrow> cpuid_state" where
  "cpuid_disable_faulting ok w = (if ok then w\<lparr>cp_faulting := False\<rparr> else w)"

definition cpuid_configure_profile :: "int \<Rightarrow> int \<Rightarrow> bool \<Rightarrow> cpuid_state \<Rightarrow> cpuid_state" where
  "cpuid_configure_profile vendor avx_enabled legacy_forced w =
     configure_identity (if vendor = 1 then Intel else if vendor = 2 then Amd else Vendor_Unknown) (avx_enabled \<noteq> 0) legacy_forced w"

text \<open>The registers written and the value returned; a null result pointer gives 0 and writes nothing.\<close>

definition cpuid_get_fixed_reply :: "cpuid_env \<Rightarrow> u32 \<Rightarrow> bool \<Rightarrow> cpuid_state \<Rightarrow> cpuid_state \<times> (registers option \<times> int) option" where
  "cpuid_get_fixed_reply e leaf null w =
     (if null then (w, Some (None, 0))
      else case fixed_reply e leaf None w of
        (w1, NoFixedReply) \<Rightarrow> (w1, Some (Some registers_default, 0))
      | (w1, FixedReply r) \<Rightarrow> (w1, Some (Some r, 1))
      | (w1, ProcessExit) \<Rightarrow> (w1, None))"

definition vendor_line :: "vendor \<Rightarrow> string" where
  "vendor_line v = (case v of
       Intel \<Rightarrow> ''cpuid host vendor=intel''
     | Amd \<Rightarrow> ''cpuid host vendor=amd''
     | Vendor_Unknown \<Rightarrow> ''cpuid host vendor=unknown'')"

definition detect_cpu_vendor :: "registers \<Rightarrow> bytes option \<Rightarrow> bool \<Rightarrow> cpuid_state \<Rightarrow> cpuid_state" where
  "detect_cpu_vendor leaf0 proton_avx legacy_forced w =
     (let vendor = vendor_from_leaf0 leaf0;
          avx = (case proton_avx of None \<Rightarrow> False | Some v \<Rightarrow> proton_avx_enabled (Some v));
          w1 = cplog (vendor_line vendor) w;
          w2 = cplog (if avx then ''cpuid host avx=enabled'' else ''cpuid host avx=disabled'') w1 in
      configure_identity vendor avx legacy_forced w2)"

text \<open>\<^verbatim>\<open>runtime/src/config.rs\<close>: the override is the variable set to 1.\<close>

definition env_flag_set :: "bytes option \<Rightarrow> bool" where
  "env_flag_set value \<longleftrightarrow> value = Some (ascii ''1'')"

section \<open>The handler\<close>

definition is_cpuid_instruction_at :: "vmem \<Rightarrow> u64 \<Rightarrow> bool" where
  "is_cpuid_instruction_at m a \<longleftrightarrow> read_memory m a 2 = Some [0x0f, 0xa2]"

definition SI_KERNEL :: int where "SI_KERNEL = 0x80"

datatype fault_outcome = Forwarded | Resumed | Terminated

definition trampolines_of :: "cpuid_state \<Rightarrow> trampolines" where
  "trampolines_of w = \<lparr>tr_mem = cp_mem w, tr_sites = cp_sites w, tr_targets = cp_targets w, tr_kuser = rt_kuser (cp_rt w)\<rparr>"

definition with_trampolines :: "trampolines \<Rightarrow> cpuid_state \<Rightarrow> cpuid_state" where
  "with_trampolines t w = w\<lparr>cp_mem := tr_mem t, cp_sites := tr_sites t, cp_targets := tr_targets t,
     cp_rt := (cp_rt w)\<lparr>rt_kuser := tr_kuser t\<rparr>\<rparr>"

definition cpuid_answer :: "cpuid_env \<Rightarrow> u64 \<Rightarrow> u32 \<Rightarrow> u64 \<Rightarrow> u64 \<Rightarrow> cpuid_state \<Rightarrow> cpuid_state \<times> registers option" where
  "cpuid_answer e rip leaf control payload w =
     (if is_wine_system_rip rip then native_reply e leaf (ucast control) w
      else case fixed_reply e leaf (Some rip) w of
        (w1, FixedReply reply) \<Rightarrow> (w1, Some reply)
      | (w1, ProcessExit) \<Rightarrow> (w1, None)
      | (w1, NoFixedReply) \<Rightarrow>
          (let (h, s, a) = reflex_handle_cpuid leaf control payload (cp_rt w1) (cp_reflex w1);
               w2 = w1\<lparr>cp_rt := h, cp_reflex := s\<rparr> in
           if a = 1 then (w2, Some registers_default) else native_reply e leaf (ucast control) w2))"

definition cpuid_sigsegv_handler :: "cpuid_env \<Rightarrow> int option \<Rightarrow> fault_regs option \<Rightarrow> cpuid_state \<Rightarrow>
    cpuid_state \<times> fault_regs option \<times> fault_outcome" where
  "cpuid_sigsegv_handler e info context w = (case (info, context) of
       (Some si_code, Some r0) \<Rightarrow>
         (let (t, r, handled) = skip_int2e_fault (ce_int2e e) r0 (trampolines_of w);
              w1 = with_trampolines t w in
          if handled then (w1, Some r, Resumed)
          else if \<not> (f_trapno r = 13 \<and> si_code = SI_KERNEL) then (w1, Some r, Forwarded)
          else if \<not> is_cpuid_instruction_at (cp_mem w1) (f_rip r) then (w1, Some r, Forwarded)
          else (let leaf = (ucast (f_rax r) :: u32);
                    w2 = (if leaf = 0x336933 then w1\<lparr>cp_bridge := register_reflex_image (cp_mem w1) (f_rcx r) (cp_bridge w1),
                            cp_established := True\<rparr> else w1) in
            case cpuid_answer e (f_rip r) leaf (f_rcx r) (f_rdx r) w2 of
              (w3, None) \<Rightarrow> (w3, Some r, Terminated)
            | (w3, Some reply) \<Rightarrow>
                (w3, Some (r\<lparr>f_rax := ucast (reg_eax reply), f_rbx := ucast (reg_ebx reply),
                   f_rcx := ucast (reg_ecx reply), f_rdx := ucast (reg_edx reply), f_rip := f_rip r + 2\<rparr>), Resumed)))
     | _ \<Rightarrow> (w, context, Forwarded))"

section \<open>Frames\<close>

text \<open>What no reply changes: the memory, the trampoline tables and the bridge; and CPUID faulting is
  armed again unless the process ends.\<close>

definition trap_frame :: "cpuid_state \<Rightarrow> cpuid_state \<Rightarrow> bool" where
  "trap_frame w w' \<longleftrightarrow> cp_mem w' = cp_mem w \<and> cp_sites w' = cp_sites w \<and> cp_targets w' = cp_targets w \<and>
     cp_bridge w' = cp_bridge w \<and> cp_established w' = cp_established w"

lemma trap_frame_refl [simp]: "trap_frame w w"
  by (simp add: trap_frame_def)

lemma trap_frame_trans: "trap_frame w w1 \<Longrightarrow> trap_frame w1 w2 \<Longrightarrow> trap_frame w w2"
  by (simp add: trap_frame_def)

lemma native_reply_frame:
  assumes "native_reply e leaf sub w = (w', out)"
  shows "trap_frame w w'" and "cp_reflex w' = cp_reflex w" and "rt_identity (cp_rt w') = rt_identity (cp_rt w)"
    and "out \<noteq> None \<Longrightarrow> cp_faulting w \<Longrightarrow> cp_faulting w'" and "out = None \<Longrightarrow> ce_pass_through_ok e \<and> \<not> ce_rearm_ok e"
    and "cp_artifact_selected w' = cp_artifact_selected w" and "out = None \<Longrightarrow> \<not> cp_faulting w'"
  using assms
  by (auto simp: native_reply_def Let_def trap_frame_def cplog_def rt_note_def split: option.splits if_splits)

lemma select_caller_frame:
  assumes "select_caller_presentation e leaf rip w = (w', kind)"
  shows "trap_frame w w'" and "cp_faulting w' = cp_faulting w" and "cp_reflex w' = cp_reflex w"
    and "cp_native w' = cp_native w" and "cp_artifact_selected w' = cp_artifact_selected w"
  using assms
  by (auto simp: select_caller_presentation_def Let_def trap_frame_def cplog_def with_identity_def rt_note_def
      split: if_splits prod.splits)

lemma select_artifact_frame:
  "trap_frame w (select_artifact_profile e v k w)" "cp_faulting (select_artifact_profile e v k w) = cp_faulting w"
  "cp_reflex (select_artifact_profile e v k w) = cp_reflex w"
  "rt_identity (cp_rt (select_artifact_profile e v k w)) = rt_identity (cp_rt w)"
  by (auto simp: select_artifact_profile_def Let_def trap_frame_def cplog_def rt_note_def split: prod.splits)

text \<open>The two profiles a fixed reply can come from.\<close>

definition own_reply :: "u32 \<Rightarrow> cpuid_state \<Rightarrow> registers \<Rightarrow> bool" where
  "own_reply leaf w r \<longleftrightarrow> (\<exists>r0. identity_fixed_reply (cp_identity w) leaf = Some r0 \<and>
     (r = r0 \<or> leaf = 1 \<and> r = r0\<lparr>reg_ecx := reg_ecx r0 OR push_bit 31 1\<rparr>))"

definition artifact_profile_reply :: "u32 \<Rightarrow> cpuid_state \<Rightarrow> registers \<Rightarrow> bool" where
  "artifact_profile_reply leaf w r \<longleftrightarrow> cp_artifact_selected w \<and> (\<exists>r0. artifact_reply (id_vendor (cp_identity w)) leaf = Some r0 \<and>
     (if leaf = 1 then \<exists>ebx. r = with_native_apic_id r0 ebx else r = r0))"

lemma artifact_reply_leaf1: "artifact_reply v 1 = None \<longleftrightarrow> v = Vendor_Unknown"
  by (cases v) (simp_all add: artifact_reply_def artifact_intel_reply_def artifact_amd_reply_def)

lemma fixed_reply_cases:
  assumes "fixed_reply e leaf rip w = (w', out)"
  shows "trap_frame w w' \<and> (out = ProcessExit \<or> cp_faulting w \<longrightarrow> (cp_faulting w' \<longleftrightarrow> out \<noteq> ProcessExit)) \<and> cp_reflex w' = cp_reflex w \<and>
    (case out of
       ProcessExit \<Rightarrow> leaf = 1 \<and> ce_pass_through_ok e \<and> \<not> ce_rearm_ok e
     | FixedReply r \<Rightarrow> own_reply leaf w' r \<or> artifact_profile_reply leaf w' r
     | NoFixedReply \<Rightarrow> identity_fixed_reply (cp_identity w') leaf = None)"
proof -
  obtain w1 caller where sel: "(case rip of Some a \<Rightarrow> select_caller_presentation e leaf a w | None \<Rightarrow> (w, Ordinary)) = (w1, caller)"
    by fastforce
  have w1: "trap_frame w w1" "cp_faulting w1 = cp_faulting w" "cp_reflex w1 = cp_reflex w"
    using sel select_caller_frame [of e leaf _ w w1 caller] by (auto split: option.splits)
  define v where "v = id_vendor (cp_identity w1)"
  define w2 where "w2 = (if artifact_reply v leaf \<noteq> None then select_artifact_profile e v caller w1 else w1)"
  have w2: "trap_frame w w2" "cp_faulting w2 = cp_faulting w" "cp_reflex w2 = cp_reflex w" "rt_identity (cp_rt w2) = rt_identity (cp_rt w1)"
    using w1 select_artifact_frame [where e = e and v = v and k = caller and w = w1] trap_frame_trans by (auto simp: w2_def)
  then have v2: "v = id_vendor (cp_identity w2)" by (simp add: v_def cp_identity_def)
  define P where "P \<longleftrightarrow> cp_artifact_selected w2 \<and> (v = Intel \<or> v = Amd)"
  have eq: "fixed_reply e leaf rip w = (case (if P \<and> artifact_reply v leaf \<noteq> None then artifact_reply v leaf else active_fixed_reply (rt_identity (cp_rt w2)) leaf) of
        None \<Rightarrow> (w2, NoFixedReply)
      | Some reply \<Rightarrow>
          if P \<and> leaf = 1 then
            (case native_reply e 1 0 w2 of
               (w3, None) \<Rightarrow> (w3, ProcessExit)
             | (w3, Some native) \<Rightarrow> (w3, FixedReply (with_native_apic_id reply (reg_ebx native))))
          else if \<not> P \<and> leaf = 1 \<and> reflex_resume_identity_unarmed (cp_reflex w2) \<noteq> 0
          then (w2, FixedReply (reply\<lparr>reg_ecx := reg_ecx reply OR push_bit 31 1\<rparr>))
          else (w2, FixedReply reply))"
    unfolding fixed_reply_def Let_def sel prod.case unfolding v_def [symmetric] unfolding w2_def [symmetric] unfolding P_def [symmetric] ..
  consider (apic) r0 where "P" "leaf = 1" "artifact_reply v leaf = Some r0"
    | (artifact) r0 where "P" "leaf \<noteq> 1" "artifact_reply v leaf = Some r0"
    | (own) "\<not> P \<or> artifact_reply v leaf = None" "leaf = 1 \<Longrightarrow> \<not> P"
    using artifact_reply_leaf1 [of v] by (cases "artifact_reply v leaf") (auto simp: P_def)
  then show ?thesis
  proof cases
    case apic
    obtain w3 out3 where n: "native_reply e 1 0 w2 = (w3, out3)" by fastforce
    note f = native_reply_frame [OF n]
    from f(3) v2 have v3: "v = id_vendor (cp_identity w3)" by (simp add: cp_identity_def)
    with f apic w2 eq n assms trap_frame_trans [OF w2(1) f(1)] show ?thesis
      by (cases out3) (auto simp: artifact_profile_reply_def P_def)
  next
    case artifact
    with eq assms w2 v2 show ?thesis by (auto simp: artifact_profile_reply_def P_def)
  next
    case own
    with eq assms w2 v2 show ?thesis
      by (auto simp: own_reply_def active_fixed_reply_def cp_identity_def split: option.splits if_splits)
  qed
qed

lemma identity_leaf_fixed:
  assumes "is_identity_leaf leaf"
  shows "identity_fixed_reply i leaf \<noteq> None"
proof -
  have "leaf = 0x40000000 \<or> leaf = 0x40000001" if "0x40000000 \<le> leaf" "leaf \<le> 0x40000001"
  proof -
    from that have "0x40000000 \<le> unat leaf" "unat leaf \<le> 0x40000001" by (simp_all add: word_le_nat_alt)
    then have "unat leaf = 0x40000000 \<or> unat leaf = 0x40000001" by linarith
    then show ?thesis by (simp add: word_unat_eq_iff)
  qed
  with assms show ?thesis by (auto simp: is_identity_leaf_def identity_fixed_reply_def Let_def)
qed

lemma cpuid_answer_frame:
  assumes "cpuid_answer e rip leaf control payload w = (w', out)"
  shows "trap_frame w w' \<and> (out = None \<longrightarrow> ce_pass_through_ok e \<and> \<not> ce_rearm_ok e) \<and> (out \<noteq> None \<and> cp_faulting w \<longrightarrow> cp_faulting w')"
proof (cases "is_wine_system_rip rip")
  case True
  with assms native_reply_frame [of e leaf "ucast control" w w' out] show ?thesis by (simp add: cpuid_answer_def)
next
  case False
  obtain w1 fo where f: "fixed_reply e leaf (Some rip) w = (w1, fo)" by fastforce
  note fc = fixed_reply_cases [OF f]
  show ?thesis
  proof (cases fo)
    case NoFixedReply
    obtain h s a where h: "reflex_handle_cpuid leaf control payload (cp_rt w1) (cp_reflex w1) = (h, s, a)" by (metis prod_cases3)
    let ?w2 = "w1\<lparr>cp_rt := h, cp_reflex := s\<rparr>"
    have w2: "trap_frame w ?w2" "cp_faulting w \<longrightarrow> cp_faulting ?w2" using fc NoFixedReply by (auto simp: trap_frame_def)
    show ?thesis
    proof (cases "a = 1")
      case True
      with assms False f h NoFixedReply w2 show ?thesis by (auto simp: cpuid_answer_def)
    next
      case a: False
      with assms False f h NoFixedReply have n: "native_reply e leaf (ucast control) ?w2 = (w', out)" by (simp add: cpuid_answer_def)
      from native_reply_frame [OF n] w2 trap_frame_trans show ?thesis by blast
    qed
  qed (use assms False f fc in \<open>auto simp: cpuid_answer_def\<close>)
qed

lemma identity_answer:
  assumes "cpuid_answer e rip leaf control payload w = (w', Some r)" and "\<not> is_wine_system_rip rip" and "is_identity_leaf leaf"
  shows "own_reply leaf w' r \<or> artifact_profile_reply leaf w' r"
proof -
  obtain w1 fo where f: "fixed_reply e leaf (Some rip) w = (w1, fo)" by fastforce
  have "fo \<noteq> NoFixedReply" using fixed_reply_cases [OF f] identity_leaf_fixed [OF assms(3), of "cp_identity w1"] by auto
  with assms f fixed_reply_cases [OF f] show ?thesis by (cases fo) (auto simp: cpuid_answer_def)
qed

section \<open>The handler\<close>

lemma with_trampolines_of [simp]: "with_trampolines (trampolines_of w) w = w"
  by (simp add: with_trampolines_def trampolines_of_def)

lemma not_int2e:
  assumes "f_trapno r \<noteq> 13 \<or> read_memory m (f_rip r) 2 \<noteq> Some INT2E_INSTRUCTION" and "m = tr_mem t"
  shows "skip_int2e_fault e r t = (t, r, False)"
  using assms by (auto simp: skip_int2e_fault_def)

text \<open>
  C7: what a trapped CPUID gets. A CPUID instruction that faulted is either answered, execution
  continuing after its two bytes with the four registers of the reply zero-extended, every
  other register kept and CPUID faulting armed; or the process ends because faulting could
  not be armed again. The handler never forwards it and never changes the guest's memory. Outside Wine's own code
  the identity leaves are answered from the active identity or the artifact profile, never
  from the host's processor: all that can pass through is the byte with the APIC id.
\<close>

theorem cpuid_fault_answered:
  assumes "f_trapno r = 13" and "is_cpuid_instruction_at (cp_mem w) (f_rip r)" and "cp_faulting w"
    and "cpuid_sigsegv_handler e (Some SI_KERNEL) (Some r) w = (w', r', out)"
  shows "cp_mem w' = cp_mem w \<and>
    (case out of
       Forwarded \<Rightarrow> False
     | Terminated \<Rightarrow> ce_pass_through_ok e \<and> \<not> ce_rearm_ok e
     | Resumed \<Rightarrow> cp_faulting w' \<and> (\<exists>reply. r' = Some (r\<lparr>f_rax := ucast (reg_eax reply), f_rbx := ucast (reg_ebx reply),
           f_rcx := ucast (reg_ecx reply), f_rdx := ucast (reg_edx reply), f_rip := f_rip r + 2\<rparr>) \<and>
         (\<not> is_wine_system_rip (f_rip r) \<and> is_identity_leaf (ucast (f_rax r)) \<longrightarrow>
            own_reply (ucast (f_rax r)) w' reply \<or> artifact_profile_reply (ucast (f_rax r)) w' reply)))"
proof -
  let ?leaf = "ucast (f_rax r) :: u32"
  let ?w2 = "if ?leaf = 0x336933 then w\<lparr>cp_bridge := register_reflex_image (cp_mem w) (f_rcx r) (cp_bridge w), cp_established := True\<rparr> else w"
  have "read_memory (cp_mem w) (f_rip r) 2 \<noteq> Some INT2E_INSTRUCTION"
    using assms(2) by (simp add: is_cpuid_instruction_at_def INT2E_INSTRUCTION_def)
  then have skip: "skip_int2e_fault (ce_int2e e) r (trampolines_of w) = (trampolines_of w, r, False)"
    by (intro not_int2e [of _ "cp_mem w"]) (simp_all add: trampolines_of_def)
  obtain w3 a where a: "cpuid_answer e (f_rip r) ?leaf (f_rcx r) (f_rdx r) ?w2 = (w3, a)" by fastforce
  note fr = cpuid_answer_frame [OF a]
  have w2: "cp_mem ?w2 = cp_mem w" "cp_faulting ?w2" using assms(3) by auto
  show ?thesis
  proof (cases a)
    case None
    with a skip assms(1,2,4) fr w2 show ?thesis
      by (auto simp: cpuid_sigsegv_handler_def Let_def trap_frame_def split: if_splits)
  next
    case (Some reply)
    with a skip assms(1,2,4) have "w' = w3" "out = Resumed"
      "r' = Some (r\<lparr>f_rax := ucast (reg_eax reply), f_rbx := ucast (reg_ebx reply),
           f_rcx := ucast (reg_ecx reply), f_rdx := ucast (reg_edx reply), f_rip := f_rip r + 2\<rparr>)"
      by (auto simp: cpuid_sigsegv_handler_def Let_def split: if_splits)
    with fr w2 Some identity_answer [OF a [unfolded Some]] show ?thesis by (auto simp: trap_frame_def)
  qed
qed

text \<open>
  Other faults reach the game. A SIGSEGV that is neither an \<open>int 2e\<close> nor a CPUID trap (another
  trap number or signal code, other bytes at the instruction pointer, or no signal frame) is
  forwarded with every register and the whole state of the library as they were.
\<close>

lemma other_faults_forwarded:
  assumes "\<And>r. context = Some r \<Longrightarrow> f_trapno r = 13 \<Longrightarrow> read_memory (cp_mem w) (f_rip r) 2 \<noteq> Some INT2E_INSTRUCTION \<and>
      \<not> (info = Some SI_KERNEL \<and> is_cpuid_instruction_at (cp_mem w) (f_rip r))"
  shows "cpuid_sigsegv_handler e info context w = (w, context, Forwarded)"
proof (cases "info = None \<or> context = None")
  case True
  then show ?thesis by (auto simp: cpuid_sigsegv_handler_def split: option.splits)
next
  case False
  then obtain si r where ir: "info = Some si" "context = Some r" by auto
  have "skip_int2e_fault (ce_int2e e) r (trampolines_of w) = (trampolines_of w, r, False)"
    using assms [OF ir(2)] by (intro not_int2e [of _ "cp_mem w"]) (auto simp: trampolines_of_def)
  with ir assms [OF ir(2)] show ?thesis by (auto simp: cpuid_sigsegv_handler_def Let_def)
qed

definition sample_cpuid_env :: "(u32 \<Rightarrow> u32 \<Rightarrow> registers) \<Rightarrow> cpuid_env" where
  "sample_cpuid_env cpu = \<lparr>ce_int2e = sample_int2e_env, ce_caller_maps = None, ce_artifact_maps = None, ce_generation = 0,
     ce_now = 5000, ce_cpuid = cpu, ce_pass_through_ok = True, ce_rearm_ok = True\<rparr>"

definition sample_cpuid_state :: cpuid_state where
  "sample_cpuid_state = \<lparr>cp_rt = rt_start, cp_reflex = reflex_new, cp_bridge = bridge_new 0,
     cp_mem = \<lparr>vm_bytes = [0x10010 \<mapsto> 0x0f, 0x10011 \<mapsto> 0xa2], vm_writable = \<lambda>_. False\<rparr>,
     cp_sites = replicate TRAMPOLINE_CAPACITY 0, cp_targets = replicate TRAMPOLINE_CAPACITY 0,
     cp_callers = caller_cache_new, cp_native = native_cache_new, cp_scan = artifact_scan_new,
     cp_reflex64_selected = False, cp_artifact_selected = False, cp_established = False, cp_faulting = True\<rparr>"

lemma sample_cpuid_instruction: "is_cpuid_instruction_at (cp_mem sample_cpuid_state) 0x10010"
  by (simp add: is_cpuid_instruction_at_def sample_cpuid_state_def read_memory_def process_vm_readv_def readable_def
      in_space_def span_def span_addrs_def upt_conv_Cons)

theorem cpuid_fault_answered_witness:
  "\<exists>w' r'. cpuid_sigsegv_handler (sample_cpuid_env (\<lambda>_ _. registers_default)) (Some SI_KERNEL)
       (Some (sample_fault\<lparr>f_rax := 0x80000002\<rparr>)) sample_cpuid_state = (w', Some r', Resumed) \<and> f_rip r' = 0x10012 \<and> cp_faulting w'"
proof -
  let ?e = "sample_cpuid_env (\<lambda>_ _. registers_default)" and ?r = "sample_fault\<lparr>f_rax := 0x80000002\<rparr>"
  obtain w' r' out where h: "cpuid_sigsegv_handler ?e (Some SI_KERNEL) (Some ?r) sample_cpuid_state = (w', r', out)"
    by (metis prod_cases3)
  have "f_trapno ?r = 13" "is_cpuid_instruction_at (cp_mem sample_cpuid_state) (f_rip ?r)" "cp_faulting sample_cpuid_state"
    "ce_rearm_ok ?e" "f_rip ?r = 0x10010"
    using sample_cpuid_instruction by (simp_all add: sample_fault_def sample_cpuid_env_def sample_cpuid_state_def)
  with cpuid_fault_answered [OF _ _ _ h] h show ?thesis by (cases out) auto
qed

section \<open>Callers\<close>

lemma fixed_reply_identity:
  assumes "fixed_reply e leaf (Some rip) w = (w', out)"
  shows "rt_identity (cp_rt w') = rt_identity (cp_rt (fst (select_caller_presentation e leaf rip w)))"
proof -
  obtain w1 caller where sel: "select_caller_presentation e leaf rip w = (w1, caller)" by fastforce
  have n: "rt_identity (cp_rt w3) = rt_identity (cp_rt w2)" if "native_reply e 1 0 w2 = (w3, o3)" for w2 w3 o3
    using native_reply_frame(3) [OF that] .
  show ?thesis
    using assms unfolding fixed_reply_def Let_def option.case sel prod.case fst_conv
    by (auto simp: select_artifact_frame(4) dest!: n split: option.splits prod.splits if_splits)
qed

lemma select_caller_reflex64:
  assumes "is_identity_leaf leaf" and "cp_reflex64_selected w \<Longrightarrow> id_presentation (cp_identity w) = Legacy"
    and "snd (classify_caller (cp_mem w) (ce_caller_maps e) (cp_established w) rip (cp_callers w)) = Some Reflex64"
  shows "cp_identity (fst (select_caller_presentation e leaf rip w)) = with_presentation (cp_identity w) Legacy"
  using assms
  by (auto simp: select_caller_presentation_def Let_def cp_identity_def active_load_def cplog_def rt_note_def with_identity_def
      select_legacy_next_def with_presentation_def split: prod.splits)

text \<open>
  The caller decides the presentation. Once code of \<^verbatim>\<open>reflex64.dll\<close> asks for an identity leaf, the
  legacy presentation of the same host is in force from that reply on: the reply itself is the
  legacy one (or the artifact profile's), and the KUSER recipe is no longer the resume recipe.
\<close>

lemma reflex64_caller_sees_legacy:
  assumes "cpuid_answer e rip leaf control payload w = (w', Some r)" and "\<not> is_wine_system_rip rip" and "is_identity_leaf leaf"
    and "cp_reflex64_selected w \<Longrightarrow> id_presentation (cp_identity w) = Legacy"
    and "snd (classify_caller (cp_mem w) (ce_caller_maps e) (cp_established w) rip (cp_callers w)) = Some Reflex64"
  shows "cp_identity w' = with_presentation (cp_identity w) Legacy \<and> cpuid_kuser_recipe (rt_identity (cp_rt w')) \<noteq> recipe_code Resume \<and>
    (own_reply leaf w' r \<or> artifact_profile_reply leaf w' r)"
proof -
  obtain w1 fo where f: "fixed_reply e leaf (Some rip) w = (w1, fo)" by fastforce
  have "fo \<noteq> NoFixedReply" using fixed_reply_cases [OF f] identity_leaf_fixed [OF assms(3), of "cp_identity w1"] by auto
  with assms(1,2) f have w': "w' = w1" by (cases fo) (auto simp: cpuid_answer_def)
  have i: "cp_identity w' = with_presentation (cp_identity w) Legacy"
    using fixed_reply_identity [OF f] select_caller_reflex64 [OF assms(3-5)] by (simp add: w' cp_identity_def)
  then have "cpuid_kuser_recipe (rt_identity (cp_rt w')) \<noteq> 0" by (simp add: legacy_iff cp_identity_def with_presentation_def)
  with i identity_answer [OF assms(1-3)] show ?thesis by simp
qed

definition reflex64_env :: cpuid_env where
  "reflex64_env = (sample_cpuid_env (\<lambda>_ _. registers_default))\<lparr>ce_caller_maps :=
     Some [ascii ''00010000-00011000 r-xp 00000000 08:01 7 /games/reflex64.dll'']\<rparr>"

lemma reflex64_classified:
  "snd (classify_caller (cp_mem sample_cpuid_state) (ce_caller_maps reflex64_env) False 0x10010 caller_cache_new) = Some Reflex64"
proof -
  have l: "caller_lookup caller_cache_new 0x10010 = None" by code_simp
  have "find_caller_mapping (ce_caller_maps reflex64_env) 0x10010 = Some (0x10000, 0x11000, Reflex64)" by code_simp
  with l show ?thesis by (simp add: classify_caller_def)
qed

section \<open>The native cache\<close>

lemma native_key_eq: "native_key l s = native_key l' s' \<longleftrightarrow> l = l' \<and> s = s'"
proof
  assume eq: "native_key l s = native_key l' s'"
  have hi: "(ucast (drop_bit 32 (native_key a b)) :: u32) = a" for a b
    by (rule bit_word_eqI) (auto simp: native_key_def bit_ucast_iff bit_drop_bit_eq bit_or_iff bit_push_bit_iff dest: bit_imp_le_length)
  have lo: "(ucast (native_key a b) :: u32) = b" for a b
    by (rule bit_word_eqI) (auto simp: native_key_def bit_ucast_iff bit_or_iff bit_push_bit_iff)
  from eq hi lo show "l = l' \<and> s = s'" by metis
qed simp

definition native_ok :: "(u32 \<Rightarrow> u32 \<Rightarrow> registers) \<Rightarrow> native_cache \<Rightarrow> bool" where
  "native_ok cpu c \<longleftrightarrow> unat (nc_len c) \<le> 32 \<and> length (nc_entries c) = 32 \<and>
     (\<forall>i < unat (nc_len c). \<exists>l s. nc_entries c ! i = \<lparr>ne_key = native_key l s, ne_reply = cpu l s\<rparr>)"

lemma native_lookup_ok:
  assumes "native_ok cpu c" and "native_lookup c l s = Some r"
  shows "r = cpu l s"
proof -
  from assms(2) obtain x where x: "x \<in> set (take (min (unat (nc_len c)) NATIVE_CACHE_CAP) (nc_entries c))" "ne_key x = native_key l s" "r = ne_reply x"
    by (auto simp: native_lookup_def dest: find_SomeD)
  then obtain i where "i < unat (nc_len c)" "x = nc_entries c ! i"
    using assms(1) by (auto simp: in_set_conv_nth native_ok_def)
  with assms(1) obtain l' s' where "x = \<lparr>ne_key = native_key l' s', ne_reply = cpu l' s'\<rparr>" by (auto simp: native_ok_def)
  with x show ?thesis by (simp add: native_key_eq)
qed

lemma native_insert_ok:
  assumes "native_ok cpu c"
  shows "native_ok cpu (native_insert c l s (cpu l s))"
proof (cases "unat (nc_len c) < 32")
  case True
  then have "unat (of_nat (unat (nc_len c) + 1) :: u32) = unat (nc_len c) + 1"
    by (simp only: unat_of_nat) (simp add: take_bit_nat_eq_self)
  with assms True show ?thesis
    unfolding native_insert_def native_ok_def NATIVE_CACHE_CAP_def Let_def
    by (simp del: of_nat_add) (auto simp: nth_list_update less_Suc_eq)
qed (use assms in \<open>simp add: native_insert_def NATIVE_CACHE_CAP_def\<close>)

lemma native_new_ok: "native_ok cpu native_cache_new"
  by (simp add: native_ok_def native_cache_new_def NATIVE_CACHE_CAP_def)

fun native_run :: "(cpuid_env \<times> u32 \<times> u32) list \<Rightarrow> cpuid_state \<Rightarrow> cpuid_state \<times> registers option list" where
  "native_run [] w = (w, [])"
| "native_run ((e, l, s) # calls) w =
     (let (w1, r) = native_reply e l s w; (w2, rs) = native_run calls w1 in (w2, r # rs))"

lemma native_reply_exact:
  assumes "native_ok cpu (cp_native w)" and "ce_pass_through_ok e" and "ce_rearm_ok e"
    and "\<not> leaf_varies_per_core l \<Longrightarrow> ce_cpuid e l s = cpu l s"
  shows "\<exists>w'. native_reply e l s w = (w', Some (ce_cpuid e l s)) \<and> native_ok cpu (cp_native w')"
proof (cases "leaf_varies_per_core l")
  case True
  with assms show ?thesis by (simp add: native_reply_def Let_def)
next
  case False
  then show ?thesis
  proof (cases "native_lookup (cp_native w) l s")
    case None
    with False assms native_insert_ok [OF assms(1), of l s] show ?thesis by (simp add: native_reply_def Let_def)
  next
    case (Some r)
    with native_lookup_ok [OF assms(1) Some] False assms show ?thesis by (simp add: native_reply_def Let_def)
  qed
qed

text \<open>
  Native pass-through is transparent. As long as the system calls around it succeed and the
  processor answers each leaf the code caches the same way every time, any sequence of native
  replies gives, call by call, what the processor itself would have answered; the leaves with
  per-core topology are read afresh.
\<close>

lemma native_replies_exact:
  assumes "native_ok cpu (cp_native w)"
    and "\<And>e l s. (e, l, s) \<in> set calls \<Longrightarrow> ce_pass_through_ok e \<and> ce_rearm_ok e"
    and "\<And>e l s. (e, l, s) \<in> set calls \<Longrightarrow> \<not> leaf_varies_per_core l \<Longrightarrow> ce_cpuid e l s = cpu l s"
  shows "snd (native_run calls w) = map (\<lambda>(e, l, s). Some (ce_cpuid e l s)) calls"
  using assms
proof (induction calls w rule: native_run.induct)
  case (2 e l s calls w)
  obtain w1 where w1: "native_reply e l s w = (w1, Some (ce_cpuid e l s))" "native_ok cpu (cp_native w1)"
    using native_reply_exact [OF "2.prems"(1), of e l s] "2.prems"(2,3) by auto
  have "snd (native_run calls w1) = map (\<lambda>(e, l, s). Some (ce_cpuid e l s)) calls"
    using "2.prems" w1 by (intro "2.IH") auto
  with w1 show ?case by (cases "native_run calls w1") simp
qed simp

lemma find_append_None: "List.find P xs = None \<Longrightarrow> List.find P (xs @ ys) = List.find P ys"
  by (induction xs) (auto split: if_splits)

lemma native_lookup_insert:
  assumes "native_lookup c l s = None" and "unat (nc_len c) < 32" and "length (nc_entries c) = 32"
  shows "native_lookup (native_insert c l s r) l s = Some r"
proof -
  let ?n = "unat (nc_len c)"
  have len: "unat (of_nat (Suc ?n) :: u32) = Suc ?n"
    using assms(2) by (simp only: unat_of_nat) (simp add: take_bit_nat_eq_self)
  have "take (Suc ?n) ((nc_entries c)[?n := x]) = take ?n (nc_entries c) @ [x]" for x
    using assms(2,3) by (simp add: take_Suc_conv_app_nth)
  moreover have "List.find (\<lambda>e. ne_key e = native_key l s) (take ?n (nc_entries c)) = None"
    using assms(1,2) by (simp add: native_lookup_def NATIVE_CACHE_CAP_def)
  ultimately show ?thesis
    using assms(2) by (simp add: native_lookup_def native_insert_def NATIVE_CACHE_CAP_def Let_def len find_append_None del: of_nat_add of_nat_Suc)
qed

text \<open>The APIC id in leaf 1 is a cached value too: a thread on another core gets the first core's.\<close>

lemma cached_apic_id_of_first_core:
  assumes "ce_pass_through_ok e1" and "ce_rearm_ok e1" and "native_lookup (cp_native w) 1 0 = None"
    and "native_ok cpu (cp_native w)" and "unat (nc_len (cp_native w)) < 32"
  shows "\<exists>w1. native_reply e1 1 0 w = (w1, Some (ce_cpuid e1 1 0)) \<and> native_reply e2 1 0 w1 = (w1, Some (ce_cpuid e1 1 0))"
  using assms native_lookup_insert [of "cp_native w" 1 0] by (simp add: native_reply_def Let_def leaf_varies_per_core_def native_ok_def)

end
