(* ===== verification/Pending_Frees.thy ===== *)
theory Pending_Frees
  imports Prelude "HOL-Library.Monad_Syntax"
begin

text \<open>
  The duplicate-free history of \<^verbatim>\<open>runtime/src/hooks/pending_frees.rs\<close>: a ring of 1024
  entries whose live slots are threaded into doubly linked bucket chains. Array accesses
  are written with \<open>arr_get\<close> and \<open>arr_set\<close>, which are \<open>None\<close> where the Rust indexing panics; the
  chain walk is a partial function, \<open>None\<close> when it would not end. The invariant
  \<open>hist_inv\<close> excludes both, and under it the indexed history refines the plain ring
  \<open>reference\<close> that the source's own test uses as its oracle.
\<close>

section \<open>The indexed history\<close>

definition HIST_CAPACITY :: nat where "HIST_CAPACITY = 1024"
definition HIST_BUCKET_COUNT :: nat where "HIST_BUCKET_COUNT = 4096"
definition NO_ENTRY :: u16 where "NO_ENTRY = 0xffff"

record entry =
  entry_address :: u64
  entry_next :: u16
  entry_prev :: u16

definition ENTRY_EMPTY :: entry where
  "ENTRY_EMPTY = \<lparr>entry_address = 0, entry_next = NO_ENTRY, entry_prev = NO_ENTRY\<rparr>"

record history =
  hist_entries :: "entry list"
  hist_buckets :: "u16 list"
  hist_next_index :: nat

definition history_new :: history where
  "history_new =
     \<lparr>hist_entries = replicate HIST_CAPACITY ENTRY_EMPTY, hist_buckets = replicate HIST_BUCKET_COUNT NO_ENTRY, hist_next_index = 0\<rparr>"

definition hist_bucket :: "u64 \<Rightarrow> nat" where
  "hist_bucket a = unat (drop_bit 52 (drop_bit 4 a * 0x9e3779b97f4a7c15))"

partial_function (option) find_loop :: "history \<Rightarrow> u64 \<Rightarrow> u16 \<Rightarrow> nat option option" where
  "find_loop h a idx =
     (if idx = NO_ENTRY then Some None
      else Option.bind (arr_get (hist_entries h) (unat idx)) (\<lambda>e.
        if entry_address e = a then Some (Some (unat idx)) else find_loop h a (entry_next e)))"

definition history_find :: "history \<Rightarrow> u64 \<Rightarrow> nat option option" where
  "history_find h a = Option.bind (arr_get (hist_buckets h) (hist_bucket a)) (find_loop h a)"

definition history_remove :: "history \<Rightarrow> nat \<Rightarrow> history option" where
  "history_remove h i = do {
     e \<leftarrow> arr_get (hist_entries h) i;
     h1 \<leftarrow> (if entry_prev e = NO_ENTRY
            then map_option (\<lambda>bs. h\<lparr>hist_buckets := bs\<rparr>) (arr_set (hist_buckets h) (hist_bucket (entry_address e)) (entry_next e))
            else do {
              p \<leftarrow> arr_get (hist_entries h) (unat (entry_prev e));
              es \<leftarrow> arr_set (hist_entries h) (unat (entry_prev e)) (p\<lparr>entry_next := entry_next e\<rparr>);
              Some (h\<lparr>hist_entries := es\<rparr>) });
     h2 \<leftarrow> (if entry_next e \<noteq> NO_ENTRY
            then do {
              n \<leftarrow> arr_get (hist_entries h1) (unat (entry_next e));
              es \<leftarrow> arr_set (hist_entries h1) (unat (entry_next e)) (n\<lparr>entry_prev := entry_prev e\<rparr>);
              Some (h1\<lparr>hist_entries := es\<rparr>) }
            else Some h1);
     es \<leftarrow> arr_set (hist_entries h2) i ENTRY_EMPTY;
     Some (h2\<lparr>hist_entries := es\<rparr>) }"

definition history_insert :: "history \<Rightarrow> nat \<Rightarrow> u64 \<Rightarrow> history option" where
  "history_insert h i a = do {
     head \<leftarrow> arr_get (hist_buckets h) (hist_bucket a);
     es \<leftarrow> arr_set (hist_entries h) i \<lparr>entry_address = a, entry_next = head, entry_prev = NO_ENTRY\<rparr>;
     es' \<leftarrow> (if head \<noteq> NO_ENTRY
             then do { n \<leftarrow> arr_get es (unat head); arr_set es (unat head) (n\<lparr>entry_prev := of_nat i\<rparr>) }
             else Some es);
     bs \<leftarrow> arr_set (hist_buckets h) (hist_bucket a) (of_nat i);
     Some (h\<lparr>hist_entries := es', hist_buckets := bs, hist_next_index := (i + 1) mod HIST_CAPACITY\<rparr>) }"

definition history_seen_or_mark :: "history \<Rightarrow> u64 \<Rightarrow> (history \<times> bool) option" where
  "history_seen_or_mark h a = do {
     found \<leftarrow> history_find h a;
     if found \<noteq> None then Some (h, True)
     else do {
       e \<leftarrow> arr_get (hist_entries h) (hist_next_index h);
       h1 \<leftarrow> (if entry_address e \<noteq> 0 then history_remove h (hist_next_index h) else Some h);
       h2 \<leftarrow> history_insert h1 (hist_next_index h) a;
       Some (h2, False) } }"

definition history_consume :: "history \<Rightarrow> u64 \<Rightarrow> (history \<times> bool) option" where
  "history_consume h a = do {
     found \<leftarrow> history_find h a;
     case found of
       None \<Rightarrow> Some (h, False)
     | Some i \<Rightarrow> do { h1 \<leftarrow> history_remove h i; Some (h1, True) } }"

text \<open>The module's entry points: a null pointer never reaches the history.\<close>

definition seen_or_mark :: "history \<Rightarrow> u64 \<Rightarrow> (history \<times> bool) option" where
  "seen_or_mark h ptr = (if ptr = 0 then Some (h, False) else history_seen_or_mark h ptr)"

definition consume_if_pending :: "history \<Rightarrow> u64 \<Rightarrow> (history \<times> bool) option" where
  "consume_if_pending h ptr = (if ptr = 0 then Some (h, False) else history_consume h ptr)"

definition pending_frees_after_fork :: "history \<Rightarrow> history" where
  "pending_frees_after_fork h = history_new"

section \<open>The reference ring\<close>

record reference =
  ref_entries :: "u64 option list"
  ref_next :: nat

definition reference_new :: reference where
  "reference_new = \<lparr>ref_entries = replicate HIST_CAPACITY None, ref_next = 0\<rparr>"

definition reference_seen_or_mark :: "reference \<Rightarrow> u64 \<Rightarrow> reference \<times> bool" where
  "reference_seen_or_mark r a =
     (if Some a \<in> set (ref_entries r) then (r, True)
      else (\<lparr>ref_entries = (ref_entries r)[ref_next r := Some a],
             ref_next = (ref_next r + 1) mod HIST_CAPACITY\<rparr>, False))"

fun clear_first :: "'a \<Rightarrow> 'a option list \<Rightarrow> 'a option list" where
  "clear_first a [] = []"
| "clear_first a (x # xs) = (if x = Some a then None # xs else x # clear_first a xs)"

definition reference_consume :: "reference \<Rightarrow> u64 \<Rightarrow> reference \<times> bool" where
  "reference_consume r a =
     (if Some a \<in> set (ref_entries r)
      then (r\<lparr>ref_entries := clear_first a (ref_entries r)\<rparr>, True) else (r, False))"

section \<open>Chains\<close>

text \<open>
  \<open>dseg es p c is q d\<close>: the slots \<open>is\<close> form a doubly linked segment of \<open>es\<close> whose first
  slot is \<open>c\<close> with predecessor \<open>p\<close>, and which ends in slot \<open>q\<close> with successor \<open>d\<close>.
\<close>

fun dseg :: "entry list \<Rightarrow> u16 \<Rightarrow> u16 \<Rightarrow> nat list \<Rightarrow> u16 \<Rightarrow> u16 \<Rightarrow> bool" where
  "dseg es p c [] q d \<longleftrightarrow> q = p \<and> d = c"
| "dseg es p c (i # is) q d \<longleftrightarrow>
     i < length es \<and> c = of_nat i \<and> entry_prev (es ! i) = p \<and>
     dseg es (of_nat i) (entry_next (es ! i)) is q d"

named_theorems slot_simps "slot numbers below the capacity as u16 values"

lemma unat_slot [slot_simps]: "i < HIST_CAPACITY \<Longrightarrow> unat (of_nat i :: u16) = i"
  by (simp add: HIST_CAPACITY_def unat_of_nat)

lemma slot_neq_NO_ENTRY [slot_simps]: "i < HIST_CAPACITY \<Longrightarrow> (of_nat i :: u16) \<noteq> NO_ENTRY"
  using unat_slot [of i] by (auto simp: HIST_CAPACITY_def NO_ENTRY_def)

lemma hist_bucket_bound: "hist_bucket a < HIST_BUCKET_COUNT"
proof -
  have "unat (drop_bit 52 x) < 4096" for x :: u64
  proof -
    have "unat x < 2 ^ 64" using unsigned_less [of x, where ?'a = nat] by simp
    then have "unat x div 2 ^ 52 < 4096" by (simp add: div_less_iff_less_mult)
    then show ?thesis by (simp add: drop_bit_eq_div unat_div_distrib)
  qed
  then show ?thesis by (simp add: hist_bucket_def HIST_BUCKET_COUNT_def)
qed

lemma dseg_append:
  "dseg es p c (xs @ ys) q d \<longleftrightarrow> (\<exists>q' c'. dseg es p c xs q' c' \<and> dseg es q' c' ys q d)"
  by (induction xs arbitrary: p c) auto

lemma dseg_cong:
  "(\<And>j. j \<in> set xs \<Longrightarrow> es' ! j = es ! j) \<Longrightarrow> length es' = length es \<Longrightarrow>
   dseg es' p c xs q d = dseg es p c xs q d"
  by (induction xs arbitrary: p c) auto

lemma dseg_slots: "dseg es p c xs q d \<Longrightarrow> i \<in> set xs \<Longrightarrow> i < length es"
  by (induction xs arbitrary: p c) auto

lemma dseg_ends:
  assumes "dseg es p c xs q d" and "xs \<noteq> []"
  shows "q = of_nat (last xs)" and "c = of_nat (hd xs)"
  using assms by (induction xs arbitrary: p c) (auto split: if_splits)

lemma dseg_relink_next:
  assumes "dseg es p c xs q d" and "distinct xs" and "xs \<noteq> []"
  shows "dseg (es[last xs := (es ! last xs)\<lparr>entry_next := d'\<rparr>]) p c xs q d'"
  using assms
proof (induction xs arbitrary: p c)
  case (Cons i xs)
  show ?case
  proof (cases "xs = []")
    case True
    with Cons.prems show ?thesis by auto
  next
    case False
    with Cons.prems have "last xs \<noteq> i" by auto
    with Cons.prems Cons.IH [of "of_nat i" "entry_next (es ! i)"] False show ?thesis by auto
  qed
qed simp

lemma dseg_relink_prev:
  assumes "dseg es p c xs q d" and "distinct xs" and "xs \<noteq> []"
  shows "dseg (es[hd xs := (es ! hd xs)\<lparr>entry_prev := p'\<rparr>]) p' c xs q d"
proof -
  from assms(3) obtain i ys where xs: "xs = i # ys" by (cases xs) auto
  let ?es = "es[i := (es ! i)\<lparr>entry_prev := p'\<rparr>]"
  from assms(2) xs have "dseg ?es r e ys q d = dseg es r e ys q d" for r e
    by (intro dseg_cong) (auto intro!: nth_list_update_neq)
  with assms xs show ?thesis by auto
qed

section \<open>The invariant\<close>

definition addrs :: "history \<Rightarrow> u64 list" where
  "addrs h = map entry_address (hist_entries h)"

definition hist_wf :: "history \<Rightarrow> (nat \<Rightarrow> nat list) \<Rightarrow> bool" where
  "hist_wf h ch \<longleftrightarrow>
     length (hist_entries h) = HIST_CAPACITY \<and> length (hist_buckets h) = HIST_BUCKET_COUNT \<and>
     hist_next_index h < HIST_CAPACITY \<and>
     (\<forall>b < HIST_BUCKET_COUNT. distinct (ch b) \<and>
        (\<exists>q. dseg (hist_entries h) NO_ENTRY (hist_buckets h ! b) (ch b) q NO_ENTRY)) \<and>
     (\<forall>b < HIST_BUCKET_COUNT. \<forall>i \<in> set (ch b). addrs h ! i \<noteq> 0 \<and> hist_bucket (addrs h ! i) = b) \<and>
     (\<forall>i < HIST_CAPACITY. addrs h ! i \<noteq> 0 \<longrightarrow> i \<in> set (ch (hist_bucket (addrs h ! i)))) \<and>
     (\<forall>i < HIST_CAPACITY. \<forall>j < HIST_CAPACITY. addrs h ! i \<noteq> 0 \<longrightarrow> addrs h ! i = addrs h ! j \<longrightarrow> i = j)"

definition hist_inv :: "history \<Rightarrow> bool" where
  "hist_inv h \<longleftrightarrow> (\<exists>ch. hist_wf h ch)"

lemma hist_wfD:
  assumes "hist_wf h ch"
  shows "length (hist_entries h) = HIST_CAPACITY" and "length (hist_buckets h) = HIST_BUCKET_COUNT"
    and "length (addrs h) = HIST_CAPACITY" and "hist_next_index h < HIST_CAPACITY"
    and "\<And>b. b < HIST_BUCKET_COUNT \<Longrightarrow> distinct (ch b)"
    and "\<And>b. b < HIST_BUCKET_COUNT \<Longrightarrow>
           \<exists>q. dseg (hist_entries h) NO_ENTRY (hist_buckets h ! b) (ch b) q NO_ENTRY"
    and "\<And>b i. b < HIST_BUCKET_COUNT \<Longrightarrow> i \<in> set (ch b) \<Longrightarrow> addrs h ! i \<noteq> 0 \<and> hist_bucket (addrs h ! i) = b"
    and "\<And>i. i < HIST_CAPACITY \<Longrightarrow> addrs h ! i \<noteq> 0 \<Longrightarrow> i \<in> set (ch (hist_bucket (addrs h ! i)))"
    and "\<And>i j. i < HIST_CAPACITY \<Longrightarrow> j < HIST_CAPACITY \<Longrightarrow> addrs h ! i \<noteq> 0 \<Longrightarrow>
           addrs h ! i = addrs h ! j \<Longrightarrow> i = j"
  using assms by (auto simp: hist_wf_def addrs_def)

lemma hist_wf_slots:
  assumes "hist_wf h ch" and "b < HIST_BUCKET_COUNT" and "i \<in> set (ch b)"
  shows "i < HIST_CAPACITY"
  using hist_wfD(6) [OF assms(1,2)] hist_wfD(1) [OF assms(1)] assms(3) by (metis dseg_slots)

lemma hist_wf_new: "hist_wf history_new (\<lambda>_. [])"
  by (auto simp: hist_wf_def history_new_def addrs_def ENTRY_EMPTY_def HIST_CAPACITY_def HIST_BUCKET_COUNT_def)

section \<open>Lookup\<close>

lemma find_loop_dseg:
  assumes "dseg (hist_entries h) p c xs q NO_ENTRY" and "length (hist_entries h) = HIST_CAPACITY"
  shows "find_loop h a c = Some (List.find (\<lambda>i. addrs h ! i = a) xs)"
  using assms
proof (induction xs arbitrary: p c)
  case Nil
  then show ?case by (simp add: find_loop.simps)
next
  case (Cons i xs)
  from Cons.prems have i: "i < HIST_CAPACITY" and c: "c = of_nat i" by auto
  from Cons.prems have "find_loop h a (entry_next (hist_entries h ! i))
      = Some (List.find (\<lambda>i. addrs h ! i = a) xs)"
    by (auto intro!: Cons.IH)
  with i c Cons.prems(2) show ?case
    by (simp add: find_loop.simps [of h a "of_nat i"] slot_simps addrs_def)
qed

lemma history_find_total:
  assumes wf: "hist_wf h ch" and a: "a \<noteq> 0"
  obtains r where "history_find h a = Some r"
    and "r = None \<longleftrightarrow> a \<notin> set (addrs h)"
    and "\<And>i. r = Some i \<Longrightarrow> i < HIST_CAPACITY \<and> addrs h ! i = a"
proof -
  let ?b = "hist_bucket a"
  let ?r = "List.find (\<lambda>i. addrs h ! i = a) (ch ?b)"
  have b: "?b < HIST_BUCKET_COUNT" by (rule hist_bucket_bound)
  from hist_wfD(6) [OF wf b] obtain q where
    "dseg (hist_entries h) NO_ENTRY (hist_buckets h ! ?b) (ch ?b) q NO_ENTRY" ..
  then have 1: "history_find h a = Some ?r"
    using b hist_wfD(1,2) [OF wf] by (simp add: history_find_def find_loop_dseg)
  have 2: "i < HIST_CAPACITY \<and> addrs h ! i = a" if "?r = Some i" for i
    using that hist_wf_slots [OF wf b] by (auto simp: find_Some_iff)
  have 3: "?r = None \<longleftrightarrow> a \<notin> set (addrs h)"
  proof
    assume "?r = None"
    then have "addrs h ! i \<noteq> a" if "i \<in> set (ch ?b)" for i
      using that by (auto simp: find_None_iff)
    with hist_wfD(8) [OF wf] a show "a \<notin> set (addrs h)"
      by (metis hist_wfD(3) [OF wf] in_set_conv_nth)
  next
    assume "a \<notin> set (addrs h)"
    then have "addrs h ! i \<noteq> a" if "i \<in> set (ch ?b)" for i
      using hist_wf_slots [OF wf b that] hist_wfD(3) [OF wf] by (metis nth_mem)
    then show "?r = None" by (auto simp: find_None_iff)
  qed
  from that [OF 1 3 2] show ?thesis by blast
qed

section \<open>Removal\<close>

lemma dseg_unlink:
  assumes d: "dseg es NO_ENTRY c (xs @ i # ys) q NO_ENTRY" and dist: "distinct (xs @ i # ys)"
    and len: "length es = HIST_CAPACITY"
  defines "es1 \<equiv> (if xs = [] then es
                   else es[last xs := (es ! last xs)\<lparr>entry_next := entry_next (es ! i)\<rparr>])"
  defines "es2 \<equiv> (if ys = [] then es1
                   else es1[hd ys := (es1 ! hd ys)\<lparr>entry_prev := entry_prev (es ! i)\<rparr>])"
  shows "\<exists>q'. dseg (es2[i := ENTRY_EMPTY]) NO_ENTRY
           (if xs = [] then entry_next (es ! i) else c) (xs @ ys) q' NO_ENTRY"
    and "entry_prev (es ! i) = (if xs = [] then NO_ENTRY else of_nat (last xs))"
    and "entry_next (es ! i) = (if ys = [] then NO_ENTRY else of_nat (hd ys))"
proof -
  let ?n = "entry_next (es ! i)" and ?p = "entry_prev (es ! i)"
  from d have x: "dseg es NO_ENTRY c xs ?p (of_nat i)" and y: "dseg es (of_nat i) ?n ys q NO_ENTRY"
    by (auto simp: dseg_append)
  from x dseg_ends(1) [OF x] show P: "?p = (if xs = [] then NO_ENTRY else of_nat (last xs))"
    by (auto split: if_splits)
  from y dseg_ends(2) [OF y] show "?n = (if ys = [] then NO_ENTRY else of_nat (hd ys))"
    by (auto split: if_splits)
  have x1: "dseg es1 NO_ENTRY (if xs = [] then ?n else c) xs ?p ?n"
    using x dist P dseg_relink_next [OF x] by (auto simp: es1_def)
  have "dseg es1 (of_nat i) ?n ys q NO_ENTRY = dseg es (of_nat i) ?n ys q NO_ENTRY"
    using dist last_in_set [of xs]
    by (intro dseg_cong) (auto simp: es1_def disjoint_iff intro!: nth_list_update_neq)
  with y have y1: "dseg es1 (of_nat i) ?n ys q NO_ENTRY" by simp
  have y2: "\<exists>q'. dseg es2 ?p ?n ys q' NO_ENTRY"
    using y1 dist dseg_relink_prev [OF y1] by (auto simp: es2_def)
  have "dseg es2 NO_ENTRY (if xs = [] then ?n else c) xs ?p ?n
      = dseg es1 NO_ENTRY (if xs = [] then ?n else c) xs ?p ?n"
    using dist by (intro dseg_cong) (auto simp: es2_def intro!: nth_list_update_neq)
  with x1 y2 have "\<exists>q'. dseg es2 NO_ENTRY (if xs = [] then ?n else c) (xs @ ys) q' NO_ENTRY"
    unfolding dseg_append by blast
  moreover have "dseg (es2[i := ENTRY_EMPTY]) p e (xs @ ys) r f = dseg es2 p e (xs @ ys) r f" for p e r f
    using dist by (intro dseg_cong) (auto intro!: nth_list_update_neq)
  ultimately show "\<exists>q'. dseg (es2[i := ENTRY_EMPTY]) NO_ENTRY
      (if xs = [] then ?n else c) (xs @ ys) q' NO_ENTRY" by simp
qed

text \<open>
  The invariant after one chain lost slot \<open>i\<close>: it is enough that the new chain is linked,
  that the addresses are those of before with slot \<open>i\<close> cleared, and that the slots and
  bucket heads outside the chain did not change.
\<close>

lemma hist_wf_shrink:
  assumes wf: "hist_wf h ch" and i: "i < HIST_CAPACITY" and ch: "ch b = xs @ i # ys"
    and b: "b < HIST_BUCKET_COUNT"
    and len: "length es' = HIST_CAPACITY" "length bk' = HIST_BUCKET_COUNT"
    and ad: "map entry_address es' = (addrs h)[i := 0]"
    and chain: "\<exists>q. dseg es' NO_ENTRY (bk' ! b) (xs @ ys) q NO_ENTRY"
    and others: "\<And>j. j \<notin> set (ch b) \<Longrightarrow> es' ! j = hist_entries h ! j"
    and heads: "\<And>b'. b' \<noteq> b \<Longrightarrow> bk' ! b' = hist_buckets h ! b'"
  shows "hist_wf (h\<lparr>hist_entries := es', hist_buckets := bk'\<rparr>) (ch(b := xs @ ys))"
    (is "hist_wf ?h ?ch")
proof -
  have addr: "addrs ?h = (addrs h)[i := 0]" using ad by (simp add: addrs_def)
  have disj: "j \<notin> set (ch b)" if "b' < HIST_BUCKET_COUNT" "b' \<noteq> b" "j \<in> set (ch b')" for b' j
    using hist_wfD(7) [OF wf that(1,3)] hist_wfD(7) [OF wf b, of j] that(2) by auto
  have seg: "\<exists>q. dseg es' NO_ENTRY (bk' ! b') (?ch b') q NO_ENTRY" if "b' < HIST_BUCKET_COUNT" for b'
  proof (cases "b' = b")
    case False
    have "dseg es' p c (ch b') q d = dseg (hist_entries h) p c (ch b') q d" for p c q d
      using disj [OF that False] len hist_wfD(1) [OF wf] by (intro dseg_cong) (auto simp: others)
    with False heads hist_wfD(6) [OF wf that] show ?thesis by simp
  qed (use chain in simp)
  have dist: "distinct (ch b)" by (rule hist_wfD(5) [OF wf b])
  have mem: "addrs ?h ! j \<noteq> 0 \<and> hist_bucket (addrs ?h ! j) = b'"
    if "b' < HIST_BUCKET_COUNT" "j \<in> set (?ch b')" for b' j
  proof -
    from that ch dist have "j \<in> set (ch b')" and "j \<noteq> i"
      using disj [OF that(1), of i] by (auto split: if_splits)
    with hist_wfD(7) [OF wf that(1), of j] show ?thesis by (simp add: addr)
  qed
  have live: "j \<in> set (?ch (hist_bucket (addrs ?h ! j)))" if "j < HIST_CAPACITY" "addrs ?h ! j \<noteq> 0" for j
  proof -
    from that i hist_wfD(3) [OF wf] have "j \<noteq> i" by (auto simp: addr)
    with that hist_wfD(8) [OF wf that(1)] ch show ?thesis by (auto simp: addr)
  qed
  have inj: "j = k" if "j < HIST_CAPACITY" "k < HIST_CAPACITY" "addrs ?h ! j \<noteq> 0"
      "addrs ?h ! j = addrs ?h ! k" for j k
    using that hist_wfD(3,9) [OF wf] i by (auto simp: addr nth_list_update split: if_splits)
  show ?thesis
    using seg mem live inj len hist_wfD(4,5) [OF wf] dist ch
    by (auto simp: hist_wf_def)
qed

text \<open>What a removal leaves: the address cleared, the chain shortened, all else as it was.\<close>

lemma history_remove_wf:
  assumes wf: "hist_wf h ch" and i: "i < HIST_CAPACITY" and live: "addrs h ! i \<noteq> 0"
  obtains h' where "history_remove h i = Some h'" and "hist_inv h'"
    and "addrs h' = (addrs h)[i := 0]" and "hist_next_index h' = hist_next_index h"
proof -
  let ?es = "hist_entries h" and ?bk = "hist_buckets h" and ?b = "hist_bucket (addrs h ! i)"
  have b: "?b < HIST_BUCKET_COUNT" by (rule hist_bucket_bound)
  note len = hist_wfD(1,2) [OF wf]
  from hist_wfD(8) [OF wf i live] obtain xs ys where ch: "ch ?b = xs @ i # ys"
    by (auto simp: in_set_conv_decomp)
  from hist_wfD(5,6) [OF wf b] ch obtain q where dist: "distinct (xs @ i # ys)"
    and d: "dseg ?es NO_ENTRY (?bk ! ?b) (xs @ i # ys) q NO_ENTRY" by auto
  define es1 where "es1 = (if xs = [] then ?es
    else ?es[last xs := (?es ! last xs)\<lparr>entry_next := entry_next (?es ! i)\<rparr>])"
  define es2 where "es2 = (if ys = [] then es1
    else es1[hd ys := (es1 ! hd ys)\<lparr>entry_prev := entry_prev (?es ! i)\<rparr>])"
  define bk where "bk = (if xs = [] then ?bk[?b := entry_next (?es ! i)] else ?bk)"
  define h' where "h' = h\<lparr>hist_entries := es2[i := ENTRY_EMPTY], hist_buckets := bk\<rparr>"
  note un = dseg_unlink [OF d dist len(1), folded es1_def, folded es2_def]
  have ends: "xs \<noteq> [] \<Longrightarrow> last xs < HIST_CAPACITY" "ys \<noteq> [] \<Longrightarrow> hd ys < HIST_CAPACITY"
    using hist_wf_slots [OF wf b] ch by auto
  have "entry_address (?es ! i) = addrs h ! i" using i len by (simp add: addrs_def)
  then have res: "history_remove h i = Some h'"
    using i len ends b
    by (auto simp: history_remove_def un(2,3) slot_simps h'_def es1_def es2_def bk_def)
  have "map entry_address es1 = addrs h" by (simp add: es1_def addrs_def map_update_same)
  then have ad2: "map entry_address es2 = addrs h" by (simp add: es2_def map_update_same)
  then have ad: "addrs h' = (addrs h)[i := 0]"
    by (simp add: addrs_def h'_def map_update ENTRY_EMPTY_def)
  have "hist_wf h' (ch(?b := xs @ ys))"
    unfolding h'_def
  proof (rule hist_wf_shrink [OF wf i ch b])
    show "map entry_address (es2[i := ENTRY_EMPTY]) = (addrs h)[i := 0]"
      using ad by (simp add: h'_def addrs_def)
    show "\<exists>q. dseg (es2[i := ENTRY_EMPTY]) NO_ENTRY (bk ! ?b) (xs @ ys) q NO_ENTRY"
      using un(1) b len by (auto simp: bk_def split: if_splits)
    show "es2[i := ENTRY_EMPTY] ! j = ?es ! j" if "j \<notin> set (ch ?b)" for j
    proof -
      have "i \<noteq> j" "xs \<noteq> [] \<Longrightarrow> last xs \<noteq> j" "ys \<noteq> [] \<Longrightarrow> hd ys \<noteq> j"
        using that ch by auto
      then show ?thesis by (simp add: es2_def es1_def)
    qed
  qed (use len in \<open>auto simp: bk_def es2_def es1_def\<close>)
  then have "hist_inv h'" by (auto simp: hist_inv_def)
  with that [OF res _ ad] show ?thesis by (simp add: h'_def)
qed

section \<open>Insertion\<close>

lemma dseg_push:
  fixes a :: u64
  assumes d: "dseg es NO_ENTRY c xs q NO_ENTRY" and dist: "distinct xs" and i: "i \<notin> set xs" "i < length es"
  defines "es1 \<equiv> es[i := \<lparr>entry_address = a, entry_next = c, entry_prev = NO_ENTRY\<rparr>]"
  defines "es2 \<equiv> (if xs = [] then es1 else es1[hd xs := (es1 ! hd xs)\<lparr>entry_prev := of_nat i\<rparr>])"
  shows "\<exists>q'. dseg es2 NO_ENTRY (of_nat i) (i # xs) q' NO_ENTRY"
proof -
  have "dseg es1 NO_ENTRY c xs q NO_ENTRY = dseg es NO_ENTRY c xs q NO_ENTRY"
    using i by (intro dseg_cong) (auto simp: es1_def intro!: nth_list_update_neq)
  with d have d1: "dseg es1 NO_ENTRY c xs q NO_ENTRY" by simp
  have "\<exists>q'. dseg es2 (of_nat i) c xs q' NO_ENTRY"
    using d1 dseg_relink_prev [OF d1 dist] by (auto simp: es2_def)
  moreover have "es2 ! i = es1 ! i"
    using i(1) by (auto simp: es2_def intro!: nth_list_update_neq)
  ultimately show ?thesis using i(2) by (simp add: es1_def es2_def)
qed

lemma hist_wf_grow:
  assumes wf: "hist_wf h ch" and i: "i < HIST_CAPACITY" and free: "addrs h ! i = 0"
    and a: "a \<noteq> 0" "a \<notin> set (addrs h)" and b: "b = hist_bucket a"
    and len: "length es' = HIST_CAPACITY" "length bk' = HIST_BUCKET_COUNT"
    and ad: "map entry_address es' = (addrs h)[i := a]"
    and chain: "\<exists>q. dseg es' NO_ENTRY (bk' ! b) (i # ch b) q NO_ENTRY"
    and others: "\<And>j. j \<notin> set (i # ch b) \<Longrightarrow> es' ! j = hist_entries h ! j"
    and heads: "\<And>b'. b' \<noteq> b \<Longrightarrow> bk' ! b' = hist_buckets h ! b'" and k: "k < HIST_CAPACITY"
  shows "hist_wf (h\<lparr>hist_entries := es', hist_buckets := bk', hist_next_index := k\<rparr>) (ch(b := i # ch b))"
    (is "hist_wf ?h ?ch")
proof -
  have bb: "b < HIST_BUCKET_COUNT" using b hist_bucket_bound by simp
  have addr: "addrs ?h = (addrs h)[i := a]" using ad by (simp add: addrs_def)
  have new: "i \<notin> set (ch b')" if "b' < HIST_BUCKET_COUNT" for b'
    using hist_wfD(7) [OF wf that, of i] free by auto
  have disj: "j \<notin> set (i # ch b)" if "b' < HIST_BUCKET_COUNT" "b' \<noteq> b" "j \<in> set (ch b')" for b' j
    using hist_wfD(7) [OF wf that(1,3)] hist_wfD(7) [OF wf bb, of j] new [OF that(1)] that by auto
  have seg: "\<exists>q. dseg es' NO_ENTRY (bk' ! b') (?ch b') q NO_ENTRY" if "b' < HIST_BUCKET_COUNT" for b'
  proof (cases "b' = b")
    case False
    have "dseg es' p c (ch b') q d = dseg (hist_entries h) p c (ch b') q d" for p c q d
      using disj [OF that False] len hist_wfD(1) [OF wf] by (intro dseg_cong) (auto simp: others)
    with False heads hist_wfD(6) [OF wf that] show ?thesis by simp
  qed (use chain in simp)
  have mem: "addrs ?h ! j \<noteq> 0 \<and> hist_bucket (addrs ?h ! j) = b'"
    if "b' < HIST_BUCKET_COUNT" "j \<in> set (?ch b')" for b' j
    using hist_wfD(7) [OF wf that(1), of j] that new [OF that(1)] a b i hist_wfD(3) [OF wf]
    by (auto simp: addr nth_list_update split: if_splits)
  have live: "j \<in> set (?ch (hist_bucket (addrs ?h ! j)))" if "j < HIST_CAPACITY" "addrs ?h ! j \<noteq> 0" for j
    using that hist_wfD(8) [OF wf that(1)] hist_wfD(3) [OF wf] b i
    by (auto simp: addr nth_list_update split: if_splits)
  have notin: "addrs h ! j \<noteq> a" if "j < HIST_CAPACITY" for j
    using that a(2) hist_wfD(3) [OF wf] nth_mem by metis
  have inj: "j = l" if "j < HIST_CAPACITY" "l < HIST_CAPACITY" "addrs ?h ! j \<noteq> 0"
      "addrs ?h ! j = addrs ?h ! l" for j l
  proof (cases "j = i \<or> l = i")
    case True
    with that notin [OF that(1)] notin [OF that(2)] hist_wfD(3) [OF wf] i show ?thesis
      by (auto simp: addr nth_list_update split: if_splits)
  next
    case False
    with that hist_wfD(9) [OF wf that(1,2)] show ?thesis by (simp add: addr)
  qed
  have "distinct (?ch b')" if "b' < HIST_BUCKET_COUNT" for b'
    using hist_wfD(5) [OF wf that] hist_wfD(5) [OF wf bb] new [OF bb] by simp
  with seg mem live inj len k show ?thesis
    unfolding hist_wf_def by (intro conjI allI impI ballI) (blast | simp)+
qed

lemma history_insert_wf:
  assumes wf: "hist_wf h ch" and i: "i < HIST_CAPACITY" and free: "addrs h ! i = 0"
    and a: "a \<noteq> 0" "a \<notin> set (addrs h)"
  obtains h' where "history_insert h i a = Some h'" and "hist_inv h'"
    and "addrs h' = (addrs h)[i := a]" and "hist_next_index h' = (i + 1) mod HIST_CAPACITY"
proof -
  let ?es = "hist_entries h" and ?bk = "hist_buckets h" and ?b = "hist_bucket a"
  have b: "?b < HIST_BUCKET_COUNT" by (rule hist_bucket_bound)
  note len = hist_wfD(1,2) [OF wf]
  from hist_wfD(6) [OF wf b] obtain q where
    d: "dseg ?es NO_ENTRY (?bk ! ?b) (ch ?b) q NO_ENTRY" ..
  have dist: "distinct (ch ?b)" by (rule hist_wfD(5) [OF wf b])
  have new: "i \<notin> set (ch ?b)" using hist_wfD(7) [OF wf b, of i] free by auto
  define es1 where "es1 = ?es[i := \<lparr>entry_address = a, entry_next = ?bk ! ?b, entry_prev = NO_ENTRY\<rparr>]"
  define es2 where "es2 = (if ch ?b = [] then es1 else es1[hd (ch ?b) := (es1 ! hd (ch ?b))\<lparr>entry_prev := of_nat i\<rparr>])"
  define h' where "h' = h\<lparr>hist_entries := es2, hist_buckets := ?bk[?b := of_nat i],
    hist_next_index := (i + 1) mod HIST_CAPACITY\<rparr>"
  have hd: "?bk ! ?b = (if ch ?b = [] then NO_ENTRY else of_nat (hd (ch ?b)))"
    using d dseg_ends(2) [OF d] by (auto split: if_splits)
  have hds: "ch ?b \<noteq> [] \<Longrightarrow> hd (ch ?b) < HIST_CAPACITY"
    using hist_wf_slots [OF wf b] by auto
  have res: "history_insert h i a = Some h'"
    using i len b hds by (auto simp: history_insert_def hd slot_simps h'_def es1_def es2_def)
  have ad: "addrs h' = (addrs h)[i := a]"
    by (simp add: addrs_def h'_def es2_def map_update_same) (simp add: es1_def map_update)
  have "hist_wf h' (ch(?b := i # ch ?b))"
    unfolding h'_def
  proof (rule hist_wf_grow [OF wf i free a refl])
    show "map entry_address es2 = (addrs h)[i := a]" using ad by (simp add: h'_def addrs_def)
    show "\<exists>q. dseg es2 NO_ENTRY (?bk[?b := of_nat i] ! ?b) (i # ch ?b) q NO_ENTRY"
      using dseg_push [OF d dist new, of a, folded es1_def, folded es2_def] i len b by simp
    show "es2 ! j = ?es ! j" if "j \<notin> set (i # ch ?b)" for j
    proof -
      have "i \<noteq> j" "ch ?b \<noteq> [] \<Longrightarrow> hd (ch ?b) \<noteq> j" using that by auto
      then show ?thesis by (simp add: es2_def es1_def)
    qed
  qed (use len in \<open>auto simp: es2_def es1_def HIST_CAPACITY_def\<close>)
  then have "hist_inv h'" by (auto simp: hist_inv_def)
  with that [OF res _ ad] show ?thesis by (simp add: h'_def)
qed

section \<open>The operations on the addresses held\<close>

lemma history_seen_or_mark_seen:
  assumes "hist_inv h" and "a \<noteq> 0" and "a \<in> set (addrs h)"
  shows "history_seen_or_mark h a = Some (h, True)"
proof -
  from assms(1) obtain ch where wf: "hist_wf h ch" by (auto simp: hist_inv_def)
  from history_find_total [OF wf assms(2)] assms(3) obtain i where "history_find h a = Some (Some i)"
    by (metis not_None_eq)
  then show ?thesis by (simp add: history_seen_or_mark_def)
qed

lemma history_seen_or_mark_new:
  assumes inv: "hist_inv h" and a: "a \<noteq> 0" "a \<notin> set (addrs h)"
  obtains h' where "history_seen_or_mark h a = Some (h', False)" and "hist_inv h'"
    and "addrs h' = (addrs h)[hist_next_index h := a]"
    and "hist_next_index h' = (hist_next_index h + 1) mod HIST_CAPACITY"
proof -
  from inv obtain ch where wf: "hist_wf h ch" by (auto simp: hist_inv_def)
  let ?i = "hist_next_index h"
  have i: "?i < HIST_CAPACITY" by (rule hist_wfD(4) [OF wf])
  have find: "history_find h a = Some None"
    using history_find_total [OF wf a(1)] a(2) by metis
  have get: "arr_get (hist_entries h) ?i = Some (hist_entries h ! ?i)"
    and adi: "entry_address (hist_entries h ! ?i) = addrs h ! ?i"
    using i hist_wfD(1) [OF wf] by (auto simp: addrs_def)
  obtain h1 where h1: "(if addrs h ! ?i \<noteq> 0 then history_remove h ?i else Some h) = Some h1"
    "hist_inv h1" "addrs h1 = (addrs h)[?i := 0]"
  proof (cases "addrs h ! ?i = 0")
    case True
    with inv that [of h] show ?thesis by (metis list_update_id)
  next
    case False
    from history_remove_wf [OF wf i False] obtain h' where
      "history_remove h ?i = Some h'" "hist_inv h'" "addrs h' = (addrs h)[?i := 0]" by blast
    with that [of h'] False show ?thesis by simp
  qed
  from h1(2) obtain ch1 where wf1: "hist_wf h1 ch1" by (auto simp: hist_inv_def)
  have z: "addrs h1 ! ?i = 0" using h1(3) i hist_wfD(3) [OF wf] by simp
  have n: "a \<notin> set (addrs h1)"
    using h1(3) a set_update_subset_insert [of "addrs h" ?i 0] by auto
  from history_insert_wf [OF wf1 i z a(1) n] obtain h' where
    h': "history_insert h1 ?i a = Some h'" "hist_inv h'" "addrs h' = (addrs h1)[?i := a]"
      "hist_next_index h' = (?i + 1) mod HIST_CAPACITY" by blast
  have "history_seen_or_mark h a = Some (h', False)"
    using find get h1(1) h'(1) by (simp add: history_seen_or_mark_def adi)
  with that h' h1(3) show ?thesis by simp
qed

lemma history_consume_miss:
  assumes "hist_inv h" and "a \<noteq> 0" and "a \<notin> set (addrs h)"
  shows "history_consume h a = Some (h, False)"
proof -
  from assms(1) obtain ch where wf: "hist_wf h ch" by (auto simp: hist_inv_def)
  from history_find_total [OF wf assms(2)] assms(3) have "history_find h a = Some None" by metis
  then show ?thesis by (simp add: history_consume_def)
qed

lemma history_consume_hit:
  assumes inv: "hist_inv h" and a: "a \<noteq> 0" "a \<in> set (addrs h)"
  obtains h' i where "history_consume h a = Some (h', True)" and "hist_inv h'"
    and "i < length (addrs h)" "addrs h ! i = a" "addrs h' = (addrs h)[i := 0]"
    and "hist_next_index h' = hist_next_index h"
proof -
  from inv obtain ch where wf: "hist_wf h ch" by (auto simp: hist_inv_def)
  from history_find_total [OF wf a(1)] a(2) obtain i where
    i: "history_find h a = Some (Some i)" "i < HIST_CAPACITY" "addrs h ! i = a"
    by (metis not_None_eq)
  from history_remove_wf [OF wf i(2)] i(3) a(1) obtain h' where
    "history_remove h i = Some h'" "hist_inv h'" "addrs h' = (addrs h)[i := 0]"
    "hist_next_index h' = hist_next_index h" by blast
  with that [of h' i] i hist_wfD(3) [OF wf] show ?thesis by (simp add: history_consume_def)
qed

lemma hist_inv_new: "hist_inv history_new"
  using hist_wf_new by (auto simp: hist_inv_def)

lemma addrs_new: "addrs history_new = replicate HIST_CAPACITY 0"
  by (simp add: addrs_def history_new_def ENTRY_EMPTY_def)

lemma hist_inv_addrs:
  assumes "hist_inv h"
  shows "length (addrs h) = HIST_CAPACITY" and "hist_next_index h < HIST_CAPACITY"
    and "i < HIST_CAPACITY \<Longrightarrow> j < HIST_CAPACITY \<Longrightarrow> addrs h ! i \<noteq> 0 \<Longrightarrow> addrs h ! i = addrs h ! j \<Longrightarrow> i = j"
  using assms hist_wfD(3,4,9) by (auto simp: hist_inv_def)

lemma hist_inv_only_slot:
  assumes "hist_inv h" and "i < length (addrs h)" and "addrs h ! i = a" and "a \<noteq> 0"
    and "j < length (addrs h)" and "j \<noteq> i"
  shows "addrs h ! j \<noteq> a"
proof
  assume "addrs h ! j = a"
  with assms hist_inv_addrs(1) [OF assms(1)] have "j = i"
    by (intro hist_inv_addrs(3) [OF assms(1)]) simp_all
  with assms(6) show False ..
qed

section \<open>The interface the allocator hooks rely on\<close>

text \<open>
  What \<^verbatim>\<open>hooks.rs\<close> needs of a pending-free history: marking reports whether the address was
  already pending and makes it pending, consuming removes exactly it, and neither ever
  panics nor diverges on a non-null address.
\<close>

locale pending_history =
  fixes invar :: "'h \<Rightarrow> bool"
    and pending :: "'h \<Rightarrow> u64 set"
    and mark :: "'h \<Rightarrow> u64 \<Rightarrow> ('h \<times> bool) option"
    and take_back :: "'h \<Rightarrow> u64 \<Rightarrow> ('h \<times> bool) option"
    and capacity :: nat
  assumes mark_hit: "invar h \<Longrightarrow> a \<noteq> 0 \<Longrightarrow> a \<in> pending h \<Longrightarrow> mark h a = Some (h, True)"
    and mark_new: "invar h \<Longrightarrow> a \<noteq> 0 \<Longrightarrow> a \<notin> pending h \<Longrightarrow>
      \<exists>h'. mark h a = Some (h', False) \<and> invar h' \<and> a \<in> pending h' \<and> pending h' \<subseteq> insert a (pending h)"
    and take_hit: "invar h \<Longrightarrow> a \<noteq> 0 \<Longrightarrow> a \<in> pending h \<Longrightarrow>
      \<exists>h'. take_back h a = Some (h', True) \<and> invar h' \<and> pending h' = pending h - {a}"
    and take_miss: "invar h \<Longrightarrow> a \<noteq> 0 \<Longrightarrow> a \<notin> pending h \<Longrightarrow> take_back h a = Some (h, False)"
    and null_mark: "mark h 0 = Some (h, False)"
    and null_take: "take_back h 0 = Some (h, False)"
    and bounded: "invar h \<Longrightarrow> finite (pending h) \<and> card (pending h) \<le> capacity"
begin

lemma mark_total: "invar h \<Longrightarrow> \<exists>h' r. mark h a = Some (h', r) \<and> invar h'"
  using mark_hit mark_new null_mark by metis

lemma take_total: "invar h \<Longrightarrow> \<exists>h' r. take_back h a = Some (h', r) \<and> invar h'"
  using take_hit take_miss null_take by metis

lemma mark_result: "invar h \<Longrightarrow> mark h a = Some (h', r) \<Longrightarrow> r \<longleftrightarrow> a \<noteq> 0 \<and> a \<in> pending h"
  using mark_hit mark_new null_mark by (metis option.inject prod.inject)

lemma mark_twice:
  assumes "invar h" and "a \<noteq> 0" and "mark h a = Some (h', r)"
  shows "mark h' a = Some (h', True)"
  using assms mark_hit mark_new by (metis option.inject prod.inject)

lemma mark_after_take:
  assumes "invar h" and "a \<noteq> 0" and "take_back h a = Some (h', r)"
  shows "\<exists>h''. mark h' a = Some (h'', False) \<and> invar h''"
proof (cases "a \<in> pending h")
  case True
  from take_hit [OF assms(1,2) True] assms(3) have "invar h'" "a \<notin> pending h'" by auto
  with mark_new [of h' a] assms(2) show ?thesis by blast
next
  case False
  with take_miss [OF assms(1,2)] assms(3) have "h' = h" by simp
  with False mark_new assms(1,2) show ?thesis by blast
qed

end

definition hist_pending :: "history \<Rightarrow> u64 set" where
  "hist_pending h = set (addrs h) - {0}"

lemma hist_pending_cleared:
  assumes "hist_inv h" and "i < length (addrs h)" and "addrs h ! i = a" and "a \<noteq> 0"
    and "addrs h' = (addrs h)[i := 0]"
  shows "hist_pending h' = hist_pending h - {a}"
proof -
  have "addrs h ! j \<noteq> a" if "j < length (addrs h)" "j \<noteq> i" for j
    by (rule hist_inv_only_slot [OF assms(1-4) that])
  with assms(2,3) have "set ((addrs h)[i := 0]) = insert 0 (set (addrs h) - {a})"
    using set_update_only_slot [of i "addrs h" 0] by blast
  with assms(4,5) show ?thesis by (auto simp: hist_pending_def)
qed

interpretation pf: pending_history hist_inv hist_pending seen_or_mark consume_if_pending HIST_CAPACITY
proof unfold_locales
  fix h a assume inv: "hist_inv h" and a: "(a::u64) \<noteq> 0"
  show "a \<in> hist_pending h \<Longrightarrow> seen_or_mark h a = Some (h, True)"
    using history_seen_or_mark_seen [OF inv a] a by (simp add: seen_or_mark_def hist_pending_def)
  show "a \<notin> hist_pending h \<Longrightarrow> consume_if_pending h a = Some (h, False)"
    using history_consume_miss [OF inv a] a by (simp add: consume_if_pending_def hist_pending_def)
  show "\<exists>h'. consume_if_pending h a = Some (h', True) \<and> hist_inv h' \<and> hist_pending h' = hist_pending h - {a}"
    if "a \<in> hist_pending h"
  proof -
    from that have "a \<in> set (addrs h)" by (simp add: hist_pending_def)
    from history_consume_hit [OF inv a this] obtain h' i where
      "history_consume h a = Some (h', True)" "hist_inv h'" "i < length (addrs h)" "addrs h ! i = a"
      "addrs h' = (addrs h)[i := 0]" by blast
    with hist_pending_cleared [OF inv _ _ a] a show ?thesis by (auto simp: consume_if_pending_def)
  qed
  show "\<exists>h'. seen_or_mark h a = Some (h', False) \<and> hist_inv h' \<and> a \<in> hist_pending h' \<and>
      hist_pending h' \<subseteq> insert a (hist_pending h)" if "a \<notin> hist_pending h"
  proof -
    from that a have "a \<notin> set (addrs h)" by (simp add: hist_pending_def)
    from history_seen_or_mark_new [OF inv a this] obtain h' where
      h': "history_seen_or_mark h a = Some (h', False)" "hist_inv h'"
        "addrs h' = (addrs h)[hist_next_index h := a]" by blast
    with hist_inv_addrs(1,2) [OF inv] have "a \<in> set (addrs h')" by (simp add: set_update_memI)
    with h' a set_update_subset_insert [of "addrs h" "hist_next_index h" a] show ?thesis
      by (auto simp: seen_or_mark_def hist_pending_def)
  qed
next
  fix h assume inv: "hist_inv h"
  have "card (set (addrs h) - {0}) \<le> card (set (addrs h))" by (rule card_mono) auto
  also have "\<dots> \<le> HIST_CAPACITY" using card_length [of "addrs h"] hist_inv_addrs(1) [OF inv] by simp
  finally show "finite (hist_pending h) \<and> card (hist_pending h) \<le> HIST_CAPACITY"
    by (simp add: hist_pending_def)
qed (simp_all add: seen_or_mark_def consume_if_pending_def)

section \<open>Refinement of the reference ring\<close>

definition abs_hist :: "history \<Rightarrow> reference" where
  "abs_hist h = \<lparr>ref_entries = map (\<lambda>a. if a = 0 then None else Some a) (addrs h),
                 ref_next = hist_next_index h\<rparr>"

lemma abs_hist_new: "abs_hist history_new = reference_new"
  by (simp add: abs_hist_def reference_new_def addrs_new) (simp add: history_new_def)

lemma abs_mem: "a \<noteq> 0 \<Longrightarrow> Some a \<in> set (ref_entries (abs_hist h)) \<longleftrightarrow> a \<in> set (addrs h)"
  by (auto simp: abs_hist_def image_iff)

lemma clear_first_nth:
  "i < length xs \<Longrightarrow> xs ! i = Some a \<Longrightarrow> (\<And>j. j < i \<Longrightarrow> xs ! j \<noteq> Some a) \<Longrightarrow>
   clear_first a xs = xs[i := None]"
proof (induction xs arbitrary: i)
  case (Cons x xs)
  show ?case
  proof (cases i)
    case 0
    with Cons.prems show ?thesis by simp
  next
    case (Suc k)
    from Cons.prems(3) [of 0] Suc have "x \<noteq> Some a" by simp
    moreover have "xs ! j \<noteq> Some a" if "j < k" for j
      using Cons.prems(3) [of "Suc j"] Suc that by simp
    then have "clear_first a xs = xs[k := None]"
      using Cons.prems(1,2) Suc by (intro Cons.IH) auto
    ultimately show ?thesis by (simp add: Suc)
  qed
qed simp

lemma seen_or_mark_refines:
  assumes "hist_inv h" and "a \<noteq> 0"
  shows "\<exists>h' r. history_seen_or_mark h a = Some (h', r) \<and> hist_inv h' \<and>
           reference_seen_or_mark (abs_hist h) a = (abs_hist h', r)"
proof (cases "a \<in> set (addrs h)")
  case True
  with assms history_seen_or_mark_seen show ?thesis
    by (auto simp: reference_seen_or_mark_def abs_mem)
next
  case False
  from history_seen_or_mark_new [OF assms False] obtain h' where
    "history_seen_or_mark h a = Some (h', False)" "hist_inv h'"
    "addrs h' = (addrs h)[hist_next_index h := a]"
    "hist_next_index h' = (hist_next_index h + 1) mod HIST_CAPACITY" by blast
  with False assms show ?thesis
    by (auto simp: reference_seen_or_mark_def abs_mem abs_hist_def map_update)
qed

lemma consume_refines:
  assumes inv: "hist_inv h" and a: "a \<noteq> 0"
  shows "\<exists>h' r. history_consume h a = Some (h', r) \<and> hist_inv h' \<and>
           reference_consume (abs_hist h) a = (abs_hist h', r)"
proof (cases "a \<in> set (addrs h)")
  case False
  with assms history_consume_miss show ?thesis by (auto simp: reference_consume_def abs_mem)
next
  case True
  from history_consume_hit [OF inv a True] obtain h' i where
    h': "history_consume h a = Some (h', True)" "hist_inv h'" "i < length (addrs h)" "addrs h ! i = a"
      "addrs h' = (addrs h)[i := 0]" "hist_next_index h' = hist_next_index h" by blast
  have "addrs h ! j \<noteq> a" if "j < i" for j
    using hist_inv_only_slot [OF inv h'(3,4) a, of j] that h'(3) by simp
  then have "clear_first a (ref_entries (abs_hist h)) = (ref_entries (abs_hist h))[i := None]"
    using h'(3,4) a by (intro clear_first_nth) (auto simp: abs_hist_def)
  moreover have "abs_hist h' = (abs_hist h)\<lparr>ref_entries := (ref_entries (abs_hist h))[i := None]\<rparr>"
    using h'(5,6) by (simp add: abs_hist_def map_update)
  ultimately have "reference_consume (abs_hist h) a = (abs_hist h', True)"
    using True a by (simp add: reference_consume_def abs_mem)
  with h'(1,2) show ?thesis by blast
qed

section \<open>Sequences of operations\<close>

datatype hist_op = Mark u64 | Take u64 | Fork

fun hist_step :: "history \<Rightarrow> hist_op \<Rightarrow> (history \<times> bool) option" where
  "hist_step h (Mark a) = seen_or_mark h a"
| "hist_step h (Take a) = consume_if_pending h a"
| "hist_step h Fork = Some (pending_frees_after_fork h, False)"

fun hist_run :: "history \<Rightarrow> hist_op list \<Rightarrow> (history \<times> bool list) option" where
  "hist_run h [] = Some (h, [])"
| "hist_run h (x # xs) = do {
     (h1, r) \<leftarrow> hist_step h x;
     (h2, rs) \<leftarrow> hist_run h1 xs;
     Some (h2, r # rs) }"

fun ref_step :: "reference \<Rightarrow> hist_op \<Rightarrow> reference \<times> bool" where
  "ref_step r (Mark a) = (if a = 0 then (r, False) else reference_seen_or_mark r a)"
| "ref_step r (Take a) = (if a = 0 then (r, False) else reference_consume r a)"
| "ref_step r Fork = (reference_new, False)"

fun ref_run :: "reference \<Rightarrow> hist_op list \<Rightarrow> reference \<times> bool list" where
  "ref_run r [] = (r, [])"
| "ref_run r (x # xs) = (let (r1, b) = ref_step r x; (r2, bs) = ref_run r1 xs in (r2, b # bs))"

lemma hist_step_refines:
  assumes "hist_inv h"
  shows "\<exists>h' b. hist_step h x = Some (h', b) \<and> hist_inv h' \<and> ref_step (abs_hist h) x = (abs_hist h', b)"
  using assms seen_or_mark_refines [of h] consume_refines [of h] hist_inv_new abs_hist_new
  by (cases x) (auto simp: seen_or_mark_def consume_if_pending_def pending_frees_after_fork_def)

lemma hist_run_refines:
  "hist_inv h \<Longrightarrow> \<exists>h' bs. hist_run h xs = Some (h', bs) \<and> hist_inv h' \<and> ref_run (abs_hist h) xs = (abs_hist h', bs)"
proof (induction xs arbitrary: h)
  case (Cons x xs)
  from hist_step_refines [OF Cons.prems, of x] obtain h1 b where
    1: "hist_step h x = Some (h1, b)" "hist_inv h1" "ref_step (abs_hist h) x = (abs_hist h1, b)" by blast
  from Cons.IH [OF 1(2)] obtain h2 bs where
    "hist_run h1 xs = Some (h2, bs)" "hist_inv h2" "ref_run (abs_hist h1) xs = (abs_hist h2, bs)" by blast
  with 1 show ?case by simp
qed simp

text \<open>
  C25: every sequence of marks, consumes and forks from the empty history runs to the end
  (no index is out of range and every chain walk stops) and answers exactly as the plain
  ring without the hash index does.
\<close>

theorem indexed_history_refines_ring:
  "map_option snd (hist_run history_new ops) = Some (snd (ref_run reference_new ops))"
  using hist_run_refines [OF hist_inv_new, of ops] by (auto simp: abs_hist_new)

definition slot_age :: "history \<Rightarrow> u64 \<Rightarrow> nat \<Rightarrow> bool" where
  "slot_age h a k \<longleftrightarrow> (\<exists>i < HIST_CAPACITY. addrs h ! i = a \<and> hist_next_index h = (i + 1 + k) mod HIST_CAPACITY)"

fun is_mark :: "hist_op \<Rightarrow> bool" where
  "is_mark (Mark _) = True"
| "is_mark _ = False"

lemma slot_age_mark:
  assumes inv: "hist_inv h" and "slot_age h a k" and k: "k + 1 < HIST_CAPACITY"
    and "seen_or_mark h b = Some (h', r)"
  shows "slot_age h' a k \<or> slot_age h' a (k + 1)"
proof (cases "b = 0 \<or> b \<in> set (addrs h)")
  case True
  with assms history_seen_or_mark_seen [OF inv, of b] have "h' = h" by (auto simp: seen_or_mark_def split: if_splits)
  with assms(2) show ?thesis by simp
next
  case False
  from assms(2) obtain i where i: "i < HIST_CAPACITY" "addrs h ! i = a"
    "hist_next_index h = (i + 1 + k) mod HIST_CAPACITY" by (auto simp: slot_age_def)
  from False history_seen_or_mark_new [OF inv, of b] assms(4) have
    h': "addrs h' = (addrs h)[hist_next_index h := b]"
      "hist_next_index h' = (hist_next_index h + 1) mod HIST_CAPACITY"
    by (auto simp: seen_or_mark_def)
  have "hist_next_index h \<noteq> i"
    using i(1) k unfolding i(3) by (cases "i + 1 + k < HIST_CAPACITY") (auto simp: le_mod_geq)
  with h' i have "addrs h' ! i = a" "hist_next_index h' = (i + 1 + (k + 1)) mod HIST_CAPACITY"
    by (simp_all add: mod_Suc_eq)
  with i(1) show ?thesis by (auto simp: slot_age_def)
qed

lemma slot_age_take:
  assumes inv: "hist_inv h" and "slot_age h a k" and "b \<noteq> a" and "a \<noteq> 0"
    and "consume_if_pending h b = Some (h', r)"
  shows "slot_age h' a k"
proof (cases "b = 0 \<or> b \<notin> set (addrs h)")
  case True
  with assms history_consume_miss [OF inv, of b] have "h' = h"
    by (auto simp: consume_if_pending_def split: if_splits)
  with assms(2) show ?thesis by simp
next
  case False
  from history_consume_hit [OF inv, of b] False assms(5) obtain j where
    "addrs h ! j = b" "addrs h' = (addrs h)[j := 0]" "hist_next_index h' = hist_next_index h"
    by (auto simp: consume_if_pending_def)
  with assms(2,3) show ?thesis by (auto simp: slot_age_def intro!: nth_list_update_neq)
qed

lemma slot_age_run:
  assumes "hist_inv h" and "a \<noteq> 0" and "slot_age h a k"
    and "k + length (filter is_mark xs) < HIST_CAPACITY" and "Take a \<notin> set xs" and "Fork \<notin> set xs"
    and "hist_run h xs = Some (h', rs)"
  shows "\<exists>k' < HIST_CAPACITY. slot_age h' a k'"
  using assms
proof (induction xs arbitrary: h k rs)
  case (Cons x xs)
  from Cons.prems(7) obtain h1 r rs' where
    1: "hist_step h x = Some (h1, r)" "hist_run h1 xs = Some (h', rs')"
    by (auto split: Option.bind_splits)
  from hist_step_refines [OF Cons.prems(1), of x] 1(1) have inv1: "hist_inv h1" by auto
  have "\<exists>k'. slot_age h1 a k' \<and> k' + length (filter is_mark xs) < HIST_CAPACITY"
  proof (cases x)
    case (Mark b)
    with slot_age_mark [OF Cons.prems(1,3)] Cons.prems(4) 1(1) show ?thesis by fastforce
  next
    case (Take b)
    with slot_age_take [OF Cons.prems(1,3), of b] Cons.prems(2,4,5) 1(1) show ?thesis by auto
  qed (use Cons.prems(6) in simp)
  with Cons.IH [OF inv1 Cons.prems(2)] Cons.prems(5,6) 1(2) show ?case by auto
qed auto

lemma slot_age_marked:
  assumes "hist_inv h" and "a \<noteq> 0" and "seen_or_mark h a = Some (h1, False)"
  shows "slot_age h1 a 0" and "hist_inv h1"
proof -
  from assms have new: "a \<notin> set (addrs h)"
    using history_seen_or_mark_seen [of h a] by (auto simp: seen_or_mark_def)
  from history_seen_or_mark_new [OF assms(1,2) new] assms(2,3) have
    h1: "hist_inv h1" "addrs h1 = (addrs h)[hist_next_index h := a]"
      "hist_next_index h1 = (hist_next_index h + 1) mod HIST_CAPACITY"
    by (auto simp: seen_or_mark_def)
  then show "slot_age h1 a 0" and "hist_inv h1"
    using hist_inv_addrs(1,2) [OF assms(1)] by (auto simp: slot_age_def)
qed

text \<open>
  Retention. An address that was just recorded is still reported as pending after any
  further operations that contain fewer than 1024 marks, do not consume it and do not fork.
\<close>

lemma marked_stays_pending:
  assumes "hist_inv h" and "a \<noteq> 0" and "seen_or_mark h a = Some (h1, False)"
    and "length (filter is_mark ops) < HIST_CAPACITY" and "Take a \<notin> set ops" and "Fork \<notin> set ops"
  shows "\<exists>h2 rs. hist_run h1 ops = Some (h2, rs) \<and> seen_or_mark h2 a = Some (h2, True)"
proof -
  note h1 = slot_age_marked [OF assms(1-3)]
  moreover from hist_run_refines [OF h1(2), of ops] obtain h2 rs where
    h2: "hist_run h1 ops = Some (h2, rs)" "hist_inv h2" by blast
  ultimately have "\<exists>k. slot_age h2 a k"
    using slot_age_run [OF h1(2) assms(2), of 0 ops h2 rs] assms(4-6) by auto
  then have "a \<in> set (addrs h2)"
    using hist_inv_addrs(1) [OF h2(2)] by (auto simp: slot_age_def)
  with h2 history_seen_or_mark_seen assms(2) show ?thesis by (auto simp: seen_or_mark_def)
qed

lemma history_new_marks: "\<exists>h1. seen_or_mark history_new 16 = Some (h1, False) \<and> hist_inv h1"
proof -
  have "(16::u64) \<notin> hist_pending history_new" by (simp add: hist_pending_def addrs_new)
  with pf.mark_new [OF hist_inv_new, of 16] show ?thesis by auto
qed

text \<open>
  The double-free contract. On every reachable history a second mark of the same pointer
  reports it as already pending and changes nothing, and a mark after the pointer was
  consumed (handed out again) reports it as new; both calls return.
\<close>

lemma double_free_detected:
  assumes "hist_inv h" and "a \<noteq> 0"
  shows "(\<exists>h1 r. seen_or_mark h a = Some (h1, r) \<and> hist_inv h1 \<and> seen_or_mark h1 a = Some (h1, True)) \<and>
         (\<exists>h1 r h2. consume_if_pending h a = Some (h1, r) \<and> seen_or_mark h1 a = Some (h2, False) \<and> hist_inv h2)"
  using pf.mark_total [OF assms(1), of a] pf.take_total [OF assms(1), of a]
    pf.mark_twice [OF assms] pf.mark_after_take [OF assms] by blast

end
