(* ===== verification/Alloc_Hooks.thy ===== *)
theory Alloc_Hooks
  imports Pending_Frees Machine
begin

text \<open>
  The \<^verbatim>\<open>malloc\<close>/\<^verbatim>\<open>free\<close> half of \<^verbatim>\<open>runtime/src/hooks.rs\<close>: the bootstrap pool that serves allocations made
  while the real functions are being resolved, the recognition of callers in Wine's \<open>win32u\<close>,
  and the guard that swallows a second \<^verbatim>\<open>free\<close> of the same pointer. The state is the process's;
  \<open>alloc_env\<close> is what the dynamic linker and the real allocator return during one call. A panic of the
  history is \<open>None\<close>.
\<close>

section \<open>State\<close>

definition BOOTSTRAP_POOL_SIZE :: u64 where "BOOTSTRAP_POOL_SIZE = 0x10000"

record alloc =
  al_pool :: u64
  al_offset :: u64
  al_real_malloc :: bool
  al_resolving_malloc :: bool
  al_real_free :: bool
  al_resolving_free :: bool
  al_win32u_start :: u64
  al_win32u_end :: u64
  al_win32u_scanned :: bool
  al_guard_enabled :: bool
  al_game_process :: bool
  al_history :: history

record segment =
  seg_load :: bool
  seg_vaddr :: u64
  seg_memsz :: u64

record loaded_image =
  li_name :: "bytes option"
  li_base :: u64
  li_segments :: "segment list"

record alloc_env =
  ae_keys_ok :: bool
  ae_dlsym_ok :: bool
  ae_nested :: "u64 list"
  ae_real_result :: u64
  ae_images :: "loaded_image list"
  ae_caller_image :: "bytes option"

section \<open>The bootstrap pool\<close>

text \<open>Sizes and offsets wrap, as \<^verbatim>\<open>usize\<close> does in the release profile.\<close>

definition aligned_size :: "u64 \<Rightarrow> u64" where
  "aligned_size n = (max n 1 + 16 - 1) AND NOT (16 - 1)"

definition bootstrap_alloc :: "u64 \<Rightarrow> alloc \<Rightarrow> alloc \<times> u64 option" where
  "bootstrap_alloc n s =
     (let aligned = aligned_size n;
          offset = al_offset s;
          s' = s\<lparr>al_offset := offset + aligned\<rparr> in
      if offset + aligned > BOOTSTRAP_POOL_SIZE then (s', None) else (s', Some (al_pool s + offset)))"

definition is_bootstrap_ptr :: "alloc \<Rightarrow> u64 \<Rightarrow> bool" where
  "is_bootstrap_ptr s p \<longleftrightarrow> al_pool s \<le> p \<and> p < al_pool s + BOOTSTRAP_POOL_SIZE"

section \<open>Resolving the real functions\<close>

text \<open>The thread-local flag: it stays clear when the key cannot be created.\<close>

definition set_resolving :: "alloc_env \<Rightarrow> bool \<Rightarrow> bool \<Rightarrow> bool" where
  "set_resolving e value flag = (if ae_keys_ok e then value else flag)"

text \<open>While \<^verbatim>\<open>dlsym\<close> runs it may call \<^verbatim>\<open>malloc\<close> itself, for each of the sizes \<open>ae_nested\<close>; with the flag set
  those calls are served from the pool.\<close>

definition nested_mallocs :: "alloc_env \<Rightarrow> alloc \<Rightarrow> alloc" where
  "nested_mallocs e s = foldl (\<lambda>s n. fst (bootstrap_alloc n s)) s (ae_nested e)"

definition resolve_real_malloc :: "alloc_env \<Rightarrow> alloc \<Rightarrow> alloc \<times> bool" where
  "resolve_real_malloc e s =
     (if al_real_malloc s then (s, True)
      else if al_resolving_malloc s then (s, False)
      else let s1 = s\<lparr>al_resolving_malloc := set_resolving e True (al_resolving_malloc s)\<rparr>;
               s2 = nested_mallocs e s1;
               s3 = s2\<lparr>al_resolving_malloc := set_resolving e False (al_resolving_malloc s2)\<rparr> in
        if \<not> ae_dlsym_ok e then (s3, False) else (s3\<lparr>al_real_malloc := True\<rparr>, True))"

text \<open>A \<^verbatim>\<open>free\<close> called by \<^verbatim>\<open>dlsym\<close> here finds the flag set and is dropped, so the flag leaves no trace.\<close>

definition resolve_real_free :: "alloc_env \<Rightarrow> alloc \<Rightarrow> alloc \<times> bool" where
  "resolve_real_free e s =
     (if al_real_free s then (s, True)
      else if al_resolving_free s then (s, False)
      else if \<not> ae_dlsym_ok e then (s, False) else (s\<lparr>al_real_free := True\<rparr>, True))"

section \<open>Callers in win32u\<close>

definition basename :: "bytes \<Rightarrow> bytes" where
  "basename name = last (split_on (\<lambda>b. b = 47) name)"

definition is_win32u_name :: "bytes \<Rightarrow> bool" where
  "is_win32u_name name \<longleftrightarrow> basename name = ascii ''win32u.so'' \<or> basename name = ascii ''win32u.dll.so''"

definition segment_end :: "u64 \<Rightarrow> segment \<Rightarrow> u64 \<Rightarrow> u64" where
  "segment_end base g e = (if \<not> seg_load g then e else max e (base + seg_vaddr g + seg_memsz g))"

definition record_win32u :: "loaded_image \<Rightarrow> (u64 \<times> u64) option" where
  "record_win32u im = (case li_name im of
       None \<Rightarrow> None
     | Some name \<Rightarrow>
         if \<not> is_win32u_name name then None
         else Some (li_base im, fold (segment_end (li_base im)) (li_segments im) (li_base im)))"

text \<open>\<^verbatim>\<open>dl_iterate_phdr\<close> stops at the first image its callback accepts.\<close>

fun iterate_images :: "loaded_image list \<Rightarrow> alloc \<Rightarrow> alloc" where
  "iterate_images [] s = s"
| "iterate_images (im # ims) s = (case record_win32u im of
       None \<Rightarrow> iterate_images ims s
     | Some (a, b) \<Rightarrow> s\<lparr>al_win32u_start := a, al_win32u_end := b\<rparr>)"

definition caller_image_is_win32u :: "alloc_env \<Rightarrow> bool" where
  "caller_image_is_win32u e = (case ae_caller_image e of None \<Rightarrow> False | Some name \<Rightarrow> is_win32u_name name)"

definition caller_from_win32u :: "alloc_env \<Rightarrow> u64 \<Rightarrow> alloc \<Rightarrow> alloc \<times> bool" where
  "caller_from_win32u e caller s =
     (if caller = 0 then (s, False)
      else let inside = (\<lambda>s. al_win32u_start s \<le> caller \<and> caller < al_win32u_end s) in
        if al_win32u_start s = 0 \<or> al_win32u_end s \<le> al_win32u_start s then
          (let s1 = s\<lparr>al_win32u_scanned := True\<rparr> in
           if al_win32u_scanned s \<and> \<not> caller_image_is_win32u e then (s1, False)
           else let s2 = iterate_images (ae_images e) s1 in
             if al_win32u_start s2 = 0 \<or> al_win32u_end s2 \<le> al_win32u_start s2 then (s2, False) else (s2, inside s2))
        else (s, inside s))"

section \<open>The interposed functions\<close>

definition malloc_inner :: "alloc_env \<Rightarrow> u64 \<Rightarrow> u64 \<Rightarrow> alloc \<Rightarrow> (alloc \<times> u64) option" where
  "malloc_inner e n caller s =
     (case resolve_real_malloc e s of
        (s1, False) \<Rightarrow> (case bootstrap_alloc n s1 of (s2, p) \<Rightarrow> Some (s2, case p of None \<Rightarrow> 0 | Some a \<Rightarrow> a))
      | (s1, True) \<Rightarrow>
          (let allocated = ae_real_result e in
           if al_guard_enabled s1 \<and> al_game_process s1 then
             (case caller_from_win32u e caller s1 of
                (s2, False) \<Rightarrow> Some (s2, allocated)
              | (s2, True) \<Rightarrow>
                  map_option (\<lambda>(h, _). (s2\<lparr>al_history := h\<rparr>, allocated)) (consume_if_pending (al_history s2) allocated))
           else Some (s1, allocated)))"

text \<open>The second component is the pointer given to the real \<^verbatim>\<open>free\<close>, if it is called.\<close>

definition free_inner :: "alloc_env \<Rightarrow> u64 \<Rightarrow> u64 \<Rightarrow> alloc \<Rightarrow> (alloc \<times> u64 option) option" where
  "free_inner e p caller s =
     (if is_bootstrap_ptr s p then Some (s, None)
      else case resolve_real_free e s of
        (s1, False) \<Rightarrow> Some (s1, None)
      | (s1, True) \<Rightarrow>
          if al_guard_enabled s1 \<and> al_game_process s1 \<and> p \<noteq> 0 then
            (case caller_from_win32u e caller s1 of
               (s2, False) \<Rightarrow> Some (s2, Some p)
             | (s2, True) \<Rightarrow>
                 map_option (\<lambda>(h, seen). (s2\<lparr>al_history := h\<rparr>, if seen then None else Some p)) (seen_or_mark (al_history s2) p))
          else Some (s1, Some p))"

text \<open>
  The interposed \<^verbatim>\<open>free\<close> is two instructions: it hands its return address to \<open>free_inner\<close> as the
  second argument, and jumps there so that the return goes to its own caller.
\<close>

definition free_code :: "instr list" where
  "free_code = [Load RSI RSP 0, Jmp_Symbol]"

definition free_call :: "alloc_env \<Rightarrow> 'w machine_env \<Rightarrow> 'w cpu \<Rightarrow> alloc \<Rightarrow> (alloc \<times> u64 option) option" where
  "free_call e me s a = (case run me free_code 2 0 s of
       Exited _ s' \<Rightarrow> free_inner e (c_regs s' RDI) (c_regs s' RSI) a
     | _ \<Rightarrow> None)"

text \<open>The part of \<^verbatim>\<open>after_fork\<close> that concerns allocation.\<close>

definition alloc_after_fork :: "alloc_env \<Rightarrow> alloc \<Rightarrow> alloc" where
  "alloc_after_fork e s =
     (let s1 = s\<lparr>al_resolving_free := set_resolving e False (al_resolving_free s),
                 al_resolving_malloc := set_resolving e False (al_resolving_malloc s)\<rparr> in
      if al_guard_enabled s1 then s1\<lparr>al_history := pending_frees_after_fork (al_history s1), al_win32u_scanned := False\<rparr> else s1)"

section \<open>The pool\<close>

text \<open>The sizes rounded up over the integers.\<close>

definition rounded :: "u64 \<Rightarrow> nat" where
  "rounded n = 16 * ((max (unat n) 1 + 15) div 16)"

lemma aligned_size_unat:
  assumes "unat n + 15 < 2 ^ 64"
  shows "unat (aligned_size n) = rounded n"
proof -
  have m: "unat (max n 1) = max (unat n) 1" by (simp add: max_def word_le_nat_alt)
  have e: "max n 1 + 16 - 1 = max n 1 + 15" by simp
  have u: "unat (max n 1 + 15) = max (unat n) 1 + 15"
    using assms by (subst unat_add_no_overflow) (simp_all add: m)
  have split: "x AND NOT (mask 4) = push_bit 4 (drop_bit 4 x)" for x :: u64
    by (rule bit_word_eqI) (auto simp: bit_simps)
  have "(16 - 1 :: u64) = mask 4" by (simp add: mask_eq_exp_minus_1)
  then have "aligned_size n = push_bit 4 (drop_bit 4 (max n 1 + 15))"
    unfolding aligned_size_def e by (simp only: split)
  then have "unat (aligned_size n) = unat (drop_bit 4 (max n 1 + 15)) * 16 mod 2 ^ 64"
    by (simp add: push_bit_eq_mult unat_word_ariths)
  also have "unat (drop_bit 4 (max n 1 + 15)) = (max (unat n) 1 + 15) div 16"
    using u by (simp add: drop_bit_eq_div unat_div)
  finally show ?thesis using assms by (simp add: rounded_def)
qed

fun pool_run :: "u64 list \<Rightarrow> alloc \<Rightarrow> alloc \<times> u64 option list" where
  "pool_run [] s = (s, [])"
| "pool_run (n # ns) s = (let (s1, p) = bootstrap_alloc n s; (s2, ps) = pool_run ns s1 in (s2, p # ps))"

definition fits :: "u64 list \<Rightarrow> alloc \<Rightarrow> bool" where
  "fits ns s \<longleftrightarrow> (\<forall>n \<in> set ns. unat n + 15 < 2 ^ 64) \<and> unat (al_offset s) + sum_list (map rounded ns) < 2 ^ 64 \<and>
     unat (al_pool s) + 0x10000 < 2 ^ 64"

lemma rounded_bounds: "unat n \<le> rounded n" "16 \<le> rounded n"
proof -
  have "max (unat n) 1 + 15 = 16 * ((max (unat n) 1 + 15) div 16) + (max (unat n) 1 + 15) mod 16" by simp
  moreover have "(max (unat n) 1 + 15) mod 16 < 16" by simp
  ultimately show "unat n \<le> rounded n" unfolding rounded_def by linarith
  have "1 \<le> (max (unat n) 1 + 15) div 16" by (simp add: Suc_le_eq div_greater_zero_iff)
  then show "16 \<le> rounded n" unfolding rounded_def by linarith
qed

lemma bootstrap_alloc_fits:
  assumes "fits (n # ns) s"
  shows "bootstrap_alloc n s = (s\<lparr>al_offset := al_offset s + aligned_size n\<rparr>,
      if unat (al_offset s) + rounded n \<le> 0x10000 then Some (al_pool s + al_offset s) else None)"
    and "unat (al_offset s + aligned_size n) = unat (al_offset s) + rounded n"
    and "fits ns (s\<lparr>al_offset := al_offset s + aligned_size n\<rparr>)"
proof -
  have a: "unat (aligned_size n) = rounded n" using assms by (intro aligned_size_unat) (simp add: fits_def)
  then show u: "unat (al_offset s + aligned_size n) = unat (al_offset s) + rounded n"
    using assms by (subst unat_add_no_overflow) (simp_all add: fits_def)
  then show "bootstrap_alloc n s = (s\<lparr>al_offset := al_offset s + aligned_size n\<rparr>,
      if unat (al_offset s) + rounded n \<le> 0x10000 then Some (al_pool s + al_offset s) else None)"
    by (auto simp: bootstrap_alloc_def Let_def BOOTSTRAP_POOL_SIZE_def word_less_nat_alt)
  show "fits ns (s\<lparr>al_offset := al_offset s + aligned_size n\<rparr>)" using assms u by (simp add: fits_def)
qed

lemma pool_run_range:
  assumes "fits ns s" and "pool_run ns s = (s', ps)" and "i < length ns" and "ps ! i = Some p"
  shows "unat (al_pool s) + unat (al_offset s) \<le> unat p \<and> unat p + rounded (ns ! i) \<le> unat (al_pool s) + 0x10000"
  using assms
proof (induction ns arbitrary: s s' ps i)
  case (Cons n ns)
  let ?s1 = "s\<lparr>al_offset := al_offset s + aligned_size n\<rparr>"
  note b = bootstrap_alloc_fits [OF Cons.prems(1)]
  obtain s2 qs where r: "pool_run ns ?s1 = (s2, qs)" by fastforce
  with Cons.prems(2) b have ps: "ps = (if unat (al_offset s) + rounded n \<le> 0x10000 then Some (al_pool s + al_offset s) else None) # qs"
    by (simp add: Let_def)
  show ?case
  proof (cases i)
    case 0
    with ps Cons.prems have o: "unat (al_offset s) + rounded n \<le> 0x10000" "p = al_pool s + al_offset s" by (auto split: if_splits)
    moreover have "unat (al_pool s + al_offset s) = unat (al_pool s) + unat (al_offset s)"
      using o(1) Cons.prems(1) rounded_bounds(2) [of n] by (intro unat_add_no_overflow) (simp add: fits_def)
    ultimately show ?thesis using 0 by simp
  next
    case (Suc j)
    with Cons.IH [OF b(3) r, of j] Cons.prems(3,4) ps b(2) show ?thesis by simp
  qed
qed simp

lemma pool_run_ordered:
  assumes "fits ns s" and "pool_run ns s = (s', ps)" and "i < j" and "j < length ns"
    and "ps ! i = Some p" and "ps ! j = Some q"
  shows "unat p + rounded (ns ! i) \<le> unat q"
  using assms
proof (induction ns arbitrary: s s' ps i j)
  case (Cons n ns)
  let ?s1 = "s\<lparr>al_offset := al_offset s + aligned_size n\<rparr>"
  note b = bootstrap_alloc_fits [OF Cons.prems(1)]
  obtain s2 qs where r: "pool_run ns ?s1 = (s2, qs)" by fastforce
  with Cons.prems(2) b have ps: "ps = (if unat (al_offset s) + rounded n \<le> 0x10000 then Some (al_pool s + al_offset s) else None) # qs"
    by (simp add: Let_def)
  obtain k where k: "j = Suc k" using Cons.prems(3) by (cases j) auto
  show ?case
  proof (cases i)
    case 0
    with ps Cons.prems have o: "unat (al_offset s) + rounded n \<le> 0x10000" "p = al_pool s + al_offset s" by (auto split: if_splits)
    moreover have "unat (al_pool s + al_offset s) = unat (al_pool s) + unat (al_offset s)"
      using o(1) Cons.prems(1) rounded_bounds(2) [of n] by (intro unat_add_no_overflow) (simp add: fits_def)
    ultimately show ?thesis using pool_run_range [OF b(3) r, of k q] Cons.prems(4,6) ps b(2) 0 k by simp
  next
    case (Suc h)
    with Cons.IH [OF b(3) r, of h k] Cons.prems ps k show ?thesis by simp
  qed
qed simp

text \<open>
  C36: the bootstrap pool. As long as the sizes asked for cannot wrap the 64-bit offset, every
  allocation it serves lies inside the pool with room for the bytes asked for, is recognised
  as a pool pointer (so it never reaches the real \<^verbatim>\<open>free\<close>), and any two of them are disjoint.
\<close>

theorem bootstrap_allocations_disjoint:
  assumes "fits ns s" and "pool_run ns s = (s', ps)" and "i < j" and "j < length ns"
    and "ps ! i = Some p" and "ps ! j = Some q"
  shows "unat p + unat (ns ! i) \<le> unat q \<and> unat q + unat (ns ! j) \<le> unat (al_pool s) + 0x10000 \<and>
    is_bootstrap_ptr s p \<and> is_bootstrap_ptr s q"
proof -
  have "unat p + rounded (ns ! i) \<le> unat q" using assms by (intro pool_run_ordered)
  moreover note pool_run_range [OF assms(1,2) assms(4,6)] pool_run_range [OF assms(1,2) less_trans [OF assms(3,4)] assms(5)]
  moreover have "unat (al_pool s + BOOTSTRAP_POOL_SIZE) = unat (al_pool s) + 0x10000"
    using assms(1) by (subst unat_add_no_overflow) (simp_all add: BOOTSTRAP_POOL_SIZE_def fits_def)
  moreover note rounded_bounds [of "ns ! i"] rounded_bounds [of "ns ! j"]
  ultimately show ?thesis unfolding is_bootstrap_ptr_def word_le_nat_alt word_less_nat_alt by linarith
qed

definition sample_alloc :: alloc where
  "sample_alloc = \<lparr>al_pool = 0x500000, al_offset = 0, al_real_malloc = False, al_resolving_malloc = False, al_real_free = True,
     al_resolving_free = False, al_win32u_start = 0x70000, al_win32u_end = 0x80000, al_win32u_scanned = True,
     al_guard_enabled = True, al_game_process = True, al_history = history_new\<rparr>"

theorem bootstrap_allocations_disjoint_witness:
  "\<exists>s' p q. pool_run [24, 100] sample_alloc = (s', [Some p, Some q]) \<and> unat p + 24 \<le> unat q"
proof -
  have f: "fits [24, 100] sample_alloc" by (simp add: fits_def rounded_def sample_alloc_def)
  have "snd (pool_run [24, 100] sample_alloc) = [Some 0x500000, Some 0x500020]" by code_simp
  then obtain s' where r: "pool_run [24, 100] sample_alloc = (s', [Some 0x500000, Some 0x500020])"
    by (metis prod.collapse)
  show ?thesis using bootstrap_allocations_disjoint [OF f r, of 0 1] r by auto
qed

text \<open>Without that hypothesis it fails: two requests of half the address space bring the offset back
  to zero, and the second is answered with an address outside the pool.\<close>

lemma bootstrap_offset_wraps:
  "snd (pool_run [24, 0x7fffffffffffffe0, 0x8000000000000000] sample_alloc) = [Some 0x500000, None, Some 0x8000000000500000]"
  by (simp add: bootstrap_alloc_def aligned_size_def sample_alloc_def BOOTSTRAP_POOL_SIZE_def max_def Let_def word_le_nat_alt word_less_nat_alt)

section \<open>The free guard\<close>

datatype heap_op = Malloc u64 | Free u64

fun is_free :: "heap_op \<Rightarrow> bool" where
  "is_free (Free p) = True"
| "is_free (Malloc p) = False"

text \<open>Calls from win32u, a \<open>Malloc\<close> with the pointer the real allocator returns; the results are the pointers
  given to the real \<^verbatim>\<open>free\<close>.\<close>

definition heap_step :: "alloc_env \<Rightarrow> u64 \<Rightarrow> heap_op \<Rightarrow> alloc \<Rightarrow> (alloc \<times> u64 option) option" where
  "heap_step e caller x s = (case x of
       Malloc p \<Rightarrow> map_option (\<lambda>(s', _). (s', None)) (malloc_inner (e\<lparr>ae_real_result := p\<rparr>) 1 caller s)
     | Free p \<Rightarrow> free_inner e p caller s)"

fun heap_run :: "alloc_env \<Rightarrow> u64 \<Rightarrow> heap_op list \<Rightarrow> alloc \<Rightarrow> (alloc \<times> u64 option list) option" where
  "heap_run e caller [] s = Some (s, [])"
| "heap_run e caller (x # xs) s = (case heap_step e caller x s of
       None \<Rightarrow> None
     | Some (s1, r) \<Rightarrow> map_option (\<lambda>(s2, rs). (s2, r # rs)) (heap_run e caller xs s1))"

definition guard_ready :: "u64 \<Rightarrow> alloc \<Rightarrow> bool" where
  "guard_ready caller s \<longleftrightarrow> al_guard_enabled s \<and> al_game_process s \<and> al_real_malloc s \<and> al_real_free s \<and> caller \<noteq> 0 \<and>
     al_win32u_start s \<noteq> 0 \<and> al_win32u_start s \<le> caller \<and> caller < al_win32u_end s \<and> hist_inv (al_history s)"

lemma guard_caller:
  assumes "guard_ready caller s"
  shows "caller_from_win32u e caller s = (s, True)"
proof -
  from assms have "\<not> al_win32u_end s \<le> al_win32u_start s" by (auto simp: guard_ready_def not_le)
  with assms show ?thesis by (simp add: guard_ready_def caller_from_win32u_def Let_def)
qed

lemma guarded_free:
  assumes "guard_ready caller s" and "p \<noteq> 0" and "\<not> is_bootstrap_ptr s p"
  shows "free_inner e p caller s =
    map_option (\<lambda>(h, seen). (s\<lparr>al_history := h\<rparr>, if seen then None else Some p)) (seen_or_mark (al_history s) p)"
  using assms guard_caller [OF assms(1)] by (simp add: free_inner_def resolve_real_free_def guard_ready_def)

lemma guarded_malloc:
  assumes "guard_ready caller s"
  shows "malloc_inner e n caller s =
    map_option (\<lambda>(h, _). (s\<lparr>al_history := h\<rparr>, ae_real_result e)) (consume_if_pending (al_history s) (ae_real_result e))"
  using assms guard_caller [OF assms(1)] by (simp add: malloc_inner_def resolve_real_malloc_def guard_ready_def Let_def)

lemma free_code_runs:
  assumes "load64 (c_mem s) (c_regs s RSP) = Some caller"
  shows "run me free_code 2 0 s = Exited (me_symbol me) (set_reg RSI caller s)"
    and "free_call e me s a = free_inner e (c_regs s RDI) caller a"
  using assms by (simp_all add: free_call_def free_code_def numeral_2_eq_2 set_reg_def)

lemma guard_ready_history: "guard_ready caller s \<Longrightarrow> hist_inv h \<Longrightarrow> guard_ready caller (s\<lparr>al_history := h\<rparr>)"
  by (simp add: guard_ready_def)

lemma bootstrap_history [simp]: "is_bootstrap_ptr (s\<lparr>al_history := h\<rparr>) p = is_bootstrap_ptr s p"
  by (simp add: is_bootstrap_ptr_def)

text \<open>Each call is the corresponding operation of the history, or leaves the state alone.\<close>

lemma heap_step_free [consumes 1, case_names same marked]:
  assumes "guard_ready caller s"
  obtains (same) "heap_step e caller (Free p) s = Some (s, if is_bootstrap_ptr s p then None else Some p)" "p = 0 \<or> is_bootstrap_ptr s p"
  | (marked) h r where "p \<noteq> 0" "\<not> is_bootstrap_ptr s p" "seen_or_mark (al_history s) p = Some (h, r)" "hist_inv h"
      "heap_step e caller (Free p) s = Some (s\<lparr>al_history := h\<rparr>, if r then None else Some p)"
proof (cases "p = 0 \<or> is_bootstrap_ptr s p")
  case True
  with assms same show ?thesis
    by (cases "is_bootstrap_ptr s p") (auto simp: heap_step_def free_inner_def resolve_real_free_def guard_ready_def)
next
  case False
  from assms have inv: "hist_inv (al_history s)" by (simp add: guard_ready_def)
  obtain h r where h: "seen_or_mark (al_history s) p = Some (h, r)" "hist_inv h" using pf.mark_total [OF inv, of p] by blast
  with False guarded_free [OF assms, of p e] marked [of h r] show ?thesis by (simp add: heap_step_def)
qed

lemma heap_step_malloc:
  assumes "guard_ready caller s"
  shows "\<exists>h r. consume_if_pending (al_history s) p = Some (h, r) \<and> hist_inv h \<and>
    heap_step e caller (Malloc p) s = Some (s\<lparr>al_history := h\<rparr>, None)"
proof -
  from assms have inv: "hist_inv (al_history s)" by (simp add: guard_ready_def)
  obtain h r where "consume_if_pending (al_history s) p = Some (h, r)" "hist_inv h" using pf.take_total [OF inv, of p] by blast
  with guarded_malloc [OF assms, of "e\<lparr>ae_real_result := p\<rparr>" 1] show ?thesis by (simp add: heap_step_def)
qed

lemma slot_age_pending: "hist_inv h \<Longrightarrow> slot_age h p k \<Longrightarrow> p \<noteq> 0 \<Longrightarrow> seen_or_mark h p = Some (h, True)"
  using history_seen_or_mark_seen [of h p] hist_inv_addrs(1) [of h] by (auto simp: seen_or_mark_def slot_age_def)

lemma heap_run_suppresses:
  assumes "guard_ready caller s" and "p \<noteq> 0" and "\<not> is_bootstrap_ptr s p" and "slot_age (al_history s) p k"
    and "k + length (filter is_free xs) < HIST_CAPACITY" and "Malloc p \<notin> set xs"
  shows "\<exists>s' rs k'. heap_run e caller xs s = Some (s', rs) \<and> Some p \<notin> set rs \<and> guard_ready caller s' \<and>
    \<not> is_bootstrap_ptr s' p \<and> slot_age (al_history s') p k'"
  using assms
proof (induction xs arbitrary: s k)
  case (Cons x xs)
  have inv: "hist_inv (al_history s)" using Cons.prems(1) by (simp add: guard_ready_def)
  have "\<exists>s1 r k1. heap_step e caller x s = Some (s1, r) \<and> r \<noteq> Some p \<and> guard_ready caller s1 \<and> \<not> is_bootstrap_ptr s1 p \<and>
      slot_age (al_history s1) p k1 \<and> k1 + length (filter is_free xs) < HIST_CAPACITY"
  proof (cases x)
    case (Malloc q)
    obtain h r where h: "consume_if_pending (al_history s) q = Some (h, r)" "hist_inv h"
      "heap_step e caller (Malloc q) s = Some (s\<lparr>al_history := h\<rparr>, None)" using heap_step_malloc [OF Cons.prems(1)] by blast
    with Malloc Cons.prems slot_age_take [OF inv Cons.prems(4) _ Cons.prems(2) h(1)] guard_ready_history [OF Cons.prems(1) h(2)]
    show ?thesis by auto
  next
    case (Free q)
    show ?thesis
      using Cons.prems(1)
    proof (cases rule: heap_step_free [where e = e and p = q])
      case same
      with Free Cons.prems show ?thesis by (intro exI [of _ s]) auto
    next
      case (marked h r)
      have age: "slot_age h p k \<or> slot_age h p (k + 1)"
        using slot_age_mark [OF inv Cons.prems(4) _ marked(3)] Cons.prems(5) Free by auto
      have "q = p \<Longrightarrow> r" using slot_age_pending [OF inv Cons.prems(4,2)] marked(3) by auto
      with marked Free Cons.prems age guard_ready_history [OF Cons.prems(1) marked(4)] show ?thesis
        by (intro exI [of _ "s\<lparr>al_history := h\<rparr>"] exI [of _ "if r then None else Some q"]) auto
    qed
  qed
  then obtain s1 r k1 where 1: "heap_step e caller x s = Some (s1, r)" "r \<noteq> Some p" "guard_ready caller s1" "\<not> is_bootstrap_ptr s1 p"
      "slot_age (al_history s1) p k1" "k1 + length (filter is_free xs) < HIST_CAPACITY" by blast
  from Cons.IH [OF 1(3) Cons.prems(2) 1(4-6)] Cons.prems(6) obtain s' rs k' where
    "heap_run e caller xs s1 = Some (s', rs)" "Some p \<notin> set rs" "guard_ready caller s'" "\<not> is_bootstrap_ptr s' p" "slot_age (al_history s') p k'"
    by auto
  with 1(1,2) show ?case by auto
qed auto


definition sample_alloc_env :: alloc_env where
  "sample_alloc_env = \<lparr>ae_keys_ok = True, ae_dlsym_ok = True, ae_nested = [], ae_real_result = 0x1000, ae_images = [], ae_caller_image = None\<rparr>"


end
