(* ===== verification/Signal_Hooks.thy ===== *)
theory Signal_Hooks
  imports Cpuid_Trap Alloc_Hooks
begin

text \<open>
  The signal half of \<^verbatim>\<open>runtime/src/hooks.rs\<close>: \<^verbatim>\<open>sigaction\<close> is interposed so that the library's own handlers stay
  installed for SIGSEGV and SIGSYS while Wine and the game believe that theirs are, and
  \<^verbatim>\<open>forward_signal\<close> delivers to those what the library does not consume. The operations run here one at a
  time; \<open>Signal_Slot\<close> interleaves the accesses to one slot. \<open>hooks_env\<close> is what the C library and the
  kernel return during one call. The log lines of \<^verbatim>\<open>debug_runtime_activated\<close> are left out.
\<close>

section \<open>State\<close>

record sigact =
  sa_handler :: u64
  sa_flags :: u32
  sa_mask :: u64

definition SIG_DFL :: u64 where "SIG_DFL = 0"
definition SIG_IGN :: u64 where "SIG_IGN = 1"
definition SA_SIGINFO :: u32 where "SA_SIGINFO = 4"
definition SA_RESETHAND :: u32 where "SA_RESETHAND = 0x80000000"
definition SIGSEGV_NUMBER :: int where "SIGSEGV_NUMBER = 11"
definition SIGSYS_NUMBER :: int where "SIGSYS_NUMBER = 31"

definition zeroed_action :: sigact where
  "zeroed_action = \<lparr>sa_handler = 0, sa_flags = 0, sa_mask = 0\<rparr>"

record signal_slot =
  sl_current :: "sigact option"
  sl_readers :: u32
  sl_owned :: bool

definition signal_slot_new :: signal_slot where
  "signal_slot_new = \<lparr>sl_current = None, sl_readers = 0, sl_owned = False\<rparr>"

record hooks =
  hk_slots :: "trap_signal \<Rightarrow> signal_slot"
  hk_kernel :: "int \<Rightarrow> sigact"
  hk_bridge :: "trap_signal \<Rightarrow> u64"
  hk_lock :: bool
  hk_fork_registered :: bool
  hk_cpuid :: cpuid_state
  hk_alloc :: alloc
  hk_pid :: int

record hooks_env =
  he_symbol_ok :: bool
  he_guard_ok :: bool
  he_query_ok :: bool
  he_install_ok :: bool
  he_snapshot_ok :: bool
  he_handler_image :: "bytes option"
  he_kenv :: kenv
  he_leaf0 :: registers
  he_proton_avx :: "bytes option"
  he_legacy_forced :: bool
  he_faulting_ok :: bool
  he_raise_ok :: "bool \<times> bool \<times> bool"
  he_atfork_ok :: bool
  he_free_guard :: "bytes option"
  he_alloc :: alloc_env

section \<open>Slots and handlers\<close>

definition slot_for :: "int \<Rightarrow> trap_signal option" where
  "slot_for sig = (if sig = SIGSEGV_NUMBER then Some SIGSEGV else if sig = SIGSYS_NUMBER then Some SIGSYS else None)"

definition copy_saved_action :: "signal_slot \<Rightarrow> sigact" where
  "copy_saved_action s = (case sl_current s of None \<Rightarrow> zeroed_action | Some a \<Rightarrow> a)"

definition bridge_handler :: "hooks \<Rightarrow> int \<Rightarrow> u64" where
  "bridge_handler w sig = (case slot_for sig of Some t \<Rightarrow> hk_bridge w t | None \<Rightarrow> 0)"

definition action_is_bridge :: "hooks \<Rightarrow> int \<Rightarrow> sigact \<Rightarrow> bool" where
  "action_is_bridge w sig a \<longleftrightarrow> sa_flags a AND SA_SIGINFO \<noteq> 0 \<and> bridge_handler w sig \<noteq> 0 \<and> sa_handler a = bridge_handler w sig"

text \<open>\<^verbatim>\<open>dladdr\<close> of the handler gives the name of the image it lies in.\<close>

definition handler_is_from_wine_ntdll :: "hooks_env \<Rightarrow> sigact \<Rightarrow> bool" where
  "handler_is_from_wine_ntdll e a \<longleftrightarrow> sa_handler a \<noteq> SIG_DFL \<and> sa_handler a \<noteq> SIG_IGN \<and>
     (case he_handler_image e of
        None \<Rightarrow> False
      | Some name \<Rightarrow> basename name = ascii ''ntdll.so'' \<or> basename name = ascii ''ntdll.dll.so'' \<or> basename name = ascii ''ntdll.dll'')"

definition on_slot :: "trap_signal \<Rightarrow> (signal_slot \<Rightarrow> signal_slot) \<Rightarrow> hooks \<Rightarrow> hooks" where
  "on_slot t f w = w\<lparr>hk_slots := (hk_slots w)(t := f (hk_slots w t))\<rparr>"

definition on_kuser :: "(kuser \<Rightarrow> kuser) \<Rightarrow> hooks \<Rightarrow> hooks" where
  "on_kuser f w = w\<lparr>hk_cpuid := (hk_cpuid w)\<lparr>cp_rt := (cp_rt (hk_cpuid w))\<lparr>rt_kuser := f (rt_kuser (cp_rt (hk_cpuid w)))\<rparr>\<rparr>\<rparr>"

definition hklog :: "string \<Rightarrow> hooks \<Rightarrow> hooks" where
  "hklog m w = w\<lparr>hk_cpuid := cplog m (hk_cpuid w)\<rparr>"

section \<open>Installation\<close>

text \<open>The C library's \<^verbatim>\<open>sigaction\<close>: the old action, the new state and the result.\<close>

definition real_sigaction :: "bool \<Rightarrow> int \<Rightarrow> sigact option \<Rightarrow> hooks \<Rightarrow> hooks \<times> sigact option \<times> int" where
  "real_sigaction ok sig act w =
     (if \<not> ok then (w, None, -1)
      else (case act of None \<Rightarrow> w | Some a \<Rightarrow> w\<lparr>hk_kernel := (hk_kernel w)(sig := a)\<rparr>, Some (hk_kernel w sig), 0))"

definition bridge_action :: "hooks \<Rightarrow> int \<Rightarrow> sigact \<Rightarrow> sigact" where
  "bridge_action w sig requested = requested\<lparr>sa_flags := (sa_flags requested OR SA_SIGINFO) AND NOT SA_RESETHAND,
     sa_handler := bridge_handler w sig\<rparr>"

text \<open>What follows a successful installation.\<close>

definition bridge_installed :: "hooks_env \<Rightarrow> int \<Rightarrow> bool \<Rightarrow> hooks \<Rightarrow> hooks" where
  "bridge_installed e sig first_install w =
     (let w1 = on_kuser (force_direct_syscall (he_kenv e)) w in
      if sig \<noteq> SIGSEGV_NUMBER then w1
      else let w2 = on_kuser (prepare_shared_page (he_kenv e)) w1;
               w3 = (if first_install
                     then hklog ''signal interposition initialized''
                       (w2\<lparr>hk_cpuid := detect_cpu_vendor (he_leaf0 e) (he_proton_avx e) (he_legacy_forced e) (hk_cpuid w2)\<rparr>)
                     else w2) in
        if he_faulting_ok e
        then hklog ''CPUID faulting enabled for Wine process'' (w3\<lparr>hk_cpuid := (hk_cpuid w3)\<lparr>cp_faulting := True\<rparr>\<rparr>)
        else hklog ''ARCH_SET_CPUID faulting enable failed'' w3)"

definition install_signal_bridge :: "hooks_env \<Rightarrow> trap_signal \<Rightarrow> int \<Rightarrow> sigact \<Rightarrow> hooks \<Rightarrow> hooks \<times> sigact option \<times> int" where
  "install_signal_bridge e t sig requested w =
     (let first_install = \<not> sl_owned (hk_slots w t) in
      case real_sigaction (he_query_ok e) sig None w of
        (w1, None, c) \<Rightarrow> (w1, None, -1)
      | (w1, Some previous, c) \<Rightarrow>
          if action_is_bridge w1 sig requested then (w1, Some previous, 0)
          else if \<not> he_snapshot_ok e then (w1, None, -1)
          else let previous_snapshot = sl_current (hk_slots w1 t);
                   w2 = on_slot t (\<lambda>s. s\<lparr>sl_current := Some requested\<rparr>) w1 in
            case real_sigaction (he_install_ok e) sig (Some (bridge_action w2 sig requested)) w2 of
              (w3, None, c) \<Rightarrow> (on_slot t (\<lambda>s. s\<lparr>sl_current := previous_snapshot\<rparr>) w3, None, -1)
            | (w3, Some _, c) \<Rightarrow>
                (let w4 = on_slot t (\<lambda>s. s\<lparr>sl_owned := True\<rparr>) w3 in
                 (bridge_installed e sig first_install w4,
                  Some (case previous_snapshot of Some logical \<Rightarrow> logical | None \<Rightarrow> previous), 0)))"

text \<open>The guard: every signal blocked and the update lock held, both undone afterwards.\<close>

definition acquire_update :: "hooks_env \<Rightarrow> hooks \<Rightarrow> hooks option" where
  "acquire_update e w = (if \<not> he_guard_ok e then None else Some (w\<lparr>hk_lock := True\<rparr>))"

definition drop_update :: "hooks \<Rightarrow> hooks" where
  "drop_update w = w\<lparr>hk_lock := False\<rparr>"

definition sigaction_hook :: "hooks_env \<Rightarrow> int \<Rightarrow> sigact option \<Rightarrow> hooks \<Rightarrow> hooks \<times> sigact option \<times> int" where
  "sigaction_hook e sig act w =
     (if \<not> he_symbol_ok e then (w, None, -1)
      else case slot_for sig of
        None \<Rightarrow> real_sigaction (he_install_ok e) sig act w
      | Some t \<Rightarrow>
          (case act of
             None \<Rightarrow> real_sigaction (he_install_ok e) sig None w
           | Some a \<Rightarrow>
               (case acquire_update e w of
                  None \<Rightarrow> (w, None, -1)
                | Some w1 \<Rightarrow>
                    (case (if \<not> sl_owned (hk_slots w1 t) \<and> \<not> handler_is_from_wine_ntdll e a
                           then real_sigaction (he_install_ok e) sig (Some a) w1
                           else install_signal_bridge e t sig a w1) of
                       (w2, old, c) \<Rightarrow> (drop_update w2, old, c)))))"

section \<open>Delivery\<close>

datatype delivery = DefaultAction | ExitGroup int | Ignored | CalledInfo u64 | CalledPlain u64

definition terminate_from_signal :: "int \<Rightarrow> delivery" where
  "terminate_from_signal sig = ExitGroup (128 + sig)"

definition restore_default_and_raise :: "hooks_env \<Rightarrow> int \<Rightarrow> hooks \<Rightarrow> hooks \<times> delivery" where
  "restore_default_and_raise e sig w = (case he_raise_ok e of (action_ok, ids_ok, kill_ok) \<Rightarrow>
     if \<not> action_ok then (w, terminate_from_signal sig)
     else let w1 = w\<lparr>hk_kernel := (hk_kernel w)(sig := zeroed_action)\<rparr> in
       if \<not> ids_ok then (w1, terminate_from_signal sig)
       else if \<not> kill_ok then (w1, terminate_from_signal sig)
       else (w1, DefaultAction))"

definition forward_signal :: "hooks_env \<Rightarrow> int \<Rightarrow> hooks \<Rightarrow> hooks \<times> delivery" where
  "forward_signal e sig w = (case slot_for sig of
       None \<Rightarrow> restore_default_and_raise e sig w
     | Some t \<Rightarrow>
         (let saved = copy_saved_action (hk_slots w t) in
          if sa_handler saved = SIG_DFL then restore_default_and_raise e sig w
          else if sa_handler saved \<noteq> SIG_IGN then
            (let w1 = (if sa_flags saved AND SA_RESETHAND \<noteq> 0 then on_slot t (\<lambda>s. s\<lparr>sl_current := None\<rparr>) w else w) in
             (w1, if sa_flags saved AND SA_SIGINFO \<noteq> 0 then CalledInfo (sa_handler saved) else CalledPlain (sa_handler saved)))
          else (w, Ignored)))"

section \<open>Start-up and fork\<close>

definition hooks_after_fork :: "hooks_env \<Rightarrow> hooks \<Rightarrow> hooks" where
  "hooks_after_fork e w =
     (let w1 = on_slot SIGSYS (\<lambda>s. s\<lparr>sl_readers := 0\<rparr>) (on_slot SIGSEGV (\<lambda>s. s\<lparr>sl_readers := 0\<rparr>) (w\<lparr>hk_lock := False\<rparr>)) in
      w1\<lparr>hk_alloc := alloc_after_fork (he_alloc e) (hk_alloc w1), hk_pid := forget_pid_after_fork (hk_pid w1),
         hk_cpuid := cpuid_disable_faulting (he_faulting_ok e) (hk_cpuid w1)\<rparr>)"

definition linuwux_setup_hooks :: "hooks_env \<Rightarrow> hooks \<Rightarrow> hooks" where
  "linuwux_setup_hooks e w =
     (let a1 = fst (resolve_real_free (he_alloc e) (hk_alloc w));
          a2 = fst (resolve_real_malloc (he_alloc e) a1);
          a3 = a2\<lparr>al_guard_enabled := (he_free_guard e = Some (ascii ''1''))\<rparr> in
      w\<lparr>hk_alloc := a3, hk_fork_registered := (if hk_fork_registered w then True else he_atfork_ok e)\<rparr>)"

section \<open>The virtual disposition\<close>

fun trap_number :: "trap_signal \<Rightarrow> int" where
  "trap_number SIGSEGV = SIGSEGV_NUMBER"
| "trap_number SIGSYS = SIGSYS_NUMBER"

lemma slot_for_number [simp]: "slot_for (trap_number t) = Some t"
  by (cases t) (simp_all add: slot_for_def SIGSEGV_NUMBER_def SIGSYS_NUMBER_def)

lemma trap_number_eq [simp]: "trap_number t = trap_number u \<longleftrightarrow> t = u"
  by (cases t; cases u) (simp_all add: SIGSEGV_NUMBER_def SIGSYS_NUMBER_def)

text \<open>The action Wine and the game have in force, as opposed to the one the kernel has.\<close>

definition logical_action :: "hooks \<Rightarrow> trap_signal \<Rightarrow> sigact" where
  "logical_action w t = (if sl_owned (hk_slots w t) then copy_saved_action (hk_slots w t) else hk_kernel w (trap_number t))"

definition kernel_bridged :: "hooks \<Rightarrow> trap_signal \<Rightarrow> bool" where
  "kernel_bridged w t \<longleftrightarrow> action_is_bridge w (trap_number t) (hk_kernel w (trap_number t)) \<and>
     sa_flags (hk_kernel w (trap_number t)) AND SA_RESETHAND = 0"

definition hooks_inv :: "hooks \<Rightarrow> bool" where
  "hooks_inv w \<longleftrightarrow> (\<forall>t. hk_bridge w t \<noteq> 0 \<and> (sl_owned (hk_slots w t) \<longrightarrow> kernel_bridged w t) \<and>
     (\<not> sl_owned (hk_slots w t) \<longrightarrow> sl_current (hk_slots w t) = None))"

lemma bridge_installed_frame [simp]:
  "hk_slots (bridge_installed e sig f w) = hk_slots w" "hk_kernel (bridge_installed e sig f w) = hk_kernel w"
  "hk_bridge (bridge_installed e sig f w) = hk_bridge w" "hk_lock (bridge_installed e sig f w) = hk_lock w"
  by (simp_all add: bridge_installed_def on_kuser_def hklog_def Let_def)

lemma bridge_handler_eq [simp]: "bridge_handler w (trap_number t) = hk_bridge w t"
  by (simp add: bridge_handler_def)

lemma bridge_flags:
  "((f OR SA_SIGINFO) AND NOT SA_RESETHAND) AND SA_SIGINFO = SA_SIGINFO"
  "((f OR SA_SIGINFO) AND NOT SA_RESETHAND) AND SA_RESETHAND = 0"
proof -
  have "NOT SA_RESETHAND AND SA_SIGINFO = SA_SIGINFO" by (simp add: SA_SIGINFO_def SA_RESETHAND_def)
  moreover have "(f OR SA_SIGINFO) AND SA_SIGINFO = SA_SIGINFO" by (rule bit_word_eqI) (auto simp: bit_simps)
  ultimately show "((f OR SA_SIGINFO) AND NOT SA_RESETHAND) AND SA_SIGINFO = SA_SIGINFO" by (simp only: and.assoc)
  show "((f OR SA_SIGINFO) AND NOT SA_RESETHAND) AND SA_RESETHAND = 0" by (rule bit_word_eqI) (auto simp: bit_simps)
qed

lemma bridge_action_is_bridge:
  assumes "hk_bridge w t \<noteq> 0"
  shows "action_is_bridge w (trap_number t) (bridge_action w (trap_number t) a)"
    and "sa_flags (bridge_action w (trap_number t) a) AND SA_RESETHAND = 0"
  using assms by (simp_all add: action_is_bridge_def bridge_action_def bridge_flags) (simp add: SA_SIGINFO_def)

lemma on_slot_simps [simp]:
  "hk_kernel (on_slot t f w) = hk_kernel w" "hk_bridge (on_slot t f w) = hk_bridge w"
  "hk_slots (on_slot t f w) = (hk_slots w)(t := f (hk_slots w t))" "hk_lock (on_slot t f w) = hk_lock w"
  by (simp_all add: on_slot_def)

lemma action_is_bridge_cong: "hk_bridge w' = hk_bridge w \<Longrightarrow> action_is_bridge w' sig a = action_is_bridge w sig a"
  by (simp add: action_is_bridge_def bridge_handler_def split: option.split)

text \<open>The outcomes of a call that sets an action other than the bridge's own.\<close>

lemma sigaction_hook_cases [consumes 2, case_names failed passed bridged]:
  assumes "sigaction_hook e (trap_number t) (Some a) w = (w', old, c)" and "\<not> action_is_bridge w (trap_number t) a"
  obtains (failed) "c = -1" "old = None" "hk_kernel w' = hk_kernel w" "hk_bridge w' = hk_bridge w" "hk_slots w' = hk_slots w"
  | (passed) "c = 0" "old = Some (hk_kernel w (trap_number t))" "\<not> sl_owned (hk_slots w t)" "\<not> handler_is_from_wine_ntdll e a"
      "hk_kernel w' = (hk_kernel w)(trap_number t := a)" "hk_bridge w' = hk_bridge w" "hk_slots w' = hk_slots w"
  | (bridged) "c = 0" "old = Some (case sl_current (hk_slots w t) of Some l \<Rightarrow> l | None \<Rightarrow> hk_kernel w (trap_number t))"
      "sl_owned (hk_slots w t) \<or> handler_is_from_wine_ntdll e a"
      "hk_kernel w' = (hk_kernel w)(trap_number t := bridge_action w (trap_number t) a)" "hk_bridge w' = hk_bridge w"
      "hk_slots w' = (hk_slots w)(t := (hk_slots w t)\<lparr>sl_current := Some a, sl_owned := True\<rparr>)"
proof (cases "he_symbol_ok e \<and> he_guard_ok e")
  case False
  with assms(1) have "w' = w \<and> old = None \<and> c = -1"
    by (cases "he_symbol_ok e") (simp_all add: sigaction_hook_def acquire_update_def)
  with failed show ?thesis by simp
next
  case ok: True
  let ?w = "w\<lparr>hk_lock := True\<rparr>"
  have nb: "\<not> action_is_bridge ?w (trap_number t) a" using assms(2) action_is_bridge_cong [of ?w w] by simp
  have ba: "bridge_action (on_slot t f ?w) (trap_number t) a = bridge_action w (trap_number t) a" for f
    by (simp add: bridge_action_def)
  show ?thesis
  proof (cases "sl_owned (hk_slots w t) \<or> handler_is_from_wine_ntdll e a")
    case False
    with ok assms(1) failed passed show ?thesis
      by (auto simp: sigaction_hook_def acquire_update_def real_sigaction_def drop_update_def split: if_splits)
  next
    case True
    then have eq: "(w', old, c) = (case install_signal_bridge e t (trap_number t) a ?w of (w2, old, c) \<Rightarrow> (drop_update w2, old, c))"
      using ok assms(1) by (auto simp: sigaction_hook_def acquire_update_def)
    show ?thesis
    proof (cases "he_query_ok e \<and> he_snapshot_ok e \<and> he_install_ok e")
      case True
      with eq nb ba \<open>sl_owned (hk_slots w t) \<or> handler_is_from_wine_ntdll e a\<close> show ?thesis
        by (intro bridged) (auto simp: install_signal_bridge_def Let_def real_sigaction_def drop_update_def)
    next
      case False
      with eq nb show ?thesis
        by (intro failed) (auto simp: install_signal_bridge_def Let_def real_sigaction_def drop_update_def split: if_splits)
    qed
  qed
qed

lemma logical_cong:
  "hk_slots w' u = hk_slots w u \<Longrightarrow> hk_kernel w' (trap_number u) = hk_kernel w (trap_number u) \<Longrightarrow> logical_action w' u = logical_action w u"
  by (simp add: logical_action_def)

lemma hooks_invD:
  assumes "hooks_inv w"
  shows "hk_bridge w t \<noteq> 0" and "sl_owned (hk_slots w t) \<Longrightarrow> kernel_bridged w t" and "\<not> sl_owned (hk_slots w t) \<Longrightarrow> sl_current (hk_slots w t) = None"
  using assms unfolding hooks_inv_def by blast+

lemma hooks_inv_same:
  "hooks_inv w \<Longrightarrow> hk_bridge w' = hk_bridge w \<Longrightarrow> hk_kernel w' = hk_kernel w \<Longrightarrow> hk_slots w' = hk_slots w \<Longrightarrow> hooks_inv w'"
  unfolding hooks_inv_def kernel_bridged_def using action_is_bridge_cong [of w' w] by metis

lemma hooks_inv_kept:
  assumes "hooks_inv w" and "hk_bridge w' = hk_bridge w"
    and "\<And>u. u \<noteq> t \<Longrightarrow> hk_slots w' u = hk_slots w u \<and> hk_kernel w' (trap_number u) = hk_kernel w (trap_number u)"
    and "sl_owned (hk_slots w' t) \<Longrightarrow> kernel_bridged w' t" and "\<not> sl_owned (hk_slots w' t) \<Longrightarrow> sl_current (hk_slots w' t) = None"
  shows "hooks_inv w'"
  unfolding hooks_inv_def
proof
  fix u
  have "kernel_bridged w' u = kernel_bridged w u" if "u \<noteq> t"
    using assms(3) [OF that] action_is_bridge_cong [OF assms(2)] by (simp add: kernel_bridged_def)
  with assms(2-5) hooks_invD [OF assms(1), of u]
  show "hk_bridge w' u \<noteq> 0 \<and> (sl_owned (hk_slots w' u) \<longrightarrow> kernel_bridged w' u) \<and> (\<not> sl_owned (hk_slots w' u) \<longrightarrow> sl_current (hk_slots w' u) = None)"
    by (cases "u = t") simp_all
qed

lemma sigaction_virtualised_steps:
  assumes "hooks_inv w" and "sigaction_hook e (trap_number t) (Some a) w = (w', old, 0)"
    and "\<not> action_is_bridge w (trap_number t) a" and "handler_is_from_wine_ntdll e a"
  shows "hooks_inv w'" and "sl_owned (hk_slots w' t)" and "logical_action w' t = a"
proof -
  from assms(2,3) have b: "hooks_inv w' \<and> sl_owned (hk_slots w' t) \<and> logical_action w' t = a"
  proof (cases rule: sigaction_hook_cases)
    case bridged
    then have "kernel_bridged w' t"
      using bridge_action_is_bridge [OF hooks_invD(1) [OF assms(1)], of t a] action_is_bridge_cong [of w' w]
      by (simp add: kernel_bridged_def)
    then have "hooks_inv w'" using bridged by (intro hooks_inv_kept [OF assms(1), of _ t]) simp_all
    with bridged show ?thesis by (simp add: logical_action_def copy_saved_action_def)
  qed (use assms(4) in simp_all)
  then show "hooks_inv w'" and "sl_owned (hk_slots w' t)" and "logical_action w' t = a" by simp_all
qed


definition sample_hooks :: hooks where
  "sample_hooks = \<lparr>hk_slots = \<lambda>_. signal_slot_new, hk_kernel = \<lambda>_. zeroed_action, hk_bridge = \<lambda>_. 0x600000, hk_lock = False,
     hk_fork_registered = False, hk_cpuid = sample_cpuid_state, hk_alloc = sample_alloc, hk_pid = 0\<rparr>"

definition sample_hooks_env :: hooks_env where
  "sample_hooks_env = \<lparr>he_symbol_ok = True, he_guard_ok = True, he_query_ok = True, he_install_ok = True, he_snapshot_ok = True,
     he_handler_image = Some (ascii ''/wine/ntdll.so''), he_kenv = ready_env, he_leaf0 = registers_default, he_proton_avx = None,
     he_legacy_forced = False, he_faulting_ok = True, he_raise_ok = (True, True, True), he_atfork_ok = True, he_free_guard = None,
     he_alloc = sample_alloc_env\<rparr>"

definition wine_action :: sigact where
  "wine_action = \<lparr>sa_handler = 0x7f0000001000, sa_flags = SA_SIGINFO, sa_mask = 0\<rparr>"

lemma sample_hooks_ok:
  "hooks_inv sample_hooks" "\<not> action_is_bridge sample_hooks sig wine_action" "handler_is_from_wine_ntdll sample_hooks_env wine_action"
  by (auto simp: hooks_inv_def sample_hooks_def signal_slot_new_def action_is_bridge_def wine_action_def bridge_handler_def slot_for_def
      handler_is_from_wine_ntdll_def sample_hooks_env_def SIG_DFL_def SIG_IGN_def basename_def split: option.splits)

lemma sigaction_hook_succeeds:
  assumes "he_symbol_ok e" and "he_guard_ok e" and "he_query_ok e" and "he_snapshot_ok e" and "he_install_ok e"
  shows "\<exists>w' old. sigaction_hook e (trap_number t) (Some a) w = (w', old, 0)"
  using assms by (simp add: sigaction_hook_def acquire_update_def real_sigaction_def install_signal_bridge_def Let_def)

lemma sample_sigaction:
  "\<exists>w' old. sigaction_hook sample_hooks_env (trap_number SIGSEGV) (Some wine_action) sample_hooks = (w', old, 0)"
  by (rule sigaction_hook_succeeds) (simp_all add: sample_hooks_env_def)


text \<open>After a one-shot handler has fired, the old action reported is the library's own bridge, and
  putting it back is a no-op: the action set in between stays in force, where the real
  call would have reported, and restored, the default action.\<close>

lemma oneshot_old_action_is_bridge:
  assumes "hooks_inv w" and "sl_owned (hk_slots w t)" and "sl_current (hk_slots w t) = None" and "\<not> action_is_bridge w (trap_number t) a"
    and "sigaction_hook e (trap_number t) (Some a) w = (w1, old, 0)"
  shows "\<exists>b. old = Some b \<and> action_is_bridge w1 (trap_number t) b"
  using assms(5,4)
proof (cases rule: sigaction_hook_cases)
  case bridged
  with assms(1-3) action_is_bridge_cong [of w1 w] show ?thesis by (simp add: hooks_inv_def kernel_bridged_def)
qed (use assms(2) in auto)

lemma restoring_bridge_keeps_action:
  assumes "sl_owned (hk_slots w t)" and "action_is_bridge w (trap_number t) b" and "sigaction_hook e (trap_number t) (Some b) w = (w', old, c)"
  shows "logical_action w' t = logical_action w t"
proof -
  have "action_is_bridge (w\<lparr>hk_lock := True\<rparr>) (trap_number t) b" using assms(2) action_is_bridge_cong [of "w\<lparr>hk_lock := True\<rparr>" w] by simp
  with assms show ?thesis
    by (auto simp: sigaction_hook_def acquire_update_def install_signal_bridge_def real_sigaction_def Let_def drop_update_def logical_action_def
        split: if_splits)
qed

section \<open>Delivery\<close>

text \<open>
  What the library does not consume goes to the handler in force. For an owned signal, the
  default action is restored and raised, an ignored signal is dropped, and any other handler is called
  with the convention it asked for; only a one-shot handler is taken out of force, by the
  default one; the kernel keeps the library's handler unless the default action was asked for.
\<close>

lemma forwarded_to_handler_in_force:
  assumes "hooks_inv w" and "sl_owned (hk_slots w t)" and "forward_signal e (trap_number t) w = (w', d)"
  shows "(case d of
       CalledInfo h \<Rightarrow> h = sa_handler (logical_action w t) \<and> sa_flags (logical_action w t) AND SA_SIGINFO \<noteq> 0
     | CalledPlain h \<Rightarrow> h = sa_handler (logical_action w t) \<and> sa_flags (logical_action w t) AND SA_SIGINFO = 0
     | Ignored \<Rightarrow> sa_handler (logical_action w t) = SIG_IGN
     | DefaultAction \<Rightarrow> sa_handler (logical_action w t) = SIG_DFL \<and> hk_kernel w' (trap_number t) = zeroed_action
     | ExitGroup c \<Rightarrow> sa_handler (logical_action w t) = SIG_DFL \<and> c = 128 + trap_number t) \<and>
    (sa_handler (logical_action w t) \<noteq> SIG_DFL \<longrightarrow> hooks_inv w' \<and> hk_kernel w' = hk_kernel w \<and>
       (\<forall>u. logical_action w' u = (if u = t \<and> sa_handler (logical_action w t) \<noteq> SIG_IGN \<and> sa_flags (logical_action w t) AND SA_RESETHAND \<noteq> 0
            then zeroed_action else logical_action w u)))"
proof -
  let ?a = "copy_saved_action (hk_slots w t)"
  have l: "logical_action w t = ?a" using assms(2) by (simp add: logical_action_def)
  consider (dfl) "sa_handler ?a = SIG_DFL" | (ign) "sa_handler ?a = SIG_IGN" | (call) "sa_handler ?a \<noteq> SIG_DFL" "sa_handler ?a \<noteq> SIG_IGN" by blast
  then show ?thesis
  proof cases
    case dfl
    with assms(3) l show ?thesis
      by (auto simp: forward_signal_def restore_default_and_raise_def terminate_from_signal_def Let_def split: prod.splits if_splits)
  next
    case ign
    then have "sa_handler ?a \<noteq> SIG_DFL" by (simp add: SIG_DFL_def SIG_IGN_def)
    with ign assms l show ?thesis by (auto simp: forward_signal_def Let_def)
  next
    case call
    let ?w = "if sa_flags ?a AND SA_RESETHAND \<noteq> 0 then on_slot t (\<lambda>s. s\<lparr>sl_current := None\<rparr>) w else w"
    have w': "w' = ?w" "d = (if sa_flags ?a AND SA_SIGINFO \<noteq> 0 then CalledInfo (sa_handler ?a) else CalledPlain (sa_handler ?a))"
      using call assms(3) by (auto simp: forward_signal_def Let_def)
    have "kernel_bridged ?w t"
      using hooks_invD(2) [OF assms(1,2)] action_is_bridge_cong [of ?w w] by (simp add: kernel_bridged_def)
    moreover have "sl_owned (hk_slots ?w t)" using assms(2) by simp
    ultimately have "hooks_inv ?w" by (intro hooks_inv_kept [OF assms(1), of _ t]) simp_all
    moreover have "logical_action ?w u = (if u = t \<and> sa_flags ?a AND SA_RESETHAND \<noteq> 0 then zeroed_action else logical_action w u)" for u
      using assms(2) by (auto simp: logical_action_def copy_saved_action_def)
    ultimately show ?thesis using w' call l by simp
  qed
qed

end
