(* ===== verification/Startup.thy ===== *)
theory Startup
  imports Environment Debug_Log Signal_Hooks
begin

text \<open>
  The start of a process: \<^verbatim>\<open>runtime/src/config.rs\<close>, \<^verbatim>\<open>runtime/src/clock.rs\<close>, the lookup of the interposed functions, and the
  constructors of all modules composed in the order of their \<^verbatim>\<open>.init_array\<close> sections, each reading
  the environment the earlier ones left.
\<close>

section \<open>Configuration and clock\<close>

definition LEGACY_PROFILE :: bytes where "LEGACY_PROFILE = ascii ''LINUWUX_LEGACY_PROFILE''"

text \<open>The flag \<^verbatim>\<open>LEGACY_PROFILE\<close> after the constructor.\<close>

definition config_initialize :: "env_world \<Rightarrow> bool" where
  "config_initialize w = env_flag_set (getenv w LEGACY_PROFILE)"

text \<open>The seconds and nanoseconds of \<^verbatim>\<open>CLOCK_MONOTONIC_COARSE\<close>, \<open>None\<close> when the call fails.\<close>

definition coarse_milliseconds :: "(u64 \<times> u64) option \<Rightarrow> u64" where
  "coarse_milliseconds clock = (case clock of None \<Rightarrow> 0
     | Some (tv_sec, tv_nsec) \<Rightarrow> tv_sec * 1000 + tv_nsec div 1000000)"

section \<open>The real functions\<close>

text \<open>
  A pointer cached in an atomic and filled by \<^verbatim>\<open>dlsym\<close>, null as zero; a failure is not cached. \<open>resolve_real_sigaction\<close>
  also reports \<^verbatim>\<open>ENOSYS\<close>.
\<close>

definition resolve_symbol :: "u64 \<Rightarrow> u64 \<Rightarrow> u64 \<times> u64" where
  "resolve_symbol dlsym slot =
     (let symbol = slot in
      if symbol = 0 then (let symbol = dlsym in (if symbol \<noteq> 0 then symbol else slot, symbol)) else (slot, symbol))"

definition resolve_real_sigaction :: "u64 \<Rightarrow> u64 \<times> nat \<Rightarrow> (u64 \<times> nat) \<times> u64 option" where
  "resolve_real_sigaction dlsym = (\<lambda>(slot, errno).
     let symbol = slot in
     if symbol = 0 then
       (let symbol = dlsym in if symbol = 0 then ((slot, ENOSYS), None) else ((symbol, errno), Some symbol))
     else ((slot, errno), Some symbol))"

text \<open>A pointer once found is kept, and nothing is cached while the symbol is missing.\<close>

lemma resolve_symbol_cached:
  "resolve_symbol d slot = (slot', symbol) \<Longrightarrow> slot' = symbol \<and> (slot \<noteq> 0 \<longrightarrow> symbol = slot) \<and> (symbol = 0 \<longleftrightarrow> slot = 0 \<and> d = 0)"
  by (auto simp: resolve_symbol_def Let_def split: if_splits)

lemma resolve_real_sigaction_cached:
  "resolve_real_sigaction d (slot, err) = ((slot', err'), r) \<Longrightarrow> resolve_symbol d slot = (slot', symbol) \<Longrightarrow>
     r = (if symbol = 0 then None else Some symbol) \<and> err' = (if symbol = 0 then ENOSYS else err)"
  by (auto simp: resolve_symbol_def resolve_real_sigaction_def Let_def split: if_splits)

text \<open>The clock does not wrap before its seconds reach fifty-four bits.\<close>

lemma coarse_milliseconds_exact:
  assumes "unat s < 2 ^ 54" and "unat n < 10 ^ 9"
  shows "unat (coarse_milliseconds (Some (s, n))) = unat s * 1000 + unat n div 1000000"
proof -
  have "unat s * 1000 < 2 ^ 64" using assms(1) by simp
  then have "unat (s * 1000) = unat s * 1000" by (simp add: unat_word_ariths)
  moreover have d: "unat (n div 1000000) = unat n div 1000000" by (simp add: unat_div)
  moreover have "unat n div 1000000 < 1000" using assms(2) by simp
  ultimately have "unat (s * 1000) + unat (n div 1000000) < 2 ^ 64" using assms(1) by simp
  then show ?thesis using d \<open>unat (s * 1000) = unat s * 1000\<close>
    by (simp add: coarse_milliseconds_def unat_add_no_overflow)
qed

section \<open>The constructors\<close>

datatype init = InitDebug | InitGamescope | InitEnvironment | InitConfig | InitFaketime | InitHooks | InitKuser

text \<open>The numbers of the \<^verbatim>\<open>.init_array\<close> sections, by which the linker sorts them.\<close>

fun init_priority :: "init \<Rightarrow> nat" where
  "init_priority InitDebug = 102"
| "init_priority InitGamescope = 103"
| "init_priority InitEnvironment = 201"
| "init_priority InitConfig = 202"
| "init_priority InitFaketime = 202"
| "init_priority InitHooks = 203"
| "init_priority InitKuser = 204"

record process =
  pr_env :: env_world
  pr_debug :: debug_world
  pr_reg :: reg_world
  pr_game :: bool
  pr_legacy :: bool
  pr_hooks :: hooks

record start_env =
  se_debug :: debug_env
  se_proc :: proc_env
  se_reg :: reg_env
  se_argv :: "bytes option list"
  se_faketime :: ftenv
  se_hooks :: hooks_env
  se_kenv :: kenv
  se_install :: install_env
  se_bridge :: u64

definition on_faketime :: "(faketime \<Rightarrow> faketime) \<Rightarrow> hooks \<Rightarrow> hooks" where
  "on_faketime f w = w\<lparr>hk_cpuid := (hk_cpuid w)\<lparr>cp_rt := (cp_rt (hk_cpuid w))\<lparr>rt_faketime := f (rt_faketime (cp_rt (hk_cpuid w)))\<rparr>\<rparr>\<rparr>"

text \<open>The part of \<^verbatim>\<open>linuwux_setup_kuser\<close> after the page: the dispatcher bridge, in the game process only.\<close>

definition install_in_game :: "install_env \<Rightarrow> u64 \<Rightarrow> bool \<Rightarrow> hooks \<Rightarrow> hooks" where
  "install_in_game e address game w =
     (if \<not> game then w
      else let (k, b, ok) = install_bridge e address (rt_kuser (cp_rt (hk_cpuid w))) (cp_bridge (hk_cpuid w)) in
        w\<lparr>hk_cpuid := (hk_cpuid w)\<lparr>cp_rt := (cp_rt (hk_cpuid w))\<lparr>rt_kuser := k\<rparr>, cp_bridge := b\<rparr>\<rparr>)"

definition kenv_in :: "process \<Rightarrow> kenv \<Rightarrow> kenv" where
  "kenv_in p e = e\<lparr>ke_game_process := pr_game p, ke_getenv := \<lambda>n. getenv (pr_env p) (ascii n)\<rparr>"

fun run_init :: "start_env \<Rightarrow> init \<Rightarrow> process \<Rightarrow> process option" where
  "run_init e InitDebug p = Some (p\<lparr>pr_debug := linuwux_setup_debug ((se_debug e)\<lparr>dv_getenv := getenv (pr_env p)\<rparr>) (pr_debug p)\<rparr>)"
| "run_init e InitGamescope p = Some (p\<lparr>pr_env := linuwux_setup_gamescope (se_proc e) (pr_env p)\<rparr>)"
| "run_init e InitEnvironment p = (case linuwux_setup_environment (se_reg e) (se_argv e) (pr_env p) (pr_reg p) of
     (game, w, r) \<Rightarrow> map_option (\<lambda>w. p\<lparr>pr_env := w, pr_reg := r, pr_game := game\<rparr>) w)"
| "run_init e InitConfig p = Some (p\<lparr>pr_legacy := config_initialize (pr_env p)\<rparr>)"
| "run_init e InitFaketime p = Some (p\<lparr>pr_hooks := on_faketime (linuwux_setup_faketime (se_faketime e)) (pr_hooks p)\<rparr>)"
| "run_init e InitHooks p = Some (p\<lparr>pr_hooks := linuwux_setup_hooks
     ((se_hooks e)\<lparr>he_free_guard := getenv (pr_env p) (ascii ''LINUWUX_WIN32U_FREE_GUARD'')\<rparr>) (pr_hooks p)\<rparr>)"
| "run_init e InitKuser p = Some (p\<lparr>pr_hooks := install_in_game (se_install e) (se_bridge e) (pr_game p)
     (on_kuser (linuwux_setup_kuser (kenv_in p (se_kenv e))) (pr_hooks p))\<rparr>)"

fun run_inits :: "start_env \<Rightarrow> init list \<Rightarrow> process \<Rightarrow> process option" where
  "run_inits e [] p = Some p"
| "run_inits e (i # is) p = Option.bind (run_init e i p) (run_inits e is)"

text \<open>What the linker may produce.\<close>

definition init_order :: "init list \<Rightarrow> bool" where
  "init_order is \<longleftrightarrow> distinct is \<and> set is = UNIV \<and> sorted (map init_priority is)"

section \<open>What each constructor leaves alone\<close>

definition own_variables :: "bytes set" where
  "own_variables = {WINEDLLOVERRIDES, DONE_ENV, LINUWUX, PROTON_DISABLE_LSTEAMCLIENT}"

lemma resolve_vars:
  "resolve_real_setenv w = (b, w') \<Longrightarrow> ew_vars w' = ew_vars w" "resolve_real_unsetenv w = (b, w') \<Longrightarrow> ew_vars w' = ew_vars w"
  "resolve_self_path e w = (b, w') \<Longrightarrow> ew_vars w' = ew_vars w"
  by (auto simp: resolve_real_setenv_def resolve_real_unsetenv_def resolve_self_path_def set_errno_def Let_def split: option.splits if_splits)

lemma setup_gamescope_vars [simp]: "getenv (linuwux_setup_gamescope e w) = getenv w"
proof -
  have "ew_vars (linuwux_setup_gamescope e w) = ew_vars w"
    by (simp add: linuwux_setup_gamescope_def resolve_vars split: prod.splits)
  then show ?thesis by (simp add: getenv_def fun_eq_iff)
qed

lemma install_bridge_page:
  "install_bridge e a k b = (k', b', ok) \<Longrightarrow> ku_avx k' = ku_avx k \<and> ku_hack_enabled k' = ku_hack_enabled k"
  by (auto simp: install_bridge_def acquire_guard_def drop_guard_def klog_def Let_def split: if_splits prod.splits option.splits)

lemma setup_kuser_settings:
  "ku_avx (linuwux_setup_kuser e k) \<longleftrightarrow> ke_getenv e ''PROTON_AVX'' = Some (ascii ''1'')"
  "ku_hack_enabled (linuwux_setup_kuser e k) \<longleftrightarrow> ke_getenv e ''LINUWUX_SYSCALL_HACK'' = Some (ascii ''1'')"
  by (simp_all add: linuwux_setup_kuser_def prepare_shared_page_def)

lemma setup_hooks_frame [simp]:
  "hk_cpuid (linuwux_setup_hooks e w) = hk_cpuid w" "hk_slots (linuwux_setup_hooks e w) = hk_slots w"
  "hk_bridge (linuwux_setup_hooks e w) = hk_bridge w"
  "al_guard_enabled (hk_alloc (linuwux_setup_hooks e w)) \<longleftrightarrow> he_free_guard e = Some (ascii ''1'')"
  by (simp_all add: linuwux_setup_hooks_def Let_def)

lemma on_part_frame [simp]:
  "hk_alloc (on_kuser f w) = hk_alloc w" "hk_slots (on_kuser f w) = hk_slots w" "hk_bridge (on_kuser f w) = hk_bridge w"
  "cp_bridge (hk_cpuid (on_kuser f w)) = cp_bridge (hk_cpuid w)" "rt_kuser (cp_rt (hk_cpuid (on_kuser f w))) = f (rt_kuser (cp_rt (hk_cpuid w)))"
  "hk_alloc (on_faketime g w) = hk_alloc w" "hk_slots (on_faketime g w) = hk_slots w" "hk_bridge (on_faketime g w) = hk_bridge w"
  "cp_bridge (hk_cpuid (on_faketime g w)) = cp_bridge (hk_cpuid w)" "rt_kuser (cp_rt (hk_cpuid (on_faketime g w))) = rt_kuser (cp_rt (hk_cpuid w))"
  by (simp_all add: on_kuser_def on_faketime_def)

lemma install_in_game_frame [simp]:
  "hk_alloc (install_in_game e a g w) = hk_alloc w" "hk_slots (install_in_game e a g w) = hk_slots w" "hk_bridge (install_in_game e a g w) = hk_bridge w"
  by (simp_all add: install_in_game_def split: prod.splits)

lemma install_in_game_page:
  "ku_avx (rt_kuser (cp_rt (hk_cpuid (install_in_game e a g w)))) = ku_avx (rt_kuser (cp_rt (hk_cpuid w)))"
  "ku_hack_enabled (rt_kuser (cp_rt (hk_cpuid (install_in_game e a g w)))) = ku_hack_enabled (rt_kuser (cp_rt (hk_cpuid w)))"
  by (auto simp: install_in_game_def dest: install_bridge_page split: prod.splits)

section \<open>Running the constructors\<close>

lemma run_inits_append: "run_inits e (xs @ ys) p = Option.bind (run_inits e xs p) (run_inits e ys)"
proof (induction xs arbitrary: p)
  case (Cons i xs)
  then show ?case by (cases "run_init e i p") simp_all
qed simp

text \<open>A constructor that fails would be the one of the environment, on a list that is not a C string.\<close>

lemma run_init_total:
  assumes "i = InitEnvironment \<longrightarrow> pred_option is_c_string (getenv (pr_env p) WINEDLLOVERRIDES)"
  shows "\<exists>p'. run_init e i p = Some p'"
proof (cases "i = InitEnvironment")
  case True
  obtain game result r where s: "linuwux_setup_environment (se_reg e) (se_argv e) (pr_env p) (pr_reg p) = (game, result, r)" by (metis prod_cases3)
  from setup_environment_run [OF s] assms True obtain w where "result = Some w" by blast
  with s True show ?thesis by simp
qed (cases i; simp)

text \<open>The environment of the user, as every constructor still sees it.\<close>

definition settings_kept :: "process \<Rightarrow> process \<Rightarrow> bool" where
  "settings_kept p q \<longleftrightarrow> (\<forall>n. n \<notin> own_variables \<longrightarrow> getenv (pr_env q) n = getenv (pr_env p) n)"

lemma run_init_env:
  assumes "run_init e i p = Some p'" and "i = InitEnvironment \<longrightarrow> pred_option is_c_string (getenv (pr_env p) WINEDLLOVERRIDES)"
  shows "settings_kept p p'" and "i \<noteq> InitEnvironment \<Longrightarrow> getenv (pr_env p') = getenv (pr_env p)"
proof -
  show other: "getenv (pr_env p') = getenv (pr_env p)" if "i \<noteq> InitEnvironment" using that assms(1) by (cases i) auto
  show "settings_kept p p'"
  proof (cases "i = InitEnvironment")
    case True
    obtain game result r where s: "linuwux_setup_environment (se_reg e) (se_argv e) (pr_env p) (pr_reg p) = (game, result, r)" by (metis prod_cases3)
    from setup_environment_run [OF s] assms(2) True obtain w where "result = Some w" "\<forall>n. n \<in> own_variables \<or> getenv w n = getenv (pr_env p) n"
      unfolding own_variables_def by blast
    with s True assms(1) show ?thesis by (auto simp: settings_kept_def)
  qed (simp add: settings_kept_def other)
qed

lemma run_inits_env:
  assumes "InitEnvironment \<in> set is \<longrightarrow> pred_option is_c_string (getenv (pr_env p) WINEDLLOVERRIDES)" and "distinct is"
  shows "\<exists>p'. run_inits e is p = Some p' \<and> settings_kept p p'"
  using assms
proof (induction "is" arbitrary: p)
  case (Cons i js)
  from run_init_total [of i p e] Cons.prems obtain q where q: "run_init e i p = Some q" by auto
  have l: "i = InitEnvironment \<longrightarrow> pred_option is_c_string (getenv (pr_env p) WINEDLLOVERRIDES)" using Cons.prems by simp
  have "InitEnvironment \<in> set js \<longrightarrow> pred_option is_c_string (getenv (pr_env q) WINEDLLOVERRIDES)"
    using run_init_env(2) [OF q l] Cons.prems by (cases "i = InitEnvironment") auto
  then obtain p' where "run_inits e js q = Some p'" "settings_kept q p'" using Cons.IH [of q] Cons.prems(2) by auto
  with q run_init_env(1) [OF q l] show ?case by (simp add: settings_kept_def)
qed (simp add: settings_kept_def)

text \<open>A part of the process that only one constructor sets, from what the earlier ones left.\<close>

lemma run_inits_sets:
  assumes "run_inits e is p = Some p'" and "i \<in> set is" and "distinct is"
    and keeps: "\<And>j p p'. j \<noteq> i \<Longrightarrow> run_init e j p = Some p' \<Longrightarrow> f p' = f p"
    and sets: "\<And>xs q r. run_inits e xs p = Some q \<Longrightarrow> distinct xs \<Longrightarrow> i \<notin> set xs \<Longrightarrow> f q = f p \<Longrightarrow> run_init e i q = Some r \<Longrightarrow> f r = v"
  shows "f p' = v"
proof -
  have kept: "f p' = f p" if "run_inits e js p = Some p'" "i \<notin> set js" for js p p'
    using that by (induction js arbitrary: p) (auto simp: Option.bind_eq_Some_conv dest!: keeps [rotated])
  obtain xs ys where s: "is = xs @ i # ys" "i \<notin> set xs" "i \<notin> set ys" "distinct xs" using split_list [OF assms(2)] assms(3) by auto
  with assms(1) obtain q r where r: "run_inits e xs p = Some q" "run_init e i q = Some r" "run_inits e ys r = Some p'"
    by (auto simp: run_inits_append Option.bind_eq_Some_conv)
  from kept [OF r(3) s(3)] sets [OF r(1) s(4,2) kept [OF r(1) s(2)] r(2)] show ?thesis by simp
qed

text \<open>The bridge goes in last, when it is known whether the process is the game.\<close>

lemma init_order_last:
  assumes "init_order is"
  obtains js where "is = js @ [InitKuser]" "distinct js" "InitEnvironment \<in> set js" "InitKuser \<notin> set js"
proof -
  from assms have o: "distinct is" "InitKuser \<in> set is" "InitEnvironment \<in> set is" "sorted (map init_priority is)" by (auto simp: init_order_def)
  from split_list [OF o(2)] obtain js ks where s: "is = js @ InitKuser # ks" by blast
  have "ks = []"
  proof (cases ks)
    case (Cons k ks')
    with s o(4) have "init_priority k \<ge> 204" by (auto simp: sorted_append)
    then have "k = InitKuser" by (cases k) auto
    with s Cons o(1) show ?thesis by simp
  qed
  with s o that show thesis by auto
qed

section \<open>The settings of the user\<close>

definition setting_of :: "process \<Rightarrow> string \<Rightarrow> bytes option" where
  "setting_of p n = getenv (pr_env p) (ascii n)"

lemma setting_kept:
  assumes "settings_kept p q" and "n \<in> {''LINUWUX_DEBUG'', ''LINUWUX_LEGACY_PROFILE'', ''LINUWUX_WIN32U_FREE_GUARD'', ''PROTON_AVX'', ''LINUWUX_SYSCALL_HACK''}"
  shows "setting_of q n = setting_of p n"
proof -
  have "ascii n \<notin> own_variables"
    using assms(2) by (auto simp: own_variables_def WINEDLLOVERRIDES_def DONE_ENV_def LINUWUX_def PROTON_DISABLE_LSTEAMCLIENT_def)
  with assms(1) show ?thesis by (simp add: settings_kept_def setting_of_def)
qed

lemma setup_debug_enabled:
  "dw_enabled (linuwux_setup_debug e w) \<longleftrightarrow> dw_enabled w \<or> debug_value_enabled (dv_getenv e (ascii ''LINUWUX_DEBUG''))"
  by (simp add: linuwux_setup_debug_def Let_def)

text \<open>The parts the constructors set, each kept by the others.\<close>

lemma init_sets:
  "run_init e InitDebug q = Some r \<Longrightarrow> dw_enabled (pr_debug r) \<longleftrightarrow> dw_enabled (pr_debug q) \<or> debug_value_enabled (setting_of q ''LINUWUX_DEBUG'')"
  "run_init e InitConfig q = Some r \<Longrightarrow> pr_legacy r \<longleftrightarrow> setting_of q ''LINUWUX_LEGACY_PROFILE'' = Some (ascii ''1'')"
  "run_init e InitHooks q = Some r \<Longrightarrow>
     al_guard_enabled (hk_alloc (pr_hooks r)) \<longleftrightarrow> setting_of q ''LINUWUX_WIN32U_FREE_GUARD'' = Some (ascii ''1'')"
  "run_init e InitKuser q = Some r \<Longrightarrow>
     ku_avx (rt_kuser (cp_rt (hk_cpuid (pr_hooks r)))) \<longleftrightarrow> setting_of q ''PROTON_AVX'' = Some (ascii ''1'')"
  "run_init e InitKuser q = Some r \<Longrightarrow>
     ku_hack_enabled (rt_kuser (cp_rt (hk_cpuid (pr_hooks r)))) \<longleftrightarrow> setting_of q ''LINUWUX_SYSCALL_HACK'' = Some (ascii ''1'')"
  by (auto simp: setting_of_def setup_debug_enabled config_initialize_def env_flag_set_def LEGACY_PROFILE_def install_in_game_page
      setup_kuser_settings kenv_in_def)

lemma init_keeps:
  assumes "run_init e j p = Some p'"
  shows "j \<noteq> InitDebug \<Longrightarrow> pr_debug p' = pr_debug p" and "j \<noteq> InitEnvironment \<Longrightarrow> pr_game p' = pr_game p"
    and "j \<noteq> InitConfig \<Longrightarrow> pr_legacy p' = pr_legacy p"
    and "j \<noteq> InitHooks \<Longrightarrow> al_guard_enabled (hk_alloc (pr_hooks p')) = al_guard_enabled (hk_alloc (pr_hooks p))"
    and "j \<noteq> InitKuser \<Longrightarrow> rt_kuser (cp_rt (hk_cpuid (pr_hooks p'))) = rt_kuser (cp_rt (hk_cpuid (pr_hooks p)))"
    and "j \<noteq> InitKuser \<Longrightarrow> cp_bridge (hk_cpuid (pr_hooks p')) = cp_bridge (hk_cpuid (pr_hooks p))"
    and "hk_slots (pr_hooks p') = hk_slots (pr_hooks p)" and "hk_bridge (pr_hooks p') = hk_bridge (pr_hooks p)"
  using assms by (cases j; auto split: prod.splits)+

lemma inits_keep:
  assumes "run_inits e is p = Some p'"
  shows "InitKuser \<notin> set is \<Longrightarrow> cp_bridge (hk_cpuid (pr_hooks p')) = cp_bridge (hk_cpuid (pr_hooks p))"
    and "hk_slots (pr_hooks p') = hk_slots (pr_hooks p)" and "hk_bridge (pr_hooks p') = hk_bridge (pr_hooks p)"
  using assms by (induction "is" arbitrary: p) (auto simp: Option.bind_eq_Some_conv init_keeps)

text \<open>The first handler Wine installs detects the processor under the stored flag.\<close>

lemma forced_legacy_presented:
  assumes "sigaction_hook he (trap_number SIGSEGV) (Some a) w = (w', old, 0)" and "he_legacy_forced he"
    and "\<not> sl_owned (hk_slots w SIGSEGV)" and "handler_is_from_wine_ntdll he a" and "\<not> action_is_bridge w (trap_number SIGSEGV) a"
  shows "id_presentation (cp_identity (hk_cpuid w')) = Legacy"
proof -
  have d: "id_presentation (cp_identity (detect_cpu_vendor l v True c)) = Legacy" for l v c
    by (simp add: detect_cpu_vendor_def configure_identity_def cp_identity_def with_identity_def cplog_def rt_note_def Let_def
        active_load_def select_legacy_next_def with_presentation_def)
  have l: "rt_identity (cp_rt (cplog m c)) = rt_identity (cp_rt c)" for m c by (simp add: cplog_def rt_note_def)
  have nb: "\<not> action_is_bridge (w\<lparr>hk_lock := True\<rparr>) SIGSEGV_NUMBER a" using assms(5) action_is_bridge_cong [of "w\<lparr>hk_lock := True\<rparr>" w] by simp
  show ?thesis using assms(1-4) nb
    by (auto simp: sigaction_hook_def acquire_update_def install_signal_bridge_def real_sigaction_def bridge_installed_def drop_update_def
        slot_for_def on_slot_def hklog_def cp_identity_def Let_def l d [unfolded cp_identity_def] split: if_splits)
qed

lemma setup_environment_game: "linuwux_setup_environment e argv w r = (game, w', r') \<Longrightarrow> game = (game_executable_argument argv \<noteq> None)"
  by (simp add: linuwux_setup_environment_def Let_def split: prod.splits)

text \<open>
  C12: start-up. In every order the section numbers allow, the constructors run through
  without a failed access, and leave the switches as the user's environment had them at the start, although the
  environment constructor has rewritten variables in between: the log, the legacy profile, the \<^verbatim>\<open>win32u\<close>
  guard, AVX and the direct system call. The process is marked as the game exactly when its arguments
  say so, and outside the game the dispatcher bridge is left alone. With the legacy profile
  set, the first SIGSEGV handler that Wine installs makes the processor identity the legacy one.
\<close>

theorem startup_obeys_settings:
  assumes "init_order order" and "pred_option is_c_string (getenv (pr_env p) WINEDLLOVERRIDES)" and "\<not> dw_enabled (pr_debug p)"
  shows "\<exists>p'. run_inits e order p = Some p' \<and> settings_kept p p' \<and>
    dw_enabled (pr_debug p') = debug_value_enabled (setting_of p ''LINUWUX_DEBUG'') \<and>
    pr_legacy p' = (setting_of p ''LINUWUX_LEGACY_PROFILE'' = Some (ascii ''1'')) \<and>
    al_guard_enabled (hk_alloc (pr_hooks p')) = (setting_of p ''LINUWUX_WIN32U_FREE_GUARD'' = Some (ascii ''1'')) \<and>
    ku_avx (rt_kuser (cp_rt (hk_cpuid (pr_hooks p')))) = (setting_of p ''PROTON_AVX'' = Some (ascii ''1'')) \<and>
    ku_hack_enabled (rt_kuser (cp_rt (hk_cpuid (pr_hooks p')))) = (setting_of p ''LINUWUX_SYSCALL_HACK'' = Some (ascii ''1'')) \<and>
    pr_game p' = (game_executable_argument (se_argv e) \<noteq> None) \<and>
    (\<not> pr_game p' \<longrightarrow> cp_bridge (hk_cpuid (pr_hooks p')) = cp_bridge (hk_cpuid (pr_hooks p))) \<and>
    (\<forall>he a w' old. sigaction_hook he (trap_number SIGSEGV) (Some a) (pr_hooks p') = (w', old, 0) \<and> he_legacy_forced he = pr_legacy p' \<and>
       setting_of p ''LINUWUX_LEGACY_PROFILE'' = Some (ascii ''1'') \<and> \<not> sl_owned (hk_slots (pr_hooks p) SIGSEGV) \<and>
       handler_is_from_wine_ntdll he a \<and> \<not> action_is_bridge (pr_hooks p) (trap_number SIGSEGV) a \<longrightarrow>
       id_presentation (cp_identity (hk_cpuid w')) = Legacy)"
proof -
  have o: "distinct order" "\<And>i. i \<in> set order" using assms(1) by (simp_all add: init_order_def)
  from run_inits_env [OF _ o(1)] assms(2) obtain p' where p': "run_inits e order p = Some p'" "settings_kept p p'" by blast
  have before: "settings_kept p q" if "run_inits e xs p = Some q" "distinct xs" for xs q
    using run_inits_env [OF _ that(2), of p e] assms(2) that(1) by auto
  note seen = setting_kept [OF before]
  note sets = run_inits_sets [OF p'(1) o(2,1)]
  have debug: "dw_enabled (pr_debug p') = debug_value_enabled (setting_of p ''LINUWUX_DEBUG'')"
    by (rule sets [where i = InitDebug]) (use assms(3) in \<open>simp_all add: init_keeps init_sets(1) seen del: run_init.simps\<close>)
  have legacy: "pr_legacy p' = (setting_of p ''LINUWUX_LEGACY_PROFILE'' = Some (ascii ''1''))"
    by (rule sets [where i = InitConfig]) (simp_all add: init_keeps init_sets(2) seen del: run_init.simps)
  have guard: "al_guard_enabled (hk_alloc (pr_hooks p')) = (setting_of p ''LINUWUX_WIN32U_FREE_GUARD'' = Some (ascii ''1''))"
    by (rule sets [where i = InitHooks]) (simp_all add: init_keeps init_sets(3) seen del: run_init.simps)
  have avx: "ku_avx (rt_kuser (cp_rt (hk_cpuid (pr_hooks p')))) = (setting_of p ''PROTON_AVX'' = Some (ascii ''1''))"
    by (rule sets [where i = InitKuser]) (simp_all add: init_keeps init_sets(4) seen del: run_init.simps)
  have hack: "ku_hack_enabled (rt_kuser (cp_rt (hk_cpuid (pr_hooks p')))) = (setting_of p ''LINUWUX_SYSCALL_HACK'' = Some (ascii ''1''))"
    by (rule sets [where i = InitKuser]) (simp_all add: init_keeps init_sets(5) seen del: run_init.simps)
  have game: "pr_game q = (game_executable_argument (se_argv e) \<noteq> None)"
    if "run_inits e is p = Some q" "InitEnvironment \<in> set is" "distinct is" for q "is"
    by (rule run_inits_sets [OF that]) (auto simp: init_keeps dest: setup_environment_game split: prod.splits)
  have bridge: "cp_bridge (hk_cpuid (pr_hooks p')) = cp_bridge (hk_cpuid (pr_hooks p))" if "game_executable_argument (se_argv e) = None"
  proof -
    from assms(1) obtain js where js: "order = js @ [InitKuser]" "distinct js" "InitEnvironment \<in> set js" "InitKuser \<notin> set js" by (rule init_order_last)
    with p'(1) obtain q where q: "run_inits e js p = Some q" "run_init e InitKuser q = Some p'"
      by (auto simp: run_inits_append Option.bind_eq_Some_conv)
    then show ?thesis using game [OF q(1) js(3,2)] that inits_keep(1) [OF q(1) js(4)] by (auto simp: install_in_game_def)
  qed
  have "id_presentation (cp_identity (hk_cpuid w')) = Legacy"
    if "sigaction_hook he (trap_number SIGSEGV) (Some a) (pr_hooks p') = (w', old, 0)" "he_legacy_forced he = pr_legacy p'"
      "setting_of p ''LINUWUX_LEGACY_PROFILE'' = Some (ascii ''1'')" "\<not> sl_owned (hk_slots (pr_hooks p) SIGSEGV)"
      "handler_is_from_wine_ntdll he a" "\<not> action_is_bridge (pr_hooks p) (trap_number SIGSEGV) a" for he a w' old
    by (rule forced_legacy_presented [OF that(1)])
      (use that legacy inits_keep(2,3) [OF p'(1)] action_is_bridge_cong [of "pr_hooks p'" "pr_hooks p"] in simp_all)
  with p' debug legacy guard avx hack game [OF p'(1) o(2,1)] bridge show ?thesis by blast
qed

definition sample_start :: start_env where
  "sample_start = \<lparr>se_debug = sample_debug_env,
     se_proc = \<lparr>pe_getpid = 1, pe_readlink = \<lambda>_. None, pe_open = \<lambda>_. None, pe_dladdr = None, pe_realpath = \<lambda>_. None\<rparr>,
     se_reg = sample_reg_env, se_argv = sample_argv, se_faketime = quiet_ftenv 0, se_hooks = sample_hooks_env, se_kenv = ready_env,
     se_install = \<lparr>ie_kenv = ready_env, ie_unprotect_ok = True, ie_protect_ok = True\<rparr>, se_bridge = 0x7f0000100000\<rparr>"

definition sample_process :: process where
  "sample_process = \<lparr>pr_env = sample_overrides\<lparr>ew_vars := (ew_vars sample_overrides)(LEGACY_PROFILE \<mapsto> ascii ''1'')\<rparr>,
     pr_debug = sample_debug\<lparr>dw_enabled := False\<rparr>, pr_reg = sample_reg, pr_game = False, pr_legacy = False, pr_hooks = sample_hooks\<rparr>"

theorem startup_obeys_settings_witness:
  "\<exists>p'. run_inits sample_start [InitDebug, InitGamescope, InitEnvironment, InitFaketime, InitConfig, InitHooks, InitKuser] sample_process = Some p' \<and>
     pr_legacy p' \<and> pr_game p' \<and> \<not> dw_enabled (pr_debug p')"
proof -
  let ?order = "[InitDebug, InitGamescope, InitEnvironment, InitFaketime, InitConfig, InitHooks, InitKuser]"
  have "i \<in> set ?order" for i by (cases i) simp_all
  then have o: "init_order ?order" by (auto simp: init_order_def)
  have v: "getenv (pr_env sample_process) WINEDLLOVERRIDES = Some (ascii ''dxgi=b'')"
    by (simp add: sample_process_def sample_overrides_def getenv_def WINEDLLOVERRIDES_def DONE_ENV_def LEGACY_PROFILE_def)
  have h: "pred_option is_c_string (getenv (pr_env sample_process) WINEDLLOVERRIDES)" "\<not> dw_enabled (pr_debug sample_process)"
    unfolding v by (simp_all add: sample_process_def)
  have s: "setting_of sample_process ''LINUWUX_LEGACY_PROFILE'' = Some (ascii ''1'')" "setting_of sample_process ''LINUWUX_DEBUG'' = None"
    by (simp_all add: setting_of_def sample_process_def sample_overrides_def sample_world_def getenv_def LEGACY_PROFILE_def WINEDLLOVERRIDES_def DONE_ENV_def)
  have g: "game_executable_argument (se_argv sample_start) \<noteq> None" using sample_is_game by (simp add: sample_start_def)
  from startup_obeys_settings [OF o h, of sample_start] s g show ?thesis by (auto simp: debug_value_enabled_def)
qed

end
