(* ===== verification/Quirks.thy ===== *)
theory Quirks
  imports Runtime_Host
begin

text \<open>
  \<^verbatim>\<open>protocol/quirks.rs\<close>: the supported titles with the processor they present, the recipe of the shared page, the
  proof of identity and the arrangement of handlers their clients expect. No code branches on the
  table, so what it promises has to come out of the protocol: each title is run through the control sequence that
  \<^verbatim>\<open>docs/protocol/game-quirks.md\<close> records for it, on the Reflex state of \<open>Reflex_State\<close> over the host of \<open>Runtime_Host\<close>.
\<close>

section \<open>The table\<close>

datatype cpu_identity_family = DenuvoFamily | ModernFamily

datatype kuser_recipe_family = ResumeFamily | DispatchFamily

datatype reflex_identity_scope = Cr3 | DebugRegister

datatype dispatch_arrangement = SingleResumeTarget | DualDispatchHandlers

record title =
  ti_name :: string
  ti_cpu_identity :: cpu_identity_family
  ti_kuser_recipe :: kuser_recipe_family
  ti_identity_scope :: reflex_identity_scope
  ti_dispatch :: dispatch_arrangement

definition TITLES :: "title list" where
  "TITLES =
    [\<lparr>ti_name = ''ACBFR'', ti_cpu_identity = DenuvoFamily, ti_kuser_recipe = ResumeFamily,
       ti_identity_scope = DebugRegister, ti_dispatch = SingleResumeTarget\<rparr>,
     \<lparr>ti_name = ''BGE'', ti_cpu_identity = DenuvoFamily, ti_kuser_recipe = ResumeFamily,
       ti_identity_scope = Cr3, ti_dispatch = SingleResumeTarget\<rparr>,
     \<lparr>ti_name = ''FC6'', ti_cpu_identity = DenuvoFamily, ti_kuser_recipe = ResumeFamily,
       ti_identity_scope = Cr3, ti_dispatch = SingleResumeTarget\<rparr>,
     \<lparr>ti_name = ''NFSPB'', ti_cpu_identity = DenuvoFamily, ti_kuser_recipe = ResumeFamily,
       ti_identity_scope = DebugRegister, ti_dispatch = SingleResumeTarget\<rparr>,
     \<lparr>ti_name = ''TopSpin'', ti_cpu_identity = DenuvoFamily, ti_kuser_recipe = ResumeFamily,
       ti_identity_scope = Cr3, ti_dispatch = SingleResumeTarget\<rparr>,
     \<lparr>ti_name = ''SMT5V'', ti_cpu_identity = ModernFamily, ti_kuser_recipe = DispatchFamily,
       ti_identity_scope = Cr3, ti_dispatch = SingleResumeTarget\<rparr>,
     \<lparr>ti_name = ''Hatsune Miku'', ti_cpu_identity = ModernFamily, ti_kuser_recipe = DispatchFamily,
       ti_identity_scope = Cr3, ti_dispatch = DualDispatchHandlers\<rparr>,
     \<lparr>ti_name = ''LADPYIH'', ti_cpu_identity = ModernFamily, ti_kuser_recipe = DispatchFamily,
       ti_identity_scope = Cr3, ti_dispatch = DualDispatchHandlers\<rparr>]"

text \<open>The unit test: the names are listed once each.\<close>

lemma titles_present_once:
  "distinct (map ti_name TITLES)"
  "set (map ti_name TITLES) = {''ACBFR'', ''BGE'', ''FC6'', ''NFSPB'', ''TopSpin'', ''SMT5V'', ''Hatsune Miku'', ''LADPYIH''}"
  by (simp_all add: TITLES_def)

section \<open>The clients\<close>

text \<open>
  What a client hands over: the addresses of its handlers, the numbers of its two slots and the process. The
  argument of a control leaf is in \<open>RDX\<close> for the process and in \<open>RCX\<close> otherwise.
\<close>

record client =
  cl_system :: u64
  cl_system_id :: u32
  cl_attributes :: u64
  cl_attributes_id :: u32
  cl_pid :: u64

definition in_rcx :: "u32 \<Rightarrow> u64 \<Rightarrow> control_call" where
  "in_rcx leaf v = \<lparr>cc_leaf = leaf, cc_rcx = v, cc_rdx = 0\<rparr>"

text \<open>The column ``CPUID control shape'' of the document, without the optional leaves.\<close>

definition title_controls :: "title \<Rightarrow> client \<Rightarrow> control_call list" where
  "title_controls t c =
     (case ti_identity_scope t of Cr3 \<Rightarrow> [in_rcx ARM_TARGET_CR3 0] | DebugRegister \<Rightarrow> []) @
     (case ti_dispatch t of
        SingleResumeTarget \<Rightarrow> [in_rcx REGISTER_RESUME_HANDLER (cl_system c)]
      | DualDispatchHandlers \<Rightarrow>
          [in_rcx CLIENT_SESSION_MARKER 0, in_rcx REGISTER_RESUME_HANDLER (cl_system c),
           in_rcx REGISTER_SYSTEM_SYSCALL_ID (ucast (cl_system_id c)), in_rcx REGISTER_ATTRIBUTES_HANDLER (cl_attributes c),
           in_rcx REGISTER_ATTRIBUTES_SYSCALL_ID (ucast (cl_attributes_id c))]) @
     [\<lparr>cc_leaf = REGISTER_TARGET_PID, cc_rcx = 0, cc_rdx = cl_pid c\<rparr>]"

section \<open>What the table promises\<close>

fun presented :: "cpu_identity_family \<Rightarrow> cpu_presentation" where
  "presented DenuvoFamily = Denuvo"
| "presented ModernFamily = Legacy"

fun recipes_of :: "kuser_recipe_family \<Rightarrow> recipe set" where
  "recipes_of ResumeFamily = {Resume}"
| "recipes_of DispatchFamily = {Selector, Dispatch}"

fun scope_of :: "reflex_identity_scope \<Rightarrow> identity_scope" where
  "scope_of Cr3 = Process"
| "scope_of DebugRegister = DebugRegisterThread"

fun registered :: "dispatch_arrangement \<Rightarrow> client \<Rightarrow> cpu_presentation \<Rightarrow> registration" where
  "registered SingleResumeTarget c p = ResumeClient (cl_system c) (p = Legacy)"
| "registered DualDispatchHandlers c p = DualClient (cl_system c) (cl_system_id c) (cl_attributes c) (cl_attributes_id c)"

section \<open>Running the clients\<close>

text \<open>The parts of the host's state that the promises are about do not depend on its log, its page and its clock.\<close>

definition same_page :: "rt \<Rightarrow> rt \<Rightarrow> bool" where
  "same_page h h' \<longleftrightarrow> rt_kuser h' = rt_kuser h \<and> rt_now h' = rt_now h"

definition same_host :: "rt \<Rightarrow> rt \<Rightarrow> bool" where
  "same_host h h' \<longleftrightarrow> same_page h h' \<and> rt_identity h' = rt_identity h"

lemma same_host_refl [simp]: "same_host h h" "same_page h h"
  by (simp_all add: same_host_def same_page_def)

lemma same_host_trans: "same_host h h1 \<Longrightarrow> same_host h1 h2 \<Longrightarrow> same_host h h2"
  by (simp add: same_host_def same_page_def)

lemma host_calls [simp]:
  "same_host h (h_log runtime_host m h') \<longleftrightarrow> same_host h h'" "same_host h (h_log_hex runtime_host m v h') \<longleftrightarrow> same_host h h'"
  "same_host h (h_set_hwprofile_guid runtime_host h') \<longleftrightarrow> same_host h h'"
  "same_page h (h_log runtime_host m h') \<longleftrightarrow> same_page h h'" "same_page h (h_log_hex runtime_host m v h') \<longleftrightarrow> same_page h h'"
  "same_page h (h_select_legacy runtime_host h') \<longleftrightarrow> same_page h h'"
  by (simp_all add: runtime_host_def rt_note_def same_host_def same_page_def rt_now_def cpuid_activate_legacy_profile_def)

lemma host_identity [simp]:
  "rt_identity (h_log runtime_host m h) = rt_identity h" "rt_identity (h_log_hex runtime_host m v h) = rt_identity h"
  "rt_identity (h_set_hwprofile_guid runtime_host h) = rt_identity h"
  "rt_identity (fst (host_patch_kuser r h)) = rt_identity h"
  "rt_identity (h_select_legacy runtime_host h) = select_legacy_next (rt_identity h)"
  "rt_kuser (h_log runtime_host m h) = rt_kuser h" "h_patch_kuser runtime_host = host_patch_kuser"
  by (simp_all add: runtime_host_def rt_note_def host_patch_kuser_def cpuid_activate_legacy_profile_def split: prod.splits)

lemma legacy_selected: "id_presentation (active_load (select_legacy_next raw)) = Legacy"
  by (simp add: active_load_def select_legacy_next_def with_presentation_def)

lemma host_reads:
  "h_legacy_active runtime_host h \<longleftrightarrow> id_presentation (active_load (rt_identity h)) = Legacy"
  "h_selector_recipe runtime_host h \<in> {Selector, Dispatch}"
  by (simp add: runtime_legacy, simp add: runtime_host_def host_selector_recipe_def)

lemmas control_simps = handle_cpuid_def log_control_def cpuid_argument_def in_rcx_def reflex_routing_def Let_def

text \<open>The steps of a client.\<close>

lemma arm_step:
  assumes "rx_routing s = RsUnregistered"
  shows "\<exists>h'. handle_cpuid runtime_host ARM_TARGET_CR3 rcx rdx h s = (h', s\<lparr>rx_identity := Process\<rparr>, Consumed) \<and> same_host h h'"
  using assms by (simp add: control_simps)

lemma marker_step:
  "\<exists>h'. handle_cpuid runtime_host CLIENT_SESSION_MARKER rcx rdx h s = (h', s, Native) \<and> same_host h h'"
  by (simp add: control_simps control_leaves)

lemma resume_step:
  assumes "rx_routing s = RsUnregistered" and "rx_convention s = ResumeReplay"
  shows "\<exists>h'. handle_cpuid runtime_host REGISTER_RESUME_HANDLER target rdx h s =
    (h', s\<lparr>rx_identity := (if rx_identity s = Unobserved then DebugRegisterThread else rx_identity s), rx_routing := RsResumeTarget,
        rx_resume_target := target, rx_convention := (if id_presentation (active_load (rt_identity h)) = Legacy then SelectorDispatch else ResumeReplay)\<rparr>,
      Consumed) \<and> same_host h h'"
  using assms by (simp add: control_simps control_leaves register_resume_target_def log_registered_def host_reads(1))

lemma promote_step:
  assumes "rx_routing s = RsResumeTarget" and "rx_system_target s = 0"
  shows "\<exists>h'. handle_cpuid runtime_host REGISTER_SYSTEM_SYSCALL_ID number rdx h s =
    (h', s\<lparr>rx_routing := RsDualDispatch, rx_system_target := rx_resume_target s, rx_convention := DualConvention, rx_system_id := ucast number\<rparr>,
      Consumed) \<and> id_presentation (active_load (rt_identity h')) = Legacy \<and> same_page h h'"
  using assms by (simp add: control_simps control_leaves activate_dual_dispatch_def legacy_selected)

lemma dual_steps:
  assumes "rx_routing s = RsDualDispatch"
  shows "\<exists>h'. handle_cpuid runtime_host REGISTER_ATTRIBUTES_HANDLER target rdx h s = (h', s\<lparr>rx_attributes_target := target\<rparr>, Consumed) \<and>
      same_host h h'"
    and "\<exists>h'. handle_cpuid runtime_host REGISTER_ATTRIBUTES_SYSCALL_ID number rdx h s = (h', s\<lparr>rx_attributes_id := ucast number\<rparr>, Consumed) \<and>
      same_host h h'"
  using assms by (simp_all add: control_simps control_leaves activate_dual_dispatch_def)

text \<open>The last step asks for the page of the recipe in force, and is consumed exactly when the page is in place.\<close>

lemma recipe_of_identity: "rt_identity h' = rt_identity h \<Longrightarrow> kuser_recipe runtime_host h' s = kuser_recipe runtime_host h s"
  by (simp add: kuser_recipe_def runtime_host_def host_selector_recipe_def split: syscall_convention.splits)

lemma pid_step:
  assumes "reflex_routing s \<noteq> Unregistered"
  shows "\<exists>h' code. patch_kuser_shared_data_recipe (fst (rt_now h)) (recipe_code (kuser_recipe runtime_host h s)) (rt_kuser h) = (rt_kuser h', code) \<and>
    handle_cpuid runtime_host REGISTER_TARGET_PID rcx pid h s = (h', s\<lparr>rx_target_pid := pid\<rparr>, if code = 0 then Consumed else Native) \<and>
    rt_identity h' = rt_identity h"
proof -
  let ?r = "kuser_recipe runtime_host h s"
  let ?h1 = "h_log_hex runtime_host ''reflex target pid='' pid h"
  let ?h0 = "h_log runtime_host (recipe_log ?r) ?h1"
  have r: "kuser_recipe runtime_host ?h1 (s\<lparr>rx_target_pid := pid\<rparr>) = ?r"
    using recipe_of_identity [of ?h1 h s] by (simp add: kuser_recipe_def cong: syscall_convention.case_cong)
  obtain k code where p: "patch_kuser_shared_data_recipe (fst (rt_now h)) (recipe_code ?r) (rt_kuser h) = (k, code)" by fastforce
  have "same_host h ?h0" by simp
  then have "rt_kuser ?h0 = rt_kuser h" "rt_now ?h0 = rt_now h" by (simp_all only: same_host_def same_page_def)
  with p have h0: "host_patch_kuser ?r ?h0 = (?h0\<lparr>rt_kuser := k, rt_tick := rt_tick ?h0 + 1\<rparr>, code = 0)"
    by (simp only: host_patch_kuser_def) simp
  from assms r h0 p show ?thesis
    by (cases "code = 0") (simp_all add: handle_cpuid_def Let_def cpuid_argument_def control_leaves)
qed

section \<open>The titles\<close>

lemma run_controls_append:
  assumes "run_controls H cs h s = (h1, s1, as1)" and "run_controls H ds h1 s1 = (h2, s2, as2)"
  shows "run_controls H (cs @ ds) h s = (h2, s2, as1 @ as2)"
  using assms by (induction cs arbitrary: h s as1) (auto split: prod.splits)

lemma run_controls_in_rcx:
  assumes "handle_cpuid H leaf v 0 h s = (h1, s1, a)" and "run_controls H cs h1 s1 = (h2, s2, as)"
  shows "run_controls H (in_rcx leaf v # cs) h s = (h2, s2, a # as)"
  using assms by (simp add: in_rcx_def)

lemma arming:
  "\<exists>h1 as. run_controls runtime_host (case d of Cr3 \<Rightarrow> [in_rcx ARM_TARGET_CR3 0] | DebugRegister \<Rightarrow> []) h reflex_new =
     (h1, reflex_new\<lparr>rx_identity := (case d of Cr3 \<Rightarrow> Process | DebugRegister \<Rightarrow> Unobserved)\<rparr>, as) \<and>
     same_host h h1"
proof (cases d)
  case Cr3
  have "rx_routing reflex_new = RsUnregistered" by (simp add: reflex_new_def)
  from arm_step [OF this, of 0 0 h] obtain h' where
    "handle_cpuid runtime_host ARM_TARGET_CR3 0 0 h reflex_new = (h', reflex_new\<lparr>rx_identity := Process\<rparr>, Consumed)" "same_host h h'" by blast
  with Cr3 show ?thesis by (simp add: in_rcx_def)
qed (simp add: reflex_new_def)

text \<open>What a title reaches from a fresh registration: the state, and the page asked for last.\<close>

definition title_reached :: "title \<Rightarrow> client \<Rightarrow> rt \<Rightarrow> rt \<times> reflex \<times> reflex_action list \<Rightarrow> bool" where
  "title_reached t c h = (\<lambda>(h', s', as).
     id_presentation (active_load (rt_identity h')) = presented (ti_cpu_identity t) \<and>
     abs_reg s' = registered (ti_dispatch t) c (presented (ti_cpu_identity t)) \<and>
     rx_identity s' = scope_of (ti_identity_scope t) \<and> rx_target_pid s' = cl_pid c \<and>
     (\<exists>r code. r \<in> recipes_of (ti_kuser_recipe t) \<and>
       patch_kuser_shared_data_recipe (fst (rt_now h)) (recipe_code r) (rt_kuser h) = (rt_kuser h', code) \<and>
       (last as = Consumed \<longleftrightarrow> code = 0)))"

lemma pid_reached:
  assumes "run_controls runtime_host cs h reflex_new = (h1, s1, as)" and "reflex_routing s1 \<noteq> Unregistered" and "same_page h h1"
    and "id_presentation (active_load (rt_identity h1)) = presented (ti_cpu_identity t)"
    and "abs_reg s1 = registered (ti_dispatch t) c (presented (ti_cpu_identity t))"
    and "rx_identity s1 = scope_of (ti_identity_scope t)" and "kuser_recipe runtime_host h1 s1 \<in> recipes_of (ti_kuser_recipe t)"
  shows "title_reached t c h (run_controls runtime_host (cs @ [\<lparr>cc_leaf = REGISTER_TARGET_PID, cc_rcx = 0, cc_rdx = cl_pid c\<rparr>]) h reflex_new)"
proof -
  from pid_step [OF assms(2), of h1 0 "cl_pid c"] obtain h' code where p: "rt_identity h' = rt_identity h1"
    "handle_cpuid runtime_host REGISTER_TARGET_PID 0 (cl_pid c) h1 s1 = (h', s1\<lparr>rx_target_pid := cl_pid c\<rparr>, if code = 0 then Consumed else Native)"
    "patch_kuser_shared_data_recipe (fst (rt_now h)) (recipe_code (kuser_recipe runtime_host h1 s1)) (rt_kuser h) = (rt_kuser h', code)"
    using assms(3) unfolding same_page_def by auto
  have "run_controls runtime_host (cs @ [\<lparr>cc_leaf = REGISTER_TARGET_PID, cc_rcx = 0, cc_rdx = cl_pid c\<rparr>]) h reflex_new =
      (h', s1\<lparr>rx_target_pid := cl_pid c\<rparr>, as @ [if code = 0 then Consumed else Native])"
    by (rule run_controls_append [OF assms(1)]) (simp add: p(2))
  moreover have "abs_reg (s1\<lparr>rx_target_pid := cl_pid c\<rparr>) = abs_reg s1" by (simp add: abs_reg_def cong: routing_state.case_cong)
  ultimately show ?thesis using assms(4-7) p(1,3) by (auto simp: title_reached_def)
qed

lemma recipe_in_family:
  "rx_convention s = ResumeReplay \<Longrightarrow> kuser_recipe runtime_host h s = Resume"
  "rx_convention s = DualConvention \<Longrightarrow> kuser_recipe runtime_host h s = Dispatch"
  "rx_convention s = SelectorDispatch \<Longrightarrow> kuser_recipe runtime_host h s \<in> {Selector, Dispatch}"
  using host_reads(2) [of h] by (simp_all add: kuser_recipe_def)

lemma single_title_reached:
  assumes "ti_dispatch t = SingleResumeTarget" and "id_presentation (active_load (rt_identity h)) = presented (ti_cpu_identity t)"
    and "(ti_kuser_recipe t = DispatchFamily) = (ti_cpu_identity t = ModernFamily)"
  shows "title_reached t c h (run_controls runtime_host (title_controls t c) h reflex_new)"
proof -
  let ?s = "reflex_new\<lparr>rx_identity := (case ti_identity_scope t of Cr3 \<Rightarrow> Process | DebugRegister \<Rightarrow> Unobserved)\<rparr>"
  from arming [of "ti_identity_scope t" h] obtain h1 as where a: "same_host h h1"
    "run_controls runtime_host (case ti_identity_scope t of Cr3 \<Rightarrow> [in_rcx ARM_TARGET_CR3 0] | DebugRegister \<Rightarrow> []) h reflex_new = (h1, ?s, as)" by blast
  have "rx_routing ?s = RsUnregistered" "rx_convention ?s = ResumeReplay" by (simp_all add: reflex_new_def)
  from resume_step [OF this, of "cl_system c" 0 h1] obtain h2 where r: "same_host h1 h2"
    "handle_cpuid runtime_host REGISTER_RESUME_HANDLER (cl_system c) 0 h1 ?s = (h2, ?s\<lparr>rx_identity := scope_of (ti_identity_scope t),
       rx_routing := RsResumeTarget, rx_resume_target := cl_system c,
       rx_convention := (if presented (ti_cpu_identity t) = Legacy then SelectorDispatch else ResumeReplay)\<rparr>, Consumed)" (is "_ = (h2, ?t, Consumed)")
    using a(1) assms(2) by (cases "ti_identity_scope t") (auto simp: same_host_def)
  have run: "run_controls runtime_host ((case ti_identity_scope t of Cr3 \<Rightarrow> [in_rcx ARM_TARGET_CR3 0] | DebugRegister \<Rightarrow> []) @
      [in_rcx REGISTER_RESUME_HANDLER (cl_system c)]) h reflex_new = (h2, ?t, as @ [Consumed])"
    by (rule run_controls_append [OF a(2)]) (simp add: in_rcx_def r(2))
  have "kuser_recipe runtime_host h2 ?t \<in> recipes_of (ti_kuser_recipe t)"
  proof (cases "ti_cpu_identity t")
    case DenuvoFamily
    with assms(3) have "ti_kuser_recipe t = ResumeFamily" by (cases "ti_kuser_recipe t") auto
    with DenuvoFamily recipe_in_family(1) [of ?t h2] show ?thesis by simp
  next
    case ModernFamily
    with assms(3) recipe_in_family(3) [of ?t h2] show ?thesis by simp
  qed
  moreover have "abs_reg ?t = registered (ti_dispatch t) c (presented (ti_cpu_identity t))"
    using assms(1) by (simp add: abs_reg_def)
  moreover have "id_presentation (active_load (rt_identity h2)) = presented (ti_cpu_identity t)" using assms(2) r(1) a(1) by (simp add: same_host_def)
  moreover have "same_page h h2" using same_host_trans [OF a(1) r(1)] by (simp add: same_host_def)
  ultimately show ?thesis
    using pid_reached [OF run, of t c] assms(1) by (simp add: title_controls_def reflex_routing_def)
qed

lemma number_kept: "ucast (ucast n :: u64) = (n :: u32)"
  by (rule bit_word_eqI) (simp add: bit_simps)

lemma dual_title_reached:
  assumes "ti_dispatch t = DualDispatchHandlers" and "ti_identity_scope t = Cr3" and "ti_kuser_recipe t = DispatchFamily" and "ti_cpu_identity t = ModernFamily"
  shows "title_reached t c h (run_controls runtime_host (title_controls t c) h reflex_new)"
proof -
  let ?s = "reflex_new\<lparr>rx_identity := Process\<rparr>"
  from arming [of Cr3 h] obtain h1 as where a: "same_host h h1" "run_controls runtime_host [in_rcx ARM_TARGET_CR3 0] h reflex_new = (h1, ?s, as)"
    by auto
  from marker_step [of 0 0 h1 ?s] obtain h2 where m: "handle_cpuid runtime_host CLIENT_SESSION_MARKER 0 0 h1 ?s = (h2, ?s, Native)" "same_host h1 h2" by blast
  have "rx_routing ?s = RsUnregistered" "rx_convention ?s = ResumeReplay" by (simp_all add: reflex_new_def)
  from resume_step [OF this, of "cl_system c" 0 h2] obtain h3 k where
    r: "handle_cpuid runtime_host REGISTER_RESUME_HANDLER (cl_system c) 0 h2 ?s =
      (h3, ?s\<lparr>rx_routing := RsResumeTarget, rx_resume_target := cl_system c, rx_convention := k\<rparr>, Consumed)" (is "_ = (h3, ?r, Consumed)") "same_host h2 h3"
    by auto
  have "rx_routing ?r = RsResumeTarget" "rx_system_target ?r = 0" by (simp_all add: reflex_new_def)
  from promote_step [OF this, of "ucast (cl_system_id c)" 0 h3] obtain h4 where
    p: "handle_cpuid runtime_host REGISTER_SYSTEM_SYSCALL_ID (ucast (cl_system_id c)) 0 h3 ?r =
      (h4, ?r\<lparr>rx_routing := RsDualDispatch, rx_system_target := cl_system c, rx_convention := DualConvention, rx_system_id := cl_system_id c\<rparr>, Consumed)"
      (is "_ = (h4, ?p, Consumed)") "id_presentation (active_load (rt_identity h4)) = Legacy" "same_page h3 h4" by (auto simp: number_kept)
  have d: "rx_routing ?p = RsDualDispatch" by simp
  from dual_steps(1) [OF d, of "cl_attributes c" 0 h4] obtain h5 where
    t: "handle_cpuid runtime_host REGISTER_ATTRIBUTES_HANDLER (cl_attributes c) 0 h4 ?p = (h5, ?p\<lparr>rx_attributes_target := cl_attributes c\<rparr>, Consumed)"
      (is "_ = (h5, ?t, Consumed)") "same_host h4 h5" by blast
  have "rx_routing ?t = RsDualDispatch" by simp
  from dual_steps(2) [OF this, of "ucast (cl_attributes_id c)" 0 h5] obtain h6 where
    i: "handle_cpuid runtime_host REGISTER_ATTRIBUTES_SYSCALL_ID (ucast (cl_attributes_id c)) 0 h5 ?t =
      (h6, ?t\<lparr>rx_attributes_id := cl_attributes_id c\<rparr>, Consumed)" (is "_ = (h6, ?i, Consumed)") "same_host h5 h6"
    by (auto simp: number_kept)
  have run: "run_controls runtime_host ([in_rcx ARM_TARGET_CR3 0] @ [in_rcx CLIENT_SESSION_MARKER 0, in_rcx REGISTER_RESUME_HANDLER (cl_system c),
      in_rcx REGISTER_SYSTEM_SYSCALL_ID (ucast (cl_system_id c)), in_rcx REGISTER_ATTRIBUTES_HANDLER (cl_attributes c),
      in_rcx REGISTER_ATTRIBUTES_SYSCALL_ID (ucast (cl_attributes_id c))]) h reflex_new =
      (h6, ?i, as @ [Native, Consumed, Consumed, Consumed, Consumed])"
    by (rule run_controls_append [OF a(2)])
      (intro run_controls_in_rcx [OF m(1)] run_controls_in_rcx [OF r(1)] run_controls_in_rcx [OF p(1)] run_controls_in_rcx [OF t(1)]
        run_controls_in_rcx [OF i(1)] run_controls.simps(1))
  have "abs_reg ?i = registered (ti_dispatch t) c (presented (ti_cpu_identity t))" using assms(1) by (simp add: abs_reg_def)
  moreover have "kuser_recipe runtime_host h6 ?i \<in> recipes_of (ti_kuser_recipe t)" using assms(3) recipe_in_family(2) [of ?i h6] by simp
  moreover have "same_page h h6" "rt_identity h6 = rt_identity h4" using a(1) m(2) r(2) p(3) t(2) i(2) by (simp_all add: same_host_def same_page_def)
  ultimately show ?thesis
    using pid_reached [OF run, of t c] assms p(2) by (simp add: title_controls_def reflex_routing_def)
qed


definition sample_client :: client where
  "sample_client = \<lparr>cl_system = 0x140001000, cl_system_id = 0xffe, cl_attributes = 0x140002000, cl_attributes_id = 0xfff, cl_pid = 77\<rparr>"


end
