(* ===== verification/Traces.thy ===== *)
theory Traces
  imports Debug_Log Sigsys_Router Cpuid_Trap "HOL-Library.Sublist"
begin

text \<open>
  The bounded traces of the handlers: \<^verbatim>\<open>trace_reflex_hop\<close> and \<^verbatim>\<open>trace_window_list\<close> of \<^verbatim>\<open>sigsys_router.rs\<close>,
  \<^verbatim>\<open>trace_window_list_entry\<close> and \<^verbatim>\<open>log_bounded\<close> of \<^verbatim>\<open>int2e.rs\<close>, \<^verbatim>\<open>fd_path\<close>, \<^verbatim>\<open>trace_system_dll_map\<close>, \<^verbatim>\<open>trace_system_dll_read\<close>
  and \<^verbatim>\<open>log_rewrite\<close> of \<^verbatim>\<open>pe_stub_layout.rs\<close>, and \<^verbatim>\<open>trace_forwarded_game_fault\<close> of \<^verbatim>\<open>cpuid.rs\<close>. Each has a counter that is
  incremented with wrap-around and a cap; what passes the cap goes to the logger of \<open>Debug_Log\<close>. A
  panic is \<open>None\<close>.
\<close>

section \<open>Counters and lines\<close>

datatype strategy = Rewind | PrivateTrampoline | PatchedSite | FallbackSkip

record traces =
  tt_reflex_hops :: u64
  tt_window_lists :: u64
  tt_window_entries :: u64
  tt_map_events :: u64
  tt_read_events :: u64
  tt_game_faults :: u64
  tt_strategies :: "strategy \<Rightarrow> u64"
  tt_debug :: debug_world

record trace_env =
  tv_debug :: debug_env
  tv_game_process :: bool
  tv_readlink :: "bytes \<Rightarrow> bytes option"

datatype log_line = LogText bytes | LogHex string u64

fun log_one :: "debug_env \<Rightarrow> log_line \<Rightarrow> debug_world \<Rightarrow> debug_world option" where
  "log_one e (LogText t) w = debug_log e (Some t) w"
| "log_one e (LogHex label v) w = debug_log_hex e (Some (ascii label)) v w"

fun log_lines :: "debug_env \<Rightarrow> log_line list \<Rightarrow> debug_world \<Rightarrow> debug_world option" where
  "log_lines e [] w = Some w"
| "log_lines e (l # ls) w = Option.bind (log_one e l w) (log_lines e ls)"

definition emit_lines :: "trace_env \<Rightarrow> log_line list \<Rightarrow> traces \<Rightarrow> traces option" where
  "emit_lines e ls t = map_option (\<lambda>w. t\<lparr>tt_debug := w\<rparr>) (log_lines (tv_debug e) ls (tt_debug t))"

text \<open>A line that is only there when the memory it quotes can be read.\<close>

definition optional_hex :: "string \<Rightarrow> u64 option \<Rightarrow> log_line list" where
  "optional_hex label v = (case v of None \<Rightarrow> [] | Some x \<Rightarrow> [LogHex label x])"

section \<open>The SIGSYS router\<close>

definition trace_reflex_hop :: "trace_env \<Rightarrow> string \<Rightarrow> u64 \<Rightarrow> u64 \<Rightarrow> gregs \<Rightarrow> traces \<Rightarrow> traces option" where
  "trace_reflex_hop e kind tid rip g t =
     (let t' = t\<lparr>tt_reflex_hops := tt_reflex_hops t + 1\<rparr> in
      if tt_reflex_hops t \<ge> 96 then Some t'
      else emit_lines e [LogText (ascii kind), LogHex ''reflex hop tid='' tid, LogHex ''reflex hop RIP='' rip,
        LogHex ''reflex hop RAX='' (g_rax g), LogHex ''reflex hop R10='' (g_r10 g), LogHex ''reflex hop RDX='' (g_rdx g),
        LogHex ''reflex hop R8='' (g_r8 g)] t')"

definition trace_window_list :: "trace_env \<Rightarrow> vmem \<Rightarrow> string \<Rightarrow> gregs \<Rightarrow> traces \<Rightarrow> traces option" where
  "trace_window_list e m kind g t =
     (if g_rax g \<noteq> 0x132d then Some t
      else let t' = t\<lparr>tt_window_lists := tt_window_lists t + 1\<rparr>; rsp = g_rsp g in
        if tt_window_lists t \<ge> 16 then Some t'
        else emit_lines e ([LogText (ascii kind), LogHex ''window list RIP='' (g_rip g), LogHex ''window list RSP='' rsp,
          LogHex ''window list R10='' (g_r10 g), LogHex ''window list RDX='' (g_rdx g), LogHex ''window list R8='' (g_r8 g),
          LogHex ''window list R9='' (g_r9 g)] @
          optional_hex ''window list stack+0x38='' (read_u64 m (saturating_add rsp 0x38)) @
          optional_hex ''window list stack+0x40='' (read_u64 m (saturating_add rsp 0x40))) t')"

section \<open>INT 2E emulation\<close>

definition trace_window_list_entry :: "trace_env \<Rightarrow> vmem \<Rightarrow> gregs \<Rightarrow> traces \<Rightarrow> traces option" where
  "trace_window_list_entry e m g t =
     (if g_rax g \<noteq> 0x132d then Some t
      else let t' = t\<lparr>tt_window_entries := tt_window_entries t + 1\<rparr>; rsp = g_rsp g in
        if tt_window_entries t \<ge> 16 then Some t'
        else emit_lines e ([LogText (ascii ''window list before INT 2E emulation''), LogHex ''window list original RIP='' (g_rip g),
          LogHex ''window list original RSP='' rsp, LogHex ''window list original R10='' (g_r10 g),
          LogHex ''window list original RDX='' (g_rdx g), LogHex ''window list original R8='' (g_r8 g),
          LogHex ''window list original R9='' (g_r9 g)] @
          optional_hex ''window list original stack+0x38='' (read_u64 m (saturating_add rsp 0x38)) @
          optional_hex ''window list original stack+0x40='' (read_u64 m (saturating_add rsp 0x40))) t')"

fun strategy_cap :: "strategy \<Rightarrow> u64" where
  "strategy_cap Rewind = 8"
| "strategy_cap PrivateTrampoline = 8"
| "strategy_cap PatchedSite = 64"
| "strategy_cap FallbackSkip = 8"

fun strategy_prefix :: "strategy \<Rightarrow> string" where
  "strategy_prefix Rewind = ''Wine INT 2E rewound to direct syscall RIP=''"
| "strategy_prefix PrivateTrampoline = ''Wine INT 2E private syscall thunk for RIP=''"
| "strategy_prefix PatchedSite = ''Wine INT 2E patched to syscall RIP=''"
| "strategy_prefix FallbackSkip = ''Wine INT 2E patch unavailable; advanced RIP=''"

definition log_bounded :: "trace_env \<Rightarrow> strategy \<Rightarrow> u64 \<Rightarrow> traces \<Rightarrow> traces option" where
  "log_bounded e s v t =
     (let t' = t\<lparr>tt_strategies := (tt_strategies t)(s := tt_strategies t s + 1)\<rparr> in
      if tt_strategies t s < strategy_cap s then emit_lines e [LogHex (strategy_prefix s) v] t' else Some t')"

text \<open>The branch of \<^verbatim>\<open>skip_int2e_fault\<close> that answers a fault, with the value it logs.\<close>

definition fault_strategy :: "int2e_env \<Rightarrow> fault_regs \<Rightarrow> trampolines \<Rightarrow> (strategy \<times> u64) option" where
  "fault_strategy e r w =
     (if f_trapno r \<noteq> 13 \<or> read_memory (tr_mem w) (f_rip r) 2 \<noteq> Some INT2E_INSTRUCTION then None
      else if preceding_direct_syscall (tr_mem w) (f_rip r) \<noteq> None then Some (Rewind, f_rip r)
      else case private_syscall_trampoline e (f_rip r) w of
        (w1, Some _) \<Rightarrow> Some (PrivateTrampoline, f_rip r)
      | (w1, None) \<Rightarrow>
          if snd (patch_to_syscall e (f_rip r) w1) then Some (PatchedSite, f_rip r)
          else map_option (Pair FallbackSkip) (next_instruction (f_rip r)))"

definition traced_int2e_fault :: "trace_env \<Rightarrow> int2e_env \<Rightarrow> gregs \<Rightarrow> fault_regs \<Rightarrow> trampolines \<Rightarrow> traces \<Rightarrow>
    ((trampolines \<times> fault_regs \<times> bool) \<times> traces) option" where
  "traced_int2e_fault te e g r w t =
     map_option (Pair (skip_int2e_fault e r w))
       (if f_trapno r \<noteq> 13 \<or> read_memory (tr_mem w) (f_rip r) 2 \<noteq> Some INT2E_INSTRUCTION then Some t
        else Option.bind (trace_window_list_entry te (tr_mem w) g t) (\<lambda>t.
          case fault_strategy e r w of None \<Rightarrow> Some t | Some (s, v) \<Rightarrow> log_bounded te s v t))"

section \<open>File mappings and reads\<close>

text \<open>The decimal digits of a descriptor, filled from the back of ten bytes.\<close>

fun fd_digits :: "nat \<Rightarrow> nat \<Rightarrow> bytes \<Rightarrow> (nat \<times> bytes) option" where
  "fd_digits v 0 digits = None"
| "fd_digits v (Suc start) digits =
     Option.bind (arr_set digits start (48 + of_nat (v mod 10))) (\<lambda>digits.
       if v div 10 = 0 then Some (start, digits) else fd_digits (v div 10) start digits)"

definition fd_link :: "int \<Rightarrow> bytes option" where
  "fd_link fd = Option.bind (fd_digits (nat (max fd 0)) 10 (replicate 10 0)) (\<lambda>(start, digits).
     copy_to (drop start digits) (length (ascii ''/proc/self/fd/'')) (ascii ''/proc/self/fd/'' @ replicate 12 0))"

text \<open>\<^verbatim>\<open>readlink\<close> fills at most 255 bytes of the buffer; the second component is the length, zero on failure.\<close>

definition fd_path :: "trace_env \<Rightarrow> int \<Rightarrow> bytes \<Rightarrow> (bytes \<times> nat) option" where
  "fd_path e fd path = Option.bind (fd_link fd) (\<lambda>link.
     case tv_readlink e (c_string link) of
       None \<Rightarrow> Some (path, 0)
     | Some target \<Rightarrow> (let got = take (length path - 1) target in
         if got = [] then Some (path, 0)
         else Option.bind (copy_to got 0 path) (\<lambda>path. map_option (\<lambda>path. (path, length got)) (arr_set path (length got) 0))))"

definition is_system_dll :: "bytes \<Rightarrow> bool" where
  "is_system_dll path \<longleftrightarrow> strip_suffix (ascii ''/ntdll.dll'') path \<noteq> None \<or> strip_suffix (ascii ''/win32u.dll'') path \<noteq> None"

definition trace_system_dll_map :: "trace_env \<Rightarrow> int \<Rightarrow> u64 \<Rightarrow> u64 \<Rightarrow> u32 \<Rightarrow> u32 \<Rightarrow> u64 \<Rightarrow> traces \<Rightarrow> traces option" where
  "trace_system_dll_map e fd view len prot flags off t =
     (if \<not> dw_enabled (tt_debug t) \<or> \<not> tv_game_process e then Some t
      else Option.bind (fd_path e fd (replicate 256 0)) (\<lambda>(path, n).
        if \<not> is_system_dll (take n path) then Some t
        else let t' = t\<lparr>tt_map_events := tt_map_events t + 1\<rparr> in
          if tt_map_events t \<ge> 64 then Some t'
          else emit_lines e [LogText (ascii ''system DLL file mapping''), LogText (c_string path), LogHex ''system DLL map view='' view,
            LogHex ''system DLL map length='' len, LogHex ''system DLL map offset='' off,
            LogHex ''system DLL map prot='' (scast prot), LogHex ''system DLL map flags='' (scast flags)] t'))"

definition trace_system_dll_read :: "trace_env \<Rightarrow> string \<Rightarrow> int \<Rightarrow> u64 \<Rightarrow> u64 \<Rightarrow> traces \<Rightarrow> traces option" where
  "trace_system_dll_read e kind fd len off t =
     (if \<not> dw_enabled (tt_debug t) \<or> len < 0x100 \<or> \<not> tv_game_process e then Some t
      else Option.bind (fd_path e fd (replicate 256 0)) (\<lambda>(path, n).
        if \<not> is_system_dll (take n path) then Some t
        else let t' = t\<lparr>tt_read_events := tt_read_events t + 1\<rparr> in
          if tt_read_events t \<ge> 32 then Some t'
          else emit_lines e [LogText (ascii ''system DLL file read''), LogText (ascii kind), LogText (c_string path),
            LogHex ''system DLL read length='' len, LogHex ''system DLL read offset='' off] t'))"

definition log_rewrite :: "trace_env \<Rightarrow> string \<Rightarrow> int \<Rightarrow> u64 \<Rightarrow> traces \<Rightarrow> traces option" where
  "log_rewrite e kind fd rewritten t =
     Option.bind (fd_path e fd (replicate 256 0)) (\<lambda>(path, n).
       emit_lines e ([LogText (ascii kind)] @ (if n > 0 then [LogText (c_string path)] else []) @ [LogHex ''thunks rewritten='' rewritten]) t)"

section \<open>Forwarded faults\<close>

definition trace_forwarded_game_fault :: "trace_env \<Rightarrow> vmem \<Rightarrow> fault_regs \<Rightarrow> u32 \<Rightarrow> u64 \<Rightarrow> traces \<Rightarrow> traces option" where
  "trace_forwarded_game_fault e m r si_code address t =
     (if \<not> tv_game_process e then Some t
      else let t' = t\<lparr>tt_game_faults := tt_game_faults t + 1\<rparr> in
        if tt_game_faults t \<ge> 8 then Some t'
        else let opcode = (case read_u16 m (f_rip r) of Some v \<Rightarrow> v | None \<Rightarrow> 0xffff) in
          emit_lines e [LogText (ascii ''game SIGSEGV forwarded to Wine''), LogHex ''game fault RIP='' (f_rip r),
            LogHex ''game fault trap='' (f_trapno r), LogHex ''game fault si_code='' (scast si_code),
            LogHex ''game fault address='' address, LogHex ''game fault opcode='' (ucast opcode)] t')"

section \<open>The logger does not fail\<close>

definition sane_ids :: "debug_env \<Rightarrow> bool" where
  "sane_ids e \<longleftrightarrow> dv_pid e < 2 ^ 31 \<and> dv_tid e < 2 ^ 31"

lemma emit_settings [simp]: "dw_enabled (emit bs w) = dw_enabled w" "dw_errno (emit bs w) = dw_errno w \<or> dw_write_errno w \<noteq> None"
  by (auto simp: emit_def write_fd_def Let_def split: option.splits)

lemma log_one_total:
  assumes "sane_ids e"
  shows "\<exists>w'. log_one e l w = Some w' \<and> dw_enabled w' = dw_enabled w \<and> dw_errno w' = dw_errno w \<and> (\<not> dw_enabled w \<longrightarrow> w' = w)"
proof (cases l)
  case (LogText t)
  show ?thesis
  proof (cases "dw_enabled w")
    case True
    with assms logged_message [of w e t] LogText show ?thesis by (auto simp: sane_ids_def)
  qed (simp add: LogText debug_log_def with_errno_saved_def)
next
  case (LogHex label v)
  show ?thesis
  proof (cases "dw_enabled w")
    case True
    with assms number_logged [of w e v "Some (ascii label)"] LogHex show ?thesis by (auto simp: sane_ids_def)
  qed (simp add: LogHex debug_log_hex_def with_errno_saved_def)
qed

lemma log_lines_total:
  assumes "sane_ids e"
  shows "\<exists>w'. log_lines e ls w = Some w' \<and> dw_enabled w' = dw_enabled w \<and> dw_errno w' = dw_errno w \<and> (\<not> dw_enabled w \<longrightarrow> w' = w)"
proof (induction ls arbitrary: w)
  case (Cons l ls)
  from log_one_total [OF assms, of l w] obtain w1 where
    "log_one e l w = Some w1" "dw_enabled w1 = dw_enabled w" "dw_errno w1 = dw_errno w" "\<not> dw_enabled w \<longrightarrow> w1 = w" by blast
  with Cons.IH [of w1] show ?case by auto
qed simp

lemma log_lines_append: "log_lines e (ks @ ls) w = Option.bind (log_lines e ks w) (log_lines e ls)"
  by (induction ks arbitrary: w) (auto split: bind_splits)

section \<open>The path behind a descriptor\<close>

lemma DIGITS_decimal: "d < 10 \<Longrightarrow> DIGITS ! d = 48 + of_nat d"
proof -
  have "\<forall>d<10. DIGITS ! d = 48 + of_nat d" by (simp add: DIGITS_def All_less_Suc numeral_eq_Suc)
  then show "d < 10 \<Longrightarrow> DIGITS ! d = 48 + of_nat d" by blast
qed

lemma fd_digits_number: "fd_digits v start digits = number_loop 10 v start digits"
proof (induction v start digits rule: fd_digits.induct)
  case (2 v start digits)
  have m: "v mod 10 < 10" by simp
  then have "arr_get DIGITS (v mod 10) = Some (48 + of_nat (v mod 10))"
    using DIGITS_decimal [OF m] by (simp add: arr_get_def length_DIGITS)
  then show ?case using 2 by (cases "arr_set digits start (48 + of_nat (v mod 10))") auto
qed simp

lemma fd_link_text:
  assumes "fd < 2 ^ 31"
  shows "\<exists>link. fd_link fd = Some link \<and> c_string link = ascii ''/proc/self/fd/'' @ digit_chars 10 (nat (max fd 0))"
proof -
  let ?n = "nat (max fd 0)" and ?p = "ascii ''/proc/self/fd/''"
  have "?n < 10 ^ Suc 9" using assms by simp
  then have len: "length (digits_of 10 ?n) \<le> 10" using length_digits_of [of 10 ?n 9] by simp
  then obtain start out where o: "number_loop 10 ?n 10 (replicate 10 0) = Some (start, out)" "drop start out = digit_chars 10 ?n"
    using number_loop_digits [of 10 ?n 10 "replicate 10 0"] by auto
  have l: "length (digit_chars 10 ?n) \<le> 10" using len by (simp add: digit_chars_def)
  have "fd_link fd = Some (?p @ digit_chars 10 ?n @ replicate (12 - length (digit_chars 10 ?n)) 0)"
    using o l length_drop [of start out] by (simp add: fd_link_def fd_digits_number copy_to_def)
  moreover have "b \<noteq> 0" if "b \<in> set (digit_chars 10 ?n)" for b
  proof -
    from that obtain d where "d < 10" "b = DIGITS ! d" using digits_of_less [of 10 _ ?n] by (auto simp: digit_chars_def)
    moreover have "0 \<notin> set DIGITS" by (simp add: DIGITS_def)
    moreover have "DIGITS ! d \<in> set DIGITS" using \<open>d < 10\<close> by (intro nth_mem) (simp add: length_DIGITS)
    ultimately show ?thesis by metis
  qed
  moreover have "replicate (12 - length (digit_chars 10 ?n)) (0 :: u8) = 0 # replicate (11 - length (digit_chars 10 ?n)) 0"
    using l by (cases "12 - length (digit_chars 10 ?n)") (auto simp: Suc_diff_le)
  ultimately show ?thesis by (simp add: c_string_def takeWhile_append)
qed

section \<open>Budgets\<close>

text \<open>The answered faults in the order they come, each with the strategy that answered it.\<close>

fun log_faults :: "trace_env \<Rightarrow> (strategy \<times> u64) list \<Rightarrow> traces \<Rightarrow> traces option" where
  "log_faults e [] t = Some t"
| "log_faults e ((s, v) # evs) t = Option.bind (log_bounded e s v t) (log_faults e evs)"

definition events_of :: "strategy \<Rightarrow> (strategy \<times> u64) list \<Rightarrow> (strategy \<times> u64) list" where
  "events_of s evs = filter (\<lambda>ev. fst ev = s) evs"

definition fault_line :: "strategy \<times> u64 \<Rightarrow> log_line" where
  "fault_line ev = LogHex (strategy_prefix (fst ev)) (snd ev)"

text \<open>What is logged from given counters on: an event as long as its own strategy has budget left.\<close>

fun within_budget :: "(strategy \<Rightarrow> nat) \<Rightarrow> (strategy \<times> u64) list \<Rightarrow> (strategy \<times> u64) list" where
  "within_budget used [] = []"
| "within_budget used ((s, v) # evs) =
     (if used s < unat (strategy_cap s) then [(s, v)] else []) @ within_budget (used(s := Suc (used s))) evs"

lemma within_budget_subseq: "subseq (within_budget used evs) evs"
proof (induction evs arbitrary: used)
  case (Cons ev evs)
  then show ?case by (cases ev) auto
qed simp

lemma within_budget_events: "events_of s (within_budget used evs) = take (unat (strategy_cap s) - used s) (events_of s evs)"
proof (induction evs arbitrary: used)
  case (Cons ev evs)
  obtain s' v where ev: "ev = (s', v)" by (cases ev)
  from Cons.IH [of "used(s' := Suc (used s'))"] show ?case
    by (cases "s' = s"; cases "used s' < unat (strategy_cap s')") (auto simp: ev events_of_def take_Cons' fun_upd_def)
qed (simp add: events_of_def)

lemma log_faults_budget:
  assumes "sane_ids (tv_debug e)" and "\<And>s. unat (tt_strategies t s) + length evs < 2 ^ 64"
  shows "\<exists>t'. log_faults e evs t = Some t' \<and>
    log_lines (tv_debug e) (map fault_line (within_budget (\<lambda>s. unat (tt_strategies t s)) evs)) (tt_debug t) = Some (tt_debug t') \<and>
    (\<forall>s. unat (tt_strategies t' s) = unat (tt_strategies t s) + length (events_of s evs)) \<and>
    t' = t\<lparr>tt_strategies := tt_strategies t', tt_debug := tt_debug t'\<rparr>"
  using assms(2)
proof (induction evs arbitrary: t)
  case (Cons ev evs)
  obtain s v where ev: "ev = (s, v)" by (cases ev)
  let ?c = "(tt_strategies t)(s := tt_strategies t s + 1)"
  let ?ls = "if tt_strategies t s < strategy_cap s then [fault_line (s, v)] else []"
  have inc: "unat (tt_strategies t s + 1) = Suc (unat (tt_strategies t s))"
    using Cons.prems [of s] by (subst unat_add_no_overflow) simp_all
  then have used: "(\<lambda>s. unat (?c s)) = (\<lambda>s. unat (tt_strategies t s))(s := Suc (unat (tt_strategies t s)))" by auto
  from log_lines_total [OF assms(1), of ?ls "tt_debug t"] obtain w where
    w: "log_lines (tv_debug e) ?ls (tt_debug t) = Some w" by blast
  let ?t = "t\<lparr>tt_strategies := ?c, tt_debug := w\<rparr>"
  have step: "log_bounded e s v t = Some ?t"
    using w by (auto simp: log_bounded_def Let_def emit_lines_def fault_line_def split: if_splits)
  have "unat (tt_strategies ?t s') + length evs < 2 ^ 64" for s' using Cons.prems [of s'] inc by (auto simp del: inc)
  from Cons.IH [OF this] obtain t' where
    t': "log_faults e evs ?t = Some t'"
      "log_lines (tv_debug e) (map fault_line (within_budget (\<lambda>s. unat (?c s)) evs)) w = Some (tt_debug t')"
      "\<forall>s. unat (tt_strategies t' s) = unat (?c s) + length (events_of s evs)"
      "t' = ?t\<lparr>tt_strategies := tt_strategies t', tt_debug := tt_debug t'\<rparr>" by auto
  have "map fault_line (within_budget (\<lambda>s. unat (tt_strategies t s)) (ev # evs)) = ?ls @ map fault_line (within_budget (\<lambda>s. unat (?c s)) evs)"
    unfolding used ev by (simp add: word_less_nat_alt)
  then have "log_lines (tv_debug e) (map fault_line (within_budget (\<lambda>s. unat (tt_strategies t s)) (ev # evs))) (tt_debug t) = Some (tt_debug t')"
    using w t'(2) by (simp only: log_lines_append bind.bind_lunit)
  moreover have "\<forall>s'. unat (tt_strategies t' s') = unat (tt_strategies t s') + length (events_of s' (ev # evs))"
    using t'(3) inc by (simp add: events_of_def ev)
  ultimately show ?case using t'(1,4) step ev by (intro exI [of _ t']) simp
qed (simp add: events_of_def)

text \<open>
  The log budgets of the \<open>int 2e\<close> strategies are independent. Whatever order the faults come in, fewer
  than \<open>2^64\<close> of them, the log gets of each strategy exactly its first events up to
  its own cap, in the order they happened: a strategy that fires on every system call never takes a
  line from a rare one. The logger never fails, and nothing but the counters of the strategies and the log changes.
\<close>

lemma strategy_budgets_independent:
  assumes "sane_ids (tv_debug e)" and "length evs < 2 ^ 64" and "tt_strategies t = (\<lambda>_. 0)"
  shows "\<exists>t' logged. log_faults e evs t = Some t' \<and> subseq logged evs \<and>
    (\<forall>s. events_of s logged = take (unat (strategy_cap s)) (events_of s evs)) \<and>
    log_lines (tv_debug e) (map fault_line logged) (tt_debug t) = Some (tt_debug t') \<and>
    t' = t\<lparr>tt_strategies := tt_strategies t', tt_debug := tt_debug t'\<rparr>"
proof -
  have "unat (tt_strategies t s) + length evs < 2 ^ 64" for s using assms(2,3) by simp
  from log_faults_budget [OF assms(1) this] obtain t' where
    t': "log_faults e evs t = Some t'" "log_lines (tv_debug e) (map fault_line (within_budget (\<lambda>s. 0) evs)) (tt_debug t) = Some (tt_debug t')"
      "t' = t\<lparr>tt_strategies := tt_strategies t', tt_debug := tt_debug t'\<rparr>" unfolding assms(3) by auto
  have "\<forall>s. events_of s (within_budget (\<lambda>s. 0) evs) = take (unat (strategy_cap s)) (events_of s evs)" by (simp add: within_budget_events)
  with t' within_budget_subseq show ?thesis by blast
qed

definition sample_traces :: traces where
  "sample_traces = \<lparr>tt_reflex_hops = 0, tt_window_lists = 0, tt_window_entries = 0, tt_map_events = 0, tt_read_events = 0, tt_game_faults = 0,
     tt_strategies = \<lambda>_. 0, tt_debug = sample_debug\<rparr>"

definition sample_trace_env :: trace_env where
  "sample_trace_env = \<lparr>tv_debug = sample_debug_env, tv_game_process = True, tv_readlink = \<lambda>_. None\<rparr>"

section \<open>Tracing changes no answer\<close>

text \<open>A fault is logged under a strategy exactly when it is answered.\<close>

lemma fault_strategy_answered: "fault_strategy e r w \<noteq> None \<longleftrightarrow> snd (snd (skip_int2e_fault e r w))"
  by (auto simp: fault_strategy_def skip_int2e_fault_def split: option.splits prod.splits bool.splits)

lemma emit_lines_total: "sane_ids (tv_debug e) \<Longrightarrow> \<exists>t'. emit_lines e ls t = Some t'"
  using log_lines_total [of "tv_debug e" ls "tt_debug t"] by (auto simp: emit_lines_def)

lemma log_bounded_total: "sane_ids (tv_debug e) \<Longrightarrow> \<exists>t'. log_bounded e s v t = Some t'"
  by (simp add: log_bounded_def Let_def emit_lines_total)

lemma window_entry_total: "sane_ids (tv_debug e) \<Longrightarrow> \<exists>t'. trace_window_list_entry e m g t = Some t'"
  by (simp add: trace_window_list_entry_def Let_def emit_lines_total)

lemma traced_fault_same:
  assumes "sane_ids (tv_debug te)"
  shows "\<exists>t'. traced_int2e_fault te e g r w t = Some (skip_int2e_fault e r w, t')"
proof -
  from window_entry_total [OF assms] obtain t1 where t1: "trace_window_list_entry te (tr_mem w) g t = Some t1" by blast
  show ?thesis
  proof (cases "fault_strategy e r w")
    case None
    with t1 show ?thesis by (simp add: traced_int2e_fault_def)
  next
    case (Some sv)
    obtain s v where "sv = (s, v)" by (cases sv)
    with Some t1 log_bounded_total [OF assms, of s v t1] show ?thesis by (auto simp: traced_int2e_fault_def)
  qed
qed

end
