(* ===== verification/Pe_Stub.thy ===== *)
theory Pe_Stub
  imports Maps
begin

text \<open>
  \<^verbatim>\<open>runtime/src/syscall/pe_stub_layout.rs\<close>: syscall thunks of a PE file read, viewed or mapped a second
  time get the tail that Windows has. The loop over the buffer is recursion on the list of
  bytes: a thunk that was rewritten is skipped whole, so no byte is looked at after it was
  written. What the real \<^verbatim>\<open>read\<close>, \<^verbatim>\<open>pread\<close>, \<^verbatim>\<open>mmap\<close>, \<^verbatim>\<open>fstat\<close> and \<^verbatim>\<open>mprotect\<close> return is a parameter of each
  interposer; the debug traces are left out.
\<close>

section \<open>Thunk tails\<close>

definition THUNK_LEN :: nat where "THUNK_LEN = 0x20"
definition SERVICE_OFFSET :: nat where "SERVICE_OFFSET = 4"
definition BRANCH_OFFSET :: nat where "BRANCH_OFFSET = 8"
definition TAIL_OFFSET :: nat where "TAIL_OFFSET = 0x15"

definition THUNK_HEAD :: bytes where "THUNK_HEAD = [0x4c, 0x8b, 0xd1, 0xb8]"

definition THUNK_BRANCH :: bytes where
  "THUNK_BRANCH = [0xf6, 0x04, 0x25, 0x08, 0x03, 0xfe, 0x7f, 0x01, 0x75, 0x03, 0x0f, 0x05, 0xc3]"

definition WINDOWS_TAIL :: bytes where
  "WINDOWS_TAIL = [0xcd, 0x2e, 0xc3, 0x0f, 0x1f, 0x84, 0x00, 0x00, 0x00, 0x00, 0x00]"

lemmas thunk_consts = THUNK_LEN_def SERVICE_OFFSET_def BRANCH_OFFSET_def TAIL_OFFSET_def

definition is_syscall_thunk_head :: "bytes \<Rightarrow> bool" where
  "is_syscall_thunk_head bs \<longleftrightarrow> length bs \<ge> THUNK_LEN \<and> take SERVICE_OFFSET bs = THUNK_HEAD \<and>
     take (TAIL_OFFSET - BRANCH_OFFSET) (drop BRANCH_OFFSET bs) = THUNK_BRANCH"

definition thunk_tail :: "bytes \<Rightarrow> bytes" where
  "thunk_tail bs = take (THUNK_LEN - TAIL_OFFSET) (drop TAIL_OFFSET bs)"

function rewrite_syscall_thunk_tails :: "bytes \<Rightarrow> bytes \<times> nat" where
  "rewrite_syscall_thunk_tails bs =
     (if length bs < THUNK_LEN then (bs, 0)
      else if is_syscall_thunk_head bs then
        (let (rest, n) = rewrite_syscall_thunk_tails (drop THUNK_LEN bs) in
         if thunk_tail bs \<noteq> WINDOWS_TAIL then (take TAIL_OFFSET bs @ WINDOWS_TAIL @ rest, n + 1)
         else (take THUNK_LEN bs @ rest, n))
      else (let (rest, n) = rewrite_syscall_thunk_tails (tl bs) in (hd bs # rest, n)))"
  by pat_completeness auto
termination by (relation "measure length") (auto simp: thunk_consts)

function count_pending_thunk_tails :: "bytes \<Rightarrow> nat" where
  "count_pending_thunk_tails bs =
     (if length bs < THUNK_LEN then 0
      else if is_syscall_thunk_head bs then
        (if thunk_tail bs \<noteq> WINDOWS_TAIL then 1 else 0) + count_pending_thunk_tails (drop THUNK_LEN bs)
      else count_pending_thunk_tails (tl bs))"
  by pat_completeness auto
termination by (relation "measure length") (auto simp: thunk_consts)

declare rewrite_syscall_thunk_tails.simps [simp del] count_pending_thunk_tails.simps [simp del]

section \<open>PE files\<close>

definition looks_like_pe_file :: "bytes \<Rightarrow> bool" where
  "looks_like_pe_file bs \<longleftrightarrow> length bs \<ge> 0x40 \<and> take 2 bs = ascii ''MZ'' \<and>
     (let pe_offset = unat (from_le (take 4 (drop 0x3c bs)) :: u32) in
      pe_offset + 4 \<le> length bs \<and> take 4 (drop pe_offset bs) = ascii ''PE'' @ [0, 0])"

definition slice_get :: "bytes \<Rightarrow> nat \<Rightarrow> nat \<Rightarrow> bytes option" where
  "slice_get bs i n = (if i + n \<le> length bs then Some (take n (drop i bs)) else None)"

definition pe_size_of_image :: "bytes \<Rightarrow> u64 option" where
  "pe_size_of_image bs =
     Option.bind (slice_get bs 0x3c 4) (\<lambda>o4.
     map_option (\<lambda>s. ucast (from_le s :: u32)) (slice_get bs (unat (from_le o4 :: u32) + (24 + 56)) 4))"

definition MIN_FILE_READ :: int where "MIN_FILE_READ = 0x1000"
definition MIN_FILE_VIEW :: nat where "MIN_FILE_VIEW = 0x4000"

definition rewrite_complete_pe_read :: "bytes \<Rightarrow> bytes \<times> nat" where
  "rewrite_complete_pe_read bs =
     (if int (length bs) < MIN_FILE_READ \<or> \<not> looks_like_pe_file bs then (bs, 0)
      else rewrite_syscall_thunk_tails bs)"

section \<open>Reads\<close>

record file_status =
  st_regular :: bool
  st_size :: nat
  st_dev :: u64
  st_ino :: u64

text \<open>The buffer after the hook, given what the real call returned and put there.\<close>

definition after_file_read :: "bool \<Rightarrow> file_status option \<Rightarrow> int \<Rightarrow> bytes \<Rightarrow> bytes" where
  "after_file_read game status result buffer =
     (if result < MIN_FILE_READ then buffer
      else if take 2 buffer \<noteq> ascii ''MZ'' then buffer
      else if \<not> game then buffer
      else case status of
        None \<Rightarrow> buffer
      | Some st \<Rightarrow>
          if \<not> st_regular st then buffer
          else fst (rewrite_complete_pe_read (take (nat result) buffer)) @ drop (nat result) buffer)"

definition read_hook :: "bool \<Rightarrow> file_status option \<Rightarrow> int \<times> bytes \<Rightarrow> int \<times> bytes" where
  "read_hook game status real = (case real of (result, buffer) \<Rightarrow> (result, after_file_read game status result buffer))"

definition pread_hook :: "bool \<Rightarrow> file_status option \<Rightarrow> int \<Rightarrow> int \<times> bytes \<Rightarrow> int \<times> bytes" where
  "pread_hook game status offset real = (case real of (result, buffer) \<Rightarrow>
     (result, if offset = 0 then after_file_read game status result buffer else buffer))"

section \<open>Copies of images\<close>

definition IMAGE_TRACK_SLOTS :: nat where "IMAGE_TRACK_SLOTS = 64"

record image_slot =
  is_device :: u64
  is_inode :: u64
  is_start :: u64
  is_end :: u64

type_synonym image_copies = "image_slot list"

definition image_copies_new :: image_copies where
  "image_copies_new = replicate IMAGE_TRACK_SLOTS \<lparr>is_device = 0, is_inode = 0, is_start = 0, is_end = 0\<rparr>"

definition image_slot_of :: "image_copies \<Rightarrow> u64 \<Rightarrow> u64 \<Rightarrow> nat option" where
  "image_slot_of c device inode =
     List.find (\<lambda>i. is_inode (c ! i) = inode \<and> is_device (c ! i) = device) [0..<IMAGE_TRACK_SLOTS]"

definition note_header :: "image_copies \<Rightarrow> u64 \<Rightarrow> u64 \<Rightarrow> u64 \<Rightarrow> u64 \<Rightarrow> image_copies \<times> bool" where
  "note_header c device inode base image_size = (case image_slot_of c device inode of
       Some i \<Rightarrow> (c[i := (c ! i)\<lparr>is_start := base, is_end := saturating_add base image_size\<rparr>], True)
     | None \<Rightarrow> (case List.find (\<lambda>i. is_inode (c ! i) = 0) [0..<IMAGE_TRACK_SLOTS] of
           Some i \<Rightarrow> (c[i := \<lparr>is_device = device, is_inode = inode, is_start = 0, is_end = 0\<rparr>], False)
         | None \<Rightarrow> (c, False)))"

definition in_copy :: "image_copies \<Rightarrow> u64 \<Rightarrow> u64 \<Rightarrow> u64 \<Rightarrow> u64 \<Rightarrow> bool" where
  "in_copy c device inode address len = (case image_slot_of c device inode of
       None \<Rightarrow> False
     | Some i \<Rightarrow> is_start (c ! i) \<noteq> 0 \<and> address \<ge> is_start (c ! i) \<and> saturating_add address len \<le> is_end (c ! i))"

section \<open>Mappings\<close>

definition PROT_READ :: u32 where "PROT_READ = 1"
definition PROT_WRITE :: u32 where "PROT_WRITE = 2"
definition PROT_EXEC :: u32 where "PROT_EXEC = 4"
definition MAP_PRIVATE :: u32 where "MAP_PRIVATE = 2"
definition MAP_FIXED :: u32 where "MAP_FIXED = 0x10"
definition MAP_ANONYMOUS :: u32 where "MAP_ANONYMOUS = 0x20"

record view =
  vw_address :: u64
  vw_bytes :: bytes
  vw_prot :: u32

text \<open>What the system calls made while handling one mapping return; \<open>me_remap\<close> is the private
  remapping of the file, \<open>None\<close> when it fails.\<close>

record map_env =
  me_game :: bool
  me_status :: "file_status option"
  me_unprotect_ok :: bool
  me_remap :: "bytes option"
  me_reprotect_ok :: bool

definition rewrite_prefix :: "nat \<Rightarrow> bytes \<Rightarrow> bytes" where
  "rewrite_prefix n bs = fst (rewrite_syscall_thunk_tails (take n bs)) @ drop n bs"

text \<open>The protection left when write access was added and \<^verbatim>\<open>mprotect\<close> was asked to take it back.\<close>

definition reprotected :: "map_env \<Rightarrow> u32 \<Rightarrow> u32" where
  "reprotected e prot = (if me_reprotect_ok e then prot else prot OR PROT_WRITE)"

definition after_image_map :: "map_env \<Rightarrow> nat \<Rightarrow> image_copies \<Rightarrow> view \<Rightarrow> image_copies \<times> view" where
  "after_image_map e offset c v =
     (if \<not> me_game e then (c, v)
      else case me_status e of
        None \<Rightarrow> (c, v)
      | Some st \<Rightarrow>
          if \<not> st_regular st \<or> st_size st < MIN_FILE_VIEW then (c, v)
          else if offset = 0 then
            (if length (vw_bytes v) > MIN_FILE_VIEW then (c, v)
             else let header = take (min (length (vw_bytes v)) 0x1000) (vw_bytes v) in
               if \<not> looks_like_pe_file header then (c, v)
               else case pe_size_of_image header of
                 None \<Rightarrow> (c, v)
               | Some image_size \<Rightarrow> (fst (note_header c (st_dev st) (st_ino st) (vw_address v) image_size), v))
          else if \<not> in_copy c (st_dev st) (st_ino st) (vw_address v) (of_nat (length (vw_bytes v))) then (c, v)
          else let scan_length = min (length (vw_bytes v)) (st_size st - offset);
                   writable = vw_prot v AND PROT_WRITE \<noteq> 0 in
            if scan_length < THUNK_LEN then (c, v)
            else if \<not> writable \<and> \<not> me_unprotect_ok e then (c, v)
            else (c, v\<lparr>vw_bytes := rewrite_prefix scan_length (vw_bytes v),
                       vw_prot := if writable then vw_prot v else reprotected e (vw_prot v)\<rparr>))"

definition rewrite_pe_view :: "map_env \<Rightarrow> nat \<Rightarrow> view \<Rightarrow> view \<times> nat" where
  "rewrite_pe_view e scan_length v =
     (let bs = take scan_length (vw_bytes v) in
      if \<not> looks_like_pe_file bs \<or> count_pending_thunk_tails bs = 0 then (v, 0)
      else case me_remap e of
        None \<Rightarrow> (v, 0)
      | Some bs' \<Rightarrow> (v\<lparr>vw_bytes := rewrite_prefix scan_length bs', vw_prot := reprotected e (vw_prot v)\<rparr>, snd (rewrite_syscall_thunk_tails (take scan_length bs'))))"

definition after_file_map :: "map_env \<Rightarrow> view \<Rightarrow> view" where
  "after_file_map e v =
     (if \<not> me_game e then v
      else case me_status e of
        None \<Rightarrow> v
      | Some st \<Rightarrow>
          if \<not> st_regular st \<or> st_size st < MIN_FILE_VIEW then v
          else fst (rewrite_pe_view e (min (length (vw_bytes v)) (st_size st)) v))"

text \<open>The generation counter, the tracker and the new mapping after the hook; \<open>real\<close> is the mapping
  the real call made, \<open>None\<close> when it failed.\<close>

definition mmap_hook :: "map_env \<Rightarrow> u32 \<Rightarrow> u32 \<Rightarrow> int \<Rightarrow> nat \<Rightarrow> view option \<Rightarrow> u64 \<Rightarrow> image_copies \<Rightarrow>
    u64 \<times> image_copies \<times> view option" where
  "mmap_hook e prot flags fd offset real generation c = (case real of
       None \<Rightarrow> (generation, c, None)
     | Some v \<Rightarrow>
         if fd \<ge> 0 \<and> flags AND MAP_ANONYMOUS = 0 then
           (let generation' = note_file_mapping generation;
                (c1, v1) = (if prot AND PROT_READ \<noteq> 0 \<and> flags AND MAP_FIXED \<noteq> 0 \<and> flags AND MAP_PRIVATE \<noteq> 0
                            then after_image_map e offset c v else (c, v));
                v2 = (if prot AND PROT_READ \<noteq> 0 \<and> offset = 0 \<and> length (vw_bytes v1) \<ge> MIN_FILE_VIEW \<and> prot AND PROT_EXEC = 0
                      then after_file_map e v1 else v1)
            in (generation', c1, Some v2))
         else (generation, c, Some v))"

section \<open>The rewrite\<close>

lemma rewrite_short: "length bs < THUNK_LEN \<Longrightarrow> rewrite_syscall_thunk_tails bs = (bs, 0)"
  by (subst rewrite_syscall_thunk_tails.simps) simp

lemma rewrite_thunk:
  assumes "is_syscall_thunk_head bs"
  shows "rewrite_syscall_thunk_tails bs =
    (take TAIL_OFFSET bs @ WINDOWS_TAIL @ fst (rewrite_syscall_thunk_tails (drop THUNK_LEN bs)),
     (if thunk_tail bs \<noteq> WINDOWS_TAIL then 1 else 0) + snd (rewrite_syscall_thunk_tails (drop THUNK_LEN bs)))"
proof -
  have "take THUNK_LEN bs = take TAIL_OFFSET bs @ thunk_tail bs"
    using take_add [of TAIL_OFFSET "THUNK_LEN - TAIL_OFFSET" bs] by (simp add: thunk_tail_def thunk_consts)
  with assms show ?thesis
    by (subst rewrite_syscall_thunk_tails.simps) (auto simp: is_syscall_thunk_head_def split: prod.split)
qed

lemma rewrite_skip:
  assumes "\<not> is_syscall_thunk_head (b # bs)"
  shows "rewrite_syscall_thunk_tails (b # bs) =
    (b # fst (rewrite_syscall_thunk_tails bs), snd (rewrite_syscall_thunk_tails bs))"
proof (cases "length (b # bs) < THUNK_LEN")
  case True
  then show ?thesis by (simp add: rewrite_short)
next
  case False
  with assms show ?thesis by (subst rewrite_syscall_thunk_tails.simps) (simp split: prod.split)
qed

lemma count_pending_eq: "count_pending_thunk_tails bs = snd (rewrite_syscall_thunk_tails bs)"
proof (induction bs rule: count_pending_thunk_tails.induct)
  case (1 bs)
  then show ?case
    by (subst count_pending_thunk_tails.simps, subst rewrite_syscall_thunk_tails.simps) (auto split: prod.splits)
qed

text \<open>Induction along the loop: at the end, at a thunk, or at a byte that starts none.\<close>

lemma thunk_induct [case_names short thunk skip]:
  assumes "\<And>bs. length bs < THUNK_LEN \<Longrightarrow> P bs"
    and "\<And>bs. is_syscall_thunk_head bs \<Longrightarrow> P (drop THUNK_LEN bs) \<Longrightarrow> P bs"
    and "\<And>b bs. \<not> is_syscall_thunk_head (b # bs) \<Longrightarrow> P bs \<Longrightarrow> P (b # bs)"
  shows "P bs"
proof (induction bs rule: rewrite_syscall_thunk_tails.induct)
  case (1 bs)
  show ?case
  proof (cases "length bs < THUNK_LEN")
    case True
    then show ?thesis by (rule assms(1))
  next
    case False
    then obtain b bs' where "bs = b # bs'" by (cases bs) (auto simp: thunk_consts)
    with False 1 assms(2,3) show ?thesis by (cases "is_syscall_thunk_head bs") auto
  qed
qed

lemma length_rewrite: "length (fst (rewrite_syscall_thunk_tails bs)) = length bs"
proof (induction bs rule: thunk_induct)
  case (thunk bs)
  then have "THUNK_LEN \<le> length bs" by (simp add: is_syscall_thunk_head_def)
  with thunk show ?case by (simp add: rewrite_thunk WINDOWS_TAIL_def thunk_consts)
qed (simp_all add: rewrite_short rewrite_skip)

text \<open>The signature of a thunk is never touched, so a rewrite neither makes nor hides one.\<close>

lemma take_rewrite: "take TAIL_OFFSET (fst (rewrite_syscall_thunk_tails bs)) = take TAIL_OFFSET bs"
proof (induction bs rule: thunk_induct)
  case (thunk bs)
  then show ?case by (simp add: rewrite_thunk is_syscall_thunk_head_def thunk_consts)
next
  case (skip b bs)
  have "take n (fst (rewrite_syscall_thunk_tails bs)) = take n bs" if "n \<le> TAIL_OFFSET" for n
    using skip.IH that by (metis min.absorb1 take_take)
  then have "take 20 (fst (rewrite_syscall_thunk_tails bs)) = take 20 bs" by (simp add: TAIL_OFFSET_def)
  with skip.hyps show ?case by (simp add: rewrite_skip TAIL_OFFSET_def take_Cons')
qed (simp add: rewrite_short)

lemma head_cong:
  assumes "length bs = length bs'" and "take TAIL_OFFSET bs = take TAIL_OFFSET bs'"
  shows "is_syscall_thunk_head bs = is_syscall_thunk_head bs'"
proof -
  have "take SERVICE_OFFSET xs = take SERVICE_OFFSET (take TAIL_OFFSET xs)" for xs :: bytes by (simp add: thunk_consts)
  moreover have "take (TAIL_OFFSET - BRANCH_OFFSET) (drop BRANCH_OFFSET xs) = drop BRANCH_OFFSET (take TAIL_OFFSET xs)" for xs :: bytes
    by (simp add: drop_take)
  ultimately show ?thesis using assms unfolding is_syscall_thunk_head_def by metis
qed

lemma rewrite_again: "rewrite_syscall_thunk_tails (fst (rewrite_syscall_thunk_tails bs)) = (fst (rewrite_syscall_thunk_tails bs), 0)"
proof (induction bs rule: thunk_induct)
  case (thunk bs)
  define r where "r = fst (rewrite_syscall_thunk_tails bs)"
  have len: "THUNK_LEN \<le> length bs" using thunk by (simp add: is_syscall_thunk_head_def)
  have r: "r = take TAIL_OFFSET bs @ WINDOWS_TAIL @ fst (rewrite_syscall_thunk_tails (drop THUNK_LEN bs))"
    using thunk by (simp add: rewrite_thunk r_def)
  have head: "is_syscall_thunk_head r"
    unfolding r_def using head_cong [OF length_rewrite take_rewrite, of bs] thunk by simp
  have "thunk_tail r = WINDOWS_TAIL" "drop THUNK_LEN r = fst (rewrite_syscall_thunk_tails (drop THUNK_LEN bs))"
    "take TAIL_OFFSET r = take TAIL_OFFSET bs"
    unfolding r using len by (simp_all add: thunk_tail_def WINDOWS_TAIL_def thunk_consts)
  with rewrite_thunk [OF head] thunk.IH have "rewrite_syscall_thunk_tails r = (r, 0)" by (simp only: r) simp
  then show ?case by (simp only: r_def)
next
  case (skip b bs)
  have "\<not> is_syscall_thunk_head (fst (rewrite_syscall_thunk_tails (b # bs)))"
    using head_cong [OF length_rewrite take_rewrite, of "b # bs"] skip by simp
  with skip show ?case by (simp add: rewrite_skip)
qed (simp add: rewrite_short)

lemma rewrite_confined:
  assumes "fst (rewrite_syscall_thunk_tails bs) ! i \<noteq> bs ! i" and "i < length bs"
  shows "\<exists>k. is_syscall_thunk_head (drop k bs) \<and> k + TAIL_OFFSET \<le> i \<and> i < k + THUNK_LEN"
  using assms
proof (induction bs arbitrary: i rule: thunk_induct)
  case (thunk bs)
  have len: "THUNK_LEN \<le> length bs" using thunk.hyps by (simp add: is_syscall_thunk_head_def)
  show ?case
  proof (cases "i < THUNK_LEN")
    case True
    have "i \<ge> TAIL_OFFSET"
    proof (rule ccontr)
      assume "\<not> i \<ge> TAIL_OFFSET"
      then have "take TAIL_OFFSET (fst (rewrite_syscall_thunk_tails bs)) ! i = take TAIL_OFFSET bs ! i" by (simp add: take_rewrite)
      with \<open>\<not> i \<ge> TAIL_OFFSET\<close> thunk.prems show False by simp
    qed
    with True thunk.hyps show ?thesis by (intro exI [of _ 0]) simp
  next
    case False
    define j where "j = i - THUNK_LEN"
    have i: "i = THUNK_LEN + j" using False by (simp add: j_def)
    have "fst (rewrite_syscall_thunk_tails bs) ! i = fst (rewrite_syscall_thunk_tails (drop THUNK_LEN bs)) ! j"
      using thunk.hyps len by (simp add: rewrite_thunk nth_append i WINDOWS_TAIL_def thunk_consts)
    moreover have "bs ! i = drop THUNK_LEN bs ! j" "j < length (drop THUNK_LEN bs)" using i len thunk.prems(2) by simp_all
    ultimately obtain k where
      "is_syscall_thunk_head (drop k (drop THUNK_LEN bs))" "k + TAIL_OFFSET \<le> j" "j < k + THUNK_LEN"
      using thunk.prems(1) thunk.IH [of j] by metis
    with i show ?thesis by (intro exI [of _ "THUNK_LEN + k"]) (simp add: ac_simps)
  qed
next
  case (skip b bs)
  then obtain j where j: "i = Suc j" by (cases i) (auto simp: rewrite_skip)
  with skip.prems skip.hyps skip.IH [of j] obtain k where
    "is_syscall_thunk_head (drop k bs)" "k + TAIL_OFFSET \<le> j" "j < k + THUNK_LEN" by (auto simp: rewrite_skip)
  with j show ?case by (intro exI [of _ "Suc k"]) simp
qed (simp add: rewrite_short)

text \<open>
  C33: rewriting thunk tails. The rewrite keeps the length of the buffer, counts exactly the
  pending thunks, leaves none pending, is idempotent, and changes no byte outside the tails of
  the thunks it recognised.
\<close>

theorem rewrite_normalises_thunk_tails:
  "length (fst (rewrite_syscall_thunk_tails bs)) = length bs \<and>
   snd (rewrite_syscall_thunk_tails bs) = count_pending_thunk_tails bs \<and>
   count_pending_thunk_tails (fst (rewrite_syscall_thunk_tails bs)) = 0 \<and>
   rewrite_syscall_thunk_tails (fst (rewrite_syscall_thunk_tails bs)) = (fst (rewrite_syscall_thunk_tails bs), 0) \<and>
   (\<forall>i < length bs. fst (rewrite_syscall_thunk_tails bs) ! i = bs ! i \<or>
     (\<exists>k. is_syscall_thunk_head (drop k bs) \<and> k + TAIL_OFFSET \<le> i \<and> i < k + THUNK_LEN))"
  using rewrite_confined by (auto simp: length_rewrite count_pending_eq rewrite_again)

definition sample_thunk :: bytes where
  "sample_thunk = THUNK_HEAD @ [0x5a, 0x13, 0, 0] @ THUNK_BRANCH @ replicate 11 0x90"

lemma sample_thunk_head: "is_syscall_thunk_head sample_thunk" "thunk_tail sample_thunk \<noteq> WINDOWS_TAIL"
  "drop THUNK_LEN sample_thunk = []"
  by (simp_all add: sample_thunk_def is_syscall_thunk_head_def thunk_tail_def THUNK_HEAD_def THUNK_BRANCH_def WINDOWS_TAIL_def
      thunk_consts replicate_numeral_Cons)

theorem rewrite_normalises_thunk_tails_witness:
  "count_pending_thunk_tails sample_thunk = 1 \<and> fst (rewrite_syscall_thunk_tails sample_thunk) ! 4 = 0x5a \<and>
   count_pending_thunk_tails (fst (rewrite_syscall_thunk_tails sample_thunk)) = 0"
proof -
  note r = rewrite_normalises_thunk_tails [of sample_thunk]
  have "snd (rewrite_syscall_thunk_tails sample_thunk) = 1"
    using sample_thunk_head by (simp add: rewrite_thunk rewrite_short thunk_consts)
  moreover have "fst (rewrite_syscall_thunk_tails sample_thunk) ! 4 = 0x5a"
    using sample_thunk_head by (simp add: rewrite_thunk nth_append sample_thunk_def THUNK_HEAD_def thunk_consts)
  ultimately show ?thesis using r by simp
qed

section \<open>Which image is a copy\<close>

type_synonym header_event = "u64 \<times> u64 \<times> u64 \<times> u64"

definition note_headers :: "header_event list \<Rightarrow> image_copies" where
  "note_headers hs = fold (\<lambda>(device, inode, base, sz) c. fst (note_header c device inode base sz)) hs image_copies_new"

definition file_of :: "header_event \<Rightarrow> u64 \<times> u64" where
  "file_of h = (fst h, fst (snd h))"

definition headers_of :: "header_event list \<Rightarrow> u64 \<times> u64 \<Rightarrow> header_event list" where
  "headers_of hs k = filter (\<lambda>h. file_of h = k) hs"

text \<open>The range of the copy after the headers of one file: none before the second.\<close>

definition copy_range :: "header_event list \<Rightarrow> u64 \<times> u64" where
  "copy_range l = (if length l \<le> 1 then (0, 0) else case last l of (_, _, base, sz) \<Rightarrow> (base, saturating_add base sz))"

definition slot_key :: "image_slot \<Rightarrow> u64 \<times> u64" where
  "slot_key s = (is_device s, is_inode s)"

definition tracks :: "image_copies \<Rightarrow> header_event list \<Rightarrow> bool" where
  "tracks c hs \<longleftrightarrow> length c = IMAGE_TRACK_SLOTS \<and>
     (\<forall>i < IMAGE_TRACK_SLOTS. is_inode (c ! i) \<noteq> 0 \<longrightarrow> headers_of hs (slot_key (c ! i)) \<noteq> [] \<and>
        (is_start (c ! i), is_end (c ! i)) = copy_range (headers_of hs (slot_key (c ! i)))) \<and>
     (\<forall>i < IMAGE_TRACK_SLOTS. \<forall>j < IMAGE_TRACK_SLOTS. is_inode (c ! i) \<noteq> 0 \<and> slot_key (c ! i) = slot_key (c ! j) \<longrightarrow> i = j) \<and>
     (\<forall>h \<in> set hs. \<exists>i < IMAGE_TRACK_SLOTS. slot_key (c ! i) = file_of h) \<and>
     length (filter (\<lambda>s. is_inode s \<noteq> 0) c) \<le> card (file_of ` set hs)"

lemma image_slot_of_Some: "image_slot_of c d n = Some i \<Longrightarrow> i < IMAGE_TRACK_SLOTS \<and> slot_key (c ! i) = (d, n)"
  by (auto simp: image_slot_of_def slot_key_def dest!: find_SomeD)

lemma image_slot_of_None: "image_slot_of c d n = None \<Longrightarrow> i < IMAGE_TRACK_SLOTS \<Longrightarrow> slot_key (c ! i) \<noteq> (d, n)"
  by (auto simp: image_slot_of_def slot_key_def find_None_iff)

lemma headers_of_append: "headers_of (hs @ [h]) k = (if file_of h = k then headers_of hs k @ [h] else headers_of hs k)"
  by (simp add: headers_of_def)

lemma headers_of_empty: "headers_of hs k = [] \<longleftrightarrow> k \<notin> file_of ` set hs"
  by (auto simp: headers_of_def filter_empty_conv)

lemma tracks_new: "tracks image_copies_new []"
  by (simp add: tracks_def image_copies_new_def)

lemma tracksD:
  assumes "tracks c hs"
  shows "length c = IMAGE_TRACK_SLOTS"
    and "\<And>i. i < IMAGE_TRACK_SLOTS \<Longrightarrow> is_inode (c ! i) \<noteq> 0 \<Longrightarrow> headers_of hs (slot_key (c ! i)) \<noteq> []"
    and "\<And>i. i < IMAGE_TRACK_SLOTS \<Longrightarrow> is_inode (c ! i) \<noteq> 0 \<Longrightarrow>
           (is_start (c ! i), is_end (c ! i)) = copy_range (headers_of hs (slot_key (c ! i)))"
    and "\<And>i j. i < IMAGE_TRACK_SLOTS \<Longrightarrow> j < IMAGE_TRACK_SLOTS \<Longrightarrow> is_inode (c ! i) \<noteq> 0 \<Longrightarrow> slot_key (c ! i) = slot_key (c ! j) \<Longrightarrow> i = j"
    and "\<And>h. h \<in> set hs \<Longrightarrow> \<exists>i < IMAGE_TRACK_SLOTS. slot_key (c ! i) = file_of h"
    and "length (filter (\<lambda>s. is_inode s \<noteq> 0) c) \<le> card (file_of ` set hs)"
  using assms unfolding tracks_def by blast+

text \<open>One header: the slot of its file gets the new range, all others keep theirs.\<close>

lemma tracks_update:
  assumes t: "tracks c hs" and i: "i < IMAGE_TRACK_SLOTS" and new: "slot_key s = file_of h" "is_inode s \<noteq> 0"
    and free: "is_inode (c ! i) = 0 \<or> slot_key (c ! i) = file_of h"
    and only: "\<And>j. j < IMAGE_TRACK_SLOTS \<Longrightarrow> slot_key (c ! j) = file_of h \<Longrightarrow> j = i"
    and rng: "(is_start s, is_end s) = copy_range (headers_of hs (file_of h) @ [h])"
    and cnt: "length (filter (\<lambda>s. is_inode s \<noteq> 0) (c[i := s])) \<le> card (file_of ` set (hs @ [h]))"
    and kept: "\<And>h'. h' \<in> set hs \<Longrightarrow> file_of h' \<noteq> file_of h \<Longrightarrow> slot_key (c ! i) \<noteq> file_of h'"
  shows "tracks (c[i := s]) (hs @ [h])"
proof -
  note T = tracksD [OF t]
  have nth: "c[i := s] ! j = (if j = i then s else c ! j)" if "j < IMAGE_TRACK_SLOTS" for j
    using that T(1) by (simp add: nth_list_update)
  have other: "slot_key (c ! j) \<noteq> file_of h" if "j < IMAGE_TRACK_SLOTS" "j \<noteq> i" for j using only that by blast
  show ?thesis
    unfolding tracks_def
  proof (intro conjI allI impI ballI)
    show "length (c[i := s]) = IMAGE_TRACK_SLOTS" using T(1) by simp
    show "length (filter (\<lambda>s. is_inode s \<noteq> 0) (c[i := s])) \<le> card (file_of ` set (hs @ [h]))" by (rule cnt)
  next
    fix j assume j: "j < IMAGE_TRACK_SLOTS" "is_inode (c[i := s] ! j) \<noteq> 0"
    show "headers_of (hs @ [h]) (slot_key (c[i := s] ! j)) \<noteq> []"
      using j new other T(2) by (cases "j = i") (simp_all add: nth headers_of_append)
    show "(is_start (c[i := s] ! j), is_end (c[i := s] ! j)) = copy_range (headers_of (hs @ [h]) (slot_key (c[i := s] ! j)))"
      using j new other [OF j(1)] T(3) [OF j(1)] rng by (cases "j = i") (auto simp: nth headers_of_append)
  next
    fix j l assume "j < IMAGE_TRACK_SLOTS" "l < IMAGE_TRACK_SLOTS"
      "is_inode (c[i := s] ! j) \<noteq> 0 \<and> slot_key (c[i := s] ! j) = slot_key (c[i := s] ! l)"
    then show "j = l" using new other [of j] other [of l] T(4) [of j l] by (cases "j = i"; cases "l = i") (auto simp: nth)
  next
    fix h' assume "h' \<in> set (hs @ [h])"
    then consider "file_of h' = file_of h" | "h' \<in> set hs" "file_of h' \<noteq> file_of h" by auto
    then show "\<exists>j < IMAGE_TRACK_SLOTS. slot_key (c[i := s] ! j) = file_of h'"
    proof cases
      case 1
      with i new nth show ?thesis by auto
    next
      case 2
      from T(5) [OF 2(1)] obtain j where j: "j < IMAGE_TRACK_SLOTS" "slot_key (c ! j) = file_of h'" by blast
      with kept [OF 2] have "j \<noteq> i" by auto
      with j nth show ?thesis by auto
    qed
  qed
qed

lemma note_header_tracks:
  assumes t: "tracks c hs" and h: "h = (d, n, base, sz)" "n \<noteq> 0" and fits: "card (file_of ` set (hs @ [h])) \<le> IMAGE_TRACK_SLOTS"
    and nz: "\<And>h'. h' \<in> set hs \<Longrightarrow> snd (file_of h') \<noteq> 0"
  shows "tracks (fst (note_header c d n base sz)) (hs @ [h])"
proof (cases "image_slot_of c d n")
  case (Some i)
  note T = tracksD [OF t]
  from image_slot_of_Some [OF Some] have i: "i < IMAGE_TRACK_SLOTS" and key: "slot_key (c ! i) = file_of h"
    by (simp_all add: h file_of_def)
  then have ino: "is_inode (c ! i) \<noteq> 0" using h by (simp add: slot_key_def file_of_def)
  let ?s = "(c ! i)\<lparr>is_start := base, is_end := saturating_add base sz\<rparr>"
  have "headers_of hs (file_of h) \<noteq> []" using T(2) [OF i ino] key by simp
  then have rng: "(is_start ?s, is_end ?s) = copy_range (headers_of hs (file_of h) @ [h])"
    using h by (cases "headers_of hs (file_of h)") (auto simp: copy_range_def)
  have mem: "file_of h \<in> file_of ` set hs" using \<open>headers_of hs (file_of h) \<noteq> []\<close> by (simp add: headers_of_empty)
  have "length (filter (\<lambda>s. is_inode s \<noteq> 0) (c[i := ?s])) = length (filter (\<lambda>s. is_inode s \<noteq> 0) c)"
    using length_filter_update [of i c "\<lambda>s. is_inode s \<noteq> 0" ?s] i T(1) ino by simp
  with T(6) mem have cnt: "length (filter (\<lambda>s. is_inode s \<noteq> 0) (c[i := ?s])) \<le> card (file_of ` set (hs @ [h]))"
    by (simp add: insert_absorb)
  have k: "slot_key ?s = file_of h" using key by (simp add: slot_key_def)
  have "tracks (c[i := ?s]) (hs @ [h])"
    by (rule tracks_update [OF t i k _ _ _ rng cnt]) (use ino key T(4) [OF i _ ino] in auto)
  with Some show ?thesis by (simp add: note_header_def)
next
  case None
  note T = tracksD [OF t]
  have no: "slot_key (c ! j) \<noteq> file_of h" if "j < IMAGE_TRACK_SLOTS" for j
    using image_slot_of_None [OF None that] by (simp add: h file_of_def)
  then have new: "file_of h \<notin> file_of ` set hs" using T(5) by fastforce
  have c1: "card (file_of ` set (hs @ [h])) = card (file_of ` set hs) + 1" using new by simp
  obtain i where f: "List.find (\<lambda>i. is_inode (c ! i) = 0) [0..<IMAGE_TRACK_SLOTS] = Some i"
  proof (cases "List.find (\<lambda>i. is_inode (c ! i) = 0) [0..<IMAGE_TRACK_SLOTS]")
    case none: None
    then have "filter (\<lambda>s. is_inode s \<noteq> 0) c = c" using T(1) by (auto simp: find_None_iff filter_id_conv in_set_conv_nth)
    with T(1,6) c1 fits show thesis by simp
  qed
  from find_SomeD [OF f] have i: "i < IMAGE_TRACK_SLOTS" "is_inode (c ! i) = 0" by auto
  let ?s = "\<lparr>is_device = d, is_inode = n, is_start = 0, is_end = 0\<rparr>"
  have "headers_of hs (file_of h) = []" using new by (simp add: headers_of_empty)
  then have rng: "(is_start ?s, is_end ?s) = copy_range (headers_of hs (file_of h) @ [h])" by (simp add: copy_range_def)
  have cnt: "length (filter (\<lambda>s. is_inode s \<noteq> 0) (c[i := ?s])) \<le> card (file_of ` set (hs @ [h]))"
    using length_filter_update [of i c "\<lambda>s. is_inode s \<noteq> 0" ?s] i T(1,6) h(2) c1 by simp
  have k: "slot_key ?s = file_of h" by (simp add: slot_key_def file_of_def h)
  have kept: "slot_key (c ! i) \<noteq> file_of h'" if "h' \<in> set hs" for h'
    using nz [OF that] i(2) by (metis slot_key_def snd_conv)
  have "tracks (c[i := ?s]) (hs @ [h])"
    by (rule tracks_update [OF t i(1) k _ _ _ rng cnt]) (use i(2) no kept h in auto)
  with None f show ?thesis by (simp add: note_header_def)
qed

lemma note_headers_track:
  assumes "\<forall>h \<in> set hs. snd (file_of h) \<noteq> 0" and "card (file_of ` set hs) \<le> IMAGE_TRACK_SLOTS"
  shows "tracks (note_headers hs) hs"
  using assms
proof (induction hs rule: rev_induct)
  case (snoc h hs)
  obtain d n base sz where h: "h = (d, n, base, sz)" by (cases h)
  have "card (file_of ` set hs) \<le> card (file_of ` set (hs @ [h]))" by (rule card_mono) auto
  with snoc.prems have "card (file_of ` set hs) \<le> IMAGE_TRACK_SLOTS" by linarith
  with snoc have t: "tracks (note_headers hs) hs" by simp
  have "n \<noteq> 0" using snoc.prems(1) h by (auto simp: file_of_def)
  from note_header_tracks [OF t h this snoc.prems(2)] snoc.prems(1) h show ?case by (simp add: note_headers_def)
qed (simp add: note_headers_def tracks_new)

text \<open>
  The process's own load of a system library is never rewritten. After any sequence of image
  headers of at most 64 files, a mapping counts as part of a copy exactly when its file has had
  at least two headers mapped and it lies within the image of the last one; the first image of
  every file is left alone.
\<close>

lemma only_later_images_are_copies:
  assumes "\<forall>h \<in> set hs. snd (file_of h) \<noteq> 0 \<and> fst (snd (snd h)) \<noteq> 0" and "card (file_of ` set hs) \<le> IMAGE_TRACK_SLOTS" and "inode \<noteq> 0"
  shows "in_copy (note_headers hs) device inode address len \<longleftrightarrow>
    (\<exists>base sz. length (headers_of hs (device, inode)) \<ge> 2 \<and> last (headers_of hs (device, inode)) = (device, inode, base, sz) \<and>
       base \<le> address \<and> saturating_add address len \<le> saturating_add base sz)"
proof -
  let ?c = "note_headers hs" and ?l = "headers_of hs (device, inode)"
  from note_headers_track [of hs] assms(1,2) have t: "tracks ?c hs" by auto
  note T = tracksD [OF t]
  have member: "h \<in> set ?l \<Longrightarrow> h \<in> set hs \<and> file_of h = (device, inode)" for h by (simp add: headers_of_def)
  show ?thesis
  proof (cases "image_slot_of ?c device inode")
    case None
    then have "\<not> (\<exists>h \<in> set hs. file_of h = (device, inode))" using T(5) image_slot_of_None by metis
    then have "?l = []" by (auto simp: headers_of_empty)
    with None show ?thesis by (simp add: in_copy_def)
  next
    case (Some i)
    from image_slot_of_Some [OF Some] have i: "i < IMAGE_TRACK_SLOTS" "slot_key (?c ! i) = (device, inode)" by auto
    then have ino: "is_inode (?c ! i) \<noteq> 0" using assms(3) by (simp add: slot_key_def)
    from T(2,3) [OF i(1) ino] i(2) have l: "?l \<noteq> []" "(is_start (?c ! i), is_end (?c ! i)) = copy_range ?l" by simp_all
    obtain base sz where last: "last ?l = (device, inode, base, sz)"
      using member [OF last_in_set [OF l(1)]] by (cases "last ?l") (auto simp: file_of_def)
    have b0: "base \<noteq> 0" using member [OF last_in_set [OF l(1)]] last assms(1) by force
    show ?thesis
    proof (cases "length ?l \<le> 1")
      case True
      with l Some show ?thesis by (simp add: in_copy_def copy_range_def)
    next
      case False
      with l(2) last have "is_start (?c ! i) = base" "is_end (?c ! i) = saturating_add base sz" by (simp_all add: copy_range_def)
      with False Some last b0 show ?thesis by (auto simp: in_copy_def)
    qed
  qed
qed

end
