(* ===== verification/Signal_Slot.thy ===== *)
theory Signal_Slot
  imports Prelude
begin

text \<open>
  One \<^verbatim>\<open>SignalSlot\<close> of \<^verbatim>\<open>runtime/src/hooks.rs\<close> under concurrency: signal handlers on any thread copy the saved
  action while an update replaces it and frees the old snapshot. Snapshots are addresses;
  \<^verbatim>\<open>malloc\<close> may return any address not in use, one freed before included. A step is one atomic
  access (they are sequentially consistent in the code).
\<close>

section \<open>The accesses\<close>

datatype slot_pc =
    Outside
  | Entered
  | Holding "nat option"
  | Copied "nat option" u64
  | Delivering "nat option" u64
  | Updating
  | Allocated nat
  | Swapped nat "nat option"
  | Releasing "nat option"
  | Freeing nat

record slot_state =
  sn_current :: "nat option"
  sn_live :: "nat set"
  sn_value :: "nat \<Rightarrow> u64"
  sn_readers :: nat
  sn_lock :: bool
  sn_pc :: "slot_pc list"

definition goto_pc :: "nat \<Rightarrow> slot_pc \<Rightarrow> slot_state \<Rightarrow> slot_state" where
  "goto_pc t p s = s\<lparr>sn_pc := (sn_pc s)[t := p]\<rparr>"

definition thread_at :: "slot_state \<Rightarrow> nat \<Rightarrow> slot_pc \<Rightarrow> bool" where
  "thread_at s t p \<longleftrightarrow> t < length (sn_pc s) \<and> sn_pc s ! t = p"

text \<open>A copy of a null snapshot is the zeroed action.\<close>

definition copied_value :: "slot_state \<Rightarrow> nat option \<Rightarrow> u64" where
  "copied_value s p = (case p of None \<Rightarrow> 0 | Some a \<Rightarrow> sn_value s a)"

inductive slot_step :: "slot_state \<Rightarrow> slot_state \<Rightarrow> bool" where
  slot_enter: "thread_at s t Outside \<Longrightarrow> slot_step s (goto_pc t Entered (s\<lparr>sn_readers := sn_readers s + 1\<rparr>))"
| slot_load: "thread_at s t Entered \<Longrightarrow> slot_step s (goto_pc t (Holding (sn_current s)) s)"
| slot_copy: "thread_at s t (Holding p) \<Longrightarrow> slot_step s (goto_pc t (Copied p (copied_value s p)) s)"
| slot_leave: "thread_at s t (Copied p v) \<Longrightarrow> slot_step s (goto_pc t (Delivering p v) (s\<lparr>sn_readers := sn_readers s - 1\<rparr>))"
| slot_reset: "thread_at s t (Delivering p v) \<Longrightarrow>
    slot_step s (goto_pc t Outside (s\<lparr>sn_current := if sn_current s = p then None else sn_current s\<rparr>))"
| slot_deliver: "thread_at s t (Delivering p v) \<Longrightarrow> slot_step s (goto_pc t Outside s)"
| slot_lock: "thread_at s t Outside \<Longrightarrow> \<not> sn_lock s \<Longrightarrow> slot_step s (goto_pc t Updating (s\<lparr>sn_lock := True\<rparr>))"
| slot_alloc: "thread_at s t Updating \<Longrightarrow> n \<notin> sn_live s \<Longrightarrow>
    slot_step s (goto_pc t (Allocated n) (s\<lparr>sn_live := insert n (sn_live s), sn_value := (sn_value s)(n := v)\<rparr>))"
| slot_no_memory: "thread_at s t Updating \<Longrightarrow> slot_step s (goto_pc t Outside (s\<lparr>sn_lock := False\<rparr>))"
| slot_swap: "thread_at s t (Allocated n) \<Longrightarrow> slot_step s (goto_pc t (Swapped n (sn_current s)) (s\<lparr>sn_current := Some n\<rparr>))"
| slot_installed: "thread_at s t (Swapped n prev) \<Longrightarrow> slot_step s (goto_pc t (Releasing prev) s)"
| slot_refused: "thread_at s t (Swapped n prev) \<Longrightarrow> slot_step s (goto_pc t (Releasing (sn_current s)) (s\<lparr>sn_current := prev\<rparr>))"
| slot_nothing: "thread_at s t (Releasing None) \<Longrightarrow> slot_step s (goto_pc t Outside (s\<lparr>sn_lock := False\<rparr>))"
| slot_wait: "thread_at s t (Releasing (Some q)) \<Longrightarrow> sn_readers s \<noteq> 0 \<Longrightarrow> slot_step s s"
| slot_drained: "thread_at s t (Releasing (Some q)) \<Longrightarrow> sn_readers s = 0 \<Longrightarrow> slot_step s (goto_pc t (Freeing q) s)"
| slot_free: "thread_at s t (Freeing q) \<Longrightarrow> slot_step s (goto_pc t Outside (s\<lparr>sn_live := sn_live s - {q}, sn_lock := False\<rparr>))"

definition slot_initial :: "nat \<Rightarrow> slot_state" where
  "slot_initial threads = \<lparr>sn_current = None, sn_live = {}, sn_value = \<lambda>_. 0, sn_readers = 0, sn_lock = False,
     sn_pc = replicate threads Outside\<rparr>"

inductive slot_reachable :: "slot_state \<Rightarrow> bool" where
  slot_start: "slot_reachable (slot_initial n)"
| slot_next: "slot_reachable s \<Longrightarrow> slot_step s s' \<Longrightarrow> slot_reachable s'"

section \<open>The invariant\<close>

fun counted :: "slot_pc \<Rightarrow> bool" where
  "counted Entered = True"
| "counted (Holding p) = True"
| "counted (Copied p v) = True"
| "counted _ = False"

fun updating :: "slot_pc \<Rightarrow> bool" where
  "updating Updating = True"
| "updating (Allocated n) = True"
| "updating (Swapped n p) = True"
| "updating (Releasing p) = True"
| "updating (Freeing q) = True"
| "updating _ = False"

fun pc_ok :: "nat option \<Rightarrow> nat set \<Rightarrow> slot_pc \<Rightarrow> bool" where
  "pc_ok cur live (Holding p) = (set_option p \<subseteq> live)"
| "pc_ok cur live (Allocated n) = (n \<in> live \<and> cur \<noteq> Some n)"
| "pc_ok cur live (Swapped n p) = (n \<in> live \<and> set_option p \<subseteq> live \<and> p \<noteq> Some n \<and> set_option cur \<subseteq> {n})"
| "pc_ok cur live (Releasing p) = (set_option p \<subseteq> live \<and> set_option p \<inter> set_option cur = {})"
| "pc_ok cur live (Freeing q) = (q \<in> live \<and> cur \<noteq> Some q)"
| "pc_ok cur live _ = True"

text \<open>A thread about to free a snapshot excludes one that is about to read it.\<close>

fun conflict :: "slot_pc \<Rightarrow> slot_pc \<Rightarrow> bool" where
  "conflict (Freeing q) (Holding p) = (p = Some q)"
| "conflict _ _ = False"

definition slot_inv :: "slot_state \<Rightarrow> bool" where
  "slot_inv s \<longleftrightarrow> sn_readers s = length (filter counted (sn_pc s)) \<and> set_option (sn_current s) \<subseteq> sn_live s \<and>
     (\<forall>t < length (sn_pc s). pc_ok (sn_current s) (sn_live s) (sn_pc s ! t) \<and> (updating (sn_pc s ! t) \<longrightarrow> sn_lock s)) \<and>
     (\<forall>t < length (sn_pc s). \<forall>u < length (sn_pc s).
        (updating (sn_pc s ! t) \<and> updating (sn_pc s ! u) \<longrightarrow> t = u) \<and> \<not> conflict (sn_pc s ! t) (sn_pc s ! u))"

lemma set_option_subset: "set_option p \<subseteq> A \<longleftrightarrow> (\<forall>x. p = Some x \<longrightarrow> x \<in> A)"
  by (cases p) auto

lemma pc_ok_none: "pc_ok cur live p \<Longrightarrow> pc_ok None live p"
  by (cases p) auto

lemma conflict_updating: "conflict p q \<Longrightarrow> updating p \<and> counted q"
  by (cases p; cases q) auto

lemma counted_not_updating: "counted p \<Longrightarrow> \<not> updating p"
  by (cases p) auto

lemma pc_ok_idle: "\<not> updating p \<Longrightarrow> pc_ok cur live p \<Longrightarrow> pc_ok cur' live p"
  by (cases p) auto

lemma slot_invD:
  assumes "slot_inv s" and "thread_at s t q"
  shows "sn_readers s = length (filter counted (sn_pc s))" and "set_option (sn_current s) \<subseteq> sn_live s"
    and "pc_ok (sn_current s) (sn_live s) q" and "updating q \<Longrightarrow> sn_lock s" and "t < length (sn_pc s)"
    and "u < length (sn_pc s) \<Longrightarrow> pc_ok (sn_current s) (sn_live s) (sn_pc s ! u)"
    and "u < length (sn_pc s) \<Longrightarrow> updating (sn_pc s ! u) \<Longrightarrow> sn_lock s"
    and "u < length (sn_pc s) \<Longrightarrow> updating q \<Longrightarrow> u \<noteq> t \<Longrightarrow> \<not> updating (sn_pc s ! u)"
    and "u < length (sn_pc s) \<Longrightarrow> \<not> conflict q (sn_pc s ! u)" and "u < length (sn_pc s) \<Longrightarrow> v < length (sn_pc s) \<Longrightarrow> \<not> conflict (sn_pc s ! u) (sn_pc s ! v)"
    and "u < length (sn_pc s) \<Longrightarrow> v < length (sn_pc s) \<Longrightarrow> updating (sn_pc s ! u) \<Longrightarrow> updating (sn_pc s ! v) \<Longrightarrow> u = v"
  using assms unfolding slot_inv_def thread_at_def by metis+

lemma readers_update:
  assumes "thread_at s t q" and "sn_readers s = length (filter counted (sn_pc s))"
    and "n + (if counted q then 1 else 0) = sn_readers s + (if counted p then 1 else 0)"
  shows "n = length (filter counted ((sn_pc s)[t := p]))"
  using length_filter_update [of t "sn_pc s" counted p] assms by (auto simp: thread_at_def split: if_splits)

lemma slot_inv_update:
  assumes inv: "slot_inv s" and at: "thread_at s t q" and pc: "sn_pc s1 = sn_pc s"
    and readers: "sn_readers s1 + (if counted q then 1 else 0) = sn_readers s + (if counted p then 1 else 0)"
    and cur: "set_option (sn_current s1) \<subseteq> sn_live s1"
    and others: "\<And>u. u < length (sn_pc s) \<Longrightarrow> u \<noteq> t \<Longrightarrow>
      pc_ok (sn_current s1) (sn_live s1) (sn_pc s ! u) \<and> (updating (sn_pc s ! u) \<longrightarrow> sn_lock s1 \<and> \<not> updating p) \<and>
      \<not> conflict p (sn_pc s ! u) \<and> \<not> conflict (sn_pc s ! u) p"
    and new: "pc_ok (sn_current s1) (sn_live s1) p" "updating p \<Longrightarrow> sn_lock s1"
  shows "slot_inv (goto_pc t p s1)"
proof -
  note d = slot_invD [OF inv at]
  let ?xs = "(sn_pc s)[t := p]"
  have eq: "sn_pc (goto_pc t p s1) = ?xs" by (simp add: goto_pc_def pc)
  have at': "?xs ! u = (if u = t then p else sn_pc s ! u)" if "u < length (sn_pc s)" for u
    using that by (simp add: nth_list_update)
  have each: "pc_ok (sn_current s1) (sn_live s1) (?xs ! u) \<and> (updating (?xs ! u) \<longrightarrow> sn_lock s1)" if "u < length (sn_pc s)" for u
    unfolding at' [OF that] using that others [of u] new by simp
  have pair: "(updating (?xs ! u) \<and> updating (?xs ! v) \<longrightarrow> u = v) \<and> \<not> conflict (?xs ! u) (?xs ! v)"
    if "u < length (sn_pc s)" "v < length (sn_pc s)" for u v
    unfolding at' [OF that(1)] at' [OF that(2)]
    using that others [of u] others [of v] d(10) [of u v] d(11) [of u v] conflict_updating [of p p] counted_not_updating [of p]
    by (cases "u = t"; cases "v = t") auto
  show ?thesis
    unfolding slot_inv_def eq length_list_update
    using readers_update [OF at d(1) readers] cur each pair by (simp add: goto_pc_def)
qed

text \<open>A reader moves: the snapshots stay, the current one at most goes.\<close>

lemma slot_inv_reader:
  assumes inv: "slot_inv s" and at: "thread_at s t q" and "\<not> updating p" and "\<not> updating q" and "sn_pc s1 = sn_pc s"
    and readers: "sn_readers s1 + (if counted q then 1 else 0) = sn_readers s + (if counted p then 1 else 0)"
    and "sn_current s1 = sn_current s \<or> sn_current s1 = None" and "sn_live s1 = sn_live s" and "sn_lock s1 = sn_lock s"
    and hold: "\<And>x. p = Holding x \<Longrightarrow> x = sn_current s"
  shows "slot_inv (goto_pc t p s1)"
proof (rule slot_inv_update [OF inv at assms(5) readers])
  note d = slot_invD [OF inv at]
  show "set_option (sn_current s1) \<subseteq> sn_live s1" using assms(7,8) d(2) by auto
  show "pc_ok (sn_current s1) (sn_live s1) p" using assms(3,8) hold d(2) by (cases p) auto
  show "updating p \<Longrightarrow> sn_lock s1" using assms(3) by simp
  fix u assume u: "u < length (sn_pc s)" "u \<noteq> t"
  have "pc_ok (sn_current s1) (sn_live s1) (sn_pc s ! u)" using d(6) [OF u(1)] assms(7,8) pc_ok_none by auto
  moreover have "\<not> conflict p (sn_pc s ! u)" using conflict_updating assms(3) by blast
  moreover have "\<not> conflict (sn_pc s ! u) p"
  proof
    assume c: "conflict (sn_pc s ! u) p"
    then obtain r x where "sn_pc s ! u = Freeing r" "p = Holding x" "x = Some r" by (cases "sn_pc s ! u"; cases p) auto
    with hold d(6) [OF u(1)] show False by auto
  qed
  ultimately show "pc_ok (sn_current s1) (sn_live s1) (sn_pc s ! u) \<and> (updating (sn_pc s ! u) \<longrightarrow> sn_lock s1 \<and> \<not> updating p) \<and>
      \<not> conflict p (sn_pc s ! u) \<and> \<not> conflict (sn_pc s ! u) p"
    using d(7) [OF u(1)] assms(3,9) by auto
qed

text \<open>The thread with the update lock moves: nothing another thread is about to read goes.\<close>

lemma slot_inv_updater:
  assumes inv: "slot_inv s" and at: "thread_at s t q" and alone: "\<And>u. u < length (sn_pc s) \<Longrightarrow> u \<noteq> t \<Longrightarrow> \<not> updating (sn_pc s ! u)"
    and "\<not> counted p" and "\<not> counted q" and pc: "sn_pc s1 = sn_pc s" and readers: "sn_readers s1 = sn_readers s"
    and "set_option (sn_current s1) \<subseteq> sn_live s1" and "pc_ok (sn_current s1) (sn_live s1) p" and "updating p \<Longrightarrow> sn_lock s1"
    and live: "\<And>u x. u < length (sn_pc s) \<Longrightarrow> sn_pc s ! u = Holding (Some x) \<Longrightarrow> x \<in> sn_live s1"
    and free: "\<And>x. p = Freeing x \<Longrightarrow> sn_readers s = 0"
  shows "slot_inv (goto_pc t p s1)"
proof (rule slot_inv_update [OF inv at pc])
  note d = slot_invD [OF inv at]
  fix u assume u: "u < length (sn_pc s)" "u \<noteq> t"
  have "pc_ok (sn_current s1) (sn_live s1) (sn_pc s ! u)"
    using alone [OF u] live [OF u(1)] by (cases "sn_pc s ! u") (auto simp: set_option_subset)
  moreover have "\<not> conflict p (sn_pc s ! u)"
  proof
    assume c: "conflict p (sn_pc s ! u)"
    then obtain x where "p = Freeing x" by (cases p; cases "sn_pc s ! u") auto
    with free d(1) have "filter counted (sn_pc s) = []" by simp
    with u(1) conflict_updating [OF c] show False by (auto simp: filter_empty_conv)
  qed
  moreover have "\<not> conflict (sn_pc s ! u) p" using conflict_updating assms(4) by blast
  ultimately show "pc_ok (sn_current s1) (sn_live s1) (sn_pc s ! u) \<and> (updating (sn_pc s ! u) \<longrightarrow> sn_lock s1 \<and> \<not> updating p) \<and>
      \<not> conflict p (sn_pc s ! u) \<and> \<not> conflict (sn_pc s ! u) p" using alone [OF u] by simp
qed (use assms in simp_all)

lemma holding_live: "slot_inv s \<Longrightarrow> u < length (sn_pc s) \<Longrightarrow> sn_pc s ! u = Holding (Some x) \<Longrightarrow> x \<in> sn_live s"
  using slot_invD(3) [of s u "Holding (Some x)"] by (simp add: thread_at_def)

lemma slot_inv_step: "slot_step s s' \<Longrightarrow> slot_inv s \<Longrightarrow> slot_inv s'"
proof (induction rule: slot_step.induct)
  case (slot_enter s t)
  then show ?case by (intro slot_inv_reader [of s t Outside]) auto
next
  case (slot_load s t)
  then show ?case by (intro slot_inv_reader [of s t Entered]) auto
next
  case (slot_copy s t p)
  then show ?case by (intro slot_inv_reader [of s t "Holding p"]) auto
next
  case (slot_leave s t p v)
  have "Copied p v \<in> set (filter counted (sn_pc s))"
    using slot_leave(1) nth_mem [of t "sn_pc s"] by (auto simp: thread_at_def)
  then have "0 < sn_readers s"
    using slot_invD(1) [OF slot_leave(2,1)] by (metis length_pos_if_in_set)
  with slot_leave show ?case by (intro slot_inv_reader [of s t "Copied p v"]) auto
next
  case (slot_reset s t p v)
  then show ?case by (intro slot_inv_reader [of s t "Delivering p v"]) auto
next
  case (slot_deliver s t p v)
  then show ?case by (intro slot_inv_reader [of s t "Delivering p v"]) auto
next
  case (slot_lock s t)
  note d = slot_invD [OF slot_lock(3,1)]
  from slot_lock d(2) holding_live [OF slot_lock(3)] show ?case by (intro slot_inv_updater [of s t Outside]) (auto dest: d(7))
next
  case (slot_alloc s t n v)
  note d = slot_invD [OF slot_alloc(3,1)]
  from slot_alloc d(2,4,8) holding_live [OF slot_alloc(3)] show ?case by (intro slot_inv_updater [of s t Updating]) auto
next
  case (slot_no_memory s t)
  note d = slot_invD [OF slot_no_memory(2,1)]
  from slot_no_memory d(2,8) holding_live [OF slot_no_memory(2)] show ?case by (intro slot_inv_updater [of s t Updating]) auto
next
  case (slot_swap s t n)
  note d = slot_invD [OF slot_swap(2,1)]
  from slot_swap d(2,3,4,8) holding_live [OF slot_swap(2)] show ?case by (intro slot_inv_updater [of s t "Allocated n"]) auto
next
  case (slot_installed s t n prev)
  note d = slot_invD [OF slot_installed(2,1)]
  from slot_installed d(2,3,4,8) holding_live [OF slot_installed(2)] show ?case
    by (intro slot_inv_updater [of s t "Swapped n prev"]) (auto simp: set_option_subset)
next
  case (slot_refused s t n prev)
  note d = slot_invD [OF slot_refused(2,1)]
  from slot_refused d(2,3,4,8) holding_live [OF slot_refused(2)] show ?case
    by (intro slot_inv_updater [of s t "Swapped n prev"]) (auto simp: set_option_subset)
next
  case (slot_nothing s t)
  note d = slot_invD [OF slot_nothing(2,1)]
  from slot_nothing d(2,8) holding_live [OF slot_nothing(2)] show ?case by (intro slot_inv_updater [of s t "Releasing None"]) auto
next
  case (slot_drained s t q)
  note d = slot_invD [OF slot_drained(3,1)]
  from slot_drained d(2,3,4,8) holding_live [OF slot_drained(3)] show ?case
    by (intro slot_inv_updater [of s t "Releasing (Some q)"]) auto
next
  case (slot_free s t q)
  note d = slot_invD [OF slot_free(2,1)]
  have "x \<noteq> q" if "u < length (sn_pc s)" "sn_pc s ! u = Holding (Some x)" for u x using d(9) [OF that(1)] that(2) by auto
  with slot_free d(2,3,4,8) holding_live [OF slot_free(2)] show ?case
    by (intro slot_inv_updater [of s t "Freeing q"]) auto
qed

lemma slot_inv_reachable: "slot_reachable s \<Longrightarrow> slot_inv s"
proof (induction rule: slot_reachable.induct)
  case (slot_start n)
  show ?case by (simp add: slot_inv_def slot_initial_def)
qed (rule slot_inv_step)

text \<open>
  C14: no snapshot is read after it was freed. Whatever signal handlers and updates interleave,
  updates of the disposition that fail included, a thread about to copy a snapshot holds one that is still allocated, the current
  snapshot is always an allocated one, and the reader count is the number of threads inside a copy.
\<close>

theorem snapshot_not_read_after_free:
  assumes "slot_reachable s" and "thread_at s t (Holding (Some p))"
  shows "p \<in> sn_live s \<and> set_option (sn_current s) \<subseteq> sn_live s \<and> sn_readers s = length (filter counted (sn_pc s))"
  using slot_invD(1-3) [OF slot_inv_reachable [OF assms(1)] assms(2)] by simp

section \<open>Runs\<close>

definition slot_at :: "nat option \<Rightarrow> nat set \<Rightarrow> (nat \<Rightarrow> u64) \<Rightarrow> nat \<Rightarrow> bool \<Rightarrow> slot_pc \<Rightarrow> slot_pc \<Rightarrow> slot_state" where
  "slot_at cur live f readers lock p q = \<lparr>sn_current = cur, sn_live = live, sn_value = f, sn_readers = readers, sn_lock = lock, sn_pc = [p, q]\<rparr>"

lemma slot_at_simps [simp]:
  "thread_at (slot_at cur live f r l p q) 0 p" "thread_at (slot_at cur live f r l p q) (Suc 0) q"
  "goto_pc 0 x (slot_at cur live f r l p q) = slot_at cur live f r l x q"
  "goto_pc (Suc 0) x (slot_at cur live f r l p q) = slot_at cur live f r l p x"
  by (simp_all add: slot_at_def thread_at_def goto_pc_def)

text \<open>One update by the second thread, from a slot no reader is in.\<close>

lemma slot_update_run:
  assumes "slot_reachable (slot_at cur live f 0 False p Outside)" and "n \<notin> live" and "set_option cur \<subseteq> live"
  shows "slot_reachable (slot_at (Some n) (insert n live - set_option cur) (f(n := v)) 0 False p Outside)"
proof -
  let ?live = "insert n live" and ?f = "f(n := v)"
  from slot_next [OF assms(1) slot_lock [of _ 1]] have "slot_reachable (slot_at cur live f 0 True p Updating)"
    by (simp add: slot_at_def thread_at_def goto_pc_def)
  from slot_next [OF this slot_alloc [of _ 1 n v]] have "slot_reachable (slot_at cur ?live ?f 0 True p (Allocated n))"
    using assms(2) by (simp add: slot_at_def thread_at_def goto_pc_def)
  from slot_next [OF this slot_swap [of _ 1 n]] have "slot_reachable (slot_at (Some n) ?live ?f 0 True p (Swapped n cur))"
    by (simp add: slot_at_def thread_at_def goto_pc_def)
  from slot_next [OF this slot_installed [of _ 1 n cur]] have r: "slot_reachable (slot_at (Some n) ?live ?f 0 True p (Releasing cur))"
    by (simp add: slot_at_def thread_at_def goto_pc_def)
  show ?thesis
  proof (cases cur)
    case None
    with slot_next [OF r slot_nothing [of _ 1]] show ?thesis by (simp add: slot_at_def thread_at_def goto_pc_def)
  next
    case (Some q)
    with slot_next [OF r slot_drained [of _ 1 q]] have "slot_reachable (slot_at (Some n) ?live ?f 0 True p (Freeing q))"
      by (simp add: slot_at_def thread_at_def goto_pc_def)
    from slot_next [OF this slot_free [of _ 1 q]] Some show ?thesis by (simp add: slot_at_def thread_at_def goto_pc_def)
  qed
qed

lemma slot_two_threads: "slot_reachable (slot_at None {} (\<lambda>_. 0) 0 False Outside Outside)"
  using slot_start [of 2] by (simp add: slot_initial_def slot_at_def numeral_2_eq_2)

lemma slot_first_update: "slot_reachable (slot_at (Some 1) {1} ((\<lambda>_. 0)(1 := 10)) 0 False Outside Outside)"
  using slot_update_run [OF slot_two_threads, of 1 10] by simp

lemma slot_reader_run:
  assumes "slot_reachable (slot_at cur live f 0 l Outside q)"
  shows "slot_reachable (slot_at cur live f 1 l (Holding cur) q)"
    and "slot_reachable (slot_at cur live f 0 l (Delivering cur (copied_value (slot_at cur live f 0 l Outside q) cur)) q)"
proof -
  from slot_next [OF assms slot_enter [of _ 0]] have "slot_reachable (slot_at cur live f 1 l Entered q)"
    by (simp add: slot_at_def thread_at_def goto_pc_def)
  from slot_next [OF this slot_load [of _ 0]] show h: "slot_reachable (slot_at cur live f 1 l (Holding cur) q)"
    by (simp add: slot_at_def thread_at_def goto_pc_def)
  let ?v = "copied_value (slot_at cur live f 0 l Outside q) cur"
  from slot_next [OF h slot_copy [of _ 0 cur]] have "slot_reachable (slot_at cur live f 1 l (Copied cur ?v) q)"
    by (simp add: slot_at_def thread_at_def goto_pc_def copied_value_def split: option.splits)
  from slot_next [OF this slot_leave [of _ 0 cur ?v]] show "slot_reachable (slot_at cur live f 0 l (Delivering cur ?v) q)"
    by (simp add: slot_at_def thread_at_def goto_pc_def)
qed

theorem snapshot_not_read_after_free_witness:
  "\<exists>s. slot_reachable s \<and> thread_at s 0 (Holding (Some 1)) \<and> 1 \<in> sn_live s"
  using slot_reader_run(1) [OF slot_first_update]
    snapshot_not_read_after_free [OF slot_reader_run(1) [OF slot_first_update], of 0 1]
  by (intro exI conjI) auto

text \<open>
  The one-shot reset compares addresses only. While a handler is between its copy and the
  reset, an update may free the snapshot and a second one be given the same address; the
  reset then takes the new action out of force.
\<close>

lemma oneshot_reset_drops_newer_action:
  "\<exists>s s'. slot_reachable s \<and> thread_at s 0 (Delivering (Some 1) 10) \<and> sn_current s = Some 1 \<and> sn_value s 1 = 30 \<and>
     slot_step s s' \<and> sn_current s' = None"
proof -
  have "slot_reachable (slot_at (Some 1) {1} ((\<lambda>_. 0)(1 := 10)) 0 False (Delivering (Some 1) 10) Outside)"
    using slot_reader_run(2) [OF slot_first_update] by (simp add: copied_value_def slot_at_def)
  from slot_update_run [OF this, of 2 20] have "slot_reachable (slot_at (Some 2) {2} ((\<lambda>_. 0)(1 := 10, 2 := 20)) 0 False (Delivering (Some 1) 10) Outside)"
    by (simp add: insert_Diff_if)
  from slot_update_run [OF this, of 1 30] have r: "slot_reachable (slot_at (Some 1) {1} ((\<lambda>_. 0)(1 := 10, 2 := 20, 1 := 30)) 0 False (Delivering (Some 1) 10) Outside)"
    by (simp add: insert_Diff_if)
  let ?s = "slot_at (Some 1) {1} ((\<lambda>_. 0)(1 := 10, 2 := 20, 1 := 30)) 0 False (Delivering (Some 1) 10) Outside"
  have "slot_step ?s (goto_pc 0 Outside (?s\<lparr>sn_current := None\<rparr>))"
    using slot_reset [of ?s 0 "Some 1" 10] by (simp add: slot_at_def thread_at_def)
  with r show ?thesis by (intro exI [of _ ?s] exI conjI) (auto simp: slot_at_def thread_at_def goto_pc_def)
qed

end
