(* ===== verification/Rust_Text.thy ===== *)
theory Rust_Text
  imports Prelude
begin

text \<open>
  What the build tool uses of Rust's \<open>str\<close>: validation of UTF-8, \<open>lines\<close>, \<open>split_whitespace\<close>, \<open>contains\<close> and
  \<open>u64::from_str_radix\<close> in base 16, and ordered maps as sorted association lists. A string is its list of
  characters, each a Unicode scalar value.
\<close>

type_synonym str = "u32 list"

section \<open>Characters\<close>

definition chars :: "string \<Rightarrow> str" where
  "chars s = map of_char s"

text \<open>\<open>char::is_whitespace\<close>, the Unicode property \<open>White_Space\<close>.\<close>

definition is_whitespace :: "u32 \<Rightarrow> bool" where
  "is_whitespace c \<longleftrightarrow> 9 \<le> c \<and> c \<le> 13 \<or> c = 0x20 \<or> c = 0x85 \<or> c = 0xa0 \<or> c = 0x1680 \<or> 0x2000 \<le> c \<and> c \<le> 0x200a \<or>
     c = 0x2028 \<or> c = 0x2029 \<or> c = 0x202f \<or> c = 0x205f \<or> c = 0x3000"

section \<open>UTF-8\<close>

definition is_continuation :: "u8 \<Rightarrow> bool" where
  "is_continuation b \<longleftrightarrow> 0x80 \<le> b \<and> b \<le> 0xbf"

definition second_ok :: "u8 \<Rightarrow> u8 \<Rightarrow> bool" where
  "second_ok b c \<longleftrightarrow>
     (if b = 0xe0 then 0xa0 \<le> c \<and> c \<le> 0xbf
      else if b = 0xed then 0x80 \<le> c \<and> c \<le> 0x9f
      else if b = 0xf0 then 0x90 \<le> c \<and> c \<le> 0xbf
      else if b = 0xf4 then 0x80 \<le> c \<and> c \<le> 0x8f
      else is_continuation c)"

definition utf8_next :: "bytes \<Rightarrow> (u32 \<times> nat) option" where
  "utf8_next bs = (case bs of
       [] \<Rightarrow> None
     | b # cs \<Rightarrow>
         let lead = (\<lambda>n. ucast b AND mask n :: u32); tail = (\<lambda>c. ucast (c AND 0x3f) :: u32) in
         if b < 0x80 then Some (ucast b, 1)
         else if 0xc2 \<le> b \<and> b \<le> 0xdf then
           (case cs of c # _ \<Rightarrow> if is_continuation c then Some (push_bit 6 (lead 5) OR tail c, 2) else None | _ \<Rightarrow> None)
         else if 0xe0 \<le> b \<and> b \<le> 0xef then
           (case cs of c # d # _ \<Rightarrow> if second_ok b c \<and> is_continuation d
              then Some (push_bit 12 (lead 4) OR push_bit 6 (tail c) OR tail d, 3) else None | _ \<Rightarrow> None)
         else if 0xf0 \<le> b \<and> b \<le> 0xf4 then
           (case cs of c # d # e # _ \<Rightarrow> if second_ok b c \<and> is_continuation d \<and> is_continuation e
              then Some (push_bit 18 (lead 3) OR push_bit 12 (tail c) OR push_bit 6 (tail d) OR tail e, 4) else None | _ \<Rightarrow> None)
         else None)"

function from_utf8 :: "bytes \<Rightarrow> str option" where
  "from_utf8 bs = (if bs = [] then Some [] else case utf8_next bs of
       None \<Rightarrow> None
     | Some (c, n) \<Rightarrow> map_option ((#) c) (from_utf8 (drop n bs)))"
  by pat_completeness auto

lemma utf8_next_width: "utf8_next bs = Some (c, n) \<Longrightarrow> 0 < n \<and> n \<le> 4"
  by (auto simp: utf8_next_def Let_def split: list.splits if_splits)

termination from_utf8
  by (relation "measure length") (auto dest: utf8_next_width)

declare from_utf8.simps [simp del]

lemma from_utf8_Nil [simp]: "from_utf8 [] = Some []"
  by (simp add: from_utf8.simps)

lemma from_utf8_ascii: "list_all (\<lambda>b. b < 0x80) bs \<Longrightarrow> from_utf8 bs = Some (map ucast bs)"
proof (induction bs)
  case (Cons b bs)
  have "utf8_next (b # bs) = Some (ucast b, 1)" using Cons.prems by (simp add: utf8_next_def Let_def)
  then have "from_utf8 (b # bs) = map_option ((#) (ucast b)) (from_utf8 bs)" by (subst from_utf8.simps) simp
  with Cons show ?case by simp
qed simp

section \<open>Lines and words\<close>

definition strip_cr :: "str \<Rightarrow> str" where
  "strip_cr l = (case strip_suffix [13] l of Some l' \<Rightarrow> l' | None \<Rightarrow> l)"

text \<open>A line ends with a line feed, which may follow a carriage return; the last one may be open.\<close>

definition str_lines :: "str \<Rightarrow> str list" where
  "str_lines t = (let ps = split_on (\<lambda>c. c = 10) t in
     map strip_cr (butlast ps) @ (if last ps = [] then [] else [last ps]))"

definition split_whitespace :: "str \<Rightarrow> str list" where
  "split_whitespace t = filter (\<lambda>w. w \<noteq> []) (split_on is_whitespace t)"

lemma split_on_terminated: "P c \<Longrightarrow> split_on P (xs @ [c]) = split_on P xs @ [[]]"
  using split_on_append_sep [of P c xs "[]"] by simp

lemma str_lines_terminated:
  assumes "list_all (\<lambda>l. 10 \<notin> set l \<and> (l = [] \<or> last l \<noteq> 13)) ls"
  shows "str_lines (concat (map (\<lambda>l. l @ [10]) ls)) = ls"
proof -
  have s: "split_on (\<lambda>c. c = 10) (concat (map (\<lambda>l. l @ [10]) ls)) = ls @ [[]]"
    using assms by (induction ls) (simp_all add: split_on_append_sep split_on_absent)
  have "strip_cr l = l" if "l \<in> set ls" for l
    using that assms by (cases l rule: rev_cases) (auto simp: strip_cr_def strip_suffix_def list_all_iff)
  then have "map strip_cr ls = ls" by (simp add: map_idI)
  then show ?thesis by (simp add: str_lines_def s)
qed

section \<open>Numbers\<close>

definition hex_value :: "u32 \<Rightarrow> nat option" where
  "hex_value c = (if 48 \<le> c \<and> c \<le> 57 then Some (unat c - 48)
     else if 97 \<le> c \<and> c \<le> 102 then Some (unat c - 87)
     else if 65 \<le> c \<and> c \<le> 70 then Some (unat c - 55)
     else None)"

fun hex_digits :: "u64 \<Rightarrow> str \<Rightarrow> u64 option" where
  "hex_digits acc [] = Some acc"
| "hex_digits acc (c # cs) = (case hex_value c of
       None \<Rightarrow> None
     | Some d \<Rightarrow> Option.bind (checked_mul acc 16) (\<lambda>v. Option.bind (checked_add v (of_nat d)) (\<lambda>v'. hex_digits v' cs)))"

definition from_str_radix16 :: "str \<Rightarrow> u64 option" where
  "from_str_radix16 t = (case t of
       [] \<Rightarrow> None
     | c # cs \<Rightarrow> if cs = [] \<and> (c = 43 \<or> c = 45) then None
         else if c = 43 then hex_digits 0 cs else hex_digits 0 t)"

section \<open>Ordered maps\<close>

fun btree_insert :: "'k::linorder \<Rightarrow> 'v \<Rightarrow> ('k \<times> 'v) list \<Rightarrow> ('k \<times> 'v) list" where
  "btree_insert k v [] = [(k, v)]"
| "btree_insert k v ((k', v') # m) = (if k < k' then (k, v) # (k', v') # m
     else if k = k' then (k, v) # m else (k', v') # btree_insert k v m)"

lemma btree_insert_keys: "fst ` set (btree_insert k v m) = insert k (fst ` set m)"
proof (induction m)
  case (Cons p m)
  then show ?case by (cases p) (simp add: insert_commute)
qed simp

lemma btree_insert_sorted: "sorted_wrt (<) (map fst m) \<Longrightarrow> sorted_wrt (<) (map fst (btree_insert k v m))"
proof (induction m)
  case (Cons p m)
  obtain k' v' where p: "p = (k', v')" by (cases p)
  consider "k < k'" | "k = k'" | "k' < k" by fastforce
  then show ?case
  proof cases
    case 3
    have "\<forall>x \<in> set (map fst (btree_insert k v m)). k' < x" using Cons.prems 3 p btree_insert_keys [of k v m] by (simp add: set_map)
    with Cons 3 p show ?thesis by auto
  qed (use Cons.prems p in \<open>auto\<close>)
qed simp

lemma btree_insert_lookup: "sorted_wrt (<) (map fst m) \<Longrightarrow> map_of (btree_insert k v m) = (map_of m)(k \<mapsto> v)"
  by (induction m) (auto simp: fun_eq_iff)

end
