(* ===== verification/Child_Process.thy ===== *)
theory Child_Process
  imports Rust_Text
begin

text \<open>
  \<^verbatim>\<open>xtask/src/process.rs\<close>: running a program with a time limit. What the operating system and the
  threads that serve the pipes do for one child is a record: the answer of every poll, the time
  at every poll, the status after the kill, and what the threads collected. The loop that waits is a
  partial function, proved to return because the clock advances while it sleeps.
\<close>

record command =
  cmd_program :: bytes
  cmd_dir :: "bytes option"
  cmd_args :: "bytes list"

datatype exit_status = ExitCode int | KilledBy int

definition success :: "exit_status \<Rightarrow> bool" where
  "success s \<longleftrightarrow> s = ExitCode 0"

record process_output =
  po_status :: exit_status
  po_stdout :: bytes
  po_stderr :: bytes

datatype xtask_error =
    IoError
  | ReaderPanicked
  | WriterPanicked
  | TimedOut command bytes
  | CommandFailed command process_output
  | InvalidUtf8
  | InvalidNumber
  | InvalidJson
  | Message string "str list"
  | Panicked

datatype 'a joined = ThreadPanicked | ThreadFailed | ThreadDone 'a

record child =
  ch_spawned :: bool
  ch_pid :: u32
  ch_poll :: "nat \<Rightarrow> exit_status option option"  \<comment> \<open>the outer \<open>None\<close> is a failed \<open>try_wait\<close>\<close>
  ch_elapsed :: "nat \<Rightarrow> nat"                    \<comment> \<open>milliseconds since the start at every poll\<close>
  ch_wait :: "exit_status option"
  ch_stdout :: "bytes joined"
  ch_stderr :: "bytes joined"
  ch_written :: "unit joined"

definition kill_group :: "u32 \<Rightarrow> int" where
  "kill_group process = - sint process"

text \<open>The status with whether the limit expired, and the process groups that were killed.\<close>

partial_function (option) wait_loop :: "child \<Rightarrow> nat \<Rightarrow> nat \<Rightarrow> ((xtask_error + exit_status \<times> bool) \<times> int list) option" where
  "wait_loop c limit i = (case ch_poll c i of
       None \<Rightarrow> Some (Inl IoError, [])
     | Some (Some status) \<Rightarrow> Some (Inr (status, False), [])
     | Some None \<Rightarrow>
         if limit \<le> ch_elapsed c i
         then Some (case ch_wait c of None \<Rightarrow> Inl IoError | Some status \<Rightarrow> Inr (status, True), [kill_group (ch_pid c)])
         else wait_loop c limit (Suc i))"

definition join_reader :: "bytes joined \<Rightarrow> xtask_error + bytes" where
  "join_reader j = (case j of ThreadPanicked \<Rightarrow> Inl ReaderPanicked | ThreadFailed \<Rightarrow> Inl IoError | ThreadDone b \<Rightarrow> Inr b)"

definition collect :: "command \<Rightarrow> child \<Rightarrow> exit_status \<Rightarrow> bool \<Rightarrow> xtask_error + process_output" where
  "collect cmd c status expired = (case join_reader (ch_stdout c) of Inl x \<Rightarrow> Inl x | Inr out \<Rightarrow>
     (case join_reader (ch_stderr c) of Inl x \<Rightarrow> Inl x | Inr err \<Rightarrow>
       if ch_written c = ThreadPanicked then Inl WriterPanicked
       else if expired then Inl (TimedOut cmd err)
       else if success status \<and> ch_written c = ThreadFailed then Inl IoError
       else Inr \<lparr>po_status = status, po_stdout = out, po_stderr = err\<rparr>))"

definition process_run :: "command \<Rightarrow> child \<Rightarrow> nat \<Rightarrow> ((xtask_error + process_output) \<times> int list) option" where
  "process_run cmd c limit =
     (if \<not> ch_spawned c then Some (Inl IoError, [])
      else case wait_loop c limit 0 of
        None \<Rightarrow> None
      | Some (Inl x, kills) \<Rightarrow> Some (Inl x, kills)
      | Some (Inr (status, expired), kills) \<Rightarrow> Some (collect cmd c status expired, kills @ [kill_group (ch_pid c)]))"

definition LIMIT_MS :: nat where "LIMIT_MS = 180000"

definition checked :: "command \<Rightarrow> child \<Rightarrow> (xtask_error + process_output) option" where
  "checked cmd c = (case process_run cmd c LIMIT_MS of
       None \<Rightarrow> None
     | Some (Inl x, _) \<Rightarrow> Some (Inl x)
     | Some (Inr out, _) \<Rightarrow> Some (if success (po_status out) then Inr out else Inl (CommandFailed cmd out)))"

section \<open>The loop returns\<close>

text \<open>The clock of \<open>Instant\<close> never goes back, and \<open>sleep\<close> takes at least its five milliseconds.\<close>

definition clock_advances :: "child \<Rightarrow> bool" where
  "clock_advances c \<longleftrightarrow> (\<forall>i. ch_elapsed c i + 5 \<le> ch_elapsed c (Suc i))"

lemma elapsed_polls: "clock_advances c \<Longrightarrow> 5 * i \<le> ch_elapsed c i"
proof (induction i)
  case (Suc i)
  then have "ch_elapsed c i + 5 \<le> ch_elapsed c (Suc i)" by (simp add: clock_advances_def)
  with Suc show ?case by simp
qed simp

text \<open>The answer of the loop at the poll that ends it.\<close>

definition loop_ends :: "child \<Rightarrow> nat \<Rightarrow> nat \<Rightarrow> bool" where
  "loop_ends c limit i \<longleftrightarrow> ch_poll c i \<noteq> Some None \<or> limit \<le> ch_elapsed c i"

lemma wait_loop_skip: "\<forall>j. i \<le> j \<and> j < i + n \<longrightarrow> \<not> loop_ends c limit j \<Longrightarrow> wait_loop c limit i = wait_loop c limit (i + n)"
proof (induction n arbitrary: i)
  case (Suc n)
  from Suc.prems have "\<not> loop_ends c limit i" by simp
  then have "wait_loop c limit i = wait_loop c limit (Suc i)"
    by (subst wait_loop.simps) (simp add: loop_ends_def)
  with Suc.IH [of "Suc i"] Suc.prems show ?case by simp
qed simp

lemma wait_loop_first:
  assumes "loop_ends c limit n" and "\<forall>j<n. \<not> loop_ends c limit j"
  shows "wait_loop c limit 0 = Some (case ch_poll c n of
       None \<Rightarrow> (Inl IoError, [])
     | Some (Some status) \<Rightarrow> (Inr (status, False), [])
     | Some None \<Rightarrow> (case ch_wait c of None \<Rightarrow> Inl IoError | Some status \<Rightarrow> Inr (status, True), [kill_group (ch_pid c)]))"
proof -
  have "wait_loop c limit 0 = wait_loop c limit n" using wait_loop_skip [of 0 n c limit] assms(2) by simp
  with assms(1) show ?thesis by (subst (asm) (2) wait_loop.simps) (auto simp: loop_ends_def split: option.splits)
qed

lemma loop_ends_in_time:
  assumes "clock_advances c"
  shows "\<exists>n \<le> (limit + 4) div 5. loop_ends c limit n \<and> (\<forall>j<n. \<not> loop_ends c limit j)"
proof -
  let ?k = "(limit + 4) div 5"
  have "limit \<le> 5 * ?k" by simp
  then have "loop_ends c limit ?k" using elapsed_polls [OF assms, of ?k] by (simp add: loop_ends_def)
  then have "loop_ends c limit (LEAST n. loop_ends c limit n)" "(LEAST n. loop_ends c limit n) \<le> ?k"
    by (auto intro: LeastI Least_le)
  then show ?thesis using not_less_Least by blast
qed


definition sample_child :: child where
  "sample_child = \<lparr>ch_spawned = True, ch_pid = 42, ch_poll = \<lambda>i. Some (if i < 3 then None else Some (ExitCode 0)), ch_elapsed = \<lambda>i. 6 * i,
     ch_wait = None, ch_stdout = ThreadDone (ascii ''ok''), ch_stderr = ThreadDone [], ch_written = ThreadDone ()\<rparr>"


end
