(* ===== verification/Xtask.thy ===== *)
theory Xtask
  imports Child_Process "HOL-Library.List_Lexorder"
begin

text \<open>
  \<^verbatim>\<open>xtask/src/main.rs\<close>: the build tool, which links the library, verifies its exports, its hardening
  and the order of its constructors, and only then puts it in place. Files are a map from
  paths to contents. The programs it runs (cargo, the compiler, nm, readelf, strip), the JSON parser and the
  temporary names are parameters; an operation on files fails when the environment says so.
\<close>

section \<open>What the library must look like\<close>

definition EXPORTS :: "str list" where
  "EXPORTS = map chars
    [''cpuid_configure_profile'', ''cpuid_activate_legacy_profile'', ''cpuid_get_fixed_reply'', ''cpuid_sigsegv_handler'',
     ''detect_cpu_vendor'', ''sigaction'', ''free'', ''malloc'', ''read'', ''pread'', ''mmap'', ''unsetenv'', ''linuwux_setup_hooks'',
     ''forward_signal'', ''reflex_handle_cpuid'', ''reflex_route_syscall'', ''syscallhook'', ''kuser_apply_to_buffer'',
     ''patch_kuser_shared_data_recipe'', ''patch_kuser_shared_data'', ''gettimeofday'', ''set_offset'', ''linuwux_setup_faketime'',
     ''setenv'', ''debug_enabled'', ''debug_runtime_activated'', ''debug_log'', ''debug_log_hex'', ''debug_log_dec'']"

definition ANCHORS :: "str list" where
  "ANCHORS = map chars
    [''linuwux_setup_debug'', ''linuwux_setup_gamescope'', ''linuwux_setup_environment'', ''linuwux_setup_faketime'',
     ''linuwux_setup_hooks'', ''linuwux_setup_kuser'']"

definition INTERPOSITION_HOOKS :: "str list" where
  "INTERPOSITION_HOOKS = map chars [''read'', ''pread'', ''mmap'']"

definition REQUIRED_ELF :: "str list" where
  "REQUIRED_ELF = map chars [''ELF64'', ''DYN'', ''X86-64'', ''GNU_RELRO'', ''BIND_NOW'', ''NODELETE'', ''INIT_ARRAY'']"

section \<open>Reading the output of the inspection programs\<close>

text \<open>The last word of every line that has one.\<close>

definition exported_names :: "str \<Rightarrow> str list" where
  "exported_names nm = map last (filter (\<lambda>ws. ws \<noteq> []) (map split_whitespace (str_lines nm)))"

definition check_exports :: "str \<Rightarrow> xtask_error + unit" where
  "check_exports nm = (if set (exported_names nm) = set EXPORTS then Inr () else Inl (Message ''export mismatch'' []))"

definition check_elf :: "str \<Rightarrow> xtask_error + unit" where
  "check_elf elf = (case find (\<lambda>r. \<not> contains elf r) REQUIRED_ELF of
       Some r \<Rightarrow> Inl (Message ''ELF missing'' [r])
     | None \<Rightarrow>
         (case find (\<lambda>line. contains line (chars ''GNU_STACK'')) (str_lines elf) of
            None \<Rightarrow> Inl (Message ''ELF missing stack policy'' [])
          | Some stack \<Rightarrow>
              if list_ex (\<lambda>w. 69 \<in> set w) (split_whitespace stack) \<or> contains elf (chars ''TEXTREL'')
              then Inl (Message ''executable stack or text relocation in preload artifact'' [])
              else Inr ()))"

fun anchor_addresses :: "str list \<Rightarrow> (str \<times> u64) list \<Rightarrow> xtask_error + (str \<times> u64) list" where
  "anchor_addresses [] m = Inr m"
| "anchor_addresses (line # lines) m = (let ws = split_whitespace line in
     if length ws = 3 \<and> ws ! 2 \<in> set ANCHORS
     then (case from_str_radix16 (ws ! 0) of
             None \<Rightarrow> Inl InvalidNumber
           | Some a \<Rightarrow> anchor_addresses lines (btree_insert (ws ! 2) a m))
     else anchor_addresses lines m)"

definition position :: "('a \<Rightarrow> bool) \<Rightarrow> 'a list \<Rightarrow> nat option" where
  "position P xs = (let n = length (takeWhile (\<lambda>x. \<not> P x) xs) in if n < length xs then Some n else None)"

definition hex_field :: "str list \<Rightarrow> nat \<Rightarrow> string \<Rightarrow> xtask_error + u64" where
  "hex_field ws i missing = (case arr_get ws i of
       None \<Rightarrow> Inl (Message missing [])
     | Some w \<Rightarrow> (case from_str_radix16 w of None \<Rightarrow> Inl InvalidNumber | Some v \<Rightarrow> Inr v))"

definition init_array_section :: "str \<Rightarrow> xtask_error + u64 \<times> u64" where
  "init_array_section sections = (case find (\<lambda>line. contains line (chars ''.init_array '')) (str_lines sections) of
       None \<Rightarrow> Inl (Message ''missing constructor section'' [])
     | Some row \<Rightarrow> (let ws = split_whitespace row in
         case position (\<lambda>w. w = chars ''.init_array'') ws of
           None \<Rightarrow> Inl (Message ''missing constructor section name'' [])
         | Some i \<Rightarrow>
             (case hex_field ws (i + 2) ''missing section address'' of Inl x \<Rightarrow> Inl x | Inr start \<Rightarrow>
               (case hex_field ws (i + 4) ''missing section size'' of Inl x \<Rightarrow> Inl x | Inr sz \<Rightarrow> Inr (start, sz)))))"

text \<open>The sum of start and size is only computed for offsets from the start on; its overflow is a panic.\<close>

fun constructor_slots :: "u64 \<Rightarrow> u64 \<Rightarrow> str list \<Rightarrow> (u64 \<times> u64) list \<Rightarrow> xtask_error + (u64 \<times> u64) list" where
  "constructor_slots start sz [] m = Inr m"
| "constructor_slots start sz (line # lines) m = (let ws = split_whitespace line in
     if length ws < 4 then constructor_slots start sz lines m
     else case from_str_radix16 (ws ! 0) of
       None \<Rightarrow> constructor_slots start sz lines m
     | Some offset \<Rightarrow>
         if offset < start then constructor_slots start sz lines m
         else (case checked_add start sz of
             None \<Rightarrow> Inl Panicked
           | Some stop \<Rightarrow>
               if stop \<le> offset then constructor_slots start sz lines m
               else if ws ! 2 = chars ''R_X86_64_RELATIVE'' \<or> ws ! 2 = chars ''R_X86_64_64''
               then (case from_str_radix16 (ws ! 3) of
                       None \<Rightarrow> Inl InvalidNumber
                     | Some v \<Rightarrow> constructor_slots start sz lines (btree_insert offset v m))
               else Inl (Message ''unsupported constructor relocation'' [ws ! 2])))"

definition constructor_names :: "(str \<times> u64) list \<Rightarrow> (u64 \<times> u64) list \<Rightarrow> str list" where
  "constructor_names addresses constructors =
     List.map_filter (\<lambda>(_, a). map_option fst (find (\<lambda>(_, v). v = a) addresses)) constructors"

definition check_order :: "(str \<times> u64) list \<Rightarrow> (u64 \<times> u64) list \<Rightarrow> xtask_error + unit" where
  "check_order addresses constructors = (let actual = constructor_names addresses constructors in
     if actual = ANCHORS then Inr () else Inl (Message ''constructor order mismatch'' actual))"

section \<open>Programs and files\<close>

type_synonym files = "bytes \<Rightarrow> bytes option"
type_synonym 'a xtask = "files \<Rightarrow> ((xtask_error + 'a) \<times> files) option"

datatype json = JNull | JBool bool | JNumber int | JString str | JArray "json list" | JObject "(str \<times> json) list"

datatype file_op = WriteFile bytes | CreateDir bytes | NewTempDir bytes | NewTempFile bytes | CopyFile bytes bytes | Persist bytes | Metadata bytes

record xtask_env =
  xe_tool :: "command \<Rightarrow> files \<Rightarrow> child \<times> files"
  xe_json :: "bytes \<Rightarrow> json option"
  xe_ok :: "file_op \<Rightarrow> files \<Rightarrow> bool"
  xe_temp_file :: "bytes \<Rightarrow> bytes"
  xe_temp_dir :: "bytes \<Rightarrow> bytes"
  xe_root :: "bytes option"
  xe_supported :: bool
  xe_var :: "string \<Rightarrow> bytes option"

definition xok :: "'a \<Rightarrow> 'a xtask" where
  "xok v = (\<lambda>fs. Some (Inr v, fs))"

definition xlift :: "xtask_error + 'a \<Rightarrow> 'a xtask" where
  "xlift r = (\<lambda>fs. Some (r, fs))"

definition xbind :: "'a xtask \<Rightarrow> ('a \<Rightarrow> 'b xtask) \<Rightarrow> 'b xtask" where
  "xbind m k = (\<lambda>fs. case m fs of
       None \<Rightarrow> None
     | Some (Inl x, fs') \<Rightarrow> Some (Inl x, fs')
     | Some (Inr v, fs') \<Rightarrow> k v fs')"

definition run_checked :: "xtask_env \<Rightarrow> command \<Rightarrow> process_output xtask" where
  "run_checked e cmd = (\<lambda>fs. let (c, fs') = xe_tool e cmd fs in map_option (\<lambda>r. (r, fs')) (checked cmd c))"

definition output_text :: "process_output \<Rightarrow> xtask_error + str" where
  "output_text out = (case from_utf8 (po_stdout out) of None \<Rightarrow> Inl InvalidUtf8 | Some t \<Rightarrow> Inr t)"

definition run_text :: "xtask_env \<Rightarrow> command \<Rightarrow> str xtask" where
  "run_text e cmd = xbind (run_checked e cmd) (\<lambda>out. xlift (output_text out))"

definition tool :: "string \<Rightarrow> string list \<Rightarrow> bytes \<Rightarrow> command" where
  "tool program args path = \<lparr>cmd_program = ascii program, cmd_dir = None, cmd_args = map ascii args @ [path]\<rparr>"

definition verify_elf :: "xtask_env \<Rightarrow> bytes \<Rightarrow> unit xtask" where
  "verify_elf e library =
     xbind (run_text e (tool ''nm'' [''-D'', ''--defined-only''] library)) (\<lambda>nm.
     xbind (xlift (check_exports nm)) (\<lambda>_.
     xbind (run_text e (tool ''readelf'' [''-W'', ''-h'', ''-l'', ''-d''] library)) (\<lambda>elf.
     xlift (check_elf elf))))"

definition verify_constructors :: "xtask_env \<Rightarrow> bytes \<Rightarrow> unit xtask" where
  "verify_constructors e library =
     xbind (run_text e (tool ''nm'' [''--defined-only''] library)) (\<lambda>symbols.
     xbind (xlift (anchor_addresses (str_lines symbols) [])) (\<lambda>addresses.
     xbind (run_text e (tool ''readelf'' [''-W'', ''-S''] library)) (\<lambda>sections.
     xbind (xlift (init_array_section sections)) (\<lambda>(start, sz).
     xbind (run_text e (tool ''readelf'' [''-W'', ''-r''] library)) (\<lambda>relocations.
     xbind (xlift (constructor_slots start sz (str_lines relocations) [])) (\<lambda>constructors.
     xlift (check_order addresses constructors)))))))"

section \<open>Building\<close>

record build_context =
  bc_root :: bytes
  bc_target :: bytes
  bc_scratch :: bytes
  bc_debug :: bool
  bc_cargo :: bytes
  bc_cc :: bytes

text \<open>\<open>Path::join\<close> with a relative path, and \<open>Path::parent\<close> with the empty parent read as the current directory.\<close>

definition path_join :: "bytes \<Rightarrow> bytes \<Rightarrow> bytes" where
  "path_join base rel = (if base = [] \<or> last base = 47 then base @ rel else base @ 47 # rel)"

definition utf8_encode :: "u32 \<Rightarrow> bytes" where
  "utf8_encode c =
     (if c < 0x80 then [ucast c]
      else if c < 0x800 then [0xc0 OR ucast (drop_bit 6 c), 0x80 OR (ucast c AND 0x3f)]
      else if c < 0x10000 then [0xe0 OR ucast (drop_bit 12 c), 0x80 OR (ucast (drop_bit 6 c) AND 0x3f), 0x80 OR (ucast c AND 0x3f)]
      else [0xf0 OR ucast (drop_bit 18 c), 0x80 OR (ucast (drop_bit 12 c) AND 0x3f),
            0x80 OR (ucast (drop_bit 6 c) AND 0x3f), 0x80 OR (ucast c AND 0x3f)])"

definition to_bytes :: "str \<Rightarrow> bytes" where
  "to_bytes t = concat (map utf8_encode t)"

text \<open>A value of JSON indexed with a key, which is null where there is no such member.\<close>

definition json_get :: "json \<Rightarrow> string \<Rightarrow> json" where
  "json_get j key = (case j of JObject m \<Rightarrow> (case map_of m (chars key) of Some v \<Rightarrow> v | None \<Rightarrow> JNull) | _ \<Rightarrow> JNull)"

fun json_str :: "json \<Rightarrow> str option" where
  "json_str (JString t) = Some t"
| "json_str _ = None"

definition ends_with_a :: "str \<Rightarrow> bool" where
  "ends_with_a t \<longleftrightarrow> strip_suffix (chars ''.a'') t \<noteq> None"

definition artifact_file :: "json \<Rightarrow> str option" where
  "artifact_file message =
     (if json_get message ''reason'' = JString (chars ''compiler-artifact'') \<and>
         json_get (json_get message ''target'') ''name'' = JString (chars ''linuwux_runtime'')
      then (case json_get message ''filenames'' of
              JArray files \<Rightarrow> find ends_with_a (List.map_filter json_str files)
            | _ \<Rightarrow> None)
      else None)"

fun find_archive :: "xtask_env \<Rightarrow> bytes list \<Rightarrow> xtask_error + bytes" where
  "find_archive e [] = Inl (Message ''Cargo did not report the runtime static archive'' [])"
| "find_archive e (line # lines) = (case Option.bind (xe_json e line) artifact_file of
       Some f \<Rightarrow> Inr (to_bytes f)
     | None \<Rightarrow> find_archive e lines)"

definition archive_command :: "build_context \<Rightarrow> bytes option \<Rightarrow> command" where
  "archive_command ctx features = \<lparr>cmd_program = bc_cargo ctx, cmd_dir = Some (bc_root ctx), cmd_args =
     map ascii [''build'', ''--locked'', ''-p'', ''linuwux-runtime'', ''--message-format=json-render-diagnostics''] @
     (case features of
        Some f \<Rightarrow> [ascii ''--no-default-features'', ascii ''--features'', f, ascii ''--target-dir'', path_join (bc_scratch ctx) (ascii ''component-target'')]
      | None \<Rightarrow> [ascii ''--target-dir'', bc_target ctx]) @
     (if bc_debug ctx then [] else [ascii ''--release''])\<rparr>"

definition archive :: "xtask_env \<Rightarrow> build_context \<Rightarrow> bytes option \<Rightarrow> bytes xtask" where
  "archive e ctx features = xbind (run_checked e (archive_command ctx features)) (\<lambda>out.
     xlift (find_archive e (split_on (\<lambda>b. b = 10) (po_stdout out))))"

definition compiler_args :: "bytes list" where
  "compiler_args = map ascii [''-std=gnu11'', ''-O2'', ''-Wall'', ''-Wextra'', ''-Werror'', ''-Wl,-z,now'']"

definition link_command :: "build_context \<Rightarrow> bytes \<Rightarrow> bytes \<Rightarrow> bytes \<Rightarrow> command" where
  "link_command ctx script archive_path library = \<lparr>cmd_program = bc_cc ctx, cmd_dir = Some (bc_root ctx), cmd_args =
     compiler_args @
     map ascii [''-shared'', ''-fPIC'', ''-Wl,--gc-sections'', ''-Wl,-z,relro,-z,now,-z,nodelete,-z,noexecstack,-z,defs''] @
     map (\<lambda>n. ascii ''-Wl,-u,'' @ to_bytes n) (ANCHORS @ INTERPOSITION_HOOKS) @
     [ascii ''-Wl,--version-script='' @ script, archive_path] @
     map ascii [''-ldl'', ''-lpthread'', ''-lm'', ''-o''] @ [library]\<rparr>"

definition file_op :: "xtask_env \<Rightarrow> file_op \<Rightarrow> (files \<Rightarrow> files) \<Rightarrow> unit xtask" where
  "file_op e op f = (\<lambda>fs. if xe_ok e op fs then Some (Inr (), f fs) else Some (Inl IoError, fs))"

definition export_map_text :: bytes where
  "export_map_text = ascii [CHR ''{'', CHR 0x0A] @ ascii '' global:'' @ [10] @
     concat (map (\<lambda>n. ascii '' '' @ to_bytes n @ ascii '';'' @ [10]) EXPORTS) @ ascii '' local: *;'' @ [10] @ ascii ''};'' @ [10]"

definition export_map :: "xtask_env \<Rightarrow> build_context \<Rightarrow> bytes xtask" where
  "export_map e ctx = (let script = path_join (bc_scratch ctx) (ascii ''exports.map'') in
     xbind (file_op e (WriteFile script) (\<lambda>fs. fs(script \<mapsto> export_map_text))) (\<lambda>_. xok script))"

definition library_path :: "build_context \<Rightarrow> bytes" where
  "library_path ctx = path_join (bc_scratch ctx) (ascii ''LinUwUx.so'')"

text \<open>Everything up to the verified library in the scratch directory.\<close>

definition link_and_verify :: "xtask_env \<Rightarrow> build_context \<Rightarrow> unit xtask" where
  "link_and_verify e ctx = (let library = library_path ctx in
     xbind (archive e ctx None) (\<lambda>archive_path.
     xbind (export_map e ctx) (\<lambda>script.
     xbind (run_checked e (link_command ctx script archive_path library)) (\<lambda>_.
     xbind (verify_constructors e library) (\<lambda>_.
     xbind (if bc_debug ctx then xok () else xbind (run_checked e (tool ''strip'' [''--strip-unneeded''] library)) (\<lambda>_. xok ())) (\<lambda>_.
     verify_elf e library))))))"

text \<open>
  Putting the library in place: a copy in a temporary file of the same directory, which is renamed
  over the destination. The temporary file is removed when the copy or the renaming fails.
\<close>

fun trim_end :: "bytes \<Rightarrow> bytes" where
  "trim_end (b # r) = (if b = 47 \<and> r \<noteq> [] then trim_end r
     else if b = 46 \<and> r \<noteq> [] \<and> hd r = 47 then trim_end r else b # r)"
| "trim_end [] = []"

text \<open>On the reversed path: trailing separators and current-directory components do not count.\<close>

definition parent_dir :: "bytes \<Rightarrow> bytes" where
  "parent_dir path = (let r = trim_end (rev path) in
     if r = [] \<or> r = [47] then ascii ''.''
     else let p = trim_end (dropWhile (\<lambda>b. b \<noteq> 47) r) in if p = [] then ascii ''.'' else rev p)"

definition persist_copy :: "xtask_env \<Rightarrow> bytes \<Rightarrow> bytes \<Rightarrow> bytes \<Rightarrow> unit xtask" where
  "persist_copy e library temporary output = (\<lambda>fs. case fs library of
       None \<Rightarrow> Some (Inl IoError, fs(temporary := None))
     | Some content \<Rightarrow>
         if \<not> xe_ok e (CopyFile library temporary) fs then Some (Inl IoError, fs(temporary := None))
         else if \<not> xe_ok e (Persist output) (fs(temporary \<mapsto> content)) then Some (Inl IoError, fs(temporary := None))
         else Some (Inr (), fs(temporary := None, output \<mapsto> content)))"

definition publish :: "xtask_env \<Rightarrow> bytes \<Rightarrow> bytes \<Rightarrow> unit xtask" where
  "publish e library output = (let parent = parent_dir output; temporary = xe_temp_file e parent in
     xbind (file_op e (CreateDir parent) id) (\<lambda>_.
     xbind (file_op e (NewTempFile parent) (\<lambda>fs. fs(temporary \<mapsto> []))) (\<lambda>_.
     xbind (persist_copy e library temporary output) (\<lambda>_.
     file_op e (Metadata output) id))))"

definition build :: "xtask_env \<Rightarrow> build_context \<Rightarrow> bytes \<Rightarrow> unit xtask" where
  "build e ctx output = xbind (link_and_verify e ctx) (\<lambda>_. publish e (library_path ctx) output)"

section \<open>The command line\<close>

fun parse_args :: "bytes list \<Rightarrow> bool \<Rightarrow> bytes option \<Rightarrow> xtask_error + bool \<times> bytes option" where
  "parse_args [] debug output = Inr (debug, output)"
| "parse_args (arg # args) debug output =
     (if arg = ascii ''--debug'' then parse_args args True output
      else if arg = ascii ''--output'' then
        (case args of [] \<Rightarrow> Inl (Message ''--output requires a path'' []) | p # rest \<Rightarrow> parse_args rest debug (Some p))
      else Inl (Message ''unknown argument'' []))"

definition unwrap_or :: "'a option \<Rightarrow> 'a \<Rightarrow> 'a" where
  "unwrap_or v d = (case v of Some x \<Rightarrow> x | None \<Rightarrow> d)"

definition target_directory :: "xtask_env \<Rightarrow> process_output \<Rightarrow> xtask_error + bytes" where
  "target_directory e metadata = (case xe_json e (po_stdout metadata) of
       None \<Rightarrow> Inl InvalidJson
     | Some j \<Rightarrow> (case json_str (json_get j ''target_directory'') of
         None \<Rightarrow> Inl (Message ''missing Cargo target directory'' [])
       | Some t \<Rightarrow> Inr (to_bytes t)))"

definition default_destination :: "bytes \<Rightarrow> bool \<Rightarrow> bytes" where
  "default_destination target debug =
     path_join (path_join target (ascii (if debug then ''runtime-debug'' else ''runtime''))) (ascii ''LinUwUx.so'')"

definition xtask_run :: "xtask_env \<Rightarrow> bytes list \<Rightarrow> unit xtask" where
  "xtask_run e args = (let command = (case args of [] \<Rightarrow> ascii ''help'' | c # _ \<Rightarrow> c); rest = tl args in
     if command = ascii ''help'' \<or> command = ascii ''--help'' then xok ()
     else if \<not> xe_supported e then xlift (Inl (Message ''requires Linux x86-64 with glibc'' []))
     else xbind (xlift (parse_args rest False None)) (\<lambda>(debug, output).
       case xe_root e of
         None \<Rightarrow> xlift (Inl (Message ''missing workspace root'' []))
       | Some root \<Rightarrow> (let cargo = unwrap_or (xe_var e ''CARGO'') (ascii ''cargo'') in
           xbind (run_checked e \<lparr>cmd_program = cargo, cmd_dir = Some root,
              cmd_args = map ascii [''metadata'', ''--format-version=1'', ''--no-deps'']\<rparr>) (\<lambda>metadata.
           xbind (xlift (target_directory e metadata)) (\<lambda>target.
           xbind (file_op e (CreateDir target) id) (\<lambda>_.
           xbind (file_op e (NewTempDir target) id) (\<lambda>_.
             let ctx = \<lparr>bc_root = root, bc_target = target, bc_scratch = xe_temp_dir e target, bc_debug = debug,
                   bc_cargo = cargo, bc_cc = unwrap_or (xe_var e ''CC'') (ascii ''cc'')\<rparr>;
                 destination = unwrap_or output (default_destination target debug) in
             if command = ascii ''build'' then build e ctx destination
             else xlift (Inl (Message ''unknown command or missing required option'' [])))))))))"

section \<open>A step that succeeds\<close>

lemma xbind_ok: "xbind m k fs = Some (Inr v, fs') \<longleftrightarrow> (\<exists>u fs1. m fs = Some (Inr u, fs1) \<and> k u fs1 = Some (Inr v, fs'))"
  by (auto simp: xbind_def split: option.splits sum.splits)

lemma xbind_steps: "xbind m k fs = Some (r, fs') \<Longrightarrow>
    (\<exists>x. r = Inl x \<and> m fs = Some (Inl x, fs')) \<or> (\<exists>u fs1. m fs = Some (Inr u, fs1) \<and> k u fs1 = Some (r, fs'))"
  by (auto simp: xbind_def split: option.splits sum.splits)

lemma xlift_ok: "xlift r fs = Some (Inr v, fs') \<longleftrightarrow> r = Inr v \<and> fs' = fs"
  by (auto simp: xlift_def)

section \<open>The order of the constructors\<close>

lemma map_filter_selected: "List.map_filter f xs = map (\<lambda>x. the (f x)) (filter (\<lambda>x. f x \<noteq> None) xs)"
  by (simp add: List.map_filter_def comp_def)

lemma constructor_slots_step:
  assumes "constructor_slots start sz (line # lines) m = Inr m'"
  obtains "constructor_slots start sz lines m = Inr m'"
    | off v stop where "constructor_slots start sz lines (btree_insert off v m) = Inr m'"
        "start \<le> off" "off < stop" "checked_add start sz = Some stop"
  using assms by (auto simp: Let_def not_less not_le split: if_splits option.splits)

lemma constructor_slots_sorted:
  "constructor_slots start sz lines m = Inr m' \<Longrightarrow> sorted_wrt (<) (map fst m) \<Longrightarrow> sorted_wrt (<) (map fst m')"
proof (induction lines arbitrary: m)
  case (Cons line lines)
  show ?case
  proof (rule constructor_slots_step [OF Cons.prems(1)])
    fix off v assume "constructor_slots start sz lines (btree_insert off v m) = Inr m'"
    from Cons.IH [OF this btree_insert_sorted [OF Cons.prems(2)]] show ?thesis .
  qed (rule Cons.IH [OF _ Cons.prems(2)])
qed simp

definition slots_within :: "u64 \<Rightarrow> u64 \<Rightarrow> (u64 \<times> u64) list \<Rightarrow> bool" where
  "slots_within start sz m \<longleftrightarrow> (\<forall>off \<in> fst ` set m. unat start \<le> unat off \<and> unat off < unat start + unat sz)"

lemma constructor_slots_range: "constructor_slots start sz lines m = Inr m' \<Longrightarrow> slots_within start sz m \<Longrightarrow> slots_within start sz m'"
proof (induction lines arbitrary: m)
  case (Cons line lines)
  have ins: "slots_within start sz (btree_insert off v m)" if "start \<le> off" "off < stop" "checked_add start sz = Some stop" for off v stop
    using that Cons.prems(2) checked_add_SomeD [OF that(3)]
    unfolding slots_within_def btree_insert_keys by (simp add: word_less_nat_alt word_le_nat_alt)
  show ?case
  proof (rule constructor_slots_step [OF Cons.prems(1)])
    fix off v stop assume "constructor_slots start sz lines (btree_insert off v m) = Inr m'" "start \<le> off" "off < stop" "checked_add start sz = Some stop"
    then show ?thesis using Cons.IH ins by simp
  qed (rule Cons.IH [OF _ Cons.prems(2)])
qed simp

lemma anchor_addresses_names:
  "anchor_addresses lines m = Inr m' \<Longrightarrow> fst ` set m \<subseteq> set ANCHORS \<Longrightarrow> fst ` set m' \<subseteq> set ANCHORS"
proof (induction lines arbitrary: m)
  case (Cons line lines)
  then show ?case using btree_insert_keys by (auto simp: Let_def btree_insert_keys split: if_splits option.splits)
qed simp

lemma order_checked:
  assumes "check_order addresses constructors = Inr ()" and "sorted_wrt (<) (map fst constructors)"
  shows "\<exists>offsets. length offsets = length ANCHORS \<and> sorted_wrt (<) offsets \<and>
    (\<forall>i < length ANCHORS. \<exists>a. (offsets ! i, a) \<in> set constructors \<and> (ANCHORS ! i, a) \<in> set addresses) \<and>
    (\<forall>(o', a) \<in> set constructors. a \<in> snd ` set addresses \<longrightarrow> o' \<in> set offsets)"
proof -
  let ?f = "\<lambda>(_, a). map_option fst (find (\<lambda>(_, v). v = a) addresses)" and ?g = "\<lambda>a. find (\<lambda>(_, v). v = a) addresses"
  let ?s = "filter (\<lambda>x. ?f x \<noteq> None) constructors"
  have names: "map (\<lambda>x. the (?f x)) ?s = ANCHORS"
    using assms(1) by (simp add: check_order_def constructor_names_def map_filter_selected Let_def split: if_splits)
  then have len: "length ?s = length ANCHORS" by (metis length_map)
  have "sorted_wrt (<) (map fst ?s)" using assms(2) by (simp add: sorted_wrt_map sorted_wrt_filter)
  moreover have "\<exists>a. (map fst ?s ! i, a) \<in> set constructors \<and> (ANCHORS ! i, a) \<in> set addresses" if "i < length ANCHORS" for i
  proof -
    obtain o' a where s: "?s ! i = (o', a)" by (cases "?s ! i")
    then have m: "(o', a) \<in> set ?s" using that len by (metis nth_mem)
    then obtain n v where n: "?g a = Some (n, v)" by auto
    then have "(n, a) \<in> set addresses" by (auto simp: find_Some_iff in_set_conv_nth)
    moreover have "ANCHORS ! i = n"
    proof -
      have "ANCHORS ! i = the (?f (?s ! i))" using that len by (subst names [symmetric]) simp
      then show ?thesis using s n by simp
    qed
    ultimately show ?thesis using m that len s by auto
  qed
  moreover have "o' \<in> set (map fst ?s)" if "(o', a) \<in> set constructors" "a \<in> snd ` set addresses" for o' a
  proof -
    have "?g a \<noteq> None" using that(2) by (auto simp: find_None_iff)
    then have "(o', a) \<in> set ?s" using that(1) by auto
    then show ?thesis by force
  qed
  ultimately show ?thesis using len by (intro exI [of _ "map fst ?s"] conjI ballI) (simp, blast, blast, auto simp del: set_map)
qed

text \<open>
  What an accepted library shows: the six setup functions have addresses, and the slots of the constructor
  section that hold them are in increasing order of offset, one for each, inside the section; no other slot of the section
  holds any of these addresses.
\<close>

definition constructors_in_order :: "str \<Rightarrow> str \<Rightarrow> str \<Rightarrow> bool" where
  "constructors_in_order symbols sections relocations \<longleftrightarrow> (\<exists>addresses start sz constructors offsets.
     anchor_addresses (str_lines symbols) [] = Inr addresses \<and> init_array_section sections = Inr (start, sz) \<and>
     constructor_slots start sz (str_lines relocations) [] = Inr constructors \<and>
     length offsets = length ANCHORS \<and> sorted_wrt (<) offsets \<and>
     (\<forall>i < length ANCHORS. unat start \<le> unat (offsets ! i) \<and> unat (offsets ! i) < unat start + unat sz \<and>
        (\<exists>a. (offsets ! i, a) \<in> set constructors \<and> (ANCHORS ! i, a) \<in> set addresses)) \<and>
     (\<forall>(off, a) \<in> set constructors. a \<in> snd ` set addresses \<longrightarrow> off \<in> set offsets))"

lemma verified_order:
  assumes "anchor_addresses (str_lines symbols) [] = Inr addresses" and "init_array_section sections = Inr (start, sz)"
    and "constructor_slots start sz (str_lines relocations) [] = Inr constructors" and "check_order addresses constructors = Inr ()"
  shows "constructors_in_order symbols sections relocations"
proof -
  have "sorted_wrt (<) (map fst constructors)" using constructor_slots_sorted [OF assms(3)] by simp
  from order_checked [OF assms(4) this] obtain offsets where
    o: "length offsets = length ANCHORS" "sorted_wrt (<) offsets"
      "\<forall>i < length ANCHORS. \<exists>a. (offsets ! i, a) \<in> set constructors \<and> (ANCHORS ! i, a) \<in> set addresses"
      "\<forall>(off, a) \<in> set constructors. a \<in> snd ` set addresses \<longrightarrow> off \<in> set offsets" by blast
  have "slots_within start sz constructors" using constructor_slots_range [OF assms(3)] by (simp add: slots_within_def)
  then have "\<forall>i < length ANCHORS. unat start \<le> unat (offsets ! i) \<and> unat (offsets ! i) < unat start + unat sz"
    using o(3) unfolding slots_within_def by (metis fst_conv image_eqI)
  with o assms(1-3) show ?thesis unfolding constructors_in_order_def by blast
qed

text \<open>The same of the library in a state of the files, as nm and readelf reported it, and of its exports.\<close>

definition constructors_seen :: "xtask_env \<Rightarrow> bytes \<Rightarrow> files \<Rightarrow> bool" where
  "constructors_seen e library fs \<longleftrightarrow> (\<exists>symbols sections relocations fs1 fs2 fs3.
     run_text e (tool ''nm'' [''--defined-only''] library) fs = Some (Inr symbols, fs1) \<and>
     run_text e (tool ''readelf'' [''-W'', ''-S''] library) fs1 = Some (Inr sections, fs2) \<and>
     run_text e (tool ''readelf'' [''-W'', ''-r''] library) fs2 = Some (Inr relocations, fs3) \<and>
     constructors_in_order symbols sections relocations)"

lemma verify_constructors_ok: "verify_constructors e library fs = Some (Inr (), fs') \<Longrightarrow> constructors_seen e library fs"
  using verified_order by (auto simp: constructors_seen_def verify_constructors_def xbind_ok xlift_ok split: prod.splits)

definition elf_hardened :: "str \<Rightarrow> bool" where
  "elf_hardened elf \<longleftrightarrow> (\<forall>r \<in> set REQUIRED_ELF. contains elf r) \<and> \<not> contains elf (chars ''TEXTREL'') \<and>
     (\<exists>stack \<in> set (str_lines elf). contains stack (chars ''GNU_STACK'') \<and> (\<forall>w \<in> set (split_whitespace stack). 69 \<notin> set w))"

lemma check_elf_ok: "check_elf elf = Inr () \<Longrightarrow> elf_hardened elf"
  by (auto simp: check_elf_def elf_hardened_def find_None_iff find_Some_iff list_ex_iff split: option.splits if_splits)

definition elf_seen :: "xtask_env \<Rightarrow> bytes \<Rightarrow> files \<Rightarrow> files \<Rightarrow> bool" where
  "elf_seen e library fs fs' \<longleftrightarrow> (\<exists>nm elf fs1. run_text e (tool ''nm'' [''-D'', ''--defined-only''] library) fs = Some (Inr nm, fs1) \<and>
     run_text e (tool ''readelf'' [''-W'', ''-h'', ''-l'', ''-d''] library) fs1 = Some (Inr elf, fs') \<and>
     set (exported_names nm) = set EXPORTS \<and> elf_hardened elf)"

lemma verify_elf_ok: "verify_elf e library fs = Some (Inr (), fs') \<Longrightarrow> elf_seen e library fs fs'"
  by (auto simp: elf_seen_def verify_elf_def xbind_ok xlift_ok check_exports_def intro!: check_elf_ok split: if_splits)

section \<open>The destination\<close>

definition keeps :: "bytes \<Rightarrow> 'a xtask \<Rightarrow> bool" where
  "keeps path m \<longleftrightarrow> (\<forall>fs r fs'. m fs = Some (r, fs') \<longrightarrow> fs' path = fs path)"

named_theorems keeps_intros "steps that leave a file alone"

lemma keeps_xbind [keeps_intros]: "keeps path m \<Longrightarrow> (\<And>v. keeps path (k v)) \<Longrightarrow> keeps path (xbind m k)"
  unfolding keeps_def by (metis xbind_steps)

lemma keeps_pure [keeps_intros]: "keeps path (xlift r)" "keeps path (xok v)"
  by (auto simp: keeps_def xlift_def xok_def)

lemma keeps_file_op [keeps_intros]: "(\<And>fs. f fs path = fs path) \<Longrightarrow> keeps path (file_op e op f)"
  by (auto simp: keeps_def file_op_def split: if_splits)

definition tools_keep :: "xtask_env \<Rightarrow> bytes \<Rightarrow> bool" where
  "tools_keep e path \<longleftrightarrow> (\<forall>cmd fs. snd (xe_tool e cmd fs) path = fs path)"

lemma keeps_run [keeps_intros]: "tools_keep e path \<Longrightarrow> keeps path (run_checked e cmd)"
  by (auto simp: keeps_def tools_keep_def run_checked_def split: prod.splits) (metis snd_conv)

lemma keeps_run_text [keeps_intros]: "tools_keep e path \<Longrightarrow> keeps path (run_text e cmd)"
  unfolding run_text_def by (intro keeps_intros)

lemma link_and_verify_keeps:
  assumes "tools_keep e path" and "path \<noteq> path_join (bc_scratch ctx) (ascii ''exports.map'')"
  shows "keeps path (link_and_verify e ctx)"
  unfolding link_and_verify_def verify_elf_def verify_constructors_def archive_def export_map_def Let_def
  using assms by (auto intro!: keeps_intros split: prod.splits)

text \<open>The destination is replaced whole with the library of the scratch directory, or it is left alone.\<close>

lemma publish_replaces:
  assumes "publish e library output fs = Some (r, fs')" and "temporary = xe_temp_file e (parent_dir output)"
    and "output \<noteq> temporary" and "library \<noteq> temporary"
  shows "fs' output = fs output \<or> fs library \<noteq> None \<and> fs' output = fs library"
proof -
  let ?fs = "fs(temporary \<mapsto> [])"
  have "?fs library = fs library" "?fs output = fs output" using assms(3,4) by auto
  moreover have "fs' output = fs output \<or> (\<exists>r'. persist_copy e library temporary output ?fs = Some (r', fs'))"
    using assms(1,3) unfolding publish_def Let_def assms(2) [symmetric]
    by (auto simp: file_op_def xbind_def split: if_splits option.splits sum.splits)
  moreover have "fs' output = ?fs output \<or> ?fs library \<noteq> None \<and> fs' output = ?fs library"
    if "persist_copy e library temporary output ?fs = Some (r', fs')" for r'
    using that assms(3) by (auto simp: persist_copy_def split: option.splits if_splits)
  ultimately show ?thesis by metis
qed

lemma link_and_verify_ok:
  assumes "link_and_verify e ctx fs = Some (Inr (), fs')"
  shows "(\<exists>fs1 fs2. verify_constructors e (library_path ctx) fs1 = Some (Inr (), fs2)) \<and> (\<exists>fs1. verify_elf e (library_path ctx) fs1 = Some (Inr (), fs'))"
  using assms unfolding link_and_verify_def Let_def xbind_ok by auto


section \<open>A build\<close>

text \<open>Outputs of the inspection programs, one string per line.\<close>

definition unlines :: "str list \<Rightarrow> str" where
  "unlines ls = concat (map (\<lambda>l. l @ [10]) ls)"

definition sample_elf :: str where
  "sample_elf = unlines (map chars [''Class ELF64'', ''Type DYN'', ''X86-64'', ''GNU_STACK 0x0 RW 0x10'', ''GNU_RELRO'', ''INIT_ARRAY'', ''BIND_NOW NODELETE''])"

definition sample_symbols :: str where
  "sample_symbols = unlines (map chars [''10 t linuwux_setup_debug'', ''20 t linuwux_setup_gamescope'', ''30 t linuwux_setup_environment'',
     ''40 T linuwux_setup_faketime'', ''50 T linuwux_setup_hooks'', ''60 t linuwux_setup_kuser'', ''70 t other''])"

definition sample_sections :: str where
  "sample_sections = unlines [chars ''[21] .init_array INIT_ARRAY 3000 2000 38 08 WA 0 0 8'']"

definition sample_relocations :: str where
  "sample_relocations = unlines (map chars [''3008 8 R_X86_64_RELATIVE 10'', ''3000 8 R_X86_64_RELATIVE 70'', ''3010 8 R_X86_64_RELATIVE 20'',
     ''3018 8 R_X86_64_RELATIVE 30'', ''3020 8 R_X86_64_64 40'', ''3028 8 R_X86_64_64 50'', ''3030 8 R_X86_64_RELATIVE 60'', ''4000 8 R_X86_64_GLOB_DAT 0''])"

lemma from_utf8_plain: "list_all (\<lambda>c. c < 0x80) t \<Longrightarrow> from_utf8 (map ucast t) = Some t"
proof -
  assume a: "list_all (\<lambda>c. c < 0x80) t"
  have b: "unat (ucast c :: u8) = unat c" if "c < 0x80" for c :: u32
    using that by (simp add: unsigned_ucast_eq take_bit_nat_eq_self word_less_nat_alt)
  have u: "unat (ucast b :: u32) = unat b" for b :: u8
    using unsigned_less [of b, where ?'a = nat] by (simp add: unsigned_ucast_eq take_bit_nat_eq_self)
  have "(ucast c :: u8) < 0x80" "ucast (ucast c :: u8) = c" if "c < 0x80" for c :: u32
    using that b [OF that] by (simp_all add: word_less_nat_alt word_unat_eq_iff u)
  then show ?thesis using a from_utf8_ascii [of "map ucast t"] by (simp add: list_all_iff comp_def map_idI)
qed

lemma sample_elf_ok: "check_elf sample_elf = Inr ()"
  by code_simp

lemma sample_order_ok:
  "anchor_addresses (str_lines sample_symbols) [] = Inr [(chars ''linuwux_setup_debug'', 0x10), (chars ''linuwux_setup_environment'', 0x30),
     (chars ''linuwux_setup_faketime'', 0x40), (chars ''linuwux_setup_gamescope'', 0x20), (chars ''linuwux_setup_hooks'', 0x50), (chars ''linuwux_setup_kuser'', 0x60)]"
  "init_array_section sample_sections = Inr (0x3000, 0x38)"
  "constructor_slots 0x3000 0x38 (str_lines sample_relocations) [] =
     Inr [(0x3000, 0x70), (0x3008, 0x10), (0x3010, 0x20), (0x3018, 0x30), (0x3020, 0x40), (0x3028, 0x50), (0x3030, 0x60)]"
  by code_simp+

lemma sample_plain: "list_all (list_all (\<lambda>c. c < 0x80)) [unlines EXPORTS, sample_elf, sample_symbols, sample_sections, sample_relocations]"
  by code_simp

definition done_child :: "bytes \<Rightarrow> child" where
  "done_child out = \<lparr>ch_spawned = True, ch_pid = 7, ch_poll = \<lambda>_. Some (Some (ExitCode 0)), ch_elapsed = \<lambda>i. 5 * i,
     ch_wait = None, ch_stdout = ThreadDone out, ch_stderr = ThreadDone [], ch_written = ThreadDone ()\<rparr>"

lemma done_child_checked: "checked cmd (done_child out) = Some (Inr \<lparr>po_status = ExitCode 0, po_stdout = out, po_stderr = []\<rparr>)"
  by (simp add: checked_def process_run_def wait_loop.simps done_child_def collect_def join_reader_def success_def)

definition sample_stdout :: "command \<Rightarrow> str" where
  "sample_stdout cmd =
     (if cmd_program cmd = ascii ''nm'' then (if length (cmd_args cmd) = 3 then unlines EXPORTS else sample_symbols)
      else if cmd_program cmd = ascii ''readelf'' then
        (if cmd_args cmd ! 1 = ascii ''-S'' then sample_sections else if cmd_args cmd ! 1 = ascii ''-r'' then sample_relocations else sample_elf)
      else [])"

definition sample_ctx :: build_context where
  "sample_ctx = \<lparr>bc_root = ascii ''/r'', bc_target = ascii ''/t'', bc_scratch = ascii ''/t/s'', bc_debug = False, bc_cargo = ascii ''cargo'', bc_cc = ascii ''cc''\<rparr>"

definition sample_xtask :: xtask_env where
  "sample_xtask = \<lparr>xe_tool = \<lambda>cmd fs. (done_child (map ucast (sample_stdout cmd)),
       if cmd_program cmd = ascii ''cc'' then fs(library_path sample_ctx \<mapsto> [0x7f]) else fs),
     xe_json = \<lambda>_. Some (JObject [(chars ''reason'', JString (chars ''compiler-artifact'')),
       (chars ''target'', JObject [(chars ''name'', JString (chars ''linuwux_runtime''))]), (chars ''filenames'', JArray [JString (chars ''l.a'')])]),
     xe_ok = \<lambda>_ _. True, xe_temp_file = \<lambda>p. path_join p (ascii ''.tmp''), xe_temp_dir = \<lambda>p. path_join p (ascii ''s''),
     xe_root = Some (ascii ''/r''), xe_supported = True, xe_var = \<lambda>_. None\<rparr>"

lemma sample_run: "run_checked sample_xtask cmd fs = Some (Inr \<lparr>po_status = ExitCode 0, po_stdout = map ucast (sample_stdout cmd), po_stderr = []\<rparr>,
    if cmd_program cmd = ascii ''cc'' then fs(library_path sample_ctx \<mapsto> [0x7f]) else fs)"
  by (simp add: run_checked_def sample_xtask_def done_child_checked del: ascii_Cons)

lemma sample_text: "sample_stdout cmd \<in> set [unlines EXPORTS, sample_elf, sample_symbols, sample_sections, sample_relocations] \<Longrightarrow>
    run_text sample_xtask cmd fs = Some (Inr (sample_stdout cmd), if cmd_program cmd = ascii ''cc'' then fs(library_path sample_ctx \<mapsto> [0x7f]) else fs)"
  using sample_plain unfolding run_text_def xbind_def sample_run list_all_iff
  by (auto simp: output_text_def from_utf8_plain list_all_iff xlift_def simp del: ascii_Cons)

lemma exported_unlines:
  assumes "list_all (\<lambda>n. n \<noteq> [] \<and> list_all (\<lambda>c. \<not> is_whitespace c) n) names"
  shows "exported_names (unlines names) = names"
proof -
  have nl: "c \<noteq> 10 \<and> c \<noteq> 13" if "\<not> is_whitespace c" for c using that by (auto simp: is_whitespace_def)
  have "str_lines (unlines names) = names"
    unfolding unlines_def using assms nl by (intro str_lines_terminated) (auto simp: list_all_iff)
  moreover have "split_whitespace n = [n]" if "n \<in> set names" for n
    using that assms by (auto simp: split_whitespace_def list_all_iff split_on_no_sep)
  ultimately show ?thesis using assms by (simp add: exported_names_def filter_map comp_def map_idI cong: map_cong filter_cong)
qed

lemma sample_verified:
  "verify_constructors sample_xtask library fs = Some (Inr (), fs)" "verify_elf sample_xtask library fs = Some (Inr (), fs)"
proof -
  have t: "sample_stdout (tool ''nm'' [''--defined-only''] library) = sample_symbols"
    "sample_stdout (tool ''readelf'' [''-W'', ''-S''] library) = sample_sections" "sample_stdout (tool ''readelf'' [''-W'', ''-r''] library) = sample_relocations"
    "sample_stdout (tool ''nm'' [''-D'', ''--defined-only''] library) = unlines EXPORTS"
    "sample_stdout (tool ''readelf'' [''-W'', ''-h'', ''-l'', ''-d''] library) = sample_elf"
    by (simp_all add: sample_stdout_def tool_def)
  have p: "cmd_program (tool program args library) = ascii program" for program args by (simp add: tool_def)
  have cc: "ascii ''nm'' \<noteq> ascii ''cc''" "ascii ''readelf'' \<noteq> ascii ''cc''" by simp_all
  have "check_order [(chars ''linuwux_setup_debug'', 0x10), (chars ''linuwux_setup_environment'', 0x30),
     (chars ''linuwux_setup_faketime'', 0x40), (chars ''linuwux_setup_gamescope'', 0x20), (chars ''linuwux_setup_hooks'', 0x50), (chars ''linuwux_setup_kuser'', 0x60)]
     [(0x3000, 0x70), (0x3008, 0x10), (0x3010, 0x20), (0x3018, 0x30), (0x3020, 0x40), (0x3028, 0x50), (0x3030, 0x60)] = Inr ()"
    by (simp add: check_order_def constructor_names_def List.map_filter_def ANCHORS_def del: ascii_Cons)
  then show "verify_constructors sample_xtask library fs = Some (Inr (), fs)"
    by (simp add: verify_constructors_def xbind_def sample_text t p cc xlift_def sample_order_ok del: ascii_Cons)
  have "check_exports (unlines EXPORTS) = Inr ()"
  proof -
    have "list_all (\<lambda>n. n \<noteq> [] \<and> list_all (\<lambda>c. \<not> is_whitespace c) n) EXPORTS" by code_simp
    then show ?thesis by (simp add: check_exports_def exported_unlines)
  qed
  then show "verify_elf sample_xtask library fs = Some (Inr (), fs)"
    by (simp add: verify_elf_def xbind_def sample_text t p cc xlift_def sample_elf_ok del: ascii_Cons)
qed

lemma sample_build:
  "\<exists>fs'. build sample_xtask sample_ctx (ascii ''/o/L.so'') (\<lambda>_. None) = Some (Inr (), fs') \<and> fs' (ascii ''/o/L.so'') = Some [0x7f]"
proof -
  let ?script = "path_join (bc_scratch sample_ctx) (ascii ''exports.map'')" and ?lib = "library_path sample_ctx"
  have ok: "xe_ok sample_xtask = (\<lambda>_ _. True)" by (simp add: sample_xtask_def)
  have art: "Option.bind (xe_json sample_xtask line) artifact_file = Some (chars ''l.a'')" for line
    by (simp add: sample_xtask_def artifact_file_def json_get_def List.map_filter_def ends_with_a_def strip_suffix_def chars_def)
  have cc: "cmd_program (archive_command sample_ctx None) \<noteq> ascii ''cc''" "cmd_program (tool ''strip'' args p) \<noteq> ascii ''cc''"
      "cmd_program (link_command sample_ctx a b c) = ascii ''cc''" for args p a b c
    by (simp_all add: archive_command_def tool_def link_command_def sample_ctx_def)
  have 1: "archive sample_xtask sample_ctx None fs = Some (Inr (to_bytes (chars ''l.a'')), fs)" for fs
  proof -
    obtain x xs where "split_on (\<lambda>b. b = 10) (map ucast (sample_stdout (archive_command sample_ctx None)) :: bytes) = x # xs"
      by (cases "split_on (\<lambda>b. b = 10) (map ucast (sample_stdout (archive_command sample_ctx None)) :: bytes)") auto
    then show ?thesis by (simp add: archive_def xbind_def sample_run cc xlift_def art del: ascii_Cons)
  qed
  have 2: "export_map sample_xtask sample_ctx fs = Some (Inr ?script, fs(?script \<mapsto> export_map_text))" for fs
    by (simp add: export_map_def file_op_def ok xbind_def xok_def Let_def del: ascii_Cons)
  have d: "\<not> bc_debug sample_ctx" by (simp add: sample_ctx_def)
  let ?fs = "(\<lambda>_. None)(?script \<mapsto> export_map_text, ?lib \<mapsto> [0x7f])"
  have "link_and_verify sample_xtask sample_ctx (\<lambda>_. None) = Some (Inr (), ?fs)"
    by (simp add: link_and_verify_def Let_def xbind_def 1 2 sample_run cc sample_verified d xok_def del: ascii_Cons)
  moreover have "\<exists>fs'. publish sample_xtask ?lib (ascii ''/o/L.so'') ?fs = Some (Inr (), fs') \<and> fs' (ascii ''/o/L.so'') = Some [0x7f]"
  proof -
    have "?lib \<noteq> xe_temp_file sample_xtask (parent_dir (ascii ''/o/L.so''))"
      by (simp add: library_path_def sample_ctx_def path_join_def parent_dir_def sample_xtask_def)
    then show ?thesis by (simp add: publish_def persist_copy_def file_op_def ok xbind_def Let_def del: ascii_Cons)
  qed
  ultimately show ?thesis by (simp add: build_def xbind_def del: ascii_Cons)
qed


end
