(* ===== verification/Spec2Isabelle.thy ===== *)
theory Spec2Isabelle
  imports Dispatcher_Bridge Marker_Calls Trampoline_Races History_Races Router_Life Startup Quirks Traces Pe_Stub Signal_Slot Signal_Hooks Xtask
begin

text \<open>
  A verification of the LinUwUx runtime, a library preloaded into Wine processes that answers
  CPUID, routes trapped system calls to the Reflex client of a game, keeps Wine's
  \<^verbatim>\<open>KUSER_SHARED_DATA\<close> page patched, and repairs what Wine lays out differently from Windows.
  The sources are the safe crate \<^verbatim>\<open>src/protocol\<close> (decision logic) and the unsafe crate
  \<^verbatim>\<open>src/runtime/src\<close> (libc, signals, system calls), and the build tool \<^verbatim>\<open>src/xtask\<close> that links and checks the library.

  \<^bold>\<open>Conventions.\<close> Rust integers are words of their width (\<open>u8\<close> to \<open>u64\<close>), lengths are naturals
  with the \<^verbatim>\<open>usize\<close> bound written out where the code checks it; a byte slice is a list of bytes; a
  panic, an access outside an array or a block, or an early \<^verbatim>\<open>None\<close> is \<open>None\<close>. State is passed
  explicitly in a record per component; what the kernel, the C library and the processor
  answer is a record of outcomes (\<open>kenv\<close>, \<open>int2e_env\<close>, \<open>hooks_env\<close>, \<open>reg_env\<close> and so on) that is a
  parameter of the operation, so that the theorems hold for every answer. Code that several
  threads run at once is a step relation, or a schedule of steps, over its atomic accesses.

  \<^bold>\<open>Start-up.\<close> Constructors run in the order debug log, Gamescope, environment, configuration and
  faked clock, hooks, KUSER page.
  \<^item> \<open>Debug_Log\<close>: \<^verbatim>\<open>protocol/debug.rs\<close>, \<^verbatim>\<open>debug.rs\<close> and the guard of \<^verbatim>\<open>errno.rs\<close>; a log line is
    what was asked for, cut to its buffer, and \<^verbatim>\<open>errno\<close> survives.
  \<^item> \<open>Libc_Env\<close>, \<open>Gamescope\<close>: \<^verbatim>\<open>protocol/gamescope.rs\<close>, \<^verbatim>\<open>gamescope.rs\<close>; the interposed \<^verbatim>\<open>setenv\<close> keeps
    the library in \<^verbatim>\<open>LD_PRELOAD\<close> and is, for every other name, an environment in the sense of the
    locale \<open>env_store\<close>, on which the next two rely.
  \<^item> \<open>Registry\<close>: \<^verbatim>\<open>registry.rs\<close>; the windowed search is exact, the section is appended once.
  \<^item> \<open>Environment\<close>: \<^verbatim>\<open>protocol/environment.rs\<close>, \<^verbatim>\<open>environment.rs\<close>; which process is the game, and the
    DLL overrides it gets.
  \<^item> \<open>Startup\<close>: \<^verbatim>\<open>config.rs\<close>, \<^verbatim>\<open>clock.rs\<close> and the composition of all constructors; in every order the linker may produce
    they leave the switches as the user set them.

  \<^bold>\<open>Signals and allocation.\<close>
  \<^item> \<open>Pending_Frees\<close>, \<open>Alloc_Hooks\<close>: \<^verbatim>\<open>hooks/pending_frees.rs\<close> and the allocation part of \<^verbatim>\<open>hooks.rs\<close>;
    the hash-indexed history refines a plain ring, and the \<^verbatim>\<open>win32u\<close> guard swallows double frees;
    the naked entry of \<^verbatim>\<open>free\<close> is a program of \<open>Machine\<close>.
  \<^item> \<open>Signal_Slot\<close>, \<open>Signal_Hooks\<close>: the signal part of \<^verbatim>\<open>hooks.rs\<close>; snapshots are not read after they
    are freed, and the interposed \<^verbatim>\<open>sigaction\<close> implements the real one on the dispositions seen.

  \<^bold>\<open>CPUID.\<close>
  \<^item> \<open>Cpuid_Identity\<close>: \<^verbatim>\<open>protocol/cpuid.rs\<close>, the reply tables and the shared identity word.
  \<^item> \<open>Maps\<close>, \<open>Procmem\<close>: \<^verbatim>\<open>maps.rs\<close>, \<^verbatim>\<open>procmem.rs\<close>, \<^verbatim>\<open>syscall/mem.rs\<close>; the reader of \<^verbatim>\<open>/proc/self/maps\<close> and the
    guarded memory accesses the other components call.
  \<^item> \<open>Cpuid_Caller\<close>, \<open>Cpuid_Trap\<close>: \<^verbatim>\<open>cpuid.rs\<close>; who asks, with its sequence-locked cache, and the
    SIGSEGV handler that answers.

  \<^bold>\<open>Reflex and system calls.\<close>
  \<^item> \<open>Reflex_State\<close>, \<open>Runtime_Host\<close>: \<^verbatim>\<open>protocol/reflex/state.rs\<close>, \<^verbatim>\<open>reflex/control.rs\<close>, \<^verbatim>\<open>reflex.rs\<close>; the
    registration refines the documented protocol for every answer of the host and stays
    exclusive under interleaving.
  \<^item> \<open>Quirks\<close>: \<^verbatim>\<open>protocol/quirks.rs\<close>; no code reads the table of titles, so each row is checked against the protocol by
    running the control sequence documented for it.
  \<^item> \<open>Kuser_Patch\<close>, \<open>Kuser_Page\<close>, \<open>Faketime\<close>: \<^verbatim>\<open>protocol/kuser.rs\<close>, \<^verbatim>\<open>kuser.rs\<close>, \<^verbatim>\<open>page_guard.rs\<close>,
    \<^verbatim>\<open>shared_time.rs\<close>, \<^verbatim>\<open>faketime.rs\<close>; the recipes, the patch state machine, the page under its guard
    and the faked clock.
  \<^item> \<open>Stub_Set\<close>, \<open>Pe_Export\<close>, \<open>Markers\<close>, \<open>Kuser_Dispatch\<close>: \<^verbatim>\<open>syscall/kuser_dispatch.rs\<close>, \<^verbatim>\<open>pe_export.rs\<close>,
    \<^verbatim>\<open>reflex_markers.rs\<close>; the handler in Wine's dispatcher slot replays a call raw only on full
    evidence and arms a marker for it.
  \<^item> \<open>Marker_Races\<close>, \<open>Marker_Calls\<close>: the marker table again, access by access and for any number of threads; each thread sees
    its own sequential table, no call waits, and a call alone is the call of \<open>Markers\<close>.
  \<^item> \<open>Machine\<close>, \<open>Dispatcher_Bridge\<close>: the x86 instructions that the naked functions use, with registers,
    flags and memory, and the trampoline \<^verbatim>\<open>dispatcher_bridge\<close> as a program of it; it is transparent to
    the caller, and no two threads share a private stack at a time.
  \<^item> \<open>Diagnostics\<close>, \<open>Sigsys_Router\<close>, \<open>Unixlib_Repair\<close>: \<^verbatim>\<open>syscall/diagnostics.rs\<close>, \<^verbatim>\<open>sigsys_router.rs\<close>,
    \<^verbatim>\<open>win32u_zero_list.rs\<close>, \<^verbatim>\<open>unixlib_repair.rs\<close>; what happens to a trapped system call.
  \<^item> \<open>Router_Life\<close>: calls, traps, control calls and installation as steps; the invariants that the theorems about one call
    assume hold in every state that is reached.
  \<^item> \<open>Pe_Stub\<close>, \<open>Int2e\<close>: \<^verbatim>\<open>syscall/pe_stub_layout.rs\<close>, \<^verbatim>\<open>syscall/int2e.rs\<close>; thunks get the Windows
    tail, and the \<open>int 2e\<close> in it is run as a system call.
  \<^item> \<open>Trampoline_Races\<close>, \<open>History_Races\<close>: the table of trampolines and the ring of diagnostics access by access; threads that
    fault at one site agree on its trampoline, and a dump shows no half-written event.
  \<^item> \<open>Traces\<close>: the debug traces of these handlers with their counters; each has its own budget and
    changes no answer.

  \<^bold>\<open>Build.\<close>
  \<^item> \<open>Rust_Text\<close>, \<open>Child_Process\<close>, \<open>Xtask\<close>: the string functions of the standard library that the tool uses,
    \<^verbatim>\<open>xtask/src/process.rs\<close> and \<^verbatim>\<open>xtask/src/main.rs\<close>; a command returns within its limit, and only a library that passed
    every check replaces the destination. What cargo, the linker and the inspection programs do is a parameter.

  This theory composes them: a call from the trampoline in the dispatcher slot through both of its traps, a fault
  and a trap from the bridge handlers to Wine's handlers, and a rewritten thunk with its fault.

  \<^bold>\<open>Bounds.\<close> Loops recur on the data they consume, with a termination proof where that is not
  structural; a bounded loop recurs on its bound (64 ancestors, 20 digits, the capacity of a
  table). The chain walk of the free history is a partial function
  into \<open>option\<close>, proved to return in every reachable state. The trampoline runs with fuel, and
  \<open>95 + 4 n\<close> steps are enough when the lock is free after \<open>n\<close> attempts. The wait for a child process is a partial function
  that returns after at most 36000 polls. A call on the marker table ends after at most 4098 of its own accesses, and its counter
  cannot wrap because a thread id is a positive \<^verbatim>\<open>pid_t\<close>. Sequence numbers and offsets wrap at their width; where a theorem needs that they
  do not come round, it says so.

  \<^bold>\<open>Not modelled.\<close> Module declarations, feature gates and the functions of \<^verbatim>\<open>syscall.rs\<close> that only call one of
  another module: the model has every feature on. Memory ordering weaker than sequential consistency. The
  instructions of compiled Rust code: \<open>dispatcher_target\<close> is called by the trampoline as a function that keeps the
  callee-saved registers and may change anything else it owns.
\<close>

section \<open>From the dispatcher slot to the system call\<close>

lemma tag_removed:
  assumes "unat raw < 2 ^ 63"
  shows "(raw OR RAW_TARGET_TAG) AND NOT RAW_TARGET_TAG = raw"
proof -
  have "raw AND RAW_TARGET_TAG = 0" using not_writing [OF assms] by (simp only: RAW_TARGET_TAG_def WRITING_BIT_def)
  moreover have "(a OR t) AND NOT t = a" if "a AND t = 0" for a t :: u64
  proof (rule bit_word_eqI)
    fix n
    have "\<not> bit (a AND t) n" using that by simp
    then show "n < LENGTH(64) \<Longrightarrow> bit ((a OR t) AND NOT t) n = bit a n" by (auto simp: bit_and_iff bit_or_iff bit_not_iff)
  qed
  ultimately show ?thesis by blast
qed

text \<open>The trap of a replayed call, from the decision of the selector on.\<close>

lemma replayed_call_round_trip:
  assumes "stubs_inv (br_stubs (ds_bridge w0))" and "markers_inv (ds_markers w0)" and "de_tid e \<noteq> 0"
    and "unat entry_rsp + 9 < 2 ^ 64" and "unat return_address < 2 ^ 63"
    and "dispatcher_target e return_address service entry_rsp w0 = (w, target)" and "target \<noteq> br_original (ds_bridge w0)"
    and "ro_ds r0 = w" and "te_ds te = e" and "g_rsp g = entry_rsp + 8" and "g_rip g = (target AND NOT RAW_TARGET_TAG) + 2"
    and "length (x4 x) = 16" and "length (x5 x) = 16" and "\<not> is_bypass (x5 x)"
    and "redirect_trap te code r0 g x = (r1, g1, x1, Taken)" and "trap_key te2 g2 = trap_key te g"
  shows "\<exists>target is_resume r2. route_of r0 g = Some (target, is_resume) \<and> g_rip g1 = target \<and>
    redirect_trap te2 code2 r1 g2 x2 = (r2, g2\<lparr>g_r11 := g_r11 g, g_efl := g_efl g\<rparr>, x, NotTaken) \<and>
    markers_inv (ro_markers r2) \<and> lookup_marker (ro_markers r2) (trap_key te g) = None"
proof -
  from dispatcher_evidence [OF assms(1-4,6)] assms(7) obtain raw where
    raw: "target = raw OR RAW_TARGET_TAG" "unat raw + 2 \<le> unat return_address"
      "markers_inv (ds_markers w)" "lookup_marker (ds_markers w) (de_tid e, entry_rsp + 8, raw + 2) = Some Armed" by blast
  have key: "trap_key te g = (de_tid e, entry_rsp + 8, raw + 2)"
    using assms(5,9-11) raw(1,2) tag_removed [of raw] by (simp add: trap_key_def)
  have m: "markers_inv (ro_markers r0)" "lookup_marker (ro_markers r0) (trap_key te g) = Some Armed"
    using raw(3,4) assms(8) key by (simp_all add: ro_markers_def)
  have "unat (raw + 2) = unat raw + 2" using raw(2) assms(5) by (subst unat_add_no_overflow) simp_all
  moreover have "unat (entry_rsp + 8) = unat entry_rsp + 8" using assms(4) by (subst unat_add_no_overflow) simp_all
  ultimately have good: "good_key (trap_key te g)" using assms(3) unfolding key by (auto simp: good_key_def)
  have ctx: "good_context (trap_context g x)" using assms(12,13) by (simp add: good_context_def trap_context_def)
  from bridged_round_trip [OF m(1) good ctx m(2) assms(14-16), of code2 x2] show ?thesis by auto
qed

text \<open>
  C1: the bridge end to end, from the assembly of the trampoline to the SIGSYS router. When a call
  through Wine's dispatcher slot is replayed raw, the trampoline leaves with every register as at
  the call and the stack pointer of the direct path, and the trap of the instruction it jumped
  to is recognised by the SIGSYS router: the first trap enters the registered handler, and the trap of the same
  instruction on the way back goes to Wine with the vector registers, \<open>R11\<close> and flags of the
  first trap and leaves no marker.
\<close>

theorem bridge_end_to_end:
  assumes "bridge_callable me thread_id s" and "slot = bridge_stack_slot (me_symbol me) thread_id"
    and "selector_memory me n slot s = Some m" and "load64 (c_mem s) (c_regs s RSP) = Some return_address"
    and "dispatcher_target e return_address (c_regs s RAX) (c_regs s RSP) ((c_world s)\<lparr>ds_mem := m\<rparr>) = (w, target)"
    and "frame_kept (frame_base s) m (ds_mem w)" and "sn_depth z \<le> 0x7ff4" and "95 + 4 * n \<le> fuel"
    and "stubs_inv (br_stubs (ds_bridge (c_world s)))" and "markers_inv (ds_markers (c_world s))" and "de_tid e \<noteq> 0"
    and "unat (c_regs s RSP) + 9 < 2 ^ 64" and "unat return_address < 2 ^ 63" and "target \<noteq> br_original (ds_bridge (c_world s))"
  shows "\<exists>addr s'. run_bridge me e z fuel s = Exited addr s' \<and>
    c_regs s' = (c_regs s)(RSP := c_regs s RSP + 8) \<and> (\<forall>i<16. c_xmm s' i = c_xmm s i) \<and> c_flags s' = direct_path_eflags (c_flags s) \<and>
    (\<forall>te code r0 g x r1 g1 x1 te2 code2 g2 x2.
      ro_ds r0 = c_world s' \<and> te_ds te = e \<and> g_rsp g = c_regs s' RSP \<and> g_rip g = addr + 2 \<and>
      length (x4 x) = 16 \<and> length (x5 x) = 16 \<and> \<not> is_bypass (x5 x) \<and>
      redirect_trap te code r0 g x = (r1, g1, x1, Taken) \<and> trap_key te2 g2 = trap_key te g \<longrightarrow>
      (\<exists>handler is_resume r2. route_of r0 g = Some (handler, is_resume) \<and> g_rip g1 = handler \<and>
        redirect_trap te2 code2 r1 g2 x2 = (r2, g2\<lparr>g_r11 := g_r11 g, g_efl := g_efl g\<rparr>, x, NotTaken) \<and>
        markers_inv (ro_markers r2) \<and> lookup_marker (ro_markers r2) (trap_key te g) = None))"
    (is "\<exists>addr s'. _ \<and> _ \<and> _ \<and> _ \<and> ?routed addr s'")
proof -
  from dispatcher_bridge_run [OF assms(1-8)] obtain s' where
    s': "run_bridge me e z fuel s = Exited (target AND NOT RAW_TARGET_TAG) s'" "restored s target s'" "c_world s' = w" by blast
  let ?w0 = "(c_world s)\<lparr>ds_mem := m\<rparr>"
  have i: "stubs_inv (br_stubs (ds_bridge ?w0))" "markers_inv (ds_markers ?w0)" "target \<noteq> br_original (ds_bridge ?w0)"
    using assms(9,10,14) by simp_all
  from dispatcher_evidence [OF i(1,2) assms(11,12,5)] i(3) obtain raw where "target = raw OR RAW_TARGET_TAG" by blast
  then have "bit target 63" by (simp add: RAW_TARGET_TAG_def bit_or_iff)
  then have r: "c_regs s' = (c_regs s)(RSP := c_regs s RSP + 8)" "\<forall>i<16. c_xmm s' i = c_xmm s i" "c_flags s' = direct_path_eflags (c_flags s)"
    using s'(2) by (simp_all add: restored_def bridge_rsp_def bridge_flags_def)
  then have rsp: "c_regs s' RSP = c_regs s RSP + 8" by simp
  have "?routed (target AND NOT RAW_TARGET_TAG) s'"
    unfolding s'(3) rsp by (intro allI impI, elim conjE) (rule replayed_call_round_trip [OF i(1,2) assms(11-13,5) i(3)])
  with s'(1) r show ?thesis by blast
qed

theorem bridge_end_to_end_witness:
  "\<exists>s' r1 g1 x1 r2. run_bridge bridge_sample_env stub_env bridge_sample_noise 100 bridge_sample_cpu = Exited 0x20010 s' \<and>
     redirect_trap sample_trap_env 2 (sample_router (c_world s')) sample_gregs sample_xmm = (r1, g1, x1, Taken) \<and>
     redirect_trap sample_trap_env 2 r1 (sample_gregs\<lparr>g_efl := 0\<rparr>) \<lparr>x4 = [], x5 = []\<rparr> = (r2, sample_gregs, sample_xmm, NotTaken)"
proof -
  from sample_selected obtain m k where
    m: "selector_memory bridge_sample_env 0 0x108000 bridge_sample_cpu = Some m"
    "dispatcher_target stub_env 0x2001f 0x246 0x30000 (stub_state\<lparr>ds_mem := m\<rparr>) =
       (stub_state\<lparr>ds_mem := m, ds_markers := k\<rparr>, 0x20010 OR RAW_TARGET_TAG)"
    "markers_inv k" "lookup_marker k (7, 0x30008, 0x20012) = Some Armed" by blast
  let ?w = "stub_state\<lparr>ds_mem := m, ds_markers := k\<rparr>"
  have t: "(0x20010 OR RAW_TARGET_TAG) AND NOT RAW_TARGET_TAG = 0x20010" "0x20010 OR RAW_TARGET_TAG \<noteq> br_original (ds_bridge stub_state)"
    by (simp_all add: RAW_TARGET_TAG_def stub_state_def)
  have h: "frame_kept (frame_base bridge_sample_cpu) m (ds_mem ?w)" "sn_depth bridge_sample_noise \<le> 0x7ff4" "de_tid stub_env \<noteq> 0"
    "markers_inv (ds_markers stub_state)" "unat (c_regs bridge_sample_cpu RSP) + 9 < 2 ^ 64" "c_world bridge_sample_cpu = stub_state"
    "c_regs bridge_sample_cpu RSP = 0x30000" "c_regs bridge_sample_cpu RAX = 0x246" "c_mem bridge_sample_cpu = bridge_sample_mem"
    "me_symbol bridge_sample_env = 0x100000"
    using markers_inv_new(1) by (simp_all add: frame_kept_def bridge_sample_noise_def stub_env_def stub_state_def bridge_sample_cpu_def bridge_sample_env_def)
  have p: "0x108000 = bridge_stack_slot (me_symbol bridge_sample_env) 4" "load64 (c_mem bridge_sample_cpu) (c_regs bridge_sample_cpu RSP) = Some 0x2001f"
    "dispatcher_target stub_env 0x2001f (c_regs bridge_sample_cpu RAX) (c_regs bridge_sample_cpu RSP) ((c_world bridge_sample_cpu)\<lparr>ds_mem := m\<rparr>) =
       (?w, 0x20010 OR RAW_TARGET_TAG)" "(95 + 4 * 0 :: nat) \<le> 100" "stubs_inv (br_stubs (ds_bridge (c_world bridge_sample_cpu)))"
    "markers_inv (ds_markers (c_world bridge_sample_cpu))" "unat (0x2001f :: u64) < 2 ^ 63" "0x20010 OR RAW_TARGET_TAG \<noteq> br_original (ds_bridge (c_world bridge_sample_cpu))"
    using m(2) sample_loads(1) sample_slot(1) h stub_state_stubs(1) t(2) by simp_all
  from dispatcher_bridge_run [OF sample_callable p(1) m(1) p(2,3) h(1,2) p(4)] obtain s' where
    s': "run_bridge bridge_sample_env stub_env bridge_sample_noise 100 bridge_sample_cpu = Exited 0x20010 s'" "c_world s' = ?w"
    unfolding t(1) by blast
  obtain r1 g1 x1 where tr: "redirect_trap sample_trap_env 2 (sample_router ?w) sample_gregs sample_xmm = (r1, g1, x1, Taken)"
    using sample_taken [of ?w] m(3,4) by auto
  have o: "ro_ds (sample_router ?w) = ?w" "te_ds sample_trap_env = stub_env" "length (x4 sample_xmm) = 16" "length (x5 sample_xmm) = 16"
    "trap_key sample_trap_env (sample_gregs\<lparr>g_efl := 0\<rparr>) = trap_key sample_trap_env sample_gregs"
    "g_rsp sample_gregs = 0x30008" "g_rip sample_gregs = 0x20010 + 2"
    by (simp_all add: sample_router_def sample_trap_env_def sample_xmm_def trap_key_def sample_gregs_def)
  from bridge_end_to_end [OF sample_callable p(1) m(1) p(2,3) h(1,2) p(4-6) h(3,5) p(7,8)] obtain addr s'' where
    "run_bridge bridge_sample_env stub_env bridge_sample_noise 100 bridge_sample_cpu = Exited addr s''"
    "c_regs s'' = (c_regs bridge_sample_cpu)(RSP := c_regs bridge_sample_cpu RSP + 8)"
    and routed: "\<And>te code r0 g x r1 g1 x1 te2 code2 g2 x2.
      ro_ds r0 = c_world s'' \<and> te_ds te = stub_env \<and> g_rsp g = c_regs s'' RSP \<and> g_rip g = addr + 2 \<and>
      length (x4 x) = 16 \<and> length (x5 x) = 16 \<and> \<not> is_bypass (x5 x) \<and>
      redirect_trap te code r0 g x = (r1, g1, x1, Taken) \<and> trap_key te2 g2 = trap_key te g \<Longrightarrow>
      \<exists>r2. redirect_trap te2 code2 r1 g2 x2 = (r2, g2\<lparr>g_r11 := g_r11 g, g_efl := g_efl g\<rparr>, x, NotTaken)"
    by metis
  with s' h(7) have "ro_ds (sample_router ?w) = c_world s''" "g_rsp sample_gregs = c_regs s'' RSP" "g_rip sample_gregs = addr + 2"
    using o by auto
  with routed [of "sample_router ?w" sample_trap_env sample_gregs sample_xmm 2 r1 g1 x1 sample_trap_env "sample_gregs\<lparr>g_efl := 0\<rparr>" 2 "\<lparr>x4 = [], x5 = []\<rparr>"]
  obtain r2 where "redirect_trap sample_trap_env 2 r1 (sample_gregs\<lparr>g_efl := 0\<rparr>) \<lparr>x4 = [], x5 = []\<rparr> =
      (r2, sample_gregs\<lparr>g_efl := 0, g_r11 := g_r11 sample_gregs, g_efl := g_efl sample_gregs\<rparr>, sample_xmm, NotTaken)"
    using o sample_trap(3) tr by blast
  with s' tr show ?thesis by (intro exI [of _ s'] exI [of _ r1] exI [of _ g1] exI [of _ x1] exI [of _ r2]) simp
qed

section \<open>From a fault to its handler\<close>

text \<open>
  A SIGSEGV of the process: the bridge handler of the hooks, which is \<^verbatim>\<open>cpuid_sigsegv_handler\<close>,
  passes on what it does not answer with \<^verbatim>\<open>forward_signal\<close>.
\<close>

definition deliver_sigsegv :: "cpuid_env \<Rightarrow> hooks_env \<Rightarrow> int option \<Rightarrow> fault_regs option \<Rightarrow> hooks \<Rightarrow>
    hooks \<times> fault_regs option \<times> delivery option" where
  "deliver_sigsegv ce he info context w = (case cpuid_sigsegv_handler ce info context (hk_cpuid w) of (c, regs, outcome) \<Rightarrow>
     let w1 = w\<lparr>hk_cpuid := c\<rparr> in
     if outcome = Cpuid_Trap.Forwarded
     then (let (w2, d) = forward_signal he SIGSEGV_NUMBER w1 in (w2, regs, Some d))
     else (w1, regs, None))"

text \<open>
  C3: Wine gets every fault that is not the library's. Once Wine has installed its SIGSEGV
  handler through the interposed \<^verbatim>\<open>sigaction\<close>, a fault that is neither an \<open>int 2e\<close> nor a CPUID
  trap calls that handler with the registers of the fault, and leaves the library's state and
  the kernel's disposition as they were.
\<close>

theorem wine_handler_gets_foreign_faults:
  assumes "hooks_inv w0" and "sigaction_hook e0 (trap_number SIGSEGV) (Some a) w0 = (w, old, 0)"
    and "\<not> action_is_bridge w0 (trap_number SIGSEGV) a" and "handler_is_from_wine_ntdll e0 a"
    and "sa_handler a \<noteq> SIG_DFL" and "sa_handler a \<noteq> SIG_IGN" and "sa_flags a AND SA_SIGINFO \<noteq> 0" and "sa_flags a AND SA_RESETHAND = 0"
    and "\<And>r. context = Some r \<Longrightarrow> f_trapno r = 13 \<Longrightarrow> read_memory (cp_mem (hk_cpuid w)) (f_rip r) 2 \<noteq> Some INT2E_INSTRUCTION \<and>
      \<not> (info = Some SI_KERNEL \<and> is_cpuid_instruction_at (cp_mem (hk_cpuid w)) (f_rip r))"
  shows "deliver_sigsegv ce he info context w = (w, context, Some (CalledInfo (sa_handler a))) \<and> kernel_bridged w SIGSEGV"
proof -
  note h = sigaction_virtualised_steps [OF assms(1-4)]
  have a: "copy_saved_action (hk_slots w SIGSEGV) = a" using h(2,3) by (simp add: logical_action_def)
  have "cpuid_sigsegv_handler ce info context (hk_cpuid w) = (hk_cpuid w, context, Cpuid_Trap.Forwarded)"
    by (rule other_faults_forwarded) (use assms(9) in blast)
  moreover have "forward_signal he (trap_number SIGSEGV) w = (w, CalledInfo (sa_handler a))"
    unfolding forward_signal_def slot_for_number option.case Let_def a using assms(5-8) by simp
  ultimately show ?thesis using hooks_invD(2) [OF h(1,2)] by (simp add: deliver_sigsegv_def)
qed

theorem wine_handler_gets_foreign_faults_witness:
  "\<exists>w old. sigaction_hook sample_hooks_env (trap_number SIGSEGV) (Some wine_action) sample_hooks = (w, old, 0) \<and>
     deliver_sigsegv (sample_cpuid_env (\<lambda>_ _. registers_default)) sample_hooks_env (Some SI_KERNEL) (Some (sample_fault\<lparr>f_trapno := 14\<rparr>)) w =
       (w, Some (sample_fault\<lparr>f_trapno := 14\<rparr>), Some (CalledInfo 0x7f0000001000))"
proof -
  obtain w old where s: "sigaction_hook sample_hooks_env (trap_number SIGSEGV) (Some wine_action) sample_hooks = (w, old, 0)"
    using sample_sigaction by blast
  have a: "sa_handler wine_action = 0x7f0000001000" "sa_flags wine_action AND SA_SIGINFO \<noteq> 0" "sa_flags wine_action AND SA_RESETHAND = 0"
    "sa_handler wine_action \<noteq> SIG_DFL" "sa_handler wine_action \<noteq> SIG_IGN"
    by (simp_all add: wine_action_def SA_SIGINFO_def SA_RESETHAND_def SIG_DFL_def SIG_IGN_def)
  from wine_handler_gets_foreign_faults [OF sample_hooks_ok(1) s sample_hooks_ok(2,3) a(4,5,2,3), of "Some (sample_fault\<lparr>f_trapno := 14\<rparr>)"] s a(1)
  show ?thesis by auto
qed

text \<open>
  A SIGSYS of the process: \<^verbatim>\<open>syscallhook\<close> passes on what the router does not take. A fault of
  the router itself ends in no delivery.
\<close>

definition syscallhook :: "trap_env \<Rightarrow> hooks_env \<Rightarrow> int \<Rightarrow> int option \<Rightarrow> gregs option \<Rightarrow> xmm_regs option \<Rightarrow> router \<times> hooks \<Rightarrow>
    (router \<times> hooks) \<times> gregs option \<times> xmm_regs option \<times> delivery option" where
  "syscallhook te he sig info context fpregs = (\<lambda>(r, w). case redirect te info context fpregs r of (r', g, x, outcome) \<Rightarrow>
     if outcome = NotTaken then (let (w', d) = forward_signal he sig w in ((r', w'), g, x, Some d))
     else ((r', w), g, x, None))"

text \<open>
  C4: Wine gets every system call that is not Reflex's. Once Wine has installed its SIGSYS handler
  through the interposed \<^verbatim>\<open>sigaction\<close>, then at any time in the life of the process a trap
  with no marker, without the bypass mark, in a process that has not registered as a
  target calls that handler with the registers of the trap, and leaves memory, the markers, the
  registration, the dispositions and the kernel's handler as they were.
\<close>

theorem wine_handler_gets_foreign_traps:
  assumes "hooks_inv w0" and "sigaction_hook e0 (trap_number SIGSYS) (Some a) w0 = (w, old, 0)"
    and "\<not> action_is_bridge w0 (trap_number SIGSYS) a" and "handler_is_from_wine_ntdll e0 a"
    and "sa_handler a \<noteq> SIG_DFL" and "sa_handler a \<noteq> SIG_IGN" and "sa_flags a AND SA_SIGINFO \<noteq> 0" and "sa_flags a AND SA_RESETHAND = 0"
    and "router_step\<^sup>*\<^sup>* r0 r" and "router_fresh r0" and "trap_sane te g x" and "lookup_marker (ro_markers r) (trap_key te g) = None"
    and "\<not> is_bypass (x5 x)" and "reflex_target_process_registered (ro_reflex r) = 0"
  shows "\<exists>r'. syscallhook te he (trap_number SIGSYS) (Some code) (Some g) (Some x) (r, w) =
      ((r', w), Some g, Some x, Some (CalledInfo (sa_handler a))) \<and> ro_ds r' = ro_ds r \<and> ro_reflex r' = ro_reflex r \<and> kernel_bridged w SIGSYS"
proof -
  note h = sigaction_virtualised_steps [OF assms(1-4)]
  have a: "copy_saved_action (hk_slots w SIGSYS) = a" using h(2,3) by (simp add: logical_action_def)
  have f: "forward_signal he (trap_number SIGSYS) w = (w, CalledInfo (sa_handler a))"
    unfolding forward_signal_def slot_for_number option.case Let_def a using assms(5-8) by simp
  have "markers_inv (ro_markers r)" "good_key (trap_key te g)"
    using reached_ok [OF assms(9,10)] assms(11) by (simp_all add: router_ok_def trap_sane_def)
  from unrelated_trap_forwarded_unchanged [OF this assms(12-14), of code] obtain r' where
    "redirect te (Some code) (Some g) (Some x) r = (r', Some g, Some x, NotTaken)" "ro_ds r' = ro_ds r" "ro_reflex r' = ro_reflex r" by blast
  with f hooks_invD(2) [OF h(1,2)] show ?thesis by (simp add: syscallhook_def)
qed

theorem wine_handler_gets_foreign_traps_witness:
  "\<exists>w old r'. sigaction_hook sample_hooks_env (trap_number SIGSYS) (Some wine_action) sample_hooks = (w, old, 0) \<and>
     syscallhook sample_trap_env sample_hooks_env (trap_number SIGSYS) (Some 2) (Some sample_gregs) (Some sample_xmm) (fresh_router, w) =
       ((r', w), Some sample_gregs, Some sample_xmm, Some (CalledInfo 0x7f0000001000))"
proof -
  have "he_symbol_ok sample_hooks_env" "he_guard_ok sample_hooks_env" "he_query_ok sample_hooks_env" "he_snapshot_ok sample_hooks_env"
    "he_install_ok sample_hooks_env" by (simp_all add: sample_hooks_env_def)
  from sigaction_hook_succeeds [OF this] obtain w old where
    s: "sigaction_hook sample_hooks_env (trap_number SIGSYS) (Some wine_action) sample_hooks = (w, old, 0)" by blast
  have a: "sa_handler wine_action = 0x7f0000001000" "sa_flags wine_action AND SA_SIGINFO \<noteq> 0" "sa_flags wine_action AND SA_RESETHAND = 0"
    "sa_handler wine_action \<noteq> SIG_DFL" "sa_handler wine_action \<noteq> SIG_IGN"
    by (simp_all add: wine_action_def SA_SIGINFO_def SA_RESETHAND_def SIG_DFL_def SIG_IGN_def)
  have t: "trap_sane sample_trap_env sample_gregs sample_xmm" using sample_trap(1) by (simp add: trap_sane_def sample_xmm_def)
  have r: "lookup_marker (ro_markers fresh_router) k = None" "reflex_target_process_registered (ro_reflex fresh_router) = 0" for k
    using fresh_router_fresh markers_inv_new(2)
    by (simp_all add: router_fresh_def reflex_target_process_registered_def has_registered_target_process_def reflex_new_def)
  from wine_handler_gets_foreign_traps [OF sample_hooks_ok(1) s sample_hooks_ok(2,3) a(4,5,2,3) rtranclp.rtrancl_refl fresh_router_fresh t r(1)
      sample_trap(3) r(2), of sample_hooks_env 2] s a(1) show ?thesis by auto
qed

section \<open>Rewritten thunks and their faults\<close>

lemma thunk_branch_end: "take 3 (drop 0x12 bs) = DIRECT_SYSCALL_THUNK" if "is_syscall_thunk_head bs"
proof -
  from that have b: "take 13 (drop 8 bs) = THUNK_BRANCH" by (simp add: is_syscall_thunk_head_def thunk_consts)
  have "take 3 (drop 10 (take 13 (drop 8 bs))) = take 3 (drop 0x12 bs)" by (simp add: drop_take)
  with b show ?thesis by (simp add: THUNK_BRANCH_def DIRECT_SYSCALL_THUNK_def)
qed

text \<open>
  C5: the rewritten tail and the fault handler fit together. When a thunk that was given the
  Windows tail is executed with the flag that selects \<open>int 2e\<close>, the fault of that instruction
  resumes at the \<open>syscall\<close> of the same thunk with the flags of the direct path, and neither
  memory nor any table of the library changes.
\<close>

theorem rewritten_thunk_faults_rewind:
  assumes "is_syscall_thunk_head bs" and "fst (rewrite_syscall_thunk_tails bs) = img"
    and "read_memory (tr_mem w) base (length img) = Some img"
    and "f_trapno r = 13" and "f_rip r = base + of_nat TAIL_OFFSET"
  shows "skip_int2e_fault e r w = (w, r\<lparr>f_efl := direct_path_eflags (f_efl r), f_rip := base + 0x12\<rparr>, True)"
proof -
  have l: "length bs \<ge> 0x20" using assms(1) by (simp add: is_syscall_thunk_head_def thunk_consts)
  have rw: "img = take 0x15 bs @ WINDOWS_TAIL @ fst (rewrite_syscall_thunk_tails (drop THUNK_LEN bs))"
    using rewrite_thunk [OF assms(1)] assms(2) by (simp add: thunk_consts)
  then have len: "0x20 \<le> length img" using l by (simp add: WINDOWS_TAIL_def)
  have "read_memory (tr_mem w) (base + of_nat 0x15) 2 = Some (take 2 (drop 0x15 img))"
    by (rule read_sub [OF assms(3)]) (use len in simp_all)
  moreover have "take 2 (drop 0x15 img) = INT2E_INSTRUCTION" unfolding rw using l by (simp add: WINDOWS_TAIL_def INT2E_INSTRUCTION_def)
  ultimately have i: "read_memory (tr_mem w) (f_rip r) 2 = Some INT2E_INSTRUCTION" using assms(5) by (simp add: thunk_consts)
  have "take 0x15 img = take 0x15 bs" unfolding rw using l by simp
  then have "drop 0x12 (take 0x15 img) = drop 0x12 (take 0x15 bs)" by (simp only:)
  then have "take 3 (drop 0x12 img) = take 3 (drop 0x12 bs)" by (simp add: drop_take)
  moreover have "read_memory (tr_mem w) (base + of_nat 0x12) 3 = Some (take 3 (drop 0x12 img))"
    by (rule read_sub [OF assms(3)]) (use len in simp_all)
  ultimately have "read_memory (tr_mem w) (base + of_nat 0x12) 3 = Some DIRECT_SYSCALL_THUNK" using thunk_branch_end [OF assms(1)] by simp
  moreover have "in_space base (length img)" using read_memory_length [OF assms(3)] by simp
  then have "unat base + 0x20 \<le> 2 ^ 64" using len by (simp add: in_space_def)
  then have "unat (base + 0x15) = unat base + 0x15" by (subst unat_add_no_overflow) simp_all
  then have "(3 :: u64) \<le> base + 0x15" by (simp add: word_le_nat_alt)
  ultimately have "preceding_direct_syscall (tr_mem w) (f_rip r) = Some (base + 0x12)"
    using assms(5) by (simp add: preceding_direct_syscall_def checked_sub_def DIRECT_SYSCALL_THUNK_def thunk_consts add.commute [of base])
  with i assms(4) show ?thesis by (simp add: skip_int2e_fault_def)
qed

lemma read_poked:
  assumes "in_space a (length bs)" and "a \<noteq> 0" and "bs \<noteq> []" and "vm_bytes m = poke f a bs"
  shows "read_memory m a (length bs) = Some bs"
proof -
  have "vm_bytes m (a + of_nat i) = Some (bs ! i)" if "i < length bs" for i
    using poke_nth [of a bs i] that assms(1,4) by simp
  then have "readable m a (length bs)" "span m a (length bs) = bs"
    using assms(1) by (auto simp: readable_def list_all_iff set_addrs span_def intro!: nth_equalityI)
  with assms(2,3) show ?thesis by (simp add: read_memory_def process_vm_readv_def)
qed

theorem rewritten_thunk_faults_rewind_witness:
  "\<exists>w r r'. f_rip r = 0x10015 \<and> read_memory (tr_mem w) 0x10000 32 = Some (fst (rewrite_syscall_thunk_tails sample_thunk)) \<and>
     skip_int2e_fault sample_int2e_env r w = (w, r', True) \<and> f_rip r' = 0x10012"
proof -
  let ?img = "fst (rewrite_syscall_thunk_tails sample_thunk)"
  let ?w = "sample_trampolines\<lparr>tr_mem := \<lparr>vm_bytes = poke (\<lambda>_. None) 0x10000 ?img, vm_writable = \<lambda>_. False\<rparr>\<rparr>"
  let ?r = "sample_fault\<lparr>f_rip := 0x10015\<rparr>"
  have len: "length ?img = 32" using length_rewrite [of sample_thunk] by (simp add: sample_thunk_def THUNK_HEAD_def THUNK_BRANCH_def)
  have m: "read_memory (tr_mem ?w) 0x10000 (length ?img) = Some ?img"
    by (rule read_poked [where f = "\<lambda>_. None"]) (use len in \<open>auto simp: in_space_def\<close>)
  have "f_trapno ?r = 13" "f_rip ?r = 0x10000 + of_nat TAIL_OFFSET" by (simp_all add: sample_fault_def thunk_consts)
  from rewritten_thunk_faults_rewind [OF sample_thunk_head(1) refl m this, of sample_int2e_env] m show ?thesis
    unfolding len by (intro exI [of _ ?w] exI [of _ ?r] exI [of _ "?r\<lparr>f_efl := direct_path_eflags (f_efl ?r), f_rip := 0x10012\<rparr>"]) simp
qed

end
